(* ===== verification/Prelude.thy ===== *)
theory Prelude
  imports Main "HOL-Library.Word" "HOL-Library.Monad_Syntax"
begin

text \<open>
  Shared vocabulary of the development: machine integers, byte strings, the C memory
  primitives the sources call (memcpy, memmove, malloc, realloc), and the list lemmas the
  components use.

  Conventions.
  \<^item> A partial operation has type \<open>'a option\<close>; \<open>None\<close> stands for undefined behaviour of
    the C program (an access outside an allocation, an overlapping memcpy, a failed assertion)
    or, where the definition says so, for a loop that ran out of fuel. Showing that a
    result is \<open>Some\<close> is therefore a memory-safety and termination statement.
  \<^item> \<open>size_t\<close> is 64 bits wide. It is a \<open>nat\<close>, and every addition or multiplication
    that could wrap is written with \<open>size_wrap\<close>.
  \<^item> Memory is a list of cells. The environment decides which allocations succeed
    (\<open>heap_grant\<close>) and what fresh memory holds (\<open>heap_junk\<close>); no request beyond
    PTRDIFF_MAX succeeds, as the C library documents.
\<close>

unbundle bit_operations_syntax

section \<open>Machine types\<close>

type_synonym u8 = "8 word"
type_synonym u16 = "16 word"
type_synonym u32 = "32 word"
type_synonym bytes = "8 word list"

abbreviation SIZE_MODULUS :: nat where "SIZE_MODULUS \<equiv> 18446744073709551616"
abbreviation SIZE_MAX :: nat where "SIZE_MAX \<equiv> 18446744073709551615"
abbreviation PTRDIFF_MAX :: nat where "PTRDIFF_MAX \<equiv> 9223372036854775807"
abbreviation INT32_MAX :: int where "INT32_MAX \<equiv> 2147483647"
abbreviation INT32_MIN :: int where "INT32_MIN \<equiv> -2147483648"

definition size_wrap :: "nat \<Rightarrow> nat" where
  "size_wrap n = n mod SIZE_MODULUS"

lemma size_wrap_id [simp]: "n < SIZE_MODULUS \<Longrightarrow> size_wrap n = n"
  by (simp add: size_wrap_def)

lemma size_wrap_less [simp]: "size_wrap n < SIZE_MODULUS"
  by (simp add: size_wrap_def)

text \<open>Unsigned subtraction, wrapping below zero.\<close>

definition size_sub :: "nat \<Rightarrow> nat \<Rightarrow> nat" where
  "size_sub a b = size_wrap (a + SIZE_MODULUS - b)"

lemma size_sub_id [simp]: "b \<le> a \<Longrightarrow> a < SIZE_MODULUS \<Longrightarrow> size_sub a b = a - b"
  by (simp add: size_sub_def size_wrap_def le_mod_geq)

text \<open>Unsigned arithmetic of 32 bits.\<close>

definition u32_wrap :: "nat \<Rightarrow> nat" where
  "u32_wrap n = n mod 2 ^ 32"

lemma u32_wrap_id [simp]: "n < 4294967296 \<Longrightarrow> u32_wrap n = n"
  by (simp add: u32_wrap_def)

section \<open>The C heap\<close>

record heap =
  heap_grant :: "nat \<Rightarrow> bool"
  heap_junk :: u8

definition malloc_ok :: "heap \<Rightarrow> nat \<Rightarrow> bool" where
  "malloc_ok h n \<longleftrightarrow> n \<le> PTRDIFF_MAX \<and> heap_grant h n"

lemma malloc_ok_bound: "malloc_ok h n \<Longrightarrow> n \<le> PTRDIFF_MAX"
  by (simp add: malloc_ok_def)

text \<open>Two environments used by the witnesses: one grants every request, one grants none.\<close>

definition heap_all :: heap where
  "heap_all = \<lparr>heap_grant = (\<lambda>_. True), heap_junk = 0\<rparr>"

definition heap_none :: heap where
  "heap_none = \<lparr>heap_grant = (\<lambda>_. False), heap_junk = 0\<rparr>"

section \<open>Memory as a list of cells\<close>

text \<open>\<open>mem_read\<close> and \<open>mem_write\<close> are a copy out of and into an object; both are undefined
  when they leave the object.\<close>

definition mem_read :: "nat \<Rightarrow> nat \<Rightarrow> 'a list \<Rightarrow> 'a list option" where
  "mem_read pos n mem = (if pos + n \<le> length mem then Some (take n (drop pos mem)) else None)"

definition mem_write :: "nat \<Rightarrow> 'a list \<Rightarrow> 'a list \<Rightarrow> 'a list option" where
  "mem_write pos xs mem =
     (if pos + length xs \<le> length mem
      then Some (take pos mem @ xs @ drop (pos + length xs) mem) else None)"

text \<open>memmove and memcpy inside one object; memcpy is undefined on overlapping ranges.\<close>

definition mem_move :: "nat \<Rightarrow> nat \<Rightarrow> nat \<Rightarrow> 'a list \<Rightarrow> 'a list option" where
  "mem_move dst src n mem = do { xs \<leftarrow> mem_read src n mem; mem_write dst xs mem }"

definition mem_copy :: "nat \<Rightarrow> nat \<Rightarrow> nat \<Rightarrow> 'a list \<Rightarrow> 'a list option" where
  "mem_copy dst src n mem =
     (if n = 0 \<or> dst + n \<le> src \<or> src + n \<le> dst then mem_move dst src n mem else None)"

named_theorems mem_simps \<open>memory primitives inside their bounds\<close>

lemma mem_read_ok [mem_simps]:
  "pos + n \<le> length mem \<Longrightarrow> mem_read pos n mem = Some (take n (drop pos mem))"
  by (simp add: mem_read_def)

lemma mem_write_ok [mem_simps]:
  "pos + length xs \<le> length mem \<Longrightarrow>
   mem_write pos xs mem = Some (take pos mem @ xs @ drop (pos + length xs) mem)"
  by (simp add: mem_write_def)

lemma mem_move_ok [mem_simps]:
  assumes "src + n \<le> length mem" and "dst + n \<le> length mem"
  shows "mem_move dst src n mem =
    Some (take dst mem @ take n (drop src mem) @ drop (dst + n) mem)"
  using assms by (simp add: mem_move_def mem_read_def mem_write_def)

lemma mem_copy_ok [mem_simps]:
  assumes "src + n \<le> length mem" and "dst + n \<le> length mem"
    and "n = 0 \<or> dst + n \<le> src \<or> src + n \<le> dst"
  shows "mem_copy dst src n mem =
    Some (take dst mem @ take n (drop src mem) @ drop (dst + n) mem)"
  using assms mem_move_ok [of src n mem dst] by (simp add: mem_copy_def)

lemma length_mem_write: "mem_write pos xs mem = Some mem' \<Longrightarrow> length mem' = length mem"
  by (auto simp: mem_write_def split: if_splits)

section \<open>List lemmas\<close>

lemma take_drop_splice [simp]:
  assumes "pos \<le> length mem"
  shows "take n (drop pos (take pos mem @ xs @ ys)) = take n (xs @ ys)"
  using assms by simp

lemma drop_list_update_last:
  "i < length xs \<Longrightarrow> take (Suc i) (xs[i := x]) = take i xs @ [x]"
  by (simp add: take_Suc_conv_app_nth)

lemma list_all_take: "list_all P xs \<Longrightarrow> list_all P (take n xs)"
  by (metis append_take_drop_id list_all_append)

lemma list_all_drop: "list_all P xs \<Longrightarrow> list_all P (drop n xs)"
  by (metis append_take_drop_id list_all_append)

section \<open>Word lemmas\<close>

text \<open>Every byte is one of 256 values: a property of all bytes can be checked by evaluation.\<close>

lemma all_u8_list:
  assumes "list_all (\<lambda>n. P (of_nat n :: u8)) [0..<256]"
  shows "P b"
proof -
  have "unat b < 256" using unsigned_less [of b] by simp
  with assms have "P (of_nat (unat b))" by (simp add: list_all_iff del: of_nat_unat)
  then show "P b" by simp
qed

lemma small_word_list:
  fixes c :: "'a::len word"
  assumes "list_all (\<lambda>n. P (of_nat n :: 'a word)) [0..<k]" and "unat c < k"
  shows "P c"
proof -
  from assms have "P (of_nat (unat c))" by (simp add: list_all_iff del: of_nat_unat)
  then show "P c" by simp
qed

text \<open>Splitting a word at bit \<open>k\<close> and putting it together again.\<close>

lemma split_low_or: "push_bit k (drop_bit k c) OR (c AND mask k) = (c :: 'a::len word)"
  by (rule bit_word_eqI) (auto simp: bit_simps)

lemma take_bit_less: "(c :: 'a::len word) < 2 ^ n \<Longrightarrow> n < LENGTH('a) \<Longrightarrow> take_bit n c = c"
  by (simp add: less_mask_eq and_mask_less' take_bit_eq_mask)

lemma push_or_drop:
  fixes c t :: "'a::len word"
  assumes "take_bit (LENGTH('a) - k) c = c"
  shows "drop_bit k (push_bit k c OR (t AND mask k)) = c"
proof -
  have b: "bit c n \<Longrightarrow> k + n < LENGTH('a)" for n
    using assms by (metis bit_take_bit_iff less_diff_conv add.commute)
  show ?thesis by (rule bit_word_eqI) (auto simp: bit_simps dest: b)
qed

lemma push_or_low:
  "(push_bit k c OR (t AND mask k)) AND mask k = (t :: 'a::len word) AND mask k"
  by (rule bit_word_eqI) (auto simp: bit_simps)

end
