(* ===== verification/Stack_Vector.thy ===== *)
theory Stack_Vector
  imports Prelude
begin

text \<open>
  The growable containers of libparserutils: \<^verbatim>\<open>libparserutils/src/utils/stack.c\<close> and
  \<^verbatim>\<open>libparserutils/src/utils/vector.c\<close>. Both keep \<open>item_size\<close>-byte items in one
  allocation. The model stores one cell per item slot, \<open>None\<close> for a slot that was never
  written; the byte count passed to malloc and realloc is computed as the code computes it, so
  a wrapped product gives an allocation with too few slots. A null pointer argument is
  \<open>None\<close>. The libcss parser keeps its state stack and its token list in these containers.

  The locale \<open>item_store\<close> is what both promise: an append-and-drop-last list.
\<close>

section \<open>Error codes of libparserutils\<close>

datatype parserutils_error =
    PARSERUTILS_OK
  | PARSERUTILS_NOMEM
  | PARSERUTILS_BADPARM
  | PARSERUTILS_INVALID
  | PARSERUTILS_FILENOTFOUND
  | PARSERUTILS_NEEDDATA
  | PARSERUTILS_BADENCODING
  | PARSERUTILS_EOF

section \<open>Item storage\<close>

text \<open>The slots an allocation of \<open>bytes\<close> bytes has room for; realloc keeps the old
  contents as far as they fit.\<close>

definition fresh_slots :: "nat \<Rightarrow> nat \<Rightarrow> 'a option list" where
  "fresh_slots nbytes isize = replicate (nbytes div isize) None"

definition realloc_slots :: "nat \<Rightarrow> nat \<Rightarrow> 'a option list \<Rightarrow> 'a option list" where
  "realloc_slots nbytes isize items =
     take (nbytes div isize) items @ replicate (nbytes div isize - length items) None"

lemma length_fresh_slots [simp]: "length (fresh_slots n k) = n div k"
  by (simp add: fresh_slots_def)

lemma length_realloc_slots [simp]: "length (realloc_slots n k items) = n div k"
  by (simp add: realloc_slots_def)

lemma realloc_slots_grow:
  "length items \<le> n div k \<Longrightarrow>
   realloc_slots n k items = items @ replicate (n div k - length items) None"
  by (simp add: realloc_slots_def)

text \<open>Size of the stack and vector structs: five 8-byte fields with padding (LP64).\<close>

abbreviation sizeof_container :: nat where "sizeof_container \<equiv> 40"

section \<open>Stack (stack.c)\<close>

record 'a parserutils_stack =
  s_item_size :: nat
  s_chunk_size :: nat
  s_items_allocated :: nat
  s_current_item :: int
  s_items :: "'a option list"

definition parserutils_stack_create ::
  "heap \<Rightarrow> nat \<Rightarrow> nat \<Rightarrow> parserutils_error \<times> 'a parserutils_stack option" where
  "parserutils_stack_create h item_size chunk_size =
     (if item_size = 0 \<or> chunk_size = 0 then (PARSERUTILS_BADPARM, None)
      else if \<not> malloc_ok h sizeof_container then (PARSERUTILS_NOMEM, None)
      else if \<not> malloc_ok h (size_wrap (item_size * chunk_size)) then (PARSERUTILS_NOMEM, None)
      else (PARSERUTILS_OK,
        Some \<lparr>s_item_size = item_size, s_chunk_size = chunk_size,
              s_items_allocated = chunk_size, s_current_item = -1,
              s_items = fresh_slots (size_wrap (item_size * chunk_size)) item_size\<rparr>))"

definition stack_store :: "nat \<Rightarrow> 'a \<Rightarrow> 'a parserutils_stack \<Rightarrow>
    (parserutils_error \<times> 'a parserutils_stack) option" where
  "stack_store slot item s =
     (if slot < length (s_items s)
      then Some (PARSERUTILS_OK,
             s\<lparr>s_items := (s_items s)[slot := Some item], s_current_item := int slot\<rparr>)
      else None)"

fun parserutils_stack_push ::
  "heap \<Rightarrow> 'a parserutils_stack option \<Rightarrow> 'a option \<Rightarrow>
   (parserutils_error \<times> 'a parserutils_stack option) option" where
  "parserutils_stack_push h None item = Some (PARSERUTILS_BADPARM, None)"
| "parserutils_stack_push h (Some s) None = Some (PARSERUTILS_BADPARM, Some s)"
| "parserutils_stack_push h (Some s) (Some item) =
     (if s_current_item s < -1 \<or> s_current_item s = INT32_MAX
      then Some (PARSERUTILS_INVALID, Some s)
      else
        (let slot = nat (s_current_item s + 1) in
         if slot \<ge> s_items_allocated s then
           (let n = size_wrap (size_wrap (s_items_allocated s + s_chunk_size s) * s_item_size s) in
            if \<not> malloc_ok h n then Some (PARSERUTILS_NOMEM, Some s)
            else map_option (apsnd Some)
                   (stack_store slot item
                     (s\<lparr>s_items := realloc_slots n (s_item_size s) (s_items s),
                        s_items_allocated := size_wrap (s_items_allocated s + s_chunk_size s)\<rparr>)))
         else map_option (apsnd Some) (stack_store slot item s)))"

fun parserutils_stack_pop ::
  "'a parserutils_stack option \<Rightarrow>
   (parserutils_error \<times> 'a parserutils_stack option \<times> 'a option) option" where
  "parserutils_stack_pop None = Some (PARSERUTILS_BADPARM, None, None)"
| "parserutils_stack_pop (Some s) =
     (if s_current_item s < 0 then Some (PARSERUTILS_INVALID, Some s, None)
      else if nat (s_current_item s) < length (s_items s)
      then Some (PARSERUTILS_OK, Some (s\<lparr>s_current_item := s_current_item s - 1\<rparr>),
                 s_items s ! nat (s_current_item s))
      else None)"

fun parserutils_stack_get_current :: "'a parserutils_stack option \<Rightarrow> 'a option option" where
  "parserutils_stack_get_current None = Some None"
| "parserutils_stack_get_current (Some s) =
     (if s_current_item s < 0 then Some None
      else if nat (s_current_item s) < length (s_items s)
      then Some (s_items s ! nat (s_current_item s)) else None)"

section \<open>Vector (vector.c)\<close>

record 'a parserutils_vector =
  v_item_size :: nat
  v_chunk_size :: nat
  v_items_allocated :: nat
  v_current_item :: int
  v_items :: "'a option list"

definition parserutils_vector_create ::
  "heap \<Rightarrow> nat \<Rightarrow> nat \<Rightarrow> parserutils_error \<times> 'a parserutils_vector option" where
  "parserutils_vector_create h item_size chunk_size =
     (if item_size = 0 \<or> chunk_size = 0 then (PARSERUTILS_BADPARM, None)
      else if \<not> malloc_ok h sizeof_container then (PARSERUTILS_NOMEM, None)
      else if \<not> malloc_ok h (size_wrap (item_size * chunk_size)) then (PARSERUTILS_NOMEM, None)
      else (PARSERUTILS_OK,
        Some \<lparr>v_item_size = item_size, v_chunk_size = chunk_size,
              v_items_allocated = chunk_size, v_current_item = -1,
              v_items = fresh_slots (size_wrap (item_size * chunk_size)) item_size\<rparr>))"

definition vector_store :: "nat \<Rightarrow> 'a \<Rightarrow> 'a parserutils_vector \<Rightarrow>
    (parserutils_error \<times> 'a parserutils_vector) option" where
  "vector_store slot item v =
     (if slot < length (v_items v)
      then Some (PARSERUTILS_OK,
             v\<lparr>v_items := (v_items v)[slot := Some item], v_current_item := int slot\<rparr>)
      else None)"

definition vector_new_allocated :: "'a parserutils_vector \<Rightarrow> nat" where
  "vector_new_allocated v =
     (let doubled = size_wrap (v_items_allocated v * 2);
          chunked = size_wrap (v_items_allocated v + v_chunk_size v)
      in if doubled < chunked then chunked else doubled)"

fun parserutils_vector_append ::
  "heap \<Rightarrow> 'a parserutils_vector option \<Rightarrow> 'a option \<Rightarrow>
   (parserutils_error \<times> 'a parserutils_vector option) option" where
  "parserutils_vector_append h None item = Some (PARSERUTILS_BADPARM, None)"
| "parserutils_vector_append h (Some v) None = Some (PARSERUTILS_BADPARM, Some v)"
| "parserutils_vector_append h (Some v) (Some item) =
     (if v_current_item v < -1 \<or> v_current_item v = INT32_MAX
      then Some (PARSERUTILS_INVALID, Some v)
      else
        (let slot = nat (v_current_item v + 1) in
         if slot \<ge> v_items_allocated v then
           (let new_allocated = vector_new_allocated v in
            if new_allocated < v_items_allocated v \<or>
               new_allocated > SIZE_MAX div v_item_size v
            then Some (PARSERUTILS_NOMEM, Some v)
            else if \<not> malloc_ok h (size_wrap (new_allocated * v_item_size v))
            then Some (PARSERUTILS_NOMEM, Some v)
            else map_option (apsnd Some)
                   (vector_store slot item
                     (v\<lparr>v_items := realloc_slots (size_wrap (new_allocated * v_item_size v))
                                     (v_item_size v) (v_items v),
                        v_items_allocated := new_allocated\<rparr>)))
         else map_option (apsnd Some) (vector_store slot item v)))"

fun parserutils_vector_clear ::
  "'a parserutils_vector option \<Rightarrow> parserutils_error \<times> 'a parserutils_vector option" where
  "parserutils_vector_clear None = (PARSERUTILS_BADPARM, None)"
| "parserutils_vector_clear (Some v) =
     (if v_current_item v < 0 then (PARSERUTILS_INVALID, Some v)
      else (PARSERUTILS_OK, Some (v\<lparr>v_current_item := -1\<rparr>)))"

fun parserutils_vector_remove_last ::
  "'a parserutils_vector option \<Rightarrow> parserutils_error \<times> 'a parserutils_vector option" where
  "parserutils_vector_remove_last None = (PARSERUTILS_BADPARM, None)"
| "parserutils_vector_remove_last (Some v) =
     (if v_current_item v < 0 then (PARSERUTILS_INVALID, Some v)
      else (PARSERUTILS_OK, Some (v\<lparr>v_current_item := v_current_item v - 1\<rparr>)))"

fun parserutils_vector_get_length ::
  "'a parserutils_vector option \<Rightarrow> parserutils_error \<times> nat option" where
  "parserutils_vector_get_length None = (PARSERUTILS_BADPARM, None)"
| "parserutils_vector_get_length (Some v) =
     (PARSERUTILS_OK, Some (nat (v_current_item v + 1)))"

text \<open>The iterator returns the item and the advanced context; the outer option is the
  undefined access, the inner one the NULL result.\<close>

fun parserutils_vector_iterate ::
  "'a parserutils_vector option \<Rightarrow> int \<Rightarrow> ('a option \<times> int) option" where
  "parserutils_vector_iterate None ctx = Some (None, ctx)"
| "parserutils_vector_iterate (Some v) ctx =
     (if v_current_item v < 0 \<or> ctx > v_current_item v then Some (None, ctx)
      else if 0 \<le> ctx \<and> nat ctx < length (v_items v)
      then Some (v_items v ! nat ctx, ctx + 1) else None)"

fun parserutils_vector_peek :: "'a parserutils_vector option \<Rightarrow> int \<Rightarrow> 'a option option" where
  "parserutils_vector_peek None ctx = Some None"
| "parserutils_vector_peek (Some v) ctx =
     (if v_current_item v < 0 \<or> ctx > v_current_item v then Some None
      else if 0 \<le> ctx \<and> nat ctx < length (v_items v)
      then Some (v_items v ! nat ctx) else None)"

section \<open>What the containers promise\<close>

text \<open>Appending a sequence of items one by one, stopping at the first failure, as the
  callers do.\<close>

fun add_each :: "('s \<Rightarrow> 'a \<Rightarrow> (parserutils_error \<times> 's) option) \<Rightarrow> 's \<Rightarrow> 'a list \<Rightarrow>
    (parserutils_error \<times> 's) option" where
  "add_each add s [] = Some (PARSERUTILS_OK, s)"
| "add_each add s (x # xs) =
     (case add s x of
        None \<Rightarrow> None
      | Some (e, s') \<Rightarrow> if e = PARSERUTILS_OK then add_each add s' xs else Some (e, s'))"

locale item_store =
  fixes contents :: "'s \<Rightarrow> 'a list"
    and inv :: "'s \<Rightarrow> bool"
    and add :: "heap \<Rightarrow> 's \<Rightarrow> 'a \<Rightarrow> (parserutils_error \<times> 's) option"
    and remove :: "'s \<Rightarrow> (parserutils_error \<times> 's) option"
  assumes add_cases: "inv s \<Longrightarrow> \<exists>e s'. add h s x = Some (e, s') \<and> inv s' \<and>
      (if e = PARSERUTILS_OK then contents s' = contents s @ [x]
       else e \<in> {PARSERUTILS_NOMEM, PARSERUTILS_INVALID} \<and> contents s' = contents s)"
    and remove_some: "inv s \<Longrightarrow> contents s \<noteq> [] \<Longrightarrow>
      \<exists>s'. remove s = Some (PARSERUTILS_OK, s') \<and> inv s' \<and> contents s' = butlast (contents s)"
    and remove_none: "inv s \<Longrightarrow> contents s = [] \<Longrightarrow> remove s = Some (PARSERUTILS_INVALID, s)"
begin

lemma add_each_cases:
  "inv s \<Longrightarrow> \<exists>e s'. add_each (add h) s xs = Some (e, s') \<and> inv s' \<and>
     (if e = PARSERUTILS_OK then contents s' = contents s @ xs
      else e \<in> {PARSERUTILS_NOMEM, PARSERUTILS_INVALID} \<and>
           (\<exists>k < length xs. contents s' = contents s @ take k xs))"
proof (induction xs arbitrary: s)
  case Nil
  then show ?case by simp
next
  case (Cons x xs)
  from add_cases [OF Cons.prems, of h x] obtain e s' where
    step: "add h s x = Some (e, s')" "inv s'" and
    res: "if e = PARSERUTILS_OK then contents s' = contents s @ [x]
          else e \<in> {PARSERUTILS_NOMEM, PARSERUTILS_INVALID} \<and> contents s' = contents s"
    by blast
  show ?case
  proof (cases "e = PARSERUTILS_OK")
    case False
    with step res show ?thesis by (auto intro: exI [of _ 0])
  next
    case True
    from Cons.IH [OF step(2)] obtain e2 s2 where
      rest: "add_each (add h) s' xs = Some (e2, s2)" "inv s2" and
      res2: "if e2 = PARSERUTILS_OK then contents s2 = contents s' @ xs
             else e2 \<in> {PARSERUTILS_NOMEM, PARSERUTILS_INVALID} \<and>
               (\<exists>k < length xs. contents s2 = contents s' @ take k xs)"
      by blast
    have "(\<exists>k < length xs. contents s2 = contents s' @ take k xs) \<Longrightarrow>
      \<exists>k < length (x # xs). contents s2 = contents s @ take k (x # xs)"
      using True res by (force simp: Suc_less_eq intro: exI [of _ "Suc _"])
    with True step rest res res2 show ?thesis by (auto split: if_splits)
  qed
qed

lemma add_remove:
  assumes "inv s" and "add h s x = Some (PARSERUTILS_OK, s')"
  shows "\<exists>s''. remove s' = Some (PARSERUTILS_OK, s'') \<and> inv s'' \<and> contents s'' = contents s"
proof -
  from add_cases [OF assms(1), of h x] assms(2)
  have "inv s'" "contents s' = contents s @ [x]" by auto
  then show ?thesis using remove_some [of s'] by auto
qed

end

section \<open>The stack keeps its promise\<close>

definition stack_inv :: "'a parserutils_stack \<Rightarrow> bool" where
  "stack_inv s \<longleftrightarrow>
     0 < s_item_size s \<and> 0 < s_chunk_size s \<and>
     s_item_size s * s_chunk_size s \<le> PTRDIFF_MAX \<and>
     s_items_allocated s * s_item_size s \<le> PTRDIFF_MAX \<and>
     length (s_items s) = s_items_allocated s \<and>
     -1 \<le> s_current_item s \<and> s_current_item s \<le> INT32_MAX \<and>
     s_current_item s < int (s_items_allocated s) \<and>
     list_all (\<lambda>c. c \<noteq> None) (take (nat (s_current_item s + 1)) (s_items s))"

definition stack_list :: "'a parserutils_stack \<Rightarrow> 'a list" where
  "stack_list s = map the (take (nat (s_current_item s + 1)) (s_items s))"

lemma stack_create_inv:
  assumes "item_size * chunk_size < SIZE_MODULUS"
    and "parserutils_stack_create h item_size chunk_size = (PARSERUTILS_OK, Some s)"
  shows "stack_inv s \<and> stack_list s = []"
  using assms
  by (auto simp: parserutils_stack_create_def stack_inv_def stack_list_def malloc_ok_def
      mult.commute split: if_splits)

text \<open>Storing into the next free slot of storage that has room for it.\<close>

lemma stack_store_next:
  assumes "stack_inv s" and "nat (s_current_item s + 1) < length (s_items s)"
    and "s_current_item s < INT32_MAX"
  shows "\<exists>s'. stack_store (nat (s_current_item s + 1)) item s = Some (PARSERUTILS_OK, s') \<and>
    stack_inv s' \<and> stack_list s' = stack_list s @ [item]"
proof -
  define k where "k = nat (s_current_item s + 1)"
  have k: "int k = s_current_item s + 1" using assms(1) by (simp add: k_def stack_inv_def)
  have kl: "k < length (s_items s)" using assms(2) by (simp add: k_def)
  let ?s = "s\<lparr>s_items := (s_items s)[k := Some item], s_current_item := int k\<rparr>"
  have tk: "take (Suc k) ((s_items s)[k := Some item]) = take k (s_items s) @ [Some item]"
    using kl by (rule drop_list_update_last)
  have n: "nat (int k + 1) = Suc k" by simp
  have cur: "s_current_item s = int k - 1" using k by simp
  have "stack_inv ?s"
    using assms(1,3) kl tk unfolding stack_inv_def cur by (simp add: n del: nat_int_add)
  moreover have "stack_list ?s = stack_list s @ [item]"
    using tk by (simp add: stack_list_def n k_def [symmetric] del: nat_int_add)
  ultimately show ?thesis using kl by (simp add: stack_store_def k_def [symmetric])
qed

text \<open>Growing: the invariant rules the wrap of the byte count out.\<close>

lemma grow_slots:
  assumes "allocated * isize \<le> PTRDIFF_MAX" and "isize * chunk \<le> PTRDIFF_MAX" and "0 < isize"
  shows "size_wrap (allocated + chunk) = allocated + chunk"
    and "size_wrap ((allocated + chunk) * isize) = (allocated + chunk) * isize"
proof -
  have le: "(allocated + chunk) * isize \<le> 2 * PTRDIFF_MAX"
    using assms by (simp add: algebra_simps)
  moreover have "allocated + chunk \<le> (allocated + chunk) * isize"
    using assms(3) by (cases isize) auto
  ultimately have "allocated + chunk < SIZE_MODULUS" by linarith
  then show "size_wrap (allocated + chunk) = allocated + chunk" by (rule size_wrap_id)
  show "size_wrap ((allocated + chunk) * isize) = (allocated + chunk) * isize"
    using le by (intro size_wrap_id) linarith
qed

lemma stack_grow_inv:
  assumes "stack_inv s" and "malloc_ok h ((s_items_allocated s + s_chunk_size s) * s_item_size s)"
  defines "s' \<equiv> s\<lparr>s_items := realloc_slots ((s_items_allocated s + s_chunk_size s) * s_item_size s)
                              (s_item_size s) (s_items s),
                   s_items_allocated := s_items_allocated s + s_chunk_size s\<rparr>"
  shows "stack_inv s'" and "stack_list s' = stack_list s"
    and "length (s_items s') = s_items_allocated s + s_chunk_size s"
    and "s_current_item s' = s_current_item s"
proof -
  have items: "s_items s' = s_items s @ replicate (s_chunk_size s) None"
    using assms(1) by (simp add: s'_def stack_inv_def realloc_slots_grow)
  have k: "nat (s_current_item s + 1) \<le> length (s_items s)"
    using assms(1) by (auto simp: stack_inv_def)
  show "stack_inv s'"
    using assms(1) malloc_ok_bound [OF assms(2)] items k
    by (auto simp: stack_inv_def s'_def)
  show "stack_list s' = stack_list s"
    using items k by (simp add: stack_list_def s'_def)
  show "length (s_items s') = s_items_allocated s + s_chunk_size s"
    using assms(1) items by (simp add: stack_inv_def)
  show "s_current_item s' = s_current_item s" by (simp add: s'_def)
qed

lemma stack_push_cases:
  assumes "stack_inv s"
  shows "\<exists>e s'. parserutils_stack_push h (Some s) (Some item) = Some (e, Some s') \<and> stack_inv s' \<and>
    (if e = PARSERUTILS_OK then stack_list s' = stack_list s @ [item]
     else e \<in> {PARSERUTILS_NOMEM, PARSERUTILS_INVALID} \<and> stack_list s' = stack_list s)"
proof (cases "s_current_item s < INT32_MAX")
  case False
  with assms show ?thesis by (auto simp: stack_inv_def)
next
  case lt: True
  have ge: "-1 \<le> s_current_item s" and len: "length (s_items s) = s_items_allocated s"
    using assms by (auto simp: stack_inv_def)
  have wrap: "size_wrap (s_items_allocated s + s_chunk_size s) = s_items_allocated s + s_chunk_size s"
    "size_wrap ((s_items_allocated s + s_chunk_size s) * s_item_size s) =
     (s_items_allocated s + s_chunk_size s) * s_item_size s"
    using assms grow_slots by (auto simp: stack_inv_def)
  show ?thesis
  proof (cases "nat (s_current_item s + 1) < s_items_allocated s")
    case True
    with stack_store_next [OF assms _ lt, of item] len ge lt show ?thesis
      by (fastforce simp: Let_def)
  next
    case full: False
    show ?thesis
    proof (cases "malloc_ok h ((s_items_allocated s + s_chunk_size s) * s_item_size s)")
      case False
      with assms full ge lt wrap show ?thesis by (auto simp: Let_def)
    next
      case True
      note g = stack_grow_inv [OF assms True]
      have room: "nat (s_current_item s + 1) < s_items_allocated s + s_chunk_size s"
        using assms by (auto simp: stack_inv_def)
      from stack_store_next [OF g(1), of item] g room lt full True ge wrap show ?thesis
        by (fastforce simp: Let_def)
    qed
  qed
qed

lemma stack_pop_some:
  assumes "stack_inv s" and "stack_list s \<noteq> []"
  shows "\<exists>s'. parserutils_stack_pop (Some s) =
      Some (PARSERUTILS_OK, Some s', Some (last (stack_list s))) \<and>
    stack_inv s' \<and> stack_list s' = butlast (stack_list s)"
proof -
  define k where "k = nat (s_current_item s)"
  have k: "s_current_item s = int k" "k < length (s_items s)"
    using assms by (auto simp: stack_inv_def stack_list_def k_def)
  have tk: "take (Suc k) (s_items s) = take k (s_items s) @ [s_items s ! k]"
    using k(2) by (rule take_Suc_conv_app_nth)
  have n: "nat (int k + 1) = Suc k" by simp
  have some: "s_items s ! k \<noteq> None"
    using assms(1) tk by (simp add: stack_inv_def k n del: nat_int_add)
  let ?s = "s\<lparr>s_current_item := int k - 1\<rparr>"
  have "stack_inv ?s" using assms(1) tk k by (auto simp: stack_inv_def n simp del: nat_int_add)
  moreover have "stack_list ?s = butlast (stack_list s)"
    using tk by (simp add: stack_list_def k n del: nat_int_add)
  moreover have "Some (last (stack_list s)) = s_items s ! k"
    using tk some by (simp add: stack_list_def k n del: nat_int_add)
  ultimately show ?thesis using k by auto
qed

lemma stack_pop_empty:
  assumes "stack_inv s" and "stack_list s = []"
  shows "parserutils_stack_pop (Some s) = Some (PARSERUTILS_INVALID, Some s, None)"
  using assms by (auto simp: stack_inv_def stack_list_def)

definition stack_add :: "heap \<Rightarrow> 'a parserutils_stack \<Rightarrow> 'a \<Rightarrow>
    (parserutils_error \<times> 'a parserutils_stack) option" where
  "stack_add h s x = map_option (apsnd the) (parserutils_stack_push h (Some s) (Some x))"

definition stack_remove :: "'a parserutils_stack \<Rightarrow>
    (parserutils_error \<times> 'a parserutils_stack) option" where
  "stack_remove s = map_option (\<lambda>(e, s', _). (e, the s')) (parserutils_stack_pop (Some s))"

interpretation stk: item_store stack_list stack_inv stack_add stack_remove
proof unfold_locales
  fix s :: "'a parserutils_stack" and h x
  assume "stack_inv s"
  from stack_push_cases [OF this, of h x] show "\<exists>e s'. stack_add h s x = Some (e, s') \<and>
      stack_inv s' \<and> (if e = PARSERUTILS_OK then stack_list s' = stack_list s @ [x]
      else e \<in> {PARSERUTILS_NOMEM, PARSERUTILS_INVALID} \<and> stack_list s' = stack_list s)"
    by (fastforce simp: stack_add_def)
next
  fix s :: "'a parserutils_stack"
  assume "stack_inv s" "stack_list s \<noteq> []"
  from stack_pop_some [OF this] show "\<exists>s'. stack_remove s = Some (PARSERUTILS_OK, s') \<and>
      stack_inv s' \<and> stack_list s' = butlast (stack_list s)"
    by (fastforce simp: stack_remove_def)
next
  fix s :: "'a parserutils_stack"
  assume "stack_inv s" "stack_list s = []"
  from stack_pop_empty [OF this] show "stack_remove s = Some (PARSERUTILS_INVALID, s)"
    by (simp add: stack_remove_def)
qed

section \<open>The vector keeps the same promise\<close>

definition vector_inv :: "'a parserutils_vector \<Rightarrow> bool" where
  "vector_inv v \<longleftrightarrow>
     0 < v_item_size v \<and> 0 < v_chunk_size v \<and>
     v_item_size v * v_chunk_size v \<le> PTRDIFF_MAX \<and>
     v_items_allocated v * v_item_size v \<le> PTRDIFF_MAX \<and>
     length (v_items v) = v_items_allocated v \<and>
     -1 \<le> v_current_item v \<and> v_current_item v \<le> INT32_MAX \<and>
     v_current_item v < int (v_items_allocated v) \<and>
     list_all (\<lambda>c. c \<noteq> None) (take (nat (v_current_item v + 1)) (v_items v))"

definition vector_list :: "'a parserutils_vector \<Rightarrow> 'a list" where
  "vector_list v = map the (take (nat (v_current_item v + 1)) (v_items v))"

lemma vector_create_inv:
  assumes "item_size * chunk_size < SIZE_MODULUS"
    and "parserutils_vector_create h item_size chunk_size = (PARSERUTILS_OK, Some v)"
  shows "vector_inv v \<and> vector_list v = []"
  using assms
  by (auto simp: parserutils_vector_create_def vector_inv_def vector_list_def malloc_ok_def
      mult.commute split: if_splits)

lemma vector_list_length:
  assumes "vector_inv v"
  shows "length (vector_list v) = nat (v_current_item v + 1)"
  using assms by (auto simp: vector_inv_def vector_list_def)

lemma vector_list_nth:
  assumes "vector_inv v" and "i < length (vector_list v)"
  shows "v_items v ! i = Some (vector_list v ! i)"
proof -
  have "i < length (take (nat (v_current_item v + 1)) (v_items v))"
    using assms(2) by (simp add: vector_list_def)
  then have "take (nat (v_current_item v + 1)) (v_items v) ! i \<noteq> None"
    using assms(1) by (auto simp: vector_inv_def list_all_length)
  then show ?thesis using assms(2) by (auto simp: vector_list_def)
qed

lemma vector_store_next:
  assumes "vector_inv v" and "nat (v_current_item v + 1) < length (v_items v)"
    and "v_current_item v < INT32_MAX"
  shows "\<exists>v'. vector_store (nat (v_current_item v + 1)) item v = Some (PARSERUTILS_OK, v') \<and>
    vector_inv v' \<and> vector_list v' = vector_list v @ [item]"
proof -
  define k where "k = nat (v_current_item v + 1)"
  have cur: "v_current_item v = int k - 1" using assms(1) by (simp add: k_def vector_inv_def)
  have kl: "k < length (v_items v)" using assms(2) by (simp add: k_def)
  let ?v = "v\<lparr>v_items := (v_items v)[k := Some item], v_current_item := int k\<rparr>"
  have tk: "take (Suc k) ((v_items v)[k := Some item]) = take k (v_items v) @ [Some item]"
    using kl by (rule drop_list_update_last)
  have n: "nat (int k + 1) = Suc k" by simp
  have "vector_inv ?v"
    using assms(1,3) kl tk unfolding vector_inv_def cur by (simp add: n del: nat_int_add)
  moreover have "vector_list ?v = vector_list v @ [item]"
    using tk by (simp add: vector_list_def n k_def [symmetric] del: nat_int_add)
  ultimately show ?thesis using kl by (simp add: vector_store_def k_def [symmetric])
qed

text \<open>The doubling policy: under the invariant no step wraps, the result is larger, and it is
  at least twice the old size.\<close>

lemma vector_new_allocated_bounds:
  assumes "vector_inv v"
  shows "vector_new_allocated v = max (2 * v_items_allocated v) (v_items_allocated v + v_chunk_size v)"
    and "v_items_allocated v < vector_new_allocated v"
proof -
  have le: "n \<le> n * v_item_size v" for n using assms by (cases "v_item_size v") (auto simp: vector_inv_def)
  have "v_items_allocated v \<le> PTRDIFF_MAX"
    using assms le [of "v_items_allocated v"] unfolding vector_inv_def by linarith
  moreover have "v_chunk_size v \<le> PTRDIFF_MAX"
    using assms le [of "v_chunk_size v"] unfolding vector_inv_def mult.commute [of "v_item_size v"]
    by linarith
  ultimately show eq: "vector_new_allocated v =
      max (2 * v_items_allocated v) (v_items_allocated v + v_chunk_size v)"
    by (simp add: vector_new_allocated_def max_def mult.commute)
  show "v_items_allocated v < vector_new_allocated v"
    using assms by (auto simp: eq vector_inv_def)
qed

lemma vector_grow_inv:
  assumes inv: "vector_inv v" and fits: "vector_new_allocated v \<le> SIZE_MAX div v_item_size v"
    and ok: "malloc_ok h (size_wrap (vector_new_allocated v * v_item_size v))"
  defines "v' \<equiv> v\<lparr>v_items := realloc_slots (size_wrap (vector_new_allocated v * v_item_size v))
                              (v_item_size v) (v_items v),
                   v_items_allocated := vector_new_allocated v\<rparr>"
  shows "vector_inv v'" and "vector_list v' = vector_list v"
    and "length (v_items v') = vector_new_allocated v"
    and "v_current_item v' = v_current_item v"
proof -
  have pos: "0 < v_item_size v" using inv by (simp add: vector_inv_def)
  have "vector_new_allocated v * v_item_size v \<le> SIZE_MAX"
    using fits pos by (metis div_times_less_eq_dividend le_trans mult_le_mono1)
  then have w: "size_wrap (vector_new_allocated v * v_item_size v) = vector_new_allocated v * v_item_size v"
    by (intro size_wrap_id) linarith
  have items: "v_items v' =
      v_items v @ replicate (vector_new_allocated v - v_items_allocated v) None"
    using inv vector_new_allocated_bounds(2) [OF inv] pos
    by (simp add: v'_def w vector_inv_def realloc_slots_grow)
  have k: "nat (v_current_item v + 1) \<le> length (v_items v)"
    using inv by (auto simp: vector_inv_def)
  show "vector_inv v'"
    using inv malloc_ok_bound [OF ok] items k w vector_new_allocated_bounds(2) [OF inv]
    by (auto simp: vector_inv_def v'_def)
  show "vector_list v' = vector_list v"
    using items k by (simp add: vector_list_def v'_def)
  show "length (v_items v') = vector_new_allocated v"
    using inv items vector_new_allocated_bounds(2) [OF inv] by (simp add: vector_inv_def)
  show "v_current_item v' = v_current_item v" by (simp add: v'_def)
qed

lemma vector_append_cases:
  assumes inv: "vector_inv v"
  shows "\<exists>e v'. parserutils_vector_append h (Some v) (Some item) = Some (e, Some v') \<and>
    vector_inv v' \<and>
    (if e = PARSERUTILS_OK then vector_list v' = vector_list v @ [item]
     else e \<in> {PARSERUTILS_NOMEM, PARSERUTILS_INVALID} \<and> vector_list v' = vector_list v)"
proof (cases "v_current_item v < INT32_MAX")
  case False
  with inv show ?thesis by (auto simp: vector_inv_def)
next
  case lt: True
  have ge: "-1 \<le> v_current_item v" and len: "length (v_items v) = v_items_allocated v"
    using inv by (auto simp: vector_inv_def)
  show ?thesis
  proof (cases "nat (v_current_item v + 1) < v_items_allocated v")
    case True
    with vector_store_next [OF inv _ lt, of item] len ge lt show ?thesis
      by (fastforce simp: Let_def)
  next
    case full: False
    let ?n = "vector_new_allocated v"
    show ?thesis
    proof (cases "?n \<le> SIZE_MAX div v_item_size v \<and> malloc_ok h (size_wrap (?n * v_item_size v))")
      case False
      with inv full ge lt show ?thesis by (auto simp: Let_def)
    next
      case True
      note g = vector_grow_inv [OF inv conjunct1 [OF True] conjunct2 [OF True]]
      have room: "nat (v_current_item v + 1) < ?n"
        using inv vector_new_allocated_bounds(2) [OF inv] by (auto simp: vector_inv_def)
      from vector_store_next [OF g(1), of item] g room lt full True ge
        vector_new_allocated_bounds(2) [OF inv] show ?thesis
        by (fastforce simp: Let_def)
    qed
  qed
qed

lemma vector_remove_last_some:
  assumes "vector_inv v" and "vector_list v \<noteq> []"
  shows "\<exists>v'. parserutils_vector_remove_last (Some v) = (PARSERUTILS_OK, Some v') \<and>
    vector_inv v' \<and> vector_list v' = butlast (vector_list v)"
proof -
  define k where "k = nat (v_current_item v)"
  have k: "v_current_item v = int k" "k < length (v_items v)"
    using assms by (auto simp: vector_inv_def vector_list_def k_def)
  have tk: "take (Suc k) (v_items v) = take k (v_items v) @ [v_items v ! k]"
    using k(2) by (rule take_Suc_conv_app_nth)
  have n: "nat (int k + 1) = Suc k" by simp
  let ?v = "v\<lparr>v_current_item := int k - 1\<rparr>"
  have "vector_inv ?v" using assms(1) tk k by (auto simp: vector_inv_def n simp del: nat_int_add)
  moreover have "vector_list ?v = butlast (vector_list v)"
    using tk by (simp add: vector_list_def k n del: nat_int_add)
  ultimately show ?thesis using k by auto
qed

definition vector_add :: "heap \<Rightarrow> 'a parserutils_vector \<Rightarrow> 'a \<Rightarrow>
    (parserutils_error \<times> 'a parserutils_vector) option" where
  "vector_add h v x = map_option (apsnd the) (parserutils_vector_append h (Some v) (Some x))"

definition vector_remove :: "'a parserutils_vector \<Rightarrow>
    (parserutils_error \<times> 'a parserutils_vector) option" where
  "vector_remove v = Some (apsnd the (parserutils_vector_remove_last (Some v)))"

interpretation vec: item_store vector_list vector_inv vector_add vector_remove
proof unfold_locales
  fix v :: "'a parserutils_vector" and h x
  assume "vector_inv v"
  from vector_append_cases [OF this, of h x] show "\<exists>e v'. vector_add h v x = Some (e, v') \<and>
      vector_inv v' \<and> (if e = PARSERUTILS_OK then vector_list v' = vector_list v @ [x]
      else e \<in> {PARSERUTILS_NOMEM, PARSERUTILS_INVALID} \<and> vector_list v' = vector_list v)"
    by (fastforce simp: vector_add_def)
next
  fix v :: "'a parserutils_vector"
  assume "vector_inv v" "vector_list v \<noteq> []"
  from vector_remove_last_some [OF this] show "\<exists>v'. vector_remove v = Some (PARSERUTILS_OK, v') \<and>
      vector_inv v' \<and> vector_list v' = butlast (vector_list v)"
    by (fastforce simp: vector_remove_def)
next
  fix v :: "'a parserutils_vector"
  assume "vector_inv v" "vector_list v = []"
  then show "vector_remove v = Some (PARSERUTILS_INVALID, v)"
    by (auto simp: vector_remove_def vector_inv_def vector_list_def)
qed

text \<open>Walking the iterator until it returns NULL, as the callers of
  \<open>parserutils_vector_iterate\<close> do; the fuel bounds the number of calls.\<close>

fun vector_walk :: "nat \<Rightarrow> 'a parserutils_vector \<Rightarrow> int \<Rightarrow> 'a list option" where
  "vector_walk 0 v ctx = None"
| "vector_walk (Suc fuel) v ctx =
     (case parserutils_vector_iterate (Some v) ctx of
        None \<Rightarrow> None
      | Some (None, ctx') \<Rightarrow> Some []
      | Some (Some x, ctx') \<Rightarrow> map_option (\<lambda>xs. x # xs) (vector_walk fuel v ctx'))"

lemma vector_walk_from:
  assumes "vector_inv v" and "length (vector_list v) - i < fuel" and "i \<le> length (vector_list v)"
  shows "vector_walk fuel v (int i) = Some (drop i (vector_list v))"
  using assms(2,3)
proof (induction fuel arbitrary: i)
  case 0
  then show ?case by simp
next
  case (Suc fuel)
  have len: "length (vector_list v) = nat (v_current_item v + 1)"
    using assms(1) by (rule vector_list_length)
  show ?case
  proof (cases "i < length (vector_list v)")
    case True
    then have it: "parserutils_vector_iterate (Some v) (int i) = Some (Some (vector_list v ! i), int (Suc i))"
      using vector_list_nth [OF assms(1) True] assms(1) len by (auto simp: vector_inv_def)
    have "vector_walk fuel v (int (Suc i)) = Some (drop (Suc i) (vector_list v))"
      using Suc.prems True by (intro Suc.IH) auto
    with it True show ?thesis by (simp add: Cons_nth_drop_Suc del: parserutils_vector_iterate.simps)
  next
    case False
    then have "int i > v_current_item v" using Suc.prems len by auto
    with False Suc.prems show ?thesis by simp
  qed
qed

section \<open>Properties\<close>

text \<open>Pushing a sequence of items onto a well-formed stack never touches memory outside the
  allocation, whatever the allocator does. It ends with PARSERUTILS_OK and exactly the
  items appended, or with NOMEM or INVALID and a proper prefix of them appended; the
  invariant holds in both cases.\<close>

theorem stack_push_sequence:
  assumes "stack_inv s"
  shows "\<exists>e s'. add_each (stack_add h) s xs = Some (e, s') \<and> stack_inv s' \<and>
    (if e = PARSERUTILS_OK then stack_list s' = stack_list s @ xs
     else e \<in> {PARSERUTILS_NOMEM, PARSERUTILS_INVALID} \<and>
       (\<exists>k < length xs. stack_list s' = stack_list s @ take k xs))"
  using assms by (rule stk.add_each_cases)

definition stack_example :: "nat parserutils_stack" where
  "stack_example = \<lparr>s_item_size = 8, s_chunk_size = 2, s_items_allocated = 2,
     s_current_item = 1, s_items = [Some 10, Some 11]\<rparr>"

lemma stack_example_inv: "stack_inv stack_example"
  by (simp add: stack_example_def stack_inv_def numeral_2_eq_2)

theorem stack_push_sequence_witness:
  "stack_inv stack_example \<and>
   (\<exists>e s'. add_each (stack_add heap_all) stack_example [12, 13, 14] = Some (e, s') \<and> stack_inv s' \<and>
      (if e = PARSERUTILS_OK then stack_list s' = stack_list stack_example @ [12, 13, 14]
       else e \<in> {PARSERUTILS_NOMEM, PARSERUTILS_INVALID} \<and>
         (\<exists>k < length [12, 13, 14 :: nat].
            stack_list s' = stack_list stack_example @ take k [12, 13, 14])))"
  using stack_example_inv stack_push_sequence [OF stack_example_inv, of heap_all "[12, 13, 14]"]
  by blast

text \<open>A pop after a successful push returns the pushed item and leaves the stack with the
  contents it had before the push.\<close>

theorem stack_push_pop:
  assumes "stack_inv s" and "parserutils_stack_push h (Some s) (Some item) = Some (PARSERUTILS_OK, Some s')"
  shows "\<exists>s''. parserutils_stack_pop (Some s') = Some (PARSERUTILS_OK, Some s'', Some item) \<and>
    stack_inv s'' \<and> stack_list s'' = stack_list s"
proof -
  from stack_push_cases [OF assms(1), of h item] assms(2)
  have "stack_inv s'" "stack_list s' = stack_list s @ [item]" by auto
  then show ?thesis using stack_pop_some [of s'] by auto
qed

theorem stack_push_pop_witness:
  "\<exists>s'. parserutils_stack_push heap_all (Some stack_example) (Some 12) = Some (PARSERUTILS_OK, Some s') \<and>
     (\<exists>s''. parserutils_stack_pop (Some s') = Some (PARSERUTILS_OK, Some s'', Some 12) \<and>
        stack_inv s'' \<and> stack_list s'' = stack_list stack_example)"
proof -
  obtain s' where push: "parserutils_stack_push heap_all (Some stack_example) (Some 12) =
      Some (PARSERUTILS_OK, Some s')"
    by (simp add: stack_example_def malloc_ok_def heap_all_def stack_store_def realloc_slots_def)
  with stack_push_pop [OF stack_example_inv push] show ?thesis by blast
qed

text \<open>Appending a sequence of items to a well-formed vector stays inside the allocation
  (the doubling policy and its overflow check included) and refines list append; a failure
  leaves a proper prefix appended.\<close>

theorem vector_append_sequence:
  assumes "vector_inv v"
  shows "\<exists>e v'. add_each (vector_add h) v xs = Some (e, v') \<and> vector_inv v' \<and>
    (if e = PARSERUTILS_OK then vector_list v' = vector_list v @ xs
     else e \<in> {PARSERUTILS_NOMEM, PARSERUTILS_INVALID} \<and>
       (\<exists>k < length xs. vector_list v' = vector_list v @ take k xs))"
  using assms by (rule vec.add_each_cases)

definition vector_example :: "nat parserutils_vector" where
  "vector_example = \<lparr>v_item_size = 8, v_chunk_size = 2, v_items_allocated = 2,
     v_current_item = 1, v_items = [Some 10, Some 11]\<rparr>"

lemma vector_example_inv: "vector_inv vector_example"
  by (simp add: vector_example_def vector_inv_def numeral_2_eq_2)

theorem vector_append_sequence_witness:
  "vector_inv vector_example \<and>
   (\<exists>e v'. add_each (vector_add heap_all) vector_example [12, 13] = Some (e, v') \<and> vector_inv v' \<and>
      (if e = PARSERUTILS_OK then vector_list v' = vector_list vector_example @ [12, 13]
       else e \<in> {PARSERUTILS_NOMEM, PARSERUTILS_INVALID} \<and>
         (\<exists>k < length [12, 13 :: nat].
            vector_list v' = vector_list vector_example @ take k [12, 13])))"
  using vector_example_inv vector_append_sequence [OF vector_example_inv, of heap_all "[12, 13]"]
  by blast

text \<open>Iterating a vector from context 0 until NULL returns exactly its items, in order, and
  makes one call more than there are items.\<close>

theorem vector_iterate_all:
  assumes "vector_inv v"
  shows "vector_walk (Suc (length (vector_list v))) v 0 = Some (vector_list v)"
  using vector_walk_from [OF assms, of 0 "Suc (length (vector_list v))"] by simp

theorem vector_iterate_all_witness:
  "vector_inv vector_example \<and>
   vector_walk (Suc (length (vector_list vector_example))) vector_example 0 =
     Some (vector_list vector_example)"
  using vector_example_inv vector_iterate_all [OF vector_example_inv] by blast

end
