(* ===== verification/Utf8.thy ===== *)
theory Utf8
  imports Stack_Vector
begin

text \<open>
  UTF-8 primitives of libparserutils: the macros of
  \<^verbatim>\<open>libparserutils/src/charset/encodings/utf8impl.h\<close> and the exported functions of
  \<^verbatim>\<open>libparserutils/src/charset/encodings/utf8.c\<close> that wrap them. A byte string stands for
  a pointer and its length; a code point is a 32-bit word. A result is an error code or the
  values the macro stores through its pointer arguments.
\<close>

section \<open>Decoding one character\<close>

definition numContinuations :: "nat list" where
  "numContinuations = replicate 192 0 @ replicate 32 1 @ replicate 16 2 @ replicate 8 3 @
     replicate 4 4 @ replicate 4 5"

text \<open>Lead byte: payload bits, sequence length and the smallest code point that needs it.\<close>

definition utf8_lead :: "u32 \<Rightarrow> (u32 \<times> nat \<times> u32) option" where
  "utf8_lead c =
     (if c < 0x80 then Some (c, 1, 0)
      else if c AND 0xE0 = 0xC0 then Some (c AND 0x1F, 2, 0x80)
      else if c AND 0xF0 = 0xE0 then Some (c AND 0x0F, 3, 0x800)
      else if c AND 0xF8 = 0xF0 then Some (c AND 0x07, 4, 0x10000)
      else if c AND 0xFC = 0xF8 then Some (c AND 0x03, 5, 0x200000)
      else if c AND 0xFE = 0xFC then Some (c AND 0x01, 6, 0x4000000)
      else None)"

definition utf8_is_cont :: "u32 \<Rightarrow> bool" where
  "utf8_is_cont t \<longleftrightarrow> t AND 0xC0 = 0x80"

fun utf8_cont :: "bytes \<Rightarrow> u32 \<Rightarrow> u32 option" where
  "utf8_cont [] c = Some c"
| "utf8_cont (b # bs) c =
     (let t = ucast b in
      if \<not> utf8_is_cont t then None
      else utf8_cont bs (push_bit 6 c OR (t AND 0x3F)))"

definition utf8_bad_char :: "u32 \<Rightarrow> bool" where
  "utf8_bad_char c \<longleftrightarrow> (0xD800 \<le> c \<and> c \<le> 0xDFFF) \<or> c = 0xFFFE \<or> c = 0xFFFF"

definition UTF8_TO_UCS4 :: "bytes \<Rightarrow> parserutils_error + (u32 \<times> nat)" where
  "UTF8_TO_UCS4 s =
     (case s of
        [] \<Rightarrow> Inl PARSERUTILS_NEEDDATA
      | b # rest \<Rightarrow>
          (case utf8_lead (ucast b) of
             None \<Rightarrow> Inl PARSERUTILS_INVALID
           | Some (c, n, mn) \<Rightarrow>
               if length s < n then Inl PARSERUTILS_NEEDDATA
               else (case utf8_cont (take (n - 1) rest) c of
                       None \<Rightarrow> Inl PARSERUTILS_INVALID
                     | Some c' \<Rightarrow>
                         if c' < mn \<or> utf8_bad_char c' then Inl PARSERUTILS_INVALID
                         else Inr (c', n))))"

section \<open>Encoding one character\<close>

definition utf8_seq_len :: "u32 \<Rightarrow> nat option" where
  "utf8_seq_len c =
     (if c < 0x80 then Some 1
      else if c < 0x800 then Some 2
      else if c < 0x10000 then Some 3
      else if c < 0x200000 then Some 4
      else if c < 0x4000000 then Some 5
      else if c \<le> 0x7FFFFFFF then Some 6
      else None)"

text \<open>The loop that writes the continuation bytes from the last to the second.\<close>

fun utf8_tail :: "nat \<Rightarrow> u32 \<Rightarrow> bytes \<Rightarrow> u32 \<times> bytes" where
  "utf8_tail 0 c buf = (c, buf)"
| "utf8_tail (Suc k) c buf = utf8_tail k (drop_bit 6 c) (ucast (0x80 OR (c AND 0x3F)) # buf)"

definition utf8_bytes :: "nat \<Rightarrow> u32 \<Rightarrow> bytes" where
  "utf8_bytes l c =
     (if l = 1 then [ucast c]
      else (let (c', buf) = utf8_tail (l - 1) c []
            in ucast (NOT (push_bit (8 - l) 1 - 1) OR c') # buf))"

text \<open>\<open>room\<close> is the space left in the output buffer; the result is what is written.\<close>

definition UTF8_FROM_UCS4 :: "u32 \<Rightarrow> nat \<Rightarrow> parserutils_error + bytes" where
  "UTF8_FROM_UCS4 ucs4 room =
     (case utf8_seq_len ucs4 of
        None \<Rightarrow> Inl PARSERUTILS_INVALID
      | Some l \<Rightarrow> if l > room then Inl PARSERUTILS_NOMEM else Inr (utf8_bytes l ucs4))"

section \<open>Measuring and moving\<close>

definition utf8_skip :: "u32 \<Rightarrow> nat option" where
  "utf8_skip c =
     (if c AND 0x80 = 0 then Some 1
      else if c AND 0xE0 = 0xC0 then Some 2
      else if c AND 0xF0 = 0xE0 then Some 3
      else if c AND 0xF8 = 0xF0 then Some 4
      else if c AND 0xFC = 0xF8 then Some 5
      else if c AND 0xFE = 0xFC then Some 6
      else None)"

function UTF8_LENGTH :: "bytes \<Rightarrow> nat \<Rightarrow> parserutils_error + nat" where
  "UTF8_LENGTH [] l = Inr l"
| "UTF8_LENGTH (b # bs) l =
     (case utf8_skip (ucast b) of
        None \<Rightarrow> Inl PARSERUTILS_INVALID
      | Some n \<Rightarrow> UTF8_LENGTH (drop (n - 1) bs) (Suc l))"
  by pat_completeness auto
termination
  by (relation "measure (\<lambda>(s, l). length s)") auto

definition UTF8_CHAR_BYTE_LENGTH :: "bytes \<Rightarrow> nat option" where
  "UTF8_CHAR_BYTE_LENGTH s =
     (case s of [] \<Rightarrow> None | b # _ \<Rightarrow> Some (numContinuations ! unat b + 1))"

definition is_cont_byte :: "u8 \<Rightarrow> bool" where
  "is_cont_byte b \<longleftrightarrow> b AND 0xC0 = 0x80"

text \<open>Offsets are relative to the start of the string; reading outside it is \<open>None\<close>.\<close>

fun UTF8_PREV :: "bytes \<Rightarrow> nat \<Rightarrow> nat option" where
  "UTF8_PREV s 0 = Some 0"
| "UTF8_PREV s (Suc off) =
     (if off \<ge> length s then None
      else if is_cont_byte (s ! off) then UTF8_PREV s off
      else Some off)"

function utf8_skip_conts :: "bytes \<Rightarrow> nat \<Rightarrow> nat" where
  "utf8_skip_conts s off =
     (if off < length s \<and> is_cont_byte (s ! off) then utf8_skip_conts s (Suc off) else off)"
  by pat_completeness auto
termination
  by (relation "measure (\<lambda>(s, off). length s - off)") auto

definition is_start_byte :: "u8 \<Rightarrow> bool" where
  "is_start_byte b \<longleftrightarrow> b < 0x80 \<or> b AND 0xC0 = 0xC0"

definition UTF8_NEXT :: "bytes \<Rightarrow> nat \<Rightarrow> parserutils_error + nat" where
  "UTF8_NEXT s off =
     (if off \<ge> length s then Inl PARSERUTILS_BADPARM
      else Inr (utf8_skip_conts s (if is_start_byte (s ! off) then Suc off else off)))"

text \<open>How many bytes of a sequence with \<open>n\<close> continuation bytes are well formed, the start
  byte included: the loop over nToSkip.\<close>

fun utf8_valid_prefix :: "bytes \<Rightarrow> nat \<Rightarrow> nat \<Rightarrow> nat" where
  "utf8_valid_prefix s 0 k = k"
| "utf8_valid_prefix s (Suc n) k =
     (if k < length s \<and> is_cont_byte (s ! k) then utf8_valid_prefix s n (Suc k) else k)"

definition UTF8_NEXT_PARANOID :: "bytes \<Rightarrow> nat \<Rightarrow> parserutils_error + nat" where
  "UTF8_NEXT_PARANOID s off =
     (if off \<ge> length s then Inl PARSERUTILS_BADPARM
      else if \<not> is_start_byte (s ! off) then Inr (off + 1)
      else
        (let nCont = numContinuations ! unat (s ! off) in
         if off + nCont + 1 \<ge> length s then Inl PARSERUTILS_NEEDDATA
         else Inr (off + utf8_valid_prefix (drop off s) nCont 1)))"

section \<open>The exported functions (utf8.c)\<close>

text \<open>The wrappers only add the null-pointer check of the macros.\<close>

fun parserutils_charset_utf8_to_ucs4 :: "bytes option \<Rightarrow> parserutils_error + (u32 \<times> nat)" where
  "parserutils_charset_utf8_to_ucs4 None = Inl PARSERUTILS_BADPARM"
| "parserutils_charset_utf8_to_ucs4 (Some s) = UTF8_TO_UCS4 s"

fun parserutils_charset_utf8_from_ucs4 :: "u32 \<Rightarrow> nat option \<Rightarrow> parserutils_error + bytes" where
  "parserutils_charset_utf8_from_ucs4 c None = Inl PARSERUTILS_BADPARM"
| "parserutils_charset_utf8_from_ucs4 c (Some room) = UTF8_FROM_UCS4 c room"

fun parserutils_charset_utf8_length :: "bytes option \<Rightarrow> parserutils_error + nat" where
  "parserutils_charset_utf8_length None = Inl PARSERUTILS_BADPARM"
| "parserutils_charset_utf8_length (Some s) = UTF8_LENGTH s 0"

fun parserutils_charset_utf8_char_byte_length :: "bytes option \<Rightarrow> (parserutils_error + nat) option" where
  "parserutils_charset_utf8_char_byte_length None = Some (Inl PARSERUTILS_BADPARM)"
| "parserutils_charset_utf8_char_byte_length (Some s) = map_option Inr (UTF8_CHAR_BYTE_LENGTH s)"

fun parserutils_charset_utf8_prev :: "bytes option \<Rightarrow> nat \<Rightarrow> (parserutils_error + nat) option" where
  "parserutils_charset_utf8_prev None off = Some (Inl PARSERUTILS_BADPARM)"
| "parserutils_charset_utf8_prev (Some s) off = map_option Inr (UTF8_PREV s off)"

fun parserutils_charset_utf8_next :: "bytes option \<Rightarrow> nat \<Rightarrow> parserutils_error + nat" where
  "parserutils_charset_utf8_next None off = Inl PARSERUTILS_BADPARM"
| "parserutils_charset_utf8_next (Some s) off = UTF8_NEXT s off"

fun parserutils_charset_utf8_next_paranoid :: "bytes option \<Rightarrow> nat \<Rightarrow> parserutils_error + nat" where
  "parserutils_charset_utf8_next_paranoid None off = Inl PARSERUTILS_BADPARM"
| "parserutils_charset_utf8_next_paranoid (Some s) off = UTF8_NEXT_PARANOID s off"

section \<open>Continuation bytes\<close>

lemma push_drop_low: "push_bit 6 (drop_bit 6 c) OR (c AND 0x3F) = (c::u32)"
  using split_low_or [of 6 c] by (simp add: mask_numeral)
lemma push6_drop6: "c < 0x4000000 \<Longrightarrow> drop_bit 6 (push_bit 6 c OR (t AND 0x3F)) = (c::u32)"
  using push_or_drop [of 6 c t] take_bit_less[of c 26] by (simp add: mask_numeral)
lemma push6_low6: "(push_bit 6 c OR (t AND 0x3F)) AND 0x3F = (t::u32) AND 0x3F"
  using push_or_low[of 6 c t]  by (simp add: mask_numeral)

primrec utf8_conts :: "nat \<Rightarrow> u32 \<Rightarrow> bytes" where
  "utf8_conts 0 c = []"
| "utf8_conts (Suc k) c = utf8_conts k (drop_bit 6 c) @ [ucast (0x80 OR (c AND 0x3F))]"

lemma utf8_tail_eq: "utf8_tail k c buf = (drop_bit (6 * k) c, utf8_conts k c @ buf)"
  by (induction k arbitrary: c buf) (simp_all add: drop_bit_drop_bit add.commute)

lemma conts_enum: "list_all (\<lambda>n. let b = ucast (0x80 OR (of_nat n :: u32)) :: u8 in
     utf8_is_cont (ucast b) \<and> ucast b AND 0x3F = (of_nat n :: u32)) [0..<64]"
  by code_simp

lemma low6_less: "unat (c AND 0x3F :: u32) < 64"
  using word_and_le1 [of c "0x3F"] by (simp add: word_le_nat_alt)

lemma cont_enc: "utf8_is_cont (ucast (ucast (0x80 OR (c AND 0x3F) :: u32) :: u8))"
  "ucast (ucast (0x80 OR (c AND 0x3F) :: u32) :: u8) AND 0x3F = (c AND 0x3F :: u32)"
  using small_word_list [OF conts_enum low6_less, of c] by (simp_all add: Let_def)

lemma cont_dec: "utf8_is_cont (ucast (b::u8)) \<longrightarrow> ucast (0x80 OR (ucast b AND 0x3F :: u32)) = b"
  by (rule all_u8_list) code_simp

lemma utf8_cont_append: "utf8_cont (xs @ ys) c = Option.bind (utf8_cont xs c) (utf8_cont ys)"
  by (induction xs arbitrary: c) (auto simp: Let_def)

lemma utf8_cont_conts: "utf8_cont (utf8_conts k c) (drop_bit (6 * k) c) = Some c"
proof (induction k arbitrary: c)
  case (Suc k)
  have "drop_bit (6 * Suc k) c = drop_bit (6 * k) (drop_bit 6 c)"
    by (simp add: drop_bit_drop_bit add.commute)
  with Suc.IH [of "drop_bit 6 c"] show ?case
    by (simp add: utf8_cont_append Let_def cont_enc push_drop_low drop_bit_drop_bit add.commute)
qed simp

section \<open>Lead bytes\<close>

lemma lead_enum:
  "list_all (\<lambda>n. utf8_lead (ucast (ucast (of_nat n :: u32) :: u8)) = Some (of_nat n, 1, 0)) [0..<128]"
  "list_all (\<lambda>n. utf8_lead (ucast (ucast (NOT (push_bit 6 1 - 1) OR (of_nat n :: u32)) :: u8)) =
     Some (of_nat n, 2, 0x80)) [0..<32]"
  "list_all (\<lambda>n. utf8_lead (ucast (ucast (NOT (push_bit 5 1 - 1) OR (of_nat n :: u32)) :: u8)) =
     Some (of_nat n, 3, 0x800)) [0..<16]"
  "list_all (\<lambda>n. utf8_lead (ucast (ucast (NOT (push_bit 4 1 - 1) OR (of_nat n :: u32)) :: u8)) =
     Some (of_nat n, 4, 0x10000)) [0..<8]"
  "list_all (\<lambda>n. utf8_lead (ucast (ucast (NOT (push_bit 3 1 - 1) OR (of_nat n :: u32)) :: u8)) =
     Some (of_nat n, 5, 0x200000)) [0..<4]"
  "list_all (\<lambda>n. utf8_lead (ucast (ucast (NOT (push_bit 2 1 - 1) OR (of_nat n :: u32)) :: u8)) =
     Some (of_nat n, 6, 0x4000000)) [0..<2]"
  by code_simp+

definition utf8_class :: "u8 \<Rightarrow> u32 \<Rightarrow> nat \<Rightarrow> u32 \<Rightarrow> bool" where
  "utf8_class b v n mn \<longleftrightarrow>
     n = 1 \<and> v < 128 \<and> ucast v = b \<and> mn = 0 \<or>
     n = 2 \<and> v < 32 \<and> ucast (NOT (push_bit 6 1 - 1) OR v) = b \<and> mn = 0x80 \<or>
     n = 3 \<and> v < 16 \<and> ucast (NOT (push_bit 5 1 - 1) OR v) = b \<and> mn = 0x800 \<or>
     n = 4 \<and> v < 8 \<and> ucast (NOT (push_bit 4 1 - 1) OR v) = b \<and> mn = 0x10000 \<or>
     n = 5 \<and> v < 4 \<and> ucast (NOT (push_bit 3 1 - 1) OR v) = b \<and> mn = 0x200000 \<or>
     n = 6 \<and> v < 2 \<and> ucast (NOT (push_bit 2 1 - 1) OR v) = b \<and> mn = 0x4000000"

lemma utf8_lead_class_all:
  "case utf8_lead (ucast b) of None \<Rightarrow> True | Some (v, n, mn) \<Rightarrow> utf8_class b v n mn"
  by (rule all_u8_list) code_simp

lemma utf8_lead_class: "utf8_lead (ucast b) = Some (v, n, mn) \<Longrightarrow> utf8_class b v n mn"
  using utf8_lead_class_all [of b] by simp

lemma utf8_cont_SomeD:
  "utf8_cont bs v = Some c \<Longrightarrow> unat v < 2 ^ j \<Longrightarrow> j + 6 * length bs \<le> 32 \<Longrightarrow>
   unat c < 2 ^ (j + 6 * length bs) \<and> drop_bit (6 * length bs) c = v \<and> utf8_conts (length bs) c = bs"
proof (induction bs arbitrary: c rule: rev_induct)
  case Nil
  then show ?case by simp
next
  case (snoc b bs)
  from snoc.prems(1) obtain c' where c': "utf8_cont bs v = Some c'"
    and b: "utf8_is_cont (ucast b)" and c: "c = push_bit 6 c' OR (ucast b AND 0x3F)"
    by (auto simp: utf8_cont_append Let_def bind_eq_Some_conv split: if_splits)
  from snoc.IH [OF c'] snoc.prems(2,3) have
    IH: "unat c' < 2 ^ (j + 6 * length bs)" "drop_bit (6 * length bs) c' = v"
      "utf8_conts (length bs) c' = bs" by auto
  have "(2::nat) ^ (j + 6 * length bs) \<le> 2 ^ 26"
    using snoc.prems(3) by (intro power_increasing) auto
  with IH(1) have "c' < 0x4000000" by (simp add: word_less_nat_alt)
  then have d: "drop_bit 6 c = c'" unfolding c by (rule push6_drop6)
  have low: "c AND 0x3F = ucast b AND 0x3F" unfolding c by (rule push6_low6)
  have "unat c div 64 = unat c'"
    using d unat_drop_bit_eq [of 6 c] by (simp add: drop_bit_eq_div)
  then have "unat c < 64 * Suc (unat c')" by (metis div_mult_mod_eq mod_less_divisor mult.commute
        mult_Suc_right add.commute add_less_cancel_left zero_less_numeral)
  also have "\<dots> \<le> 64 * 2 ^ (j + 6 * length bs)" using IH(1) by simp
  finally have "unat c < 2 ^ (j + 6 * length (bs @ [b]))"
    by (simp add: power_add)
  moreover have "drop_bit (6 * length (bs @ [b])) c = drop_bit (6 * length bs) (drop_bit 6 c)"
    by (simp add: drop_bit_drop_bit add.commute)
  then have "drop_bit (6 * length (bs @ [b])) c = v" using IH(2) d by simp
  moreover have "utf8_conts (length (bs @ [b])) c = bs @ [b]"
    using IH(3) d low cont_dec [of b] b by simp
  ultimately show ?case by blast
qed


lemma length_utf8_conts [simp]: "length (utf8_conts k c) = k"
  by (induction k arbitrary: c) simp_all

lemma utf8_bytes_multi:
  "1 < l \<Longrightarrow> utf8_bytes l c =
     ucast (NOT (push_bit (8 - l) 1 - 1) OR drop_bit (6 * (l - 1)) c) # utf8_conts (l - 1) c"
  by (simp add: utf8_bytes_def utf8_tail_eq)

lemma utf8_seq_len_range: "utf8_seq_len c = Some l \<Longrightarrow> 1 \<le> l \<and> l \<le> 6"
  by (auto simp: utf8_seq_len_def split: if_splits)

lemma length_utf8_bytes: "1 \<le> l \<Longrightarrow> length (utf8_bytes l c) = l"
  by (cases "l = 1") (simp_all add: utf8_bytes_multi, simp add: utf8_bytes_def)

definition utf8_min :: "nat \<Rightarrow> u32" where
  "utf8_min n = [0, 0, 0x80, 0x800, 0x10000, 0x200000, 0x4000000] ! n"

lemma drop_bit_bound: "unat c < 2 ^ (k + j) \<Longrightarrow> unat (drop_bit k c) < 2 ^ j" for c :: u32
  by (subst unat_drop_bit_eq)
    (simp add: drop_bit_eq_div power_add mult.commute less_mult_imp_div_less)

text \<open>The first byte of an encoding announces its length.\<close>

lemma utf8_lead_bytes:
  assumes "utf8_seq_len c = Some l"
  shows "\<exists>b. utf8_bytes l c = b # utf8_conts (l - 1) c \<and>
    utf8_lead (ucast b) = Some (drop_bit (6 * (l - 1)) c, l, utf8_min l)"
proof -
  have multi: "\<exists>b. utf8_bytes l c = b # utf8_conts (l - 1) c \<and>
      utf8_lead (ucast b) = Some (drop_bit (6 * (l - 1)) c, l, utf8_min l)"
    if "1 < l" and e: "list_all (\<lambda>n. utf8_lead (ucast (ucast (NOT (push_bit (8 - l) 1 - 1) OR
         (of_nat n :: u32)) :: u8)) = Some (of_nat n, l, utf8_min l)) [0..<2 ^ j]"
      and "unat c < 2 ^ (6 * (l - 1) + j)" for j
  proof -
    have "unat (drop_bit (6 * (l - 1)) c) < 2 ^ j" using that(3) by (rule drop_bit_bound)
    from small_word_list [OF e this] that(1) show ?thesis by (simp add: utf8_bytes_multi)
  qed
  consider "c < 0x80" "l = 1" | "c < 0x800" "l = 2" | "c < 0x10000" "l = 3" | "c < 0x200000" "l = 4"
    | "c < 0x4000000" "l = 5" | "c \<le> 0x7FFFFFFF" "l = 6"
    using assms by (auto simp: utf8_seq_len_def split: if_splits)
  then show ?thesis
  proof cases
    case 1
    then have "unat c < 128" by (simp add: word_less_nat_alt)
    from small_word_list [OF lead_enum(1) this] 1 show ?thesis by (simp add: utf8_bytes_def utf8_min_def)
  next
    case 2
    then show ?thesis using multi [of 5] lead_enum(2) by (simp add: utf8_min_def word_less_nat_alt)
  next
    case 3
    then show ?thesis using multi [of 4] lead_enum(3) by (simp add: utf8_min_def word_less_nat_alt)
  next
    case 4
    then show ?thesis using multi [of 3] lead_enum(4) by (simp add: utf8_min_def word_less_nat_alt)
  next
    case 5
    then show ?thesis using multi [of 2] lead_enum(5) by (simp add: utf8_min_def word_less_nat_alt)
  next
    case 6
    then show ?thesis using multi [of 1] lead_enum(6) by (simp add: utf8_min_def word_le_nat_alt)
  qed
qed

lemma utf8_min_le: "utf8_seq_len c = Some l \<Longrightarrow> \<not> c < utf8_min l"
  by (auto simp: utf8_seq_len_def utf8_min_def not_less split: if_splits)

section \<open>Decoding inverts encoding\<close>

lemma utf8_decode_encoded:
  assumes "utf8_seq_len c = Some l" and "\<not> utf8_bad_char c"
  shows "UTF8_TO_UCS4 (utf8_bytes l c @ rest) = Inr (c, l)"
proof -
  obtain b where b: "utf8_bytes l c = b # utf8_conts (l - 1) c"
      "utf8_lead (ucast b) = Some (drop_bit (6 * (l - 1)) c, l, utf8_min l)"
    using utf8_lead_bytes [OF assms(1)] by blast
  show ?thesis
    using b assms utf8_cont_conts [of "l - 1" c] utf8_min_le [OF assms(1)] utf8_seq_len_range [OF assms(1)]
    by (simp add: UTF8_TO_UCS4_def)
qed

lemma utf8_need_data:
  assumes "utf8_seq_len c = Some l" and "k < l"
  shows "UTF8_TO_UCS4 (take k (utf8_bytes l c)) = Inl PARSERUTILS_NEEDDATA"
proof -
  obtain b where "utf8_bytes l c = b # utf8_conts (l - 1) c"
      "utf8_lead (ucast b) = Some (drop_bit (6 * (l - 1)) c, l, utf8_min l)"
    using utf8_lead_bytes [OF assms(1)] by blast
  then show ?thesis using assms(2) by (cases k) (simp_all add: UTF8_TO_UCS4_def)
qed

lemma utf8_decode_canonical:
  assumes "UTF8_TO_UCS4 s = Inr (c, n)"
  shows "utf8_seq_len c = Some n" and "utf8_bytes n c = take n s" and "n \<le> length s"
    and "\<not> utf8_bad_char c"
proof -
  from assms obtain b rest v mn where s: "s = b # rest" and
    lead: "utf8_lead (ucast b) = Some (v, n, mn)" and
    len: "n \<le> length s" and cont: "utf8_cont (take (n - 1) rest) v = Some c" and
    ok: "mn \<le> c" "\<not> utf8_bad_char c"
    by (auto simp: UTF8_TO_UCS4_def not_less split: list.splits option.splits if_splits)
  show "n \<le> length s" "\<not> utf8_bad_char c" by fact+
  have lt: "length (take (n - 1) rest) = n - 1" using len s by simp
  have multi: "unat c < 2 ^ (j + 6 * (n - 1)) \<and> utf8_bytes n c = take n s"
    if "1 < n" "unat v < 2 ^ j" "j + 6 * (n - 1) \<le> 32" "ucast (NOT (push_bit (8 - n) 1 - 1) OR v) = b" for j
  proof -
    from utf8_cont_SomeD [OF cont that(2)] that(3) lt
    have d: "unat c < 2 ^ (j + 6 * (n - 1))" "drop_bit (6 * (n - 1)) c = v"
      "utf8_conts (n - 1) c = take (n - 1) rest" by auto
    from that(1) obtain m where "n = Suc m" by (cases n) auto
    with d that show ?thesis by (simp add: utf8_bytes_multi s)
  qed
  have "utf8_seq_len c = Some n \<and> utf8_bytes n c = take n s"
    using utf8_lead_class [OF lead] unfolding utf8_class_def
  proof (elim disjE conjE)
    assume "n = 1" "v < 128" "ucast v = b"
    with cont s show ?thesis by (simp add: utf8_seq_len_def utf8_bytes_def)
  next
    assume "n = 2" "v < 32" "ucast (NOT (push_bit 6 1 - 1) OR v) = b" "mn = 0x80"
    with multi [of 5] ok show ?thesis
      by (auto simp: utf8_seq_len_def word_less_nat_alt word_le_nat_alt)
  next
    assume "n = 3" "v < 16" "ucast (NOT (push_bit 5 1 - 1) OR v) = b" "mn = 0x800"
    with multi [of 4] ok show ?thesis
      by (auto simp: utf8_seq_len_def word_less_nat_alt word_le_nat_alt)
  next
    assume "n = 4" "v < 8" "ucast (NOT (push_bit 4 1 - 1) OR v) = b" "mn = 0x10000"
    with multi [of 3] ok show ?thesis
      by (auto simp: utf8_seq_len_def word_less_nat_alt word_le_nat_alt)
  next
    assume "n = 5" "v < 4" "ucast (NOT (push_bit 3 1 - 1) OR v) = b" "mn = 0x200000"
    with multi [of 2] ok show ?thesis
      by (auto simp: utf8_seq_len_def word_less_nat_alt word_le_nat_alt)
  next
    assume "n = 6" "v < 2" "ucast (NOT (push_bit 2 1 - 1) OR v) = b" "mn = 0x4000000"
    with multi [of 1] ok show ?thesis
      by (auto simp: utf8_seq_len_def word_less_nat_alt word_le_nat_alt)
  qed
  then show "utf8_seq_len c = Some n" "utf8_bytes n c = take n s" by blast+
qed

section \<open>Well-formed text\<close>

definition utf8_ok :: "u32 \<Rightarrow> bool" where
  "utf8_ok c \<longleftrightarrow> c \<le> 0x7FFFFFFF \<and> \<not> utf8_bad_char c"

definition utf8_enc :: "u32 \<Rightarrow> bytes" where
  "utf8_enc c = (case utf8_seq_len c of None \<Rightarrow> [] | Some l \<Rightarrow> utf8_bytes l c)"

lemma utf8_ok_seq_len: "utf8_ok c \<Longrightarrow> \<exists>l. utf8_seq_len c = Some l \<and> utf8_enc c = utf8_bytes l c \<and> length (utf8_enc c) = l"
proof -
  assume "utf8_ok c"
  then have "utf8_seq_len c \<noteq> None" by (simp add: utf8_ok_def utf8_seq_len_def)
  then obtain l where l: "utf8_seq_len c = Some l" by blast
  then have "length (utf8_bytes l c) = l" using utf8_seq_len_range by (blast intro: length_utf8_bytes)
  with l show ?thesis by (simp add: utf8_enc_def)
qed

lemma utf8_from_ucs4_enc:
  "utf8_ok c \<Longrightarrow> UTF8_FROM_UCS4 c room =
     (if length (utf8_enc c) > room then Inl PARSERUTILS_NOMEM else Inr (utf8_enc c))"
  using utf8_ok_seq_len [of c] by (auto simp: UTF8_FROM_UCS4_def)

text \<open>What a character encoding promises to its clients: encodings are not empty, decoding
  an encoding gives the character back whatever follows, a proper prefix of an encoding asks
  for more data, and only encodings decode.\<close>

locale char_encoding =
  fixes enc :: "'c \<Rightarrow> bytes"
    and dec :: "bytes \<Rightarrow> parserutils_error + ('c \<times> nat)"
    and ok :: "'c \<Rightarrow> bool"
  assumes enc_nonempty: "ok c \<Longrightarrow> enc c \<noteq> []"
    and dec_enc: "ok c \<Longrightarrow> dec (enc c @ rest) = Inr (c, length (enc c))"
    and dec_prefix: "ok c \<Longrightarrow> k < length (enc c) \<Longrightarrow> dec (take k (enc c)) = Inl PARSERUTILS_NEEDDATA"
    and dec_canonical: "dec s = Inr (c, n) \<Longrightarrow> ok c \<and> n \<le> length s \<and> enc c = take n s"
begin

lemma enc_text_unique:
  assumes "list_all ok cs" and "list_all ok ds"
    and "concat (map enc cs) = concat (map enc ds)"
  shows "cs = ds"
  using assms
proof (induction cs arbitrary: ds)
  case Nil
  then show ?case using enc_nonempty by (cases ds) auto
next
  case (Cons c cs)
  then obtain d ds' where ds: "ds = d # ds'" using enc_nonempty by (cases ds) auto
  have "dec (enc c @ concat (map enc cs)) = Inr (c, length (enc c))"
    using Cons.prems(1) by (simp add: dec_enc)
  moreover have "dec (enc d @ concat (map enc ds')) = Inr (d, length (enc d))"
    using Cons.prems(2) ds by (simp add: dec_enc)
  ultimately have "c = d" using Cons.prems(3) ds by simp
  with Cons ds show ?case by simp
qed

text \<open>Where a split falls in well-formed text: after whole characters, or inside one.\<close>

lemma split_text:
  assumes "list_all ok cs" and "x @ y = concat (map enc cs)"
  shows "\<exists>ds es p q. list_all ok ds \<and> list_all ok es \<and> x = concat (map enc ds) @ p \<and>
    y = q @ concat (map enc es) \<and>
    (p = [] \<and> q = [] \<and> cs = ds @ es \<or>
     (\<exists>c. ok c \<and> enc c = p @ q \<and> p \<noteq> [] \<and> q \<noteq> [] \<and> cs = ds @ c # es))"
  using assms
proof (induction cs arbitrary: x)
  case Nil
  then show ?case by (intro exI [of _ "[]"]) auto
next
  case (Cons c cs)
  have okc: "ok c" and okcs: "list_all ok cs" using Cons.prems(1) by simp_all
  have eq: "x @ y = enc c @ concat (map enc cs)" using Cons.prems(2) by simp
  show ?case
  proof (cases "length (enc c) \<le> length x")
    case True
    define x' where "x' = drop (length (enc c)) x"
    have "take (length (enc c)) (x @ y) = enc c" and "drop (length (enc c)) (x @ y) = concat (map enc cs)"
      unfolding eq by simp_all
    with True have x: "x = enc c @ x'" and x': "x' @ y = concat (map enc cs)"
      by (simp_all add: x'_def) (metis append_take_drop_id)
    from Cons.IH [OF okcs x'] obtain ds es p q where
      d: "list_all ok ds" "list_all ok es" "x' = concat (map enc ds) @ p" "y = q @ concat (map enc es)"
        "p = [] \<and> q = [] \<and> cs = ds @ es \<or>
         (\<exists>c. ok c \<and> enc c = p @ q \<and> p \<noteq> [] \<and> q \<noteq> [] \<and> cs = ds @ c # es)"
      by blast
    have "list_all ok (c # ds)" "x = concat (map enc (c # ds)) @ p"
      using okc d(1,3) x by simp_all
    moreover have "p = [] \<and> q = [] \<and> c # cs = (c # ds) @ es \<or>
         (\<exists>c'. ok c' \<and> enc c' = p @ q \<and> p \<noteq> [] \<and> q \<noteq> [] \<and> c # cs = (c # ds) @ c' # es)"
      using d(5) by auto
    ultimately show ?thesis using d(2,4) by blast
  next
    case False
    define q where "q = drop (length x) (enc c)"
    have "take (length x) (enc c @ concat (map enc cs)) = x" and "drop (length x) (enc c @ concat (map enc cs)) = y"
      unfolding eq [symmetric] by simp_all
    with False have q: "enc c = x @ q" "y = q @ concat (map enc cs)"
      by (simp_all add: q_def) (metis append_take_drop_id)
    show ?thesis
    proof (cases "x = []")
      case True
      with q okc okcs show ?thesis
        by (intro exI [of _ "[]"] exI [of _ "c # cs"]) auto
    next
      case x: False
      from False q have "q \<noteq> []" by auto
      with q okc okcs x show ?thesis
        by (intro exI [of _ "[]"] exI [of _ cs] exI [of _ x] exI [of _ q]) auto
    qed
  qed
qed

end

interpretation utf8: char_encoding utf8_enc UTF8_TO_UCS4 utf8_ok
proof unfold_locales
  fix c assume "utf8_ok c"
  then obtain l where l: "utf8_seq_len c = Some l" "utf8_enc c = utf8_bytes l c" "length (utf8_enc c) = l"
    using utf8_ok_seq_len by blast
  show "utf8_enc c \<noteq> []" using l utf8_seq_len_range [OF l(1)] by auto
next
  fix c rest assume ok: "utf8_ok c"
  then obtain l where l: "utf8_seq_len c = Some l" "utf8_enc c = utf8_bytes l c" "length (utf8_enc c) = l"
    using utf8_ok_seq_len by blast
  show "UTF8_TO_UCS4 (utf8_enc c @ rest) = Inr (c, length (utf8_enc c))"
    unfolding l(2) length_utf8_bytes [OF conjunct1 [OF utf8_seq_len_range [OF l(1)]]]
    using ok by (intro utf8_decode_encoded l(1)) (simp add: utf8_ok_def)
next
  fix c k assume ok: "utf8_ok c" and k: "k < length (utf8_enc c)"
  then obtain l where l: "utf8_seq_len c = Some l" "utf8_enc c = utf8_bytes l c" "length (utf8_enc c) = l"
    using utf8_ok_seq_len by blast
  show "UTF8_TO_UCS4 (take k (utf8_enc c)) = Inl PARSERUTILS_NEEDDATA"
    using k unfolding l(3) unfolding l(2) by (rule utf8_need_data [OF l(1)])
next
  fix s c n assume a: "UTF8_TO_UCS4 s = Inr (c, n)"
  note can = utf8_decode_canonical [OF a]
  have "c \<le> 0x7FFFFFFF" using can(1)
    by (auto simp: utf8_seq_len_def word_less_nat_alt word_le_nat_alt split: if_splits)
  with can show "utf8_ok c \<and> n \<le> length s \<and> utf8_enc c = take n s"
    by (simp add: utf8_ok_def utf8_enc_def)
qed

section \<open>Measuring and moving in well-formed text\<close>

declare utf8_skip_conts.simps [simp del]

lemma is_cont_byte_iff: "is_cont_byte b \<longleftrightarrow> utf8_is_cont (ucast b)"
  by (rule all_u8_list) code_simp

lemma start_or_cont: "is_start_byte b = (\<not> is_cont_byte b)"
  by (rule all_u8_list) code_simp

lemma utf8_skip_lead: "utf8_skip (ucast (b :: u8)) = map_option (\<lambda>(_, n, _). n) (utf8_lead (ucast b))"
  by (rule all_u8_list) code_simp

lemma lead_not_cont: "utf8_lead (ucast (b :: u8)) \<noteq> None \<longrightarrow> \<not> is_cont_byte b"
  by (rule all_u8_list) code_simp

lemma lead_numContinuations:
  "case utf8_lead (ucast (b :: u8)) of None \<Rightarrow> True | Some (_, n, _) \<Rightarrow> numContinuations ! unat b + 1 = n"
  by (rule all_u8_list) code_simp

lemma conts_are_cont: "list_all is_cont_byte (utf8_conts k c)"
  by (induction k arbitrary: c) (simp_all add: is_cont_byte_iff cont_enc)

text \<open>An encoding is a start byte followed by continuation bytes.\<close>

lemma utf8_enc_shape:
  assumes "utf8_ok c"
  shows "\<exists>b ys. utf8_enc c = b # ys \<and> \<not> is_cont_byte b \<and> list_all is_cont_byte ys \<and>
    utf8_skip (ucast b) = Some (Suc (length ys)) \<and> numContinuations ! unat b = length ys"
proof -
  from utf8_ok_seq_len [OF assms] obtain l where
    l: "utf8_seq_len c = Some l" "utf8_enc c = utf8_bytes l c" "length (utf8_enc c) = l" by blast
  from utf8_lead_bytes [OF l(1)] obtain b where
    b: "utf8_bytes l c = b # utf8_conts (l - 1) c"
      "utf8_lead (ucast b) = Some (drop_bit (6 * (l - 1)) c, l, utf8_min l)" by blast
  have "l = Suc (l - 1)" using utf8_seq_len_range [OF l(1)] by simp
  with l b conts_are_cont [of "l - 1" c] utf8_skip_lead [of b] lead_not_cont [of b] lead_numContinuations [of b]
  show ?thesis by auto
qed

lemma utf8_length_text:
  "list_all utf8_ok cs \<Longrightarrow> UTF8_LENGTH (concat (map utf8_enc cs)) l = Inr (l + length cs)"
proof (induction cs arbitrary: l)
  case (Cons c cs)
  then obtain b ys where "utf8_enc c = b # ys" "utf8_skip (ucast b) = Some (Suc (length ys))"
    using utf8_enc_shape [of c] by auto
  with Cons show ?case by simp
qed simp

lemma skip_conts_run:
  "list_all is_cont_byte ys \<Longrightarrow> zs = [] \<or> \<not> is_cont_byte (hd zs) \<Longrightarrow>
   utf8_skip_conts (xs @ ys @ zs) (length xs) = length xs + length ys"
proof (induction ys arbitrary: xs)
  case Nil
  then show ?case by (subst utf8_skip_conts.simps) (auto simp: nth_append hd_conv_nth)
next
  case (Cons y ys)
  from Cons.IH [of "xs @ [y]"] Cons.prems show ?case
    by (subst utf8_skip_conts.simps) simp
qed

lemma prev_run:
  "list_all is_cont_byte ys \<Longrightarrow> \<not> is_cont_byte b \<Longrightarrow>
   UTF8_PREV (xs @ b # ys @ zs) (Suc (length xs + length ys)) = Some (length xs)"
proof (induction ys arbitrary: zs rule: rev_induct)
  case Nil
  then show ?case by simp
next
  case (snoc y ys)
  from snoc.IH [of "y # zs"] snoc.prems show ?case by (simp add: nth_append)
qed

lemma hd_text_not_cont:
  "list_all utf8_ok es \<Longrightarrow> concat (map utf8_enc es) = [] \<or> \<not> is_cont_byte (hd (concat (map utf8_enc es)))"
  using utf8_enc_shape [of "hd es"] by (cases es) auto

lemma next_char:
  assumes "utf8_ok c" and "list_all utf8_ok es"
  shows "UTF8_NEXT (xs @ utf8_enc c @ concat (map utf8_enc es)) (length xs) = Inr (length xs + length (utf8_enc c))"
proof -
  from utf8_enc_shape [OF assms(1)] obtain b ys where
    b: "utf8_enc c = b # ys" "\<not> is_cont_byte b" "list_all is_cont_byte ys" by blast
  from skip_conts_run [OF b(3) hd_text_not_cont [OF assms(2)], of "xs @ [b]"] b show ?thesis
    by (simp add: UTF8_NEXT_def start_or_cont)
qed

lemma prev_char:
  assumes "utf8_ok c"
  shows "UTF8_PREV (xs @ utf8_enc c @ zs) (length xs + length (utf8_enc c)) = Some (length xs)"
proof -
  from utf8_enc_shape [OF assms(1)] obtain b ys where
    b: "utf8_enc c = b # ys" "\<not> is_cont_byte b" "list_all is_cont_byte ys" by blast
  from prev_run [OF b(3,2), of xs zs] b show ?thesis by simp
qed

lemma valid_prefix_bounds: "k \<le> utf8_valid_prefix s n k \<and> utf8_valid_prefix s n k \<le> k + n"
  by (induction s n k rule: utf8_valid_prefix.induct) auto

lemma next_paranoid_progress:
  "UTF8_NEXT_PARANOID s off = Inr n \<Longrightarrow> off < n \<and> n \<le> length s"
  using valid_prefix_bounds [of 1 "drop off s" "numContinuations ! unat (s ! off)"]
  by (auto simp: UTF8_NEXT_PARANOID_def Let_def split: if_splits)

section \<open>Properties\<close>

text \<open>C2: Every code point up to 0x7FFFFFFF that is not a surrogate, U+FFFE or U+FFFF encodes into
  at most six bytes, and decoding those bytes, whatever follows them, returns the code
  point and their number.\<close>

theorem utf8_roundtrip:
  assumes "c \<le> 0x7FFFFFFF" and "\<not> utf8_bad_char c"
  shows "\<exists>bs. UTF8_FROM_UCS4 c 6 = Inr bs \<and> length bs \<le> 6 \<and>
    UTF8_TO_UCS4 (bs @ rest) = Inr (c, length bs)"
proof -
  have ok: "utf8_ok c" using assms by (simp add: utf8_ok_def)
  from utf8_ok_seq_len [OF this] obtain l where
    "utf8_seq_len c = Some l" "length (utf8_enc c) = l" by blast
  then have "length (utf8_enc c) \<le> 6" using utf8_seq_len_range by blast
  with utf8.dec_enc [OF ok, of rest] utf8_from_ucs4_enc [OF ok, of 6] show ?thesis by auto
qed

theorem utf8_roundtrip_witness:
  "\<exists>bs. UTF8_FROM_UCS4 0x20AC 6 = Inr bs \<and> length bs \<le> 6 \<and>
     UTF8_TO_UCS4 (bs @ [0x41]) = Inr (0x20AC, length bs)"
proof -
  have "(0x20AC :: u32) \<le> 0x7FFFFFFF" "\<not> utf8_bad_char 0x20AC" by (simp_all add: utf8_bad_char_def)
  then show ?thesis by (rule utf8_roundtrip)
qed

text \<open>C27: The decoder accepts canonical encodings only: whenever it returns a code point and a
  length, encoding that code point gives back exactly those bytes, so no overlong form, no
  surrogate and no noncharacter U+FFFE or U+FFFF is accepted.\<close>

theorem utf8_decode_is_canonical:
  assumes "UTF8_TO_UCS4 s = Inr (c, n)"
  shows "UTF8_FROM_UCS4 c n = Inr (take n s) \<and> n \<le> length s \<and> \<not> utf8_bad_char c"
  using utf8_decode_canonical [OF assms] by (simp add: UTF8_FROM_UCS4_def)

theorem utf8_decode_is_canonical_witness:
  "UTF8_TO_UCS4 [0xC3, 0xA9, 0x21] = Inr (0xE9, 2) \<and>
   UTF8_FROM_UCS4 0xE9 2 = Inr (take 2 [0xC3, 0xA9, 0x21]) \<and> 2 \<le> length [0xC3, 0xA9, 0x21 :: u8] \<and>
   \<not> utf8_bad_char 0xE9"
proof -
  have h: "UTF8_TO_UCS4 [0xC3, 0xA9, 0x21] = Inr (0xE9, 2)" by code_simp
  show ?thesis using h utf8_decode_is_canonical [OF h] by blast
qed

text \<open>On well-formed text, UTF8_LENGTH counts the characters, and stepping forward from a
  character's first byte and then back returns to it: UTF8_NEXT moves past exactly that
  character and UTF8_PREV from there returns to its start.\<close>

theorem utf8_next_prev:
  assumes "list_all utf8_ok ds" and "utf8_ok c" and "list_all utf8_ok es"
  defines "s \<equiv> concat (map utf8_enc (ds @ c # es))" and "off \<equiv> length (concat (map utf8_enc ds))"
  shows "UTF8_LENGTH s 0 = Inr (length ds + 1 + length es) \<and>
    UTF8_NEXT s off = Inr (off + length (utf8_enc c)) \<and>
    UTF8_PREV s (off + length (utf8_enc c)) = Some off"
proof -
  have s: "s = concat (map utf8_enc ds) @ utf8_enc c @ concat (map utf8_enc es)" by (simp add: s_def)
  have "UTF8_LENGTH s 0 = Inr (length ds + 1 + length es)"
    using utf8_length_text [of "ds @ c # es" 0] assms(1-3) by (simp add: s_def)
  moreover have "UTF8_NEXT s off = Inr (off + length (utf8_enc c))"
    unfolding s off_def by (rule next_char [OF assms(2,3)])
  moreover have "UTF8_PREV s (off + length (utf8_enc c)) = Some off"
    unfolding s off_def by (rule prev_char [OF assms(2)])
  ultimately show ?thesis by blast
qed

theorem utf8_next_prev_witness:
  "UTF8_LENGTH (concat (map utf8_enc ([0x41] @ 0x20AC # [0x42]))) 0 =
     Inr (length [0x41 :: u32] + 1 + length [0x42 :: u32]) \<and>
   UTF8_NEXT (concat (map utf8_enc ([0x41] @ 0x20AC # [0x42]))) (length (concat (map utf8_enc [0x41]))) =
     Inr (length (concat (map utf8_enc [0x41])) + length (utf8_enc 0x20AC)) \<and>
   UTF8_PREV (concat (map utf8_enc ([0x41] @ 0x20AC # [0x42])))
       (length (concat (map utf8_enc [0x41])) + length (utf8_enc 0x20AC)) =
     Some (length (concat (map utf8_enc [0x41])))"
  by (rule utf8_next_prev) (simp_all add: utf8_ok_def utf8_bad_char_def)

end
