(* ===== verification/Utf8_Codec.thy ===== *)
theory Utf8_Codec
  imports Utf8
begin

text \<open>
  The UTF-8 charset codec, \<^verbatim>\<open>libparserutils/src/charset/codecs/codec_utf8.c\<close>: decoding
  UTF-8 chunks to big-endian UCS-4 and encoding UCS-4 to UTF-8, both restartable. The state
  keeps the incomplete sequence at the end of the last chunk and the characters that did not
  fit into the output buffer. A buffer and its length field are one list (the valid part); the
  space left in the caller's output buffer is a number of bytes, and what is written is part of
  the result. A failed assertion is \<open>None\<close>. The decode loop carries fuel; a read consumes
  at least one byte, so one unit per input byte and one to notice the end are enough
  (\<open>decode_loop_total\<close>).
\<close>

section \<open>State and operations\<close>

datatype codec_errormode =
    PARSERUTILS_CHARSET_CODEC_ERROR_STRICT
  | PARSERUTILS_CHARSET_CODEC_ERROR_LOOSE
  | PARSERUTILS_CHARSET_CODEC_ERROR_TRANSLIT

record charset_utf8_codec =
  c_errormode :: codec_errormode
  c_inval_buf :: bytes
  c_read_buf :: "u32 list"
  c_write_buf :: "u32 list"

abbreviation (input) INVAL_BUFSIZE :: nat where "INVAL_BUFSIZE \<equiv> 32"
abbreviation (input) WRITE_BUFSIZE :: nat where "WRITE_BUFSIZE \<equiv> 8"

definition charset_utf8_codec_create :: charset_utf8_codec where
  "charset_utf8_codec_create = \<lparr>c_errormode = PARSERUTILS_CHARSET_CODEC_ERROR_LOOSE,
     c_inval_buf = [], c_read_buf = [], c_write_buf = []\<rparr>"

definition charset_utf8_codec_reset :: "charset_utf8_codec \<Rightarrow> charset_utf8_codec" where
  "charset_utf8_codec_reset c = c\<lparr>c_inval_buf := [], c_read_buf := [], c_write_buf := []\<rparr>"

definition be32 :: "u32 \<Rightarrow> bytes" where
  "be32 u = [ucast (drop_bit 24 u), ucast (drop_bit 16 u), ucast (drop_bit 8 u), ucast u]"

definition of_be32 :: "u8 \<Rightarrow> u8 \<Rightarrow> u8 \<Rightarrow> u8 \<Rightarrow> u32" where
  "of_be32 w x y z = push_bit 24 (ucast w) OR push_bit 16 (ucast x) OR push_bit 8 (ucast y) OR ucast z"

text \<open>A step returns the error code, the codec, the unread input, what was written and the
  space left.\<close>

type_synonym codec_step = "parserutils_error \<times> charset_utf8_codec \<times> bytes \<times> bytes \<times> nat"

definition charset_utf8_codec_output_decoded_char ::
  "charset_utf8_codec \<Rightarrow> u32 \<Rightarrow> nat \<Rightarrow> parserutils_error \<times> charset_utf8_codec \<times> bytes \<times> nat" where
  "charset_utf8_codec_output_decoded_char c ucs4 room =
     (if room < 4 then (PARSERUTILS_NOMEM, c\<lparr>c_read_buf := [ucs4]\<rparr>, [], room)
      else (PARSERUTILS_OK, c, be32 ucs4, room - 4))"

definition charset_utf8_codec_read_char ::
  "charset_utf8_codec \<Rightarrow> bytes \<Rightarrow> nat \<Rightarrow> codec_step option" where
  "charset_utf8_codec_read_char c src room =
     (case UTF8_TO_UCS4 src of
        Inr (ucs4, n) \<Rightarrow>
          (let (e, c', out, room') = charset_utf8_codec_output_decoded_char c ucs4 room
           in Some (e, c'\<lparr>c_inval_buf := []\<rparr>, drop n src, out, room'))
      | Inl PARSERUTILS_NEEDDATA \<Rightarrow>
          (if length src < INVAL_BUFSIZE
           then Some (PARSERUTILS_OK, c\<lparr>c_inval_buf := src\<rparr>, [], [], room) else None)
      | Inl PARSERUTILS_INVALID \<Rightarrow>
          (if c_errormode c = PARSERUTILS_CHARSET_CODEC_ERROR_STRICT
           then Some (PARSERUTILS_INVALID, c\<lparr>c_inval_buf := []\<rparr>, src, [], room)
           else
             (case UTF8_NEXT_PARANOID src 0 of
                Inl PARSERUTILS_NEEDDATA \<Rightarrow>
                  \<comment> \<open>the rest of the input is saved in the inval buffer, which is then cleared\<close>
                  (if length src < INVAL_BUFSIZE
                   then (let (e, c', out, room') =
                             charset_utf8_codec_output_decoded_char (c\<lparr>c_inval_buf := []\<rparr>) 0xFFFD room
                         in Some (e, c', [], out, room'))
                   else None)
              | Inl e \<Rightarrow> Some (e, c, src, [], room)
              | Inr nextchar \<Rightarrow>
                  (let (e, c', out, room') =
                      charset_utf8_codec_output_decoded_char (c\<lparr>c_inval_buf := []\<rparr>) 0xFFFD room
                   in Some (e, c', drop nextchar src, out, room'))))
      | Inl _ \<Rightarrow> Some (PARSERUTILS_OK, c, src, [], room))"

fun decode_loop :: "nat \<Rightarrow> charset_utf8_codec \<Rightarrow> bytes \<Rightarrow> nat \<Rightarrow> codec_step option" where
  "decode_loop 0 c src room = None"
| "decode_loop (Suc fuel) c src room =
     (if src = [] then Some (PARSERUTILS_OK, c, [], [], room)
      else (case charset_utf8_codec_read_char c src room of
              None \<Rightarrow> None
            | Some (e, c', src', out, room') \<Rightarrow>
                if e \<noteq> PARSERUTILS_OK then Some (e, c', src', out, room')
                else map_option (\<lambda>(e, c, s, o2, r). (e, c, s, out @ o2, r))
                       (decode_loop fuel c' src' room')))"

text \<open>Output left over from the last call, written while all of it fits.\<close>

fun flush_read :: "u32 list \<Rightarrow> nat \<Rightarrow> bytes \<times> u32 list \<times> nat" where
  "flush_read [] room = ([], [], room)"
| "flush_read (u # us) room =
     (if room \<ge> 4 * length (u # us)
      then (let (out, rest, room') = flush_read us (room - 4) in (be32 u @ out, rest, room'))
      else ([], u # us, room))"

definition charset_utf8_codec_decode ::
  "charset_utf8_codec \<Rightarrow> bytes \<Rightarrow> nat \<Rightarrow> codec_step option" where
  "charset_utf8_codec_decode c src room =
     (let (out1, rest, room1) = flush_read (c_read_buf c) room;
          c1 = c\<lparr>c_read_buf := rest\<rparr>
      in if rest \<noteq> [] then Some (PARSERUTILS_NOMEM, c1, src, out1, room1)
         else if c_inval_buf c1 \<noteq> [] then
           (let ol = length (c_inval_buf c1);
                l = min (INVAL_BUFSIZE - ol - 1) (length src)
            in (case charset_utf8_codec_read_char c1 (c_inval_buf c1 @ take l src) room1 of
                  None \<Rightarrow> None
                | Some (e, c2, left, out2, room2) \<Rightarrow>
                    if e \<noteq> PARSERUTILS_OK \<and> e \<noteq> PARSERUTILS_NOMEM
                    then Some (e, c2, src, out1 @ out2, room2)
                    else if length left = l + ol then None
                    else (let src2 = drop (l - length left) src
                          in if e \<noteq> PARSERUTILS_OK then Some (e, c2, src2, out1 @ out2, room2)
                             else map_option (\<lambda>(e, c, s, o3, r). (e, c, s, out1 @ out2 @ o3, r))
                                    (decode_loop (Suc (length src2)) c2 src2 room2))))
         else map_option (\<lambda>(e, c, s, o2, r). (e, c, s, out1 @ o2, r))
                (decode_loop (Suc (length src)) c1 src room1))"

text \<open>Encoding: first the characters held back by the last call, then this call's.\<close>

fun flush_write :: "u32 list \<Rightarrow> nat \<Rightarrow> (parserutils_error \<times> u32 list \<times> bytes \<times> nat) option" where
  "flush_write [] room = Some (PARSERUTILS_OK, [], [], room)"
| "flush_write (u # us) room =
     (case UTF8_FROM_UCS4 u room of
        Inr bs \<Rightarrow> map_option (\<lambda>(e, rest, out, r). (e, rest, bs @ out, r))
                    (flush_write us (room - length bs))
      | Inl PARSERUTILS_NOMEM \<Rightarrow> Some (PARSERUTILS_NOMEM, u # us, [], room)
      | Inl _ \<Rightarrow> None)"

fun encode_loop :: "charset_utf8_codec \<Rightarrow> bytes \<Rightarrow> nat \<Rightarrow> codec_step option" where
  "encode_loop c [] room = Some (PARSERUTILS_OK, c, [], [], room)"
| "encode_loop c (w # x # y # z # src) room =
     (case UTF8_FROM_UCS4 (of_be32 w x y z) room of
        Inr bs \<Rightarrow> map_option (\<lambda>(e, c, s, out, r). (e, c, s, bs @ out, r))
                    (encode_loop c src (room - length bs))
      | Inl PARSERUTILS_NOMEM \<Rightarrow>
          Some (PARSERUTILS_NOMEM, c\<lparr>c_write_buf := [of_be32 w x y z]\<rparr>, src, [], room)
      | Inl _ \<Rightarrow> None)"
| "encode_loop c src room = None"

definition charset_utf8_codec_encode ::
  "charset_utf8_codec \<Rightarrow> bytes \<Rightarrow> nat \<Rightarrow> codec_step option" where
  "charset_utf8_codec_encode c src room =
     (case flush_write (c_write_buf c) room of
        None \<Rightarrow> None
      | Some (e, rest, out1, room1) \<Rightarrow>
          (let c1 = c\<lparr>c_write_buf := rest\<rparr> in
           if e \<noteq> PARSERUTILS_OK then Some (e, c1, src, out1, room1)
           else map_option (\<lambda>(e, c, s, out, r). (e, c, s, out1 @ out, r)) (encode_loop c1 src room1)))"

section \<open>A read always makes progress\<close>

definition codec_inv :: "charset_utf8_codec \<Rightarrow> bool" where
  "codec_inv c \<longleftrightarrow> length (c_inval_buf c) < 6 \<and> length (c_read_buf c) \<le> 1"

lemma to_ucs4_errors:
  "UTF8_TO_UCS4 s = Inl e \<Longrightarrow> e = PARSERUTILS_NEEDDATA \<and> length s < 6 \<or> e = PARSERUTILS_INVALID \<and> s \<noteq> []"
  using utf8_lead_class
  by (fastforce simp: UTF8_TO_UCS4_def utf8_class_def split: list.splits option.splits if_splits)

lemma to_ucs4_ok: "UTF8_TO_UCS4 s = Inr (c, n) \<Longrightarrow> 0 < n \<and> n \<le> length s"
  using utf8_decode_canonical [of s c n] utf8_seq_len_range [of c n] by auto

lemma next_paranoid_cases:
  assumes "s \<noteq> []"
  shows "UTF8_NEXT_PARANOID s 0 = Inl PARSERUTILS_NEEDDATA \<and> length s \<le> 6 \<or>
    (\<exists>n. UTF8_NEXT_PARANOID s 0 = Inr n \<and> 0 < n \<and> n \<le> length s)"
proof -
  have "numContinuations ! unat b \<le> 5" for b :: u8
    by (rule all_u8_list) code_simp
  then have "numContinuations ! unat (s ! 0) \<le> 5" .
  with assms next_paranoid_progress [of s 0] show ?thesis
    by (auto simp: UTF8_NEXT_PARANOID_def Let_def split: if_splits)
qed

lemma output_char_cases:
  assumes "charset_utf8_codec_output_decoded_char c u room = (e, c', out, room')"
  shows "e = PARSERUTILS_OK \<and> c' = c \<and> out = be32 u \<and> room = room' + 4 \<or>
    e = PARSERUTILS_NOMEM \<and> c' = c\<lparr>c_read_buf := [u]\<rparr> \<and> out = [] \<and> room' = room \<and> room < 4"
  using assms by (auto simp: charset_utf8_codec_output_decoded_char_def split: if_splits)

lemma read_char_total:
  assumes "src \<noteq> []" and "codec_inv c" and "c_read_buf c = []"
  shows "\<exists>e c' src' out room'. charset_utf8_codec_read_char c src room = Some (e, c', src', out, room') \<and>
    codec_inv c' \<and> length out + room' = room \<and> (e = PARSERUTILS_OK \<longrightarrow> c_read_buf c' = []) \<and>
    (e \<in> {PARSERUTILS_OK, PARSERUTILS_NOMEM} \<and> length src' < length src \<or>
     e = PARSERUTILS_INVALID \<and> c_errormode c = PARSERUTILS_CHARSET_CODEC_ERROR_STRICT \<and> src' = src) \<and>
    c_errormode c' = c_errormode c"
proof (cases "UTF8_TO_UCS4 src")
  case (Inr r)
  obtain u n where r: "r = (u, n)" by force
  obtain e c' out room' where
    o: "charset_utf8_codec_output_decoded_char c u room = (e, c', out, room')" by (metis prod_cases4)
  from output_char_cases [OF o] Inr r o assms to_ucs4_ok [of src u n] show ?thesis
    by (auto simp: charset_utf8_codec_read_char_def codec_inv_def be32_def)
next
  case (Inl err)
  from to_ucs4_errors [OF Inl] show ?thesis
  proof
    assume "err = PARSERUTILS_NEEDDATA \<and> length src < 6"
    with Inl assms show ?thesis by (auto simp: charset_utf8_codec_read_char_def codec_inv_def)
  next
    assume "err = PARSERUTILS_INVALID \<and> src \<noteq> []"
    then have err: "err = PARSERUTILS_INVALID" ..
    obtain e c' out room' where
      o: "charset_utf8_codec_output_decoded_char (c\<lparr>c_inval_buf := []\<rparr>) 0xFFFD room = (e, c', out, room')"
      by (metis prod_cases4)
    show ?thesis
    proof (cases "c_errormode c = PARSERUTILS_CHARSET_CODEC_ERROR_STRICT")
      case True
      with Inl err assms show ?thesis by (auto simp: charset_utf8_codec_read_char_def codec_inv_def)
    next
      case False
      from next_paranoid_cases [OF assms(1)] output_char_cases [OF o] Inl err False o assms show ?thesis
        by (auto simp: charset_utf8_codec_read_char_def codec_inv_def be32_def)
    qed
  qed
qed

lemma decode_loop_total:
  assumes "length src < fuel" and "codec_inv c" and "c_read_buf c = []"
  shows "\<exists>e c' src' out room'. decode_loop fuel c src room = Some (e, c', src', out, room') \<and>
    codec_inv c' \<and> length out + room' = room \<and>
    (e = PARSERUTILS_OK \<and> src' = [] \<or> e = PARSERUTILS_NOMEM \<or>
     e = PARSERUTILS_INVALID \<and> c_errormode c = PARSERUTILS_CHARSET_CODEC_ERROR_STRICT)"
  using assms
proof (induction fuel arbitrary: c src room)
  case 0
  then show ?case by simp
next
  case (Suc fuel)
  show ?case
  proof (cases "src = []")
    case True
    with Suc.prems show ?thesis by simp
  next
    case False
    from read_char_total [OF False Suc.prems(2,3), of room] obtain e c1 src1 out1 room1 where
      r: "charset_utf8_codec_read_char c src room = Some (e, c1, src1, out1, room1)"
        "codec_inv c1" "length out1 + room1 = room" "e = PARSERUTILS_OK \<longrightarrow> c_read_buf c1 = []"
        "e \<in> {PARSERUTILS_OK, PARSERUTILS_NOMEM} \<and> length src1 < length src \<or>
         e = PARSERUTILS_INVALID \<and> c_errormode c = PARSERUTILS_CHARSET_CODEC_ERROR_STRICT \<and> src1 = src"
        "c_errormode c1 = c_errormode c"
      by blast
    show ?thesis
    proof (cases "e = PARSERUTILS_OK")
      case True
      with r Suc.prems have "length src1 < fuel" "c_read_buf c1 = []" by auto
      from Suc.IH [OF this(1) r(2) this(2), of room1] r False True show ?thesis by auto
    next
      case e: False
      with r False show ?thesis by auto
    qed
  qed
qed


section \<open>Decoding well-formed text\<close>

definition utf8_pending :: "bytes \<Rightarrow> bool" where
  "utf8_pending p \<longleftrightarrow> UTF8_TO_UCS4 p = Inl PARSERUTILS_NEEDDATA"

lemma pending_nil [simp]: "utf8_pending []"
  by (simp add: utf8_pending_def UTF8_TO_UCS4_def)

lemma pending_short: "utf8_pending p \<Longrightarrow> length p < 6"
  using to_ucs4_errors by (fastforce simp: utf8_pending_def)

lemma pending_prefix: "utf8_ok ch \<Longrightarrow> utf8_enc ch = p @ q \<Longrightarrow> q \<noteq> [] \<Longrightarrow> utf8_pending p"
  using utf8.dec_prefix [of ch "length p"] by (simp add: utf8_pending_def)

lemma codec_same [simp]:
  "c_inval_buf c = [] \<Longrightarrow> c\<lparr>c_inval_buf := []\<rparr> = c"
  "c_read_buf c = [] \<Longrightarrow> c\<lparr>c_read_buf := []\<rparr> = c"
  "c_write_buf c = [] \<Longrightarrow> c\<lparr>c_write_buf := []\<rparr> = c" for c :: charset_utf8_codec
  by simp_all

lemma length_be32 [simp]: "length (be32 u) = 4"
  by (simp add: be32_def)

lemma read_char_ok:
  assumes "utf8_ok u" and "4 \<le> room"
  shows "charset_utf8_codec_read_char c (utf8_enc u @ rest) room =
    Some (PARSERUTILS_OK, c\<lparr>c_inval_buf := []\<rparr>, rest, be32 u, room - 4)"
  using assms utf8.dec_enc [of u rest]
  by (simp add: charset_utf8_codec_read_char_def charset_utf8_codec_output_decoded_char_def)

lemma read_char_pending:
  assumes "utf8_pending p"
  shows "charset_utf8_codec_read_char c p room = Some (PARSERUTILS_OK, c\<lparr>c_inval_buf := p\<rparr>, [], [], room)"
  using assms pending_short [OF assms] by (simp add: charset_utf8_codec_read_char_def utf8_pending_def)

lemma decode_loop_text:
  assumes "list_all utf8_ok ds" and "utf8_pending p" and "c_inval_buf c = []"
    and "length (concat (map utf8_enc ds) @ p) < fuel" and "4 * length ds \<le> room"
  shows "decode_loop fuel c (concat (map utf8_enc ds) @ p) room =
    Some (PARSERUTILS_OK, c\<lparr>c_inval_buf := p\<rparr>, [], concat (map be32 ds), room - 4 * length ds)"
  using assms
proof (induction ds arbitrary: fuel room)
  case Nil
  show ?case
  proof (cases fuel)
    case (Suc f)
    with Nil show ?thesis
      by (cases "p = []"; cases f) (auto simp: read_char_pending)
  qed (use Nil in simp)
next
  case (Cons u ds)
  from Cons.prems obtain f where fuel: "fuel = Suc f" by (cases fuel) auto
  have u: "utf8_ok u" "utf8_enc u \<noteq> []" "4 \<le> room" using Cons.prems utf8.enc_nonempty by auto
  then have "length (concat (map utf8_enc ds) @ p) < f" using Cons.prems(4) fuel
    by (cases "utf8_enc u") auto
  from Cons.IH [OF _ Cons.prems(2,3) this, of "room - 4"] Cons.prems u fuel show ?case
    by (simp add: read_char_ok)
qed

lemma decode_text_step:
  assumes "utf8_pending (c_inval_buf c)" and "c_read_buf c = []"
    and "c_inval_buf c @ x = concat (map utf8_enc ds) @ p" and "list_all utf8_ok ds" and "utf8_pending p"
    and "4 * length ds \<le> room"
  shows "charset_utf8_codec_decode c x room =
    Some (PARSERUTILS_OK, c\<lparr>c_inval_buf := p\<rparr>, [], concat (map be32 ds), room - 4 * length ds)"
proof (cases "c_inval_buf c = []")
  case True
  with assms decode_loop_text [OF assms(4,5) True] show ?thesis
    by (simp add: charset_utf8_codec_decode_def Let_def option.map_id del: decode_loop.simps)
next
  case False
  note short = pending_short [OF assms(1)]
  show ?thesis
  proof (cases ds)
    case Nil
    with assms(3) have p: "p = c_inval_buf c @ x" by simp
    with pending_short [OF assms(5)] have l: "min (31 - length (c_inval_buf c)) (length x) = length x" by simp
    have rd: "charset_utf8_codec_read_char c (c_inval_buf c @ x) room =
        Some (PARSERUTILS_OK, c\<lparr>c_inval_buf := p\<rparr>, [], [], room)"
      using read_char_pending [OF assms(5), of c room] p by metis
    show ?thesis using False assms(2) l rd Nil
      by (simp add: charset_utf8_codec_decode_def Let_def)
  next
    case (Cons u us)
    have u: "utf8_ok u" "list_all utf8_ok us" "4 \<le> room" using assms(4,6) Cons by simp_all
    define r where "r = concat (map utf8_enc us) @ p"
    have eq: "c_inval_buf c @ x = utf8_enc u @ r" using assms(3) Cons by (simp add: r_def)
    have "length (c_inval_buf c) < length (utf8_enc u)"
    proof (rule ccontr)
      assume "\<not> ?thesis"
      moreover have "take (length (utf8_enc u)) (c_inval_buf c @ x) = utf8_enc u" by (simp add: eq)
      ultimately obtain t where "c_inval_buf c = utf8_enc u @ t" by simp (metis append_take_drop_id)
      with assms(1) utf8.dec_enc [OF u(1), of t] show False by (simp add: utf8_pending_def)
    qed
    then obtain q where q: "utf8_enc u = c_inval_buf c @ q" "x = q @ r"
      using eq by (auto simp: append_eq_append_conv2 dest: sym)
    have "length (utf8_enc u) \<le> 6" using utf8_ok_seq_len [OF u(1)] utf8_seq_len_range by blast
    define l where "l = min (31 - length (c_inval_buf c)) (length x)"
    have l: "length q \<le> l" using \<open>length (utf8_enc u) \<le> 6\<close> q by (simp add: l_def)
    have "c_inval_buf c @ take l x = utf8_enc u @ take (l - length q) r"
      using q l by simp
    with read_char_ok [OF u(1,3), of c "take (l - length q) r"]
    have rd: "charset_utf8_codec_read_char c (c_inval_buf c @ take l x) room =
      Some (PARSERUTILS_OK, c\<lparr>c_inval_buf := []\<rparr>, take (l - length q) r, be32 u, room - 4)" by simp
    have left: "length (take (l - length q) r) = l - length q" using q by (simp add: l_def)
    have dr: "drop (l - length (take (l - length q) r)) x = r" unfolding left using q l by simp
    have ne: "length (take (l - length q) r) \<noteq> l + length (c_inval_buf c)" unfolding left using False by (cases "c_inval_buf c") auto
    have loop: "decode_loop (Suc (length r)) (c\<lparr>c_inval_buf := []\<rparr>) r (room - 4) =
      Some (PARSERUTILS_OK, c\<lparr>c_inval_buf := p\<rparr>, [], concat (map be32 us), room - 4 - 4 * length us)"
      using decode_loop_text [OF u(2) assms(5), of "c\<lparr>c_inval_buf := []\<rparr>" "Suc (length r)" "room - 4"]
        assms(6) Cons by (simp add: r_def)
    show ?thesis
      using False assms(2) rd ne dr loop Cons
      by (simp add: charset_utf8_codec_decode_def Let_def l_def [symmetric] del: decode_loop.simps)
  qed
qed


text \<open>A stream of chunks, as the input stream feeds them: every call must succeed and read its
  whole chunk.\<close>

fun decode_chunks :: "nat \<Rightarrow> charset_utf8_codec \<Rightarrow> bytes list \<Rightarrow> (bytes \<times> charset_utf8_codec) option" where
  "decode_chunks room c [] = Some ([], c)"
| "decode_chunks room c (x # xs) =
     (case charset_utf8_codec_decode c x room of
        Some (PARSERUTILS_OK, c', [], out, _) \<Rightarrow>
          map_option (\<lambda>(o2, c2). (out @ o2, c2)) (decode_chunks room c' xs)
      | _ \<Rightarrow> None)"

lemma text_length: "list_all utf8_ok ds \<Longrightarrow> length ds \<le> length (concat (map utf8_enc ds))"
proof (induction ds)
  case (Cons d ds)
  then show ?case using utf8.enc_nonempty [of d] by (cases "utf8_enc d") auto
qed simp

lemma decode_chunks_text:
  assumes "list_all utf8_ok cs" and "c_inval_buf c @ concat xs = concat (map utf8_enc cs)"
    and "utf8_pending (c_inval_buf c)" and "c_read_buf c = []"
    and "list_all (\<lambda>x. 4 * (length x + 5) \<le> room) xs"
  shows "decode_chunks room c xs = Some (concat (map be32 cs), c\<lparr>c_inval_buf := []\<rparr>)"
  using assms
proof (induction xs arbitrary: c cs)
  case Nil
  then have "cs = []"
  proof (cases cs)
    case (Cons u us)
    with Nil utf8.dec_enc [of u "concat (map utf8_enc us)"] show ?thesis by (simp add: utf8_pending_def)
  qed simp
  with Nil show ?case by simp
next
  case (Cons x xs)
  have "(c_inval_buf c @ x) @ concat xs = concat (map utf8_enc cs)" using Cons.prems(2) by simp
  from utf8.split_text [OF Cons.prems(1) this] obtain ds es p q where
    d: "list_all utf8_ok ds" "list_all utf8_ok es" "c_inval_buf c @ x = concat (map utf8_enc ds) @ p"
      "concat xs = q @ concat (map utf8_enc es)"
    and e: "p = [] \<and> q = [] \<and> cs = ds @ es \<or>
       (\<exists>u. utf8_ok u \<and> utf8_enc u = p @ q \<and> p \<noteq> [] \<and> q \<noteq> [] \<and> cs = ds @ u # es)"
    by blast
  then obtain es' where es': "list_all utf8_ok es'" "cs = ds @ es'" "utf8_pending p"
      "p @ concat xs = concat (map utf8_enc es')"
    using pending_prefix by fastforce
  have "length (concat (map utf8_enc ds)) + length p = length (c_inval_buf c) + length x"
    using arg_cong [OF d(3), of length] by simp
  with text_length [OF d(1)] pending_short [OF Cons.prems(3)] Cons.prems(5)
  have room: "4 * length ds \<le> room" by simp
  from Cons.IH [of es' "c\<lparr>c_inval_buf := p\<rparr>"] es' Cons.prems(4,5)
    decode_text_step [OF Cons.prems(3,4) d(3,1) es'(3) room]
  show ?case by simp
qed

section \<open>Encoding\<close>

lemma of_be32_be32: "of_be32 (ucast (drop_bit 24 u)) (ucast (drop_bit 16 u)) (ucast (drop_bit 8 u)) (ucast u) = u"
proof (rule bit_word_eqI)
  fix n assume "n < LENGTH(32)"
  then show "bit (of_be32 (ucast (drop_bit 24 u)) (ucast (drop_bit 16 u)) (ucast (drop_bit 8 u)) (ucast u)) n = bit u n"
    by (cases "8 \<le> n"; cases "16 \<le> n"; cases "24 \<le> n") (auto simp: of_be32_def bit_simps)
qed

lemma encode_loop_text:
  assumes "list_all utf8_ok ds" and "length (concat (map utf8_enc ds)) \<le> room"
  shows "encode_loop c (concat (map be32 ds)) room =
    Some (PARSERUTILS_OK, c, [], concat (map utf8_enc ds), room - length (concat (map utf8_enc ds)))"
  using assms
proof (induction ds arbitrary: room)
  case (Cons u ds)
  then show ?case by (simp add: be32_def of_be32_be32 utf8_from_ucs4_enc)
qed simp

text \<open>When the output is full after \<open>ds\<close>, the next character is held back.\<close>

lemma encode_loop_full:
  assumes "list_all utf8_ok (ds @ [u])" and "length (concat (map utf8_enc ds)) \<le> room"
    and "room < length (concat (map utf8_enc (ds @ [u])))"
  shows "encode_loop c (concat (map be32 (ds @ [u])) @ rest) room =
    Some (PARSERUTILS_NOMEM, c\<lparr>c_write_buf := [u]\<rparr>, rest, concat (map utf8_enc ds),
      room - length (concat (map utf8_enc ds)))"
  using assms
proof (induction ds arbitrary: room)
  case Nil
  then show ?case by (simp add: be32_def of_be32_be32 utf8_from_ucs4_enc)
next
  case (Cons d ds)
  from Cons.IH [of "room - length (utf8_enc d)"] Cons.prems show ?case
    by (auto simp: be32_def of_be32_be32 utf8_from_ucs4_enc)
qed

section \<open>Properties\<close>

text \<open>Decoding never fails an assertion, never writes past the output buffer and ends: on any
  input, from any reachable codec state and with any output space, it returns OK with all of
  the input read, NOMEM, or, in strict mode only, INVALID, and the state invariant holds again.\<close>

theorem codec_decode_total:
  assumes "codec_inv c"
  shows "\<exists>e c' src' out room'. charset_utf8_codec_decode c src room = Some (e, c', src', out, room') \<and>
    codec_inv c' \<and> length out + room' = room \<and>
    (e = PARSERUTILS_OK \<and> src' = [] \<or> e = PARSERUTILS_NOMEM \<or>
     e = PARSERUTILS_INVALID \<and> c_errormode c = PARSERUTILS_CHARSET_CODEC_ERROR_STRICT)"
proof -
  obtain out1 rest room1 where f: "flush_read (c_read_buf c) room = (out1, rest, room1)"
    by (metis prod_cases3)
  have fl: "length out1 + room1 = room" "length rest \<le> 1"
    using f assms by (cases "c_read_buf c"; auto simp: codec_inv_def be32_def split: if_splits)+
  define c1 where "c1 = c\<lparr>c_read_buf := rest\<rparr>"
  have c1: "codec_inv c1" "c_errormode c1 = c_errormode c" "c_read_buf c1 = rest" "c_inval_buf c1 = c_inval_buf c"
    using assms fl by (simp_all add: c1_def codec_inv_def)
  consider "rest \<noteq> []" | "rest = []" "c_inval_buf c = []" | "rest = []" "c_inval_buf c \<noteq> []" by blast
  then show ?thesis
  proof cases
    case 1
    with f fl c1 show ?thesis by (simp add: charset_utf8_codec_decode_def Let_def c1_def)
  next
    case 2
    with decode_loop_total [of src "Suc (length src)" c1 room1] c1 fl f show ?thesis
      by (auto simp: charset_utf8_codec_decode_def Let_def c1_def simp del: decode_loop.simps)
  next
    case 3
    define l where "l = min (31 - length (c_inval_buf c)) (length src)"
    have ne: "c_inval_buf c @ take l src \<noteq> []" using 3 by simp
    have ll: "length (c_inval_buf c @ take l src) = l + length (c_inval_buf c)" by (simp add: l_def)
    from read_char_total [OF ne c1(1), of room1] c1 3 obtain e c2 left out2 room2 where
      r: "charset_utf8_codec_read_char c1 (c_inval_buf c @ take l src) room1 = Some (e, c2, left, out2, room2)"
        "codec_inv c2" "length out2 + room2 = room1" "e = PARSERUTILS_OK \<longrightarrow> c_read_buf c2 = []"
        "e \<in> {PARSERUTILS_OK, PARSERUTILS_NOMEM} \<and> length left < l + length (c_inval_buf c) \<or>
         e = PARSERUTILS_INVALID \<and> c_errormode c = PARSERUTILS_CHARSET_CODEC_ERROR_STRICT"
        "c_errormode c2 = c_errormode c"
      unfolding ll by (metis (no_types, lifting))
    show ?thesis
    proof (cases "e = PARSERUTILS_OK")
      case True
      define src2 where "src2 = drop (l - length left) src"
      from decode_loop_total [of src2 "Suc (length src2)" c2 room2] r True fl obtain e3 c3 src3 out3 room3 where
        "decode_loop (Suc (length src2)) c2 src2 room2 = Some (e3, c3, src3, out3, room3)"
        "codec_inv c3" "length out3 + room3 = room2"
        "e3 = PARSERUTILS_OK \<and> src3 = [] \<or> e3 = PARSERUTILS_NOMEM \<or>
         e3 = PARSERUTILS_INVALID \<and> c_errormode c = PARSERUTILS_CHARSET_CODEC_ERROR_STRICT"
        by auto
      with r True 3 f fl show ?thesis
        by (auto simp: charset_utf8_codec_decode_def Let_def c1_def l_def src2_def simp del: decode_loop.simps)
    next
      case False
      with r 3 f fl show ?thesis
        by (auto simp: charset_utf8_codec_decode_def Let_def c1_def l_def simp del: decode_loop.simps)
    qed
  qed
qed

theorem codec_decode_total_witness:
  "\<exists>e c' src' out room'. charset_utf8_codec_decode charset_utf8_codec_create [0xFF, 0x41] 3 =
      Some (e, c', src', out, room') \<and>
    codec_inv c' \<and> length out + room' = 3 \<and>
    (e = PARSERUTILS_OK \<and> src' = [] \<or> e = PARSERUTILS_NOMEM \<or>
     e = PARSERUTILS_INVALID \<and>
       c_errormode charset_utf8_codec_create = PARSERUTILS_CHARSET_CODEC_ERROR_STRICT)"
  by (rule codec_decode_total) (simp add: codec_inv_def charset_utf8_codec_create_def)

text \<open>C5: How the bytes of well-formed text are cut into chunks does not matter: for every way of
  splitting the UTF-8 encoding of a text, even inside characters, decoding the chunks one after
  the other with enough output space gives the UCS-4 encoding of exactly that text and leaves
  nothing pending.\<close>

theorem codec_decode_any_chunks:
  assumes "list_all utf8_ok cs" and "concat xs = concat (map utf8_enc cs)"
    and "list_all (\<lambda>x. 4 * (length x + 5) \<le> room) xs"
  shows "decode_chunks room charset_utf8_codec_create xs =
    Some (concat (map be32 cs), charset_utf8_codec_create)"
  using decode_chunks_text [OF assms(1), of charset_utf8_codec_create xs room] assms(2,3)
  by (simp add: charset_utf8_codec_create_def)

theorem codec_decode_any_chunks_witness:
  "decode_chunks 64 charset_utf8_codec_create [[0x41, 0xE2], [0x82], [0xAC, 0x42]] =
    Some (concat (map be32 [0x41, 0x20AC, 0x42]), charset_utf8_codec_create)"
proof (rule codec_decode_any_chunks)
  show "list_all utf8_ok [0x41, 0x20AC, 0x42]" by (simp add: utf8_ok_def utf8_bad_char_def)
  show "concat [[0x41, 0xE2], [0x82], [0xAC, 0x42]] = concat (map utf8_enc [0x41, 0x20AC, 0x42])"
    by code_simp
  show "list_all (\<lambda>x. 4 * (length x + 5) \<le> 64) [[0x41, 0xE2], [0x82], [0xAC, 0x42 :: u8]]" by simp
qed

text \<open>Running out of output space while encoding loses nothing: the call returns NOMEM with the
  character that did not fit held back, and a second call on the rest of the input with enough
  space completes the UTF-8 encoding of the text.\<close>

theorem codec_encode_resumes:
  assumes "list_all utf8_ok (ds @ u # es)"
    and "length (concat (map utf8_enc ds)) \<le> room" and "room < length (concat (map utf8_enc (ds @ [u])))"
    and "length (concat (map utf8_enc (u # es))) \<le> room2"
  shows "\<exists>c1 rest out1 r1 out2 r2.
    charset_utf8_codec_encode charset_utf8_codec_create (concat (map be32 (ds @ u # es))) room =
      Some (PARSERUTILS_NOMEM, c1, rest, out1, r1) \<and>
    charset_utf8_codec_encode c1 rest room2 = Some (PARSERUTILS_OK, charset_utf8_codec_create, [], out2, r2) \<and>
    out1 @ out2 = concat (map utf8_enc (ds @ u # es))"
  using encode_loop_full [of ds u room charset_utf8_codec_create "concat (map be32 es)"]
    encode_loop_text [of es "room2 - length (utf8_enc u)" charset_utf8_codec_create] assms
  by (auto simp: charset_utf8_codec_encode_def charset_utf8_codec_create_def utf8_from_ucs4_enc)

theorem codec_encode_resumes_witness:
  "\<exists>c1 rest out1 r1 out2 r2.
    charset_utf8_codec_encode charset_utf8_codec_create (concat (map be32 ([0x41] @ 0x20AC # [0x42]))) 3 =
      Some (PARSERUTILS_NOMEM, c1, rest, out1, r1) \<and>
    charset_utf8_codec_encode c1 rest 10 = Some (PARSERUTILS_OK, charset_utf8_codec_create, [], out2, r2) \<and>
    out1 @ out2 = concat (map utf8_enc ([0x41] @ 0x20AC # [0x42]))"
  by (rule codec_encode_resumes) (simp add: utf8_ok_def utf8_bad_char_def, code_simp+)

text \<open>The loose decoder loses well-formed bytes at the end of a chunk: after an invalid start
  byte that announces more bytes than the chunk holds, the rest of the chunk is copied to the
  incomplete-sequence buffer, which is then cleared. The bytes C3 41 decode to U+FFFD alone, so
  the letter A is lost, while the same bytes followed by another letter give U+FFFD, A, B.\<close>

theorem codec_decode_swallows_valid_bytes:
  "decode_chunks 64 charset_utf8_codec_create [[0xC3, 0x41], [0x42]] =
     Some (be32 0xFFFD @ be32 0x42, charset_utf8_codec_create) \<and>
   decode_chunks 64 charset_utf8_codec_create [[0xC3, 0x41, 0x42]] =
     Some (be32 0xFFFD @ be32 0x41 @ be32 0x42, charset_utf8_codec_create)"
  by code_simp

end
