(* ===== verification/Interning.thy ===== *)
theory Interning
  imports Prelude
begin

text \<open>
  String interning, \<^verbatim>\<open>libwapcaplet/src/libwapcaplet.c\<close> and the macros of
  \<^verbatim>\<open>libwapcaplet/include/libwapcaplet/libwapcaplet.h\<close>. The strings live in an explicit
  store from addresses to records; each hash bucket is a doubly linked list threaded through
  them, the back pointer being the address of the pointer to the string (a bucket head or the
  next field of the string before it). What malloc returns is an argument of the operations
  that allocate: the address of the new string, or NULL. Following a pointer that is not live
  and failing an assertion are \<open>None\<close>, and so is a walk that never ends.

  The development shows that the links, the contents and the reference counts stay consistent
  under every operation, that two interned strings are the same pointer exactly when they have
  the same content, and that a string is freed exactly when its last reference goes.
\<close>

section \<open>State\<close>

type_synonym addr = nat

datatype lwc_error = lwc_error_ok | lwc_error_oom | lwc_error_range

datatype lwc_slot = Bucket nat | NextOf addr

record lwc_string =
  ls_prevptr :: lwc_slot
  ls_next :: "addr option"
  ls_len :: nat
  ls_hash :: u32
  ls_refcnt :: u32
  ls_insensitive :: "addr option"
  ls_chars :: bytes

record lwc_context =
  lc_buckets :: "nat \<Rightarrow> addr option"
  lc_bucketcount :: u32

record lwc_world =
  w_ctx :: "lwc_context option"
  w_mem :: "addr \<rightharpoonup> lwc_string"

text \<open>The outcome of the allocations an operation may make.\<close>

record lwc_mallocs =
  m_ctx :: bool
  m_buckets :: bool
  m_string :: "addr option"

section \<open>Hashing and comparing\<close>

text \<open>\<open>char\<close> is signed, so a character is sign extended before it is mixed in.\<close>

fun lwc_hash_loop :: "u32 \<Rightarrow> bytes \<Rightarrow> u32" where
  "lwc_hash_loop z [] = z"
| "lwc_hash_loop z (c # str) = lwc_hash_loop ((z * 0x01000193) XOR scast c) str"

definition lwc__calculate_hash :: "bytes \<Rightarrow> u32" where
  "lwc__calculate_hash str = lwc_hash_loop 0x811c9dc5 str"

definition lwc__dolower :: "u8 \<Rightarrow> u8" where
  "lwc__dolower c = (if 65 \<le> c \<and> c \<le> 90 then c + 97 - 65 else c)"

fun lwc_lcase_hash_loop :: "u32 \<Rightarrow> bytes \<Rightarrow> u32" where
  "lwc_lcase_hash_loop z [] = z"
| "lwc_lcase_hash_loop z (c # str) = lwc_lcase_hash_loop ((z * 0x01000193) XOR scast (lwc__dolower c)) str"

definition lwc__calculate_lcase_hash :: "bytes \<Rightarrow> u32" where
  "lwc__calculate_lcase_hash str = lwc_lcase_hash_loop 0x811c9dc5 str"

text \<open>The comparison functions, true when the C function returns 0. strncmp stops at a NUL.\<close>

fun strncmp_equal :: "bytes \<Rightarrow> bytes \<Rightarrow> nat \<Rightarrow> bool option" where
  "strncmp_equal xs ys 0 = Some True"
| "strncmp_equal (x # xs) (y # ys) (Suc n) =
     (if x \<noteq> y then Some False else if x = 0 then Some True else strncmp_equal xs ys n)"
| "strncmp_equal _ _ (Suc n) = None"

fun lwc__lcase_strncmp :: "bytes \<Rightarrow> bytes \<Rightarrow> nat \<Rightarrow> bool option" where
  "lwc__lcase_strncmp s1 s2 0 = Some True"
| "lwc__lcase_strncmp (x # s1) (y # s2) (Suc n) =
     (if x \<noteq> lwc__dolower y then Some False else lwc__lcase_strncmp s1 s2 n)"
| "lwc__lcase_strncmp _ _ (Suc n) = None"

definition lwc__lcase_memcpy :: "bytes \<Rightarrow> bytes" where
  "lwc__lcase_memcpy s = map lwc__dolower s"

section \<open>Operations\<close>

definition lwc__initialise :: "lwc_mallocs \<Rightarrow> lwc_world \<Rightarrow> lwc_error \<times> lwc_world" where
  "lwc__initialise m w =
     (if w_ctx w \<noteq> None then (lwc_error_ok, w)
      else if \<not> m_ctx m \<or> \<not> m_buckets m then (lwc_error_oom, w)
      else (lwc_error_ok, w\<lparr>w_ctx := Some \<lparr>lc_buckets = (\<lambda>_. None), lc_bucketcount = 4091\<rparr>\<rparr>))"

partial_function (option) lwc_find ::
  "(addr \<rightharpoonup> lwc_string) \<Rightarrow> (bytes \<Rightarrow> bytes \<Rightarrow> nat \<Rightarrow> bool option) \<Rightarrow> u32 \<Rightarrow> bytes \<Rightarrow> addr option \<Rightarrow> addr option option"
where
  "lwc_find mem compare h s str =
     (case str of
        None \<Rightarrow> Some None
      | Some p \<Rightarrow>
          (case mem p of
             None \<Rightarrow> None
           | Some r \<Rightarrow>
               if ls_hash r = h \<and> ls_len r = length s
               then (case compare (ls_chars r) s (length s) of
                       None \<Rightarrow> None
                     | Some eq \<Rightarrow> if eq then Some (Some p) else lwc_find mem compare h s (ls_next r))
               else lwc_find mem compare h s (ls_next r)))"

text \<open>Writing through a pointer to a string pointer.\<close>

definition write_slot :: "lwc_slot \<Rightarrow> addr option \<Rightarrow> lwc_world \<Rightarrow> lwc_world option" where
  "write_slot sl v w =
     (case sl of
        Bucket n \<Rightarrow> map_option (\<lambda>c. w\<lparr>w_ctx := Some (c\<lparr>lc_buckets := (lc_buckets c)(n := v)\<rparr>)\<rparr>) (w_ctx w)
      | NextOf q \<Rightarrow> map_option (\<lambda>r. w\<lparr>w_mem := (w_mem w)(q \<mapsto> r\<lparr>ls_next := v\<rparr>)\<rparr>) (w_mem w q))"

definition set_prevptr :: "addr option \<Rightarrow> lwc_slot \<Rightarrow> lwc_world \<Rightarrow> lwc_world option" where
  "set_prevptr next sl w =
     (case next of
        None \<Rightarrow> Some w
      | Some q \<Rightarrow> map_option (\<lambda>r. w\<lparr>w_mem := (w_mem w)(q \<mapsto> r\<lparr>ls_prevptr := sl\<rparr>)\<rparr>) (w_mem w q))"

definition add_ref :: "addr \<Rightarrow> lwc_world \<Rightarrow> lwc_world option" where
  "add_ref p w = map_option (\<lambda>r. w\<lparr>w_mem := (w_mem w)(p \<mapsto> r\<lparr>ls_refcnt := ls_refcnt r + 1\<rparr>)\<rparr>) (w_mem w p)"

text \<open>The new string at the head of its bucket.\<close>

definition lwc_link_new :: "addr \<Rightarrow> nat \<Rightarrow> u32 \<Rightarrow> nat \<Rightarrow> bytes \<Rightarrow> lwc_context \<Rightarrow> lwc_world \<Rightarrow> lwc_world option" where
  "lwc_link_new a bucket h slen chars c w = do {
     w \<leftarrow> set_prevptr (lc_buckets c bucket) (NextOf a) w;
     w \<leftarrow> write_slot (Bucket bucket) (Some a) w;
     Some (w\<lparr>w_mem := (w_mem w)(a \<mapsto>
        \<lparr>ls_prevptr = Bucket bucket, ls_next = lc_buckets c bucket, ls_len = slen, ls_hash = h,
         ls_refcnt = 1, ls_insensitive = None, ls_chars = chars @ [0]\<rparr>)\<rparr>)
   }"

definition lwc__intern ::
  "lwc_mallocs \<Rightarrow> bytes \<Rightarrow> (bytes \<Rightarrow> u32) \<Rightarrow> (bytes \<Rightarrow> bytes \<Rightarrow> nat \<Rightarrow> bool option) \<Rightarrow> (bytes \<Rightarrow> bytes) \<Rightarrow>
   lwc_world \<Rightarrow> ((lwc_error + addr) \<times> lwc_world) option" where
  "lwc__intern m s hasher compare copy w =
     (let (eret, w) = lwc__initialise m w in
      if eret \<noteq> lwc_error_ok then Some (Inl eret, w)
      else case w_ctx w of
        None \<Rightarrow> Some (Inl lwc_error_oom, w)
      | Some c \<Rightarrow>
          (let h = hasher s; bucket = unat (h mod lc_bucketcount c) in
           case lwc_find (w_mem w) compare h s (lc_buckets c bucket) of
             None \<Rightarrow> None
           | Some (Some p) \<Rightarrow> map_option (\<lambda>w. (Inr p, w)) (add_ref p w)
           | Some None \<Rightarrow>
               (case m_string m of
                  None \<Rightarrow> Some (Inl lwc_error_oom, w)
                | Some a \<Rightarrow> map_option (\<lambda>w. (Inr a, w)) (lwc_link_new a bucket h (length s) (copy s) c w))))"

definition lwc_intern_string ::
  "lwc_mallocs \<Rightarrow> bytes \<Rightarrow> lwc_world \<Rightarrow> ((lwc_error + addr) \<times> lwc_world) option" where
  "lwc_intern_string m s w = lwc__intern m s lwc__calculate_hash strncmp_equal (\<lambda>s. s) w"

definition lwc_intern_substring ::
  "lwc_mallocs \<Rightarrow> addr \<Rightarrow> nat \<Rightarrow> nat \<Rightarrow> lwc_world \<Rightarrow> ((lwc_error + addr) \<times> lwc_world) option" where
  "lwc_intern_substring m str ssoffset sslen w = do {
     r \<leftarrow> w_mem w str;
     if ssoffset \<ge> ls_len r then Some (Inl lwc_error_range, w)
     else if size_wrap (ssoffset + sslen) > ls_len r then Some (Inl lwc_error_range, w)
     else do {
       s \<leftarrow> mem_read ssoffset sslen (ls_chars r);
       lwc_intern_string m s w
     }
   }"

definition lwc_string_ref :: "addr \<Rightarrow> lwc_world \<Rightarrow> lwc_world option" where
  "lwc_string_ref p w = add_ref p w"

definition lwc__intern_caseless_string ::
  "lwc_mallocs \<Rightarrow> addr \<Rightarrow> lwc_world \<Rightarrow> (lwc_error \<times> lwc_world) option" where
  "lwc__intern_caseless_string m str w = do {
     r \<leftarrow> w_mem w str;
     if ls_insensitive r \<noteq> None then None
     else do {
       s \<leftarrow> mem_read 0 (ls_len r) (ls_chars r);
       (e, w) \<leftarrow> lwc__intern m s lwc__calculate_lcase_hash lwc__lcase_strncmp lwc__lcase_memcpy w;
       (case e of
          Inl err \<Rightarrow> Some (err, w)
        | Inr p \<Rightarrow> map_option (\<lambda>r. (lwc_error_ok, w\<lparr>w_mem := (w_mem w)(str \<mapsto> r\<lparr>ls_insensitive := Some p\<rparr>)\<rparr>))
                    (w_mem w str))
     }
   }"

definition lwc_string_tolower ::
  "lwc_mallocs \<Rightarrow> addr \<Rightarrow> lwc_world \<Rightarrow> ((lwc_error + addr) \<times> lwc_world) option" where
  "lwc_string_tolower m str w = do {
     r \<leftarrow> w_mem w str;
     (e, w) \<leftarrow> (if ls_insensitive r = None then lwc__intern_caseless_string m str w
                else Some (lwc_error_ok, w));
     if e \<noteq> lwc_error_ok then Some (Inl e, w)
     else do {
       r \<leftarrow> w_mem w str;
       p \<leftarrow> ls_insensitive r;
       w \<leftarrow> lwc_string_ref p w;
       Some (Inr p, w)
     }
   }"

definition unlink :: "lwc_string \<Rightarrow> lwc_world \<Rightarrow> lwc_world option" where
  "unlink r w = do {
     w \<leftarrow> write_slot (ls_prevptr r) (ls_next r) w;
     set_prevptr (ls_next r) (ls_prevptr r) w
   }"

text \<open>The reference count drops; the result says whether the string has to be destroyed.\<close>

definition drop_ref :: "addr \<Rightarrow> lwc_world \<Rightarrow> (bool \<times> lwc_world) option" where
  "drop_ref p w = do {
     r \<leftarrow> w_mem w p;
     (let n = ls_refcnt r - 1 in
      Some (n = 0 \<or> (n = 1 \<and> ls_insensitive r = Some p),
            w\<lparr>w_mem := (w_mem w)(p \<mapsto> r\<lparr>ls_refcnt := n\<rparr>)\<rparr>))
   }"

partial_function (option) lwc_string_destroy :: "addr \<Rightarrow> lwc_world \<Rightarrow> lwc_world option" where
  "lwc_string_destroy str w = do {
     r \<leftarrow> w_mem w str;
     w \<leftarrow> unlink r w;
     r \<leftarrow> w_mem w str;
     w \<leftarrow> (case ls_insensitive r of
            None \<Rightarrow> Some w
          | Some q \<Rightarrow>
              if ls_refcnt r = 0
              then do {
                (dead, w) \<leftarrow> drop_ref q w;
                if dead then lwc_string_destroy q w else Some w
              }
              else Some w);
     Some (w\<lparr>w_mem := (w_mem w)(str := None)\<rparr>)
   }"

definition lwc_string_unref :: "addr option \<Rightarrow> lwc_world \<Rightarrow> lwc_world option" where
  "lwc_string_unref str w =
     (case str of
        None \<Rightarrow> Some w
      | Some p \<Rightarrow> do {
          (dead, w) \<leftarrow> drop_ref p w;
          if dead then lwc_string_destroy p w else Some w
        })"

definition lwc_string_isequal :: "addr \<Rightarrow> addr \<Rightarrow> bool" where
  "lwc_string_isequal str1 str2 \<longleftrightarrow> str1 = str2"

definition lwc_string_caseless_isequal ::
  "lwc_mallocs \<Rightarrow> lwc_mallocs \<Rightarrow> addr \<Rightarrow> addr \<Rightarrow> lwc_world \<Rightarrow> ((lwc_error + bool) \<times> lwc_world) option" where
  "lwc_string_caseless_isequal m1 m2 str1 str2 w = do {
     r1 \<leftarrow> w_mem w str1;
     (e, w) \<leftarrow> (if ls_insensitive r1 = None then lwc__intern_caseless_string m1 str1 w
                else Some (lwc_error_ok, w));
     r2 \<leftarrow> w_mem w str2;
     (e, w) \<leftarrow> (if e = lwc_error_ok \<and> ls_insensitive r2 = None then lwc__intern_caseless_string m2 str2 w
                else Some (e, w));
     if e \<noteq> lwc_error_ok then Some (Inl e, w)
     else do {
       r1 \<leftarrow> w_mem w str1;
       r2 \<leftarrow> w_mem w str2;
       Some (Inr (ls_insensitive r1 = ls_insensitive r2), w)
     }
   }"

partial_function (option) lwc_walk :: "(addr \<rightharpoonup> lwc_string) \<Rightarrow> addr option \<Rightarrow> addr list option" where
  "lwc_walk mem str =
     (case str of
        None \<Rightarrow> Some []
      | Some p \<Rightarrow> do { r \<leftarrow> mem p; ps \<leftarrow> lwc_walk mem (ls_next r); Some (p # ps) })"

fun lwc_walk_all :: "(addr \<rightharpoonup> lwc_string) \<Rightarrow> (nat \<Rightarrow> addr option) \<Rightarrow> nat list \<Rightarrow> addr list option" where
  "lwc_walk_all mem buckets [] = Some []"
| "lwc_walk_all mem buckets (n # ns) = do {
     ps \<leftarrow> lwc_walk mem (buckets n);
     qs \<leftarrow> lwc_walk_all mem buckets ns;
     Some (ps @ qs)
   }"

text \<open>The strings handed to the callback, in order, and the state afterwards.\<close>

definition lwc_iterate_strings :: "lwc_world \<Rightarrow> (addr list \<times> lwc_world) option" where
  "lwc_iterate_strings w =
     (case w_ctx w of
        None \<Rightarrow> Some ([], w)
      | Some c \<Rightarrow> do {
          ps \<leftarrow> lwc_walk_all (w_mem w) (lc_buckets c) [0..<unat (lc_bucketcount c)];
          Some (ps, if ps = [] then w\<lparr>w_ctx := None\<rparr> else w)
        })"

declare lwc_walk.simps [code] lwc_find.simps [code] lwc_string_destroy.simps [code]

section \<open>The linked buckets\<close>

primrec chain :: "(addr \<rightharpoonup> lwc_string) \<Rightarrow> lwc_slot \<Rightarrow> addr option \<Rightarrow> addr list \<Rightarrow> bool" where
  "chain mem sl cur [] = (cur = None)"
| "chain mem sl cur (p # ps) =
     (cur = Some p \<and> (\<exists>r. mem p = Some r \<and> ls_prevptr r = sl \<and> chain mem (NextOf p) (ls_next r) ps))"

lemma chain_other: "p \<notin> set ps \<Longrightarrow> chain (mem(p := x)) sl cur ps = chain mem sl cur ps"
  by (induction ps arbitrary: sl cur) auto

lemma chain_same_links:
  assumes "mem p = Some r" and "ls_prevptr r' = ls_prevptr r" and "ls_next r' = ls_next r"
  shows "chain (mem(p \<mapsto> r')) sl cur ps = chain mem sl cur ps"
  using assms by (induction ps arbitrary: sl cur) auto

definition mem_set_prevptr :: "addr option \<Rightarrow> lwc_slot \<Rightarrow> (addr \<rightharpoonup> lwc_string) \<Rightarrow> (addr \<rightharpoonup> lwc_string)" where
  "mem_set_prevptr cur sl mem =
     (case cur of None \<Rightarrow> mem | Some q \<Rightarrow> mem(q := map_option (\<lambda>r. r\<lparr>ls_prevptr := sl\<rparr>) (mem q)))"

lemma chain_move:
  assumes "chain mem sl cur ps" and "distinct ps"
  shows "chain (mem_set_prevptr cur sl' mem) sl' cur ps"
  using assms by (cases ps) (auto simp: chain_other mem_set_prevptr_def)

lemma walk_chain: "chain mem sl cur ps \<Longrightarrow> lwc_walk mem cur = Some ps"
proof (induction ps arbitrary: sl cur)
  case Nil
  then show ?case by (subst lwc_walk.simps) simp
next
  case (Cons p ps)
  then obtain r where "cur = Some p" "mem p = Some r" "chain mem (NextOf p) (ls_next r) ps" by auto
  then have "lwc_walk mem (ls_next r) = Some ps" "cur = Some p" "mem p = Some r" by (auto intro: Cons.IH)
  then show ?case by (subst lwc_walk.simps) simp
qed

lemma chain_mem: "chain mem sl cur ps \<Longrightarrow> p \<in> set ps \<Longrightarrow> \<exists>r. mem p = Some r"
  by (induction ps arbitrary: sl cur) auto

lemma chain_head: "chain mem sl cur ps \<Longrightarrow> cur = (case ps of [] \<Rightarrow> None | p # _ \<Rightarrow> Some p)"
  by (cases ps) auto

lemma chain_split:
  assumes "chain mem sl cur (xs @ p # ys)" and "mem p = Some r"
  shows "ls_prevptr r = (if xs = [] then sl else NextOf (last xs)) \<and>
    chain mem (NextOf p) (ls_next r) ys"
  using assms
proof (induction xs arbitrary: sl cur)
  case (Cons x xs)
  from Cons.prems(1) obtain rx :: lwc_string where "chain mem (NextOf x) (ls_next rx) (xs @ p # ys)"
    by auto
  from Cons.IH [OF this Cons.prems(2)] show ?case by (cases xs) auto
qed auto

lemma mem_set_prevptr_other: "cur \<noteq> Some p \<Longrightarrow> mem_set_prevptr cur sl mem p = mem p"
  by (auto simp: mem_set_prevptr_def split: option.splits)

text \<open>Taking a string out of the middle of its list.\<close>

lemma chain_unlink:
  assumes "chain mem sl cur (xs @ p # ys)" and "distinct (xs @ p # ys)" and "mem p = Some r"
    and "xs \<noteq> []" and "mem (last xs) = Some l"
  shows "chain (mem_set_prevptr (ls_next r) (NextOf (last xs)) (mem(last xs \<mapsto> l\<lparr>ls_next := ls_next r\<rparr>)))
    sl cur (xs @ ys)"
  using assms
proof (induction xs arbitrary: sl cur)
  case (Cons x xs)
  note tl = chain_split [OF Cons.prems(1,3)]
  show ?case
  proof (cases xs)
    case Nil
    have "x \<notin> set ys" using Cons.prems(2) by auto
    then have "chain (mem(x \<mapsto> l\<lparr>ls_next := ls_next r\<rparr>)) (NextOf p) (ls_next r) ys"
      using tl by (simp add: chain_other)
    from chain_move [OF this, of "NextOf x"] Cons.prems Nil
    have c: "chain (mem_set_prevptr (ls_next r) (NextOf x) (mem(x \<mapsto> l\<lparr>ls_next := ls_next r\<rparr>)))
      (NextOf x) (ls_next r) ys" by simp
    have "ls_next r \<noteq> Some x" using chain_head [OF conjunct2 [OF tl]] \<open>x \<notin> set ys\<close> by (cases ys) auto
    then have m: "mem_set_prevptr (ls_next r) (NextOf x) (mem(x \<mapsto> l\<lparr>ls_next := ls_next r\<rparr>)) x =
      Some (l\<lparr>ls_next := ls_next r\<rparr>)" by (simp add: mem_set_prevptr_other)
    have "cur = Some x" "ls_prevptr l = sl" using Cons.prems(1,5) Nil by auto
    with c m show ?thesis unfolding Nil append.simps last_ConsL [OF refl] chain.simps by simp
  next
    case (Cons y zs)
    let ?m = "mem_set_prevptr (ls_next r) (NextOf (last xs)) (mem(last xs \<mapsto> l\<lparr>ls_next := ls_next r\<rparr>))"
    from Cons.prems(1) obtain rx where rx: "mem x = Some rx" "ls_prevptr rx = sl" "cur = Some x"
      "chain mem (NextOf x) (ls_next rx) (xs @ p # ys)" by auto
    have ne: "xs \<noteq> []" "last xs \<in> set xs" using Cons by simp_all
    have c: "chain ?m (NextOf x) (ls_next rx) (xs @ ys)"
    proof (rule Cons.IH [OF rx(4) _ Cons.prems(3) ne(1)])
      show "distinct (xs @ p # ys)" using Cons.prems(2) by simp
      show "mem (last xs) = Some l" using Cons.prems(5) ne by simp
    qed
    have "ls_next r \<noteq> Some x" using chain_head [OF conjunct2 [OF tl]] Cons.prems(2) by (cases ys) auto
    moreover have "last xs \<noteq> x" using ne Cons.prems(2) by auto
    ultimately have "?m x = Some rx" using rx(1) by (simp add: mem_set_prevptr_other)
    with c rx show ?thesis unfolding append.simps last_ConsR [OF ne(1)] chain.simps by simp
  qed
qed simp

section \<open>Representation invariant and abstraction\<close>

record istr =
  i_text :: bytes
  i_refs :: nat
  i_lower :: "addr option"

definition lwc_text :: "lwc_string \<Rightarrow> bytes" where
  "lwc_text r = take (ls_len r) (ls_chars r)"

definition lwc_istr :: "lwc_string \<Rightarrow> istr" where
  "lwc_istr r = \<lparr>i_text = lwc_text r, i_refs = unat (ls_refcnt r), i_lower = ls_insensitive r\<rparr>"

definition lwc_abs :: "lwc_world \<Rightarrow> addr \<rightharpoonup> istr" where
  "lwc_abs w = (\<lambda>p. map_option lwc_istr (w_mem w p))"

definition lwc_bucket :: "lwc_string \<Rightarrow> nat" where
  "lwc_bucket r = unat (ls_hash r mod 4091)"

definition lwc_string_ok :: "lwc_string \<Rightarrow> bool" where
  "lwc_string_ok r \<longleftrightarrow> ls_chars r = lwc_text r @ [0] \<and> 0 \<notin> set (lwc_text r) \<and>
     ls_hash r = lwc__calculate_hash (lwc_text r)"

definition lwc_chains :: "lwc_world \<Rightarrow> (nat \<Rightarrow> addr list) \<Rightarrow> bool" where
  "lwc_chains w ch \<longleftrightarrow>
     (case w_ctx w of
        None \<Rightarrow> w_mem w = Map.empty
      | Some c \<Rightarrow> lc_bucketcount c = 4091 \<and>
          (\<forall>n. chain (w_mem w) (Bucket n) (lc_buckets c n) (ch n) \<and> distinct (ch n)))"

text \<open>\<open>D\<close> holds the strings that are unlinked but not yet freed.\<close>

definition lwc_members :: "(addr \<rightharpoonup> lwc_string) \<Rightarrow> addr set \<Rightarrow> (nat \<Rightarrow> addr list) \<Rightarrow> bool" where
  "lwc_members mem D ch \<longleftrightarrow>
     (\<forall>n p. p \<in> set (ch n) \<longleftrightarrow> p \<notin> D \<and> (\<exists>r. mem p = Some r \<and> lwc_bucket r = n)) \<and>
     (\<forall>p r. mem p = Some r \<longrightarrow> lwc_string_ok r) \<and> finite (dom mem)"

definition lwc_links :: "lwc_world \<Rightarrow> addr set \<Rightarrow> (nat \<Rightarrow> addr list) \<Rightarrow> bool" where
  "lwc_links w D ch \<longleftrightarrow> lwc_chains w ch \<and> lwc_members (w_mem w) D ch"

definition lwc_inv :: "lwc_world \<Rightarrow> bool" where
  "lwc_inv w \<longleftrightarrow> (\<exists>ch. lwc_links w {} ch)"

text \<open>Everything but the link fields; membership and the abstraction depend on this only.\<close>

definition lwc_core :: "lwc_string \<Rightarrow> lwc_string" where
  "lwc_core r = r\<lparr>ls_prevptr := Bucket 0, ls_next := None\<rparr>"

definition lwc_cores :: "(addr \<rightharpoonup> lwc_string) \<Rightarrow> (addr \<rightharpoonup> lwc_string)" where
  "lwc_cores mem = (\<lambda>p. map_option lwc_core (mem p))"

lemma core_simps [simp]:
  "lwc_core (r\<lparr>ls_prevptr := sl\<rparr>) = lwc_core r" "lwc_core (r\<lparr>ls_next := nx\<rparr>) = lwc_core r"
  by (simp_all add: lwc_core_def)

lemma core_facts:
  "lwc_istr (lwc_core r) = lwc_istr r" "lwc_bucket (lwc_core r) = lwc_bucket r"
  "lwc_string_ok (lwc_core r) = lwc_string_ok r"
  by (simp_all add: lwc_core_def lwc_istr_def lwc_bucket_def lwc_string_ok_def lwc_text_def)

lemma abs_cores: "lwc_abs w = (\<lambda>p. map_option lwc_istr (lwc_cores (w_mem w) p))"
  by (auto simp: lwc_abs_def lwc_cores_def option.map_comp o_def core_facts)

lemma cores_abs: "lwc_cores (w_mem w) = lwc_cores (w_mem w') \<Longrightarrow> lwc_abs w = lwc_abs w'"
  by (simp add: abs_cores)

lemma members_cores: "lwc_members (lwc_cores mem) D ch = lwc_members mem D ch"
proof -
  have "dom (lwc_cores mem) = dom mem" by (auto simp: lwc_cores_def)
  moreover have "(\<exists>r. lwc_cores mem p = Some r \<and> lwc_bucket r = n) = (\<exists>r. mem p = Some r \<and> lwc_bucket r = n)" for p n
    by (cases "mem p") (auto simp: lwc_cores_def core_facts)
  moreover have "(\<forall>r. lwc_cores mem p = Some r \<longrightarrow> lwc_string_ok r) = (\<forall>r. mem p = Some r \<longrightarrow> lwc_string_ok r)" for p
    by (cases "mem p") (auto simp: lwc_cores_def core_facts)
  ultimately show ?thesis unfolding lwc_members_def by simp
qed

lemma cores_members: "lwc_cores mem = lwc_cores mem' \<Longrightarrow> lwc_members mem D ch \<Longrightarrow> lwc_members mem' D ch"
  by (metis members_cores)

lemma cores_set_prevptr [simp]: "lwc_cores (mem_set_prevptr cur sl mem) = lwc_cores mem"
  by (auto simp: lwc_cores_def mem_set_prevptr_def option.map_comp o_def split: option.splits)

lemma cores_upd [simp]:
  "mem p = Some r \<Longrightarrow> lwc_core r' = lwc_core r \<Longrightarrow> lwc_cores (mem(p \<mapsto> r')) = lwc_cores mem"
  by (auto simp: lwc_cores_def)

section \<open>Links under the operations\<close>

lemma links_update:
  assumes "lwc_links w D ch" and "w_mem w p = Some r"
    and "ls_prevptr r' = ls_prevptr r" and "ls_next r' = ls_next r" and "ls_hash r' = ls_hash r"
    and "lwc_string_ok r'"
  shows "lwc_links (w\<lparr>w_mem := (w_mem w)(p \<mapsto> r')\<rparr>) D ch"
proof -
  have "lwc_bucket r' = lwc_bucket r" using assms(5) by (simp add: lwc_bucket_def)
  with assms(1,2,6) have "lwc_members ((w_mem w)(p \<mapsto> r')) D ch"
    by (auto simp: lwc_links_def lwc_members_def)
  moreover have "lwc_chains (w\<lparr>w_mem := (w_mem w)(p \<mapsto> r')\<rparr>) ch"
    using assms chain_same_links [of "w_mem w" p r r']
    by (auto simp: lwc_links_def lwc_chains_def split: option.splits)
  ultimately show ?thesis by (simp add: lwc_links_def)
qed

lemma set_prevptr_eq:
  assumes "\<And>q. cur = Some q \<Longrightarrow> w_mem w q \<noteq> None"
  shows "set_prevptr cur sl w = Some (w\<lparr>w_mem := mem_set_prevptr cur sl (w_mem w)\<rparr>)"
proof (cases cur)
  case (Some q)
  with assms obtain r where "w_mem w q = Some r" by auto
  with Some show ?thesis by (simp add: set_prevptr_def mem_set_prevptr_def)
qed (simp add: set_prevptr_def mem_set_prevptr_def)

lemma links_ctx: "lwc_links w D ch \<Longrightarrow> w_mem w p = Some r \<Longrightarrow> \<exists>c. w_ctx w = Some c"
  by (auto simp: lwc_links_def lwc_chains_def split: option.splits)

lemma links_bucket:
  assumes "lwc_links w D ch" and "w_ctx w = Some c"
  shows "chain (w_mem w) (Bucket n) (lc_buckets c n) (ch n)" and "distinct (ch n)"
    and "lc_bucketcount c = 4091"
  using assms by (simp_all add: lwc_links_def lwc_chains_def)

lemma members_disjoint:
  "lwc_members mem D ch \<Longrightarrow> n \<noteq> k \<Longrightarrow> p \<in> set (ch n) \<Longrightarrow> p \<notin> set (ch k)"
  by (auto simp: lwc_members_def)

lemma chain_set_prevptr_other:
  "(\<And>q. cur' = Some q \<Longrightarrow> q \<notin> set ps) \<Longrightarrow> chain (mem_set_prevptr cur' sl' mem) sl cur ps = chain mem sl cur ps"
  by (auto simp: mem_set_prevptr_def chain_other split: option.splits)

lemma links_free:
  assumes "lwc_links w (insert p D) ch" and "p \<notin> D"
  shows "lwc_links (w\<lparr>w_mem := (w_mem w)(p := None)\<rparr>) D ch"
proof -
  have np: "p \<notin> set (ch n)" for n using assms(1) by (simp add: lwc_links_def lwc_members_def)
  have "lwc_members ((w_mem w)(p := None)) D ch"
    using assms by (auto simp: lwc_links_def lwc_members_def)
  moreover have "lwc_chains (w\<lparr>w_mem := (w_mem w)(p := None)\<rparr>) ch"
    using assms(1) np by (auto simp: lwc_links_def lwc_chains_def chain_other split: option.splits)
  ultimately show ?thesis by (simp add: lwc_links_def)
qed

lemma unlink_head:
  assumes "w_ctx w = Some c" and "ls_prevptr r = Bucket n"
    and "chain (w_mem w) (NextOf p) (ls_next r) ys"
  shows "unlink r w = Some (w\<lparr>w_ctx := Some (c\<lparr>lc_buckets := (lc_buckets c)(n := ls_next r)\<rparr>),
    w_mem := mem_set_prevptr (ls_next r) (Bucket n) (w_mem w)\<rparr>)"
proof -
  have "ls_next r = Some q \<Longrightarrow> w_mem w q \<noteq> None" for q
    using assms(3) by (cases ys) auto
  then show ?thesis using assms(1,2) by (simp add: unlink_def write_slot_def set_prevptr_eq)
qed

lemma unlink_inner:
  assumes "ls_prevptr r = NextOf a" and "w_mem w a = Some l"
    and "chain (w_mem w) (NextOf p) (ls_next r) ys"
  shows "unlink r w = Some (w\<lparr>w_mem := mem_set_prevptr (ls_next r) (NextOf a)
    ((w_mem w)(a \<mapsto> l\<lparr>ls_next := ls_next r\<rparr>))\<rparr>)"
proof -
  have "ls_next r = Some q \<Longrightarrow> w_mem w q \<noteq> None" for q
    using assms(3) by (cases ys) auto
  then show ?thesis using assms(1,2) by (simp add: unlink_def write_slot_def set_prevptr_eq)
qed

lemma members_unlinked:
  assumes "lwc_members mem D ch" and "mem p = Some r" and "ch (lwc_bucket r) = xs @ p # ys"
    and "distinct (ch (lwc_bucket r))"
  shows "lwc_members mem (insert p D) (ch(lwc_bucket r := xs @ ys))"
proof -
  have "set (xs @ ys) = set (ch (lwc_bucket r)) - {p}" using assms(3,4) by auto
  moreover have "k \<noteq> lwc_bucket r \<Longrightarrow> p \<notin> set (ch k)" for k
    using assms(1,2) by (auto simp: lwc_members_def)
  ultimately have "q \<in> set ((ch(lwc_bucket r := xs @ ys)) k) \<longleftrightarrow> q \<in> set (ch k) \<and> q \<noteq> p" for q k
    by (cases "k = lwc_bucket r") auto
  then show ?thesis using assms(1) unfolding lwc_members_def by auto
qed

text \<open>What the two cases of unlinking need to know about the bucket.\<close>

lemma unlink_facts:
  assumes "lwc_links w D ch" and "w_ctx w = Some c" and "w_mem w p = Some r"
    and "ch (lwc_bucket r) = xs @ p # ys"
  shows "chain (w_mem w) (Bucket (lwc_bucket r)) (lc_buckets c (lwc_bucket r)) (xs @ p # ys)"
    and "distinct (xs @ p # ys)" and "chain (w_mem w) (NextOf p) (ls_next r) ys"
    and "ls_prevptr r = (if xs = [] then Bucket (lwc_bucket r) else NextOf (last xs))"
    and "ls_next r \<noteq> Some p"
    and "k \<noteq> lwc_bucket r \<Longrightarrow> chain (mem_set_prevptr (ls_next r) sl mem) sl' cur (ch k) = chain mem sl' cur (ch k)"
    and "k \<noteq> lwc_bucket r \<Longrightarrow> q \<in> set xs \<Longrightarrow> q \<notin> set (ch k)"
    and "lwc_members (w_mem w) (insert p D) (ch(lwc_bucket r := xs @ ys))"
proof -
  note b = links_bucket [OF assms(1,2)]
  have mem: "lwc_members (w_mem w) D ch" using assms(1) by (simp add: lwc_links_def)
  show ch: "chain (w_mem w) (Bucket (lwc_bucket r)) (lc_buckets c (lwc_bucket r)) (xs @ p # ys)"
    and di: "distinct (xs @ p # ys)" using b(1) [of "lwc_bucket r"] b(2) [of "lwc_bucket r"] assms(4) by simp_all
  note sp = chain_split [OF ch assms(3)]
  then show "chain (w_mem w) (NextOf p) (ls_next r) ys"
    and "ls_prevptr r = (if xs = [] then Bucket (lwc_bucket r) else NextOf (last xs))" by simp_all
  have nx: "ls_next r = Some q \<Longrightarrow> q \<in> set ys" for q using sp by (cases ys) auto
  then show "ls_next r \<noteq> Some p" using di by auto
  have oth: "k \<noteq> lwc_bucket r \<Longrightarrow> q \<in> set (xs @ ys) \<Longrightarrow> q \<notin> set (ch k)" for q k
    using members_disjoint [OF mem, of "lwc_bucket r" k q] assms(4) by auto
  then show "k \<noteq> lwc_bucket r \<Longrightarrow> q \<in> set xs \<Longrightarrow> q \<notin> set (ch k)" by simp
  show "k \<noteq> lwc_bucket r \<Longrightarrow> chain (mem_set_prevptr (ls_next r) sl mem) sl' cur (ch k) = chain mem sl' cur (ch k)"
    using nx oth by (intro chain_set_prevptr_other) auto
  show "lwc_members (w_mem w) (insert p D) (ch(lwc_bucket r := xs @ ys))"
    by (rule members_unlinked [OF mem assms(3,4) b(2)])
qed

lemma links_unlink_head:
  assumes "lwc_links w D ch" and "w_ctx w = Some c" and "w_mem w p = Some r"
    and "ch (lwc_bucket r) = p # ys"
  shows "\<exists>w' ch'. unlink r w = Some w' \<and> lwc_links w' (insert p D) ch' \<and> w_mem w' p = Some r \<and>
    lwc_abs w' = lwc_abs w"
proof -
  let ?n = "lwc_bucket r"
  note b = links_bucket [OF assms(1,2)]
  have ps: "ch ?n = [] @ p # ys" using assms(4) by simp
  note f = unlink_facts [OF assms(1-3) ps]
  define m where "m = mem_set_prevptr (ls_next r) (Bucket ?n) (w_mem w)"
  define c' where "c' = c\<lparr>lc_buckets := (lc_buckets c)(?n := ls_next r)\<rparr>"
  have u: "unlink r w = Some (w\<lparr>w_ctx := Some c', w_mem := m\<rparr>)"
    using unlink_head [OF assms(2) _ f(3)] f(4) by (simp add: m_def c'_def)
  have "chain m (Bucket k) (lc_buckets c' k) ((ch(?n := ys)) k) \<and> distinct ((ch(?n := ys)) k)" for k
  proof (cases "k = ?n")
    case True
    then show ?thesis using chain_move [OF f(3), of "Bucket ?n"] f(2) by (simp add: m_def c'_def)
  next
    case False
    with f(6) [OF False, of "Bucket ?n" "w_mem w"] b show ?thesis by (simp add: c'_def m_def)
  qed
  then have "lwc_chains (w\<lparr>w_ctx := Some c', w_mem := m\<rparr>) (ch(?n := ys))"
    using b(3) by (simp add: lwc_chains_def c'_def)
  moreover have "lwc_members m (insert p D) (ch(?n := ys))"
    using cores_members [OF _ f(8), of m] by (simp add: m_def)
  moreover have "m p = Some r" using f(5) assms(3) by (simp add: m_def mem_set_prevptr_other)
  moreover have "lwc_abs (w\<lparr>w_ctx := Some c', w_mem := m\<rparr>) = lwc_abs w"
    by (rule cores_abs) (simp add: m_def)
  ultimately show ?thesis using u by (auto simp: lwc_links_def)
qed

lemma links_unlink_inner:
  assumes "lwc_links w D ch" and "w_ctx w = Some c" and "w_mem w p = Some r"
    and "ch (lwc_bucket r) = xs @ p # ys" and "xs \<noteq> []"
  shows "\<exists>w' ch'. unlink r w = Some w' \<and> lwc_links w' (insert p D) ch' \<and> w_mem w' p = Some r \<and>
    lwc_abs w' = lwc_abs w"
proof -
  let ?n = "lwc_bucket r"
  note b = links_bucket [OF assms(1,2)]
  note f = unlink_facts [OF assms(1-4)]
  define a where "a = last xs"
  have a: "a \<in> set xs" "a \<noteq> p" using assms(5) f(2) by (auto simp: a_def)
  then obtain l where l: "w_mem w a = Some l" using chain_mem [OF f(1), of a] by auto
  define m where "m = mem_set_prevptr (ls_next r) (NextOf a) ((w_mem w)(a \<mapsto> l\<lparr>ls_next := ls_next r\<rparr>))"
  have u: "unlink r w = Some (w\<lparr>w_mem := m\<rparr>)"
    using unlink_inner [OF _ l f(3)] f(4) assms(5) by (simp add: m_def a_def)
  have "chain m (Bucket k) (lc_buckets c k) ((ch(?n := xs @ ys)) k) \<and> distinct ((ch(?n := xs @ ys)) k)" for k
  proof (cases "k = ?n")
    case True
    then show ?thesis using chain_unlink [OF f(1,2) assms(3,5)] l f(2) unfolding a_def m_def by auto
  next
    case False
    with f(6) [OF False, of "NextOf a"] f(7) [OF False a(1)] b show ?thesis
      by (simp add: m_def chain_other)
  qed
  then have "lwc_chains (w\<lparr>w_mem := m\<rparr>) (ch(?n := xs @ ys))"
    using b(3) assms(2) by (simp add: lwc_chains_def)
  moreover have cm: "lwc_cores m = lwc_cores (w_mem w)" using l by (simp add: m_def)
  then have "lwc_members m (insert p D) (ch(?n := xs @ ys))"
    using cores_members [OF _ f(8), of m] by simp
  moreover have "m p = Some r" using f(5) assms(3) a by (simp add: m_def mem_set_prevptr_other)
  moreover have "lwc_abs (w\<lparr>w_mem := m\<rparr>) = lwc_abs w"
    by (rule cores_abs) (simp add: cm)
  ultimately show ?thesis using u by (auto simp: lwc_links_def)
qed

lemma links_unlink:
  assumes "lwc_links w D ch" and "p \<notin> D" and "w_mem w p = Some r"
  shows "\<exists>w' ch'. unlink r w = Some w' \<and> lwc_links w' (insert p D) ch' \<and> w_mem w' p = Some r \<and>
    lwc_abs w' = lwc_abs w"
proof -
  from links_ctx [OF assms(1,3)] obtain c where c: "w_ctx w = Some c" by blast
  have "p \<in> set (ch (lwc_bucket r))"
    using assms by (auto simp: lwc_links_def lwc_members_def)
  then obtain xs ys where ps: "ch (lwc_bucket r) = xs @ p # ys" by (meson split_list)
  show ?thesis
    using links_unlink_head [OF assms(1) c assms(3)] links_unlink_inner [OF assms(1) c assms(3) ps] ps
    by (cases "xs = []") auto
qed

section \<open>Looking a string up\<close>

text \<open>What \<open>lwc__intern\<close> needs of its three function arguments to intern the text \<open>t\<close>
  for the argument \<open>s\<close>.\<close>

definition intern_args ::
  "(bytes \<Rightarrow> u32) \<Rightarrow> (bytes \<Rightarrow> bytes \<Rightarrow> nat \<Rightarrow> bool option) \<Rightarrow> (bytes \<Rightarrow> bytes) \<Rightarrow> bytes \<Rightarrow> bytes \<Rightarrow> bool" where
  "intern_args hasher compare copy s t \<longleftrightarrow>
     hasher s = lwc__calculate_hash t \<and> copy s = t \<and> length t = length s \<and> 0 \<notin> set t \<and>
     (\<forall>xs. 0 \<notin> set xs \<and> length xs = length s \<longrightarrow> compare (xs @ [0]) s (length s) = Some (xs = t))"

lemma strncmp_spec:
  "0 \<notin> set xs \<Longrightarrow> length xs = length s \<Longrightarrow> strncmp_equal (xs @ z) s (length s) = Some (xs = s)"
proof (induction xs arbitrary: s)
  case (Cons x xs)
  then show ?case by (cases s) auto
qed simp

lemma lcase_strncmp_spec:
  "length xs = length s \<Longrightarrow> lwc__lcase_strncmp (xs @ z) s (length s) = Some (xs = map lwc__dolower s)"
proof (induction xs arbitrary: s)
  case (Cons x xs)
  then show ?case by (cases s) auto
qed simp

lemma lcase_hash: "lwc__calculate_lcase_hash s = lwc__calculate_hash (map lwc__dolower s)"
proof -
  have "lwc_lcase_hash_loop z s = lwc_hash_loop z (map lwc__dolower s)" for z
    by (induction s arbitrary: z) simp_all
  then show ?thesis by (simp add: lwc__calculate_lcase_hash_def lwc__calculate_hash_def)
qed

lemma dolower_zero: "lwc__dolower c = 0 \<longleftrightarrow> c = 0"
  by (rule all_u8_list) code_simp

lemma intern_args_string: "0 \<notin> set s \<Longrightarrow> intern_args lwc__calculate_hash strncmp_equal (\<lambda>s. s) s s"
  by (simp add: intern_args_def strncmp_spec)

lemma intern_args_caseless:
  assumes "0 \<notin> set s"
  shows "intern_args lwc__calculate_lcase_hash lwc__lcase_strncmp lwc__lcase_memcpy s (map lwc__dolower s)"
proof -
  have "0 \<notin> set (map lwc__dolower s)" using assms dolower_zero by (metis imageE list.set_map)
  then show ?thesis by (simp add: intern_args_def lcase_strncmp_spec lcase_hash lwc__lcase_memcpy_def)
qed

lemma string_ok_len: "lwc_string_ok r \<Longrightarrow> length (lwc_text r) = ls_len r"
proof -
  assume "lwc_string_ok r"
  then have "length (ls_chars r) = Suc (length (lwc_text r))" by (simp add: lwc_string_ok_def)
  then show ?thesis by (auto simp: lwc_text_def min_def split: if_splits)
qed

lemma find_chain:
  assumes "chain mem sl cur ps" and "\<And>p r. mem p = Some r \<Longrightarrow> lwc_string_ok r"
    and "intern_args hasher compare copy s t"
  shows "lwc_find mem compare (hasher s) s cur =
    Some (find (\<lambda>p. map_option lwc_text (mem p) = Some t) ps)"
  using assms(1)
proof (induction ps arbitrary: sl cur)
  case Nil
  then show ?case by (subst lwc_find.simps) simp
next
  case (Cons p ps)
  then obtain r where r: "cur = Some p" "mem p = Some r" "chain mem (NextOf p) (ls_next r) ps" by auto
  note ok = assms(2) [OF r(2)]
  have "lwc_text r = t \<Longrightarrow> ls_hash r = hasher s \<and> ls_len r = length s"
    using ok assms(3) string_ok_len [OF ok] by (auto simp: lwc_string_ok_def intern_args_def)
  moreover have "ls_len r = length s \<Longrightarrow> compare (ls_chars r) s (length s) = Some (lwc_text r = t)"
    using ok assms(3) string_ok_len [OF ok] by (simp add: lwc_string_ok_def intern_args_def)
  ultimately show ?case using r Cons.IH [OF r(3)] by (subst lwc_find.simps) auto
qed

section \<open>Interning refines insertion into a pool\<close>

lemma links_link_new:
  assumes "lwc_links w {} ch" and "w_ctx w = Some c" and "w_mem w a = None"
    and "0 \<notin> set t" and "h = lwc__calculate_hash t" and "n = unat (h mod 4091)"
  shows "\<exists>w'. lwc_link_new a n h (length t) t c w = Some w' \<and> lwc_inv w' \<and>
    lwc_abs w' = (lwc_abs w)(a \<mapsto> \<lparr>i_text = t, i_refs = 1, i_lower = None\<rparr>)"
proof -
  note b = links_bucket [OF assms(1,2)]
  have mem: "lwc_members (w_mem w) {} ch" using assms(1) by (simp add: lwc_links_def)
  have na: "a \<notin> set (ch k)" for k using mem assms(3) by (auto simp: lwc_members_def)
  have hd: "lc_buckets c n = Some q \<Longrightarrow> q \<in> set (ch n)" for q using b(1) [of n] by (cases "ch n") auto
  have live: "lc_buckets c n = Some q \<Longrightarrow> w_mem w q \<noteq> None" for q using b(1) [of n] by (cases "ch n") auto
  define r where "r = \<lparr>ls_prevptr = Bucket n, ls_next = lc_buckets c n, ls_len = length t, ls_hash = h,
         ls_refcnt = 1, ls_insensitive = None, ls_chars = t @ [0]\<rparr>"
  define m where "m = mem_set_prevptr (lc_buckets c n) (NextOf a) (w_mem w)"
  define c' where "c' = c\<lparr>lc_buckets := (lc_buckets c)(n \<mapsto> a)\<rparr>"
  define w' where "w' = w\<lparr>w_ctx := Some c', w_mem := m(a \<mapsto> r)\<rparr>"
  have eq: "lwc_link_new a n h (length t) t c w = Some w'"
    using assms(2) by (simp add: lwc_link_new_def set_prevptr_eq [OF live] write_slot_def w'_def c'_def m_def r_def)
  have r: "lwc_bucket r = n" "lwc_string_ok r" "lwc_istr r = \<lparr>i_text = t, i_refs = 1, i_lower = None\<rparr>"
    using assms(4-6) by (simp_all add: r_def lwc_bucket_def lwc_string_ok_def lwc_text_def lwc_istr_def)
  have mm: "lwc_members m {} ch" using cores_members [OF _ mem, of m] by (simp add: m_def)
  have ma: "m a = None" using assms(3) hd na [of n] by (subst m_def, subst mem_set_prevptr_other) auto
  have "chain (m(a \<mapsto> r)) (Bucket k) (lc_buckets c' k) ((ch(n := a # ch n)) k) \<and>
      distinct ((ch(n := a # ch n)) k)" for k
  proof (cases "k = n")
    case True
    then show ?thesis using chain_move [OF b(1,2) [of n], of "NextOf a"] na b(2)
      by (auto simp: c'_def r_def m_def chain_other)
  next
    case False
    have "lc_buckets c n = Some q \<Longrightarrow> q \<notin> set (ch k)" for q
      using hd members_disjoint [OF mem False [symmetric]] by blast
    with False na b show ?thesis by (simp add: c'_def m_def chain_other chain_set_prevptr_other)
  qed
  then have "lwc_chains w' (ch(n := a # ch n))" using b(3) by (simp add: lwc_chains_def w'_def c'_def)
  moreover have "lwc_members (m(a \<mapsto> r)) {} (ch(n := a # ch n))"
    using mm r(1,2) ma unfolding lwc_members_def by auto
  ultimately have "lwc_inv w'" by (auto simp: lwc_inv_def lwc_links_def w'_def)
  moreover have "lwc_abs w' = (lwc_abs w)(a \<mapsto> \<lparr>i_text = t, i_refs = 1, i_lower = None\<rparr>)"
    using cores_abs [of "w\<lparr>w_mem := m\<rparr>" w] r(3) by (auto simp: lwc_abs_def w'_def m_def fun_eq_iff)
  ultimately show ?thesis using eq by blast
qed

lemma links_live: "lwc_links w D ch \<Longrightarrow> w_mem w p = Some r \<Longrightarrow> lwc_string_ok r"
  by (simp add: lwc_links_def lwc_members_def)

lemma links_set_refcnt:
  assumes "lwc_links w D ch" and "w_mem w p = Some r"
  shows "lwc_links (w\<lparr>w_mem := (w_mem w)(p \<mapsto> r\<lparr>ls_refcnt := n\<rparr>)\<rparr>) D ch"
    and "lwc_abs (w\<lparr>w_mem := (w_mem w)(p \<mapsto> r\<lparr>ls_refcnt := n\<rparr>)\<rparr>) =
      (lwc_abs w)(p \<mapsto> (lwc_istr r)\<lparr>i_refs := unat n\<rparr>)"
proof -
  show "lwc_links (w\<lparr>w_mem := (w_mem w)(p \<mapsto> r\<lparr>ls_refcnt := n\<rparr>)\<rparr>) D ch"
    using links_live [OF assms] assms
    by (intro links_update [OF assms]) (auto simp: lwc_string_ok_def lwc_text_def)
  show "lwc_abs (w\<lparr>w_mem := (w_mem w)(p \<mapsto> r\<lparr>ls_refcnt := n\<rparr>)\<rparr>) =
      (lwc_abs w)(p \<mapsto> (lwc_istr r)\<lparr>i_refs := unat n\<rparr>)"
    by (auto simp: lwc_abs_def lwc_istr_def lwc_text_def)
qed

lemma abs_Some: "lwc_abs w p = Some i \<longleftrightarrow> (\<exists>r. w_mem w p = Some r \<and> i = lwc_istr r)"
  by (auto simp: lwc_abs_def)

lemma unat_suc_u32: "unat n < 2 ^ 32 - 1 \<Longrightarrow> unat (n + 1) = Suc (unat n)" for n :: u32
  by (simp add: unat_word_ariths)

lemma add_ref_abs:
  assumes "lwc_links w D ch" and "lwc_abs w p = Some i" and "i_refs i < 2 ^ 32 - 1"
  shows "\<exists>w'. add_ref p w = Some w' \<and> lwc_links w' D ch \<and>
    lwc_abs w' = (lwc_abs w)(p \<mapsto> i\<lparr>i_refs := Suc (i_refs i)\<rparr>)"
proof -
  from assms(2) obtain r where r: "w_mem w p = Some r" "i = lwc_istr r" by (auto simp: abs_Some)
  have "unat (ls_refcnt r + 1) = Suc (i_refs i)"
    using assms(3) r by (simp add: lwc_istr_def unat_suc_u32)
  with links_set_refcnt [OF assms(1) r(1), of "ls_refcnt r + 1"] r show ?thesis
    by (simp add: add_ref_def)
qed

text \<open>The abstract pool: a finite map from addresses to texts with reference counts. The result
  of interning \<open>t\<close>.\<close>

definition pool_intern ::
  "bytes \<Rightarrow> (lwc_error + addr) \<Rightarrow> (addr \<rightharpoonup> istr) \<Rightarrow> (addr \<rightharpoonup> istr) \<Rightarrow> bool" where
  "pool_intern t res m m' \<longleftrightarrow>
     (\<exists>p i. m p = Some i \<and> i_text i = t \<and> res = Inr p \<and> m' = m(p \<mapsto> i\<lparr>i_refs := Suc (i_refs i)\<rparr>)) \<or>
     (\<exists>a. (\<forall>p i. m p = Some i \<longrightarrow> i_text i \<noteq> t) \<and> m a = None \<and> res = Inr a \<and>
        m' = m(a \<mapsto> \<lparr>i_text = t, i_refs = 1, i_lower = None\<rparr>)) \<or>
     res = Inl lwc_error_oom \<and> m' = m"

definition mallocs_ok :: "lwc_mallocs \<Rightarrow> bool" where
  "mallocs_ok m \<longleftrightarrow> m_ctx m \<and> m_buckets m \<and> m_string m \<noteq> None"

definition mallocs_fresh :: "lwc_mallocs \<Rightarrow> lwc_world \<Rightarrow> bool" where
  "mallocs_fresh m w \<longleftrightarrow> (case m_string m of None \<Rightarrow> True | Some a \<Rightarrow> w_mem w a = None)"

text \<open>Room for \<open>k\<close> more references in the 32-bit counts.\<close>

definition refs_room :: "nat \<Rightarrow> (addr \<rightharpoonup> istr) \<Rightarrow> bool" where
  "refs_room k m \<longleftrightarrow> k \<le> 3 \<and> (\<forall>p i. m p = Some i \<longrightarrow> i_refs i + k < 2 ^ 32)"

lemma initialise_cases:
  assumes "lwc_inv w"
  shows "(\<exists>c ch w'. lwc__initialise m w = (lwc_error_ok, w') \<and> w_ctx w' = Some c \<and> w_mem w' = w_mem w \<and>
      lwc_links w' {} ch) \<or>
    lwc__initialise m w = (lwc_error_oom, w) \<and> \<not> mallocs_ok m"
proof (cases "w_ctx w")
  case None
  then have e: "w_mem w = Map.empty" using assms by (auto simp: lwc_inv_def lwc_links_def lwc_chains_def)
  show ?thesis
  proof (cases "m_ctx m \<and> m_buckets m")
    case True
    with None e show ?thesis
      by (auto simp: lwc__initialise_def lwc_links_def lwc_chains_def lwc_members_def intro!: exI [of _ "\<lambda>_. []"])
  next
    case False
    with None show ?thesis by (auto simp: lwc__initialise_def mallocs_ok_def)
  qed
next
  case (Some c)
  with assms show ?thesis by (auto simp: lwc__initialise_def lwc_inv_def)
qed

lemma lwc_intern_refines:
  assumes "lwc_inv w" and "intern_args hasher compare copy s t" and "mallocs_fresh m w"
    and "refs_room 1 (lwc_abs w)"
  shows "\<exists>res w'. lwc__intern m s hasher compare copy w = Some (res, w') \<and> lwc_inv w' \<and>
    pool_intern t res (lwc_abs w) (lwc_abs w') \<and> (mallocs_ok m \<longrightarrow> (\<exists>p. res = Inr p))"
  using initialise_cases [OF assms(1), of m]
proof
  assume "lwc__initialise m w = (lwc_error_oom, w) \<and> \<not> mallocs_ok m"
  with assms(1) show ?thesis by (simp add: lwc__intern_def pool_intern_def)
next
  assume "\<exists>c ch w'. lwc__initialise m w = (lwc_error_ok, w') \<and> w_ctx w' = Some c \<and> w_mem w' = w_mem w \<and>
      lwc_links w' {} ch"
  then obtain c ch w1 where i: "lwc__initialise m w = (lwc_error_ok, w1)" "w_ctx w1 = Some c"
    "w_mem w1 = w_mem w" and l: "lwc_links w1 {} ch" by blast
  have abs: "lwc_abs w1 = lwc_abs w" using i(3) by (simp add: lwc_abs_def)
  note b = links_bucket [OF l i(2)]
  define n where "n = unat (hasher s mod lc_bucketcount c)"
  have args: "hasher s = lwc__calculate_hash t" "copy s = t" "length t = length s" "0 \<notin> set t"
    using assms(2) by (simp_all add: intern_args_def)
  note f = find_chain [OF b(1) [of n] links_live [OF l] assms(2)]
  show ?thesis
  proof (cases "find (\<lambda>p. map_option lwc_text (w_mem w1 p) = Some t) (ch n)")
    case (Some p)
    then have "map_option lwc_text (w_mem w1 p) = Some t" by (auto simp: find_Some_iff)
    then obtain j where j: "lwc_abs w1 p = Some j" "i_text j = t" by (auto simp: abs_Some lwc_istr_def)
    with assms(4) abs have "i_refs j < 2 ^ 32 - 1" unfolding refs_room_def by fastforce
    from add_ref_abs [OF l j(1) this] obtain w2 where
      "add_ref p w1 = Some w2" "lwc_links w2 {} ch" "lwc_abs w2 = (lwc_abs w1)(p \<mapsto> j\<lparr>i_refs := Suc (i_refs j)\<rparr>)"
      by blast
    with i f Some j abs show ?thesis
      by (auto simp: lwc__intern_def Let_def n_def [symmetric] lwc_inv_def pool_intern_def)
  next
    case None
    have none: "lwc_abs w1 p = Some j \<Longrightarrow> i_text j \<noteq> t" for p j
    proof
      assume p: "lwc_abs w1 p = Some j" "i_text j = t"
      then obtain r where r: "w_mem w1 p = Some r" "lwc_text r = t" by (auto simp: abs_Some lwc_istr_def)
      with links_live [OF l r(1)] args have "ls_hash r = hasher s" by (simp add: lwc_string_ok_def)
      then have "p \<in> set (ch n)" using l r(1) b(3)
        by (auto simp: lwc_links_def lwc_members_def lwc_bucket_def n_def)
      with None r show False by (auto simp: find_None_iff)
    qed
    show ?thesis
    proof (cases "m_string m")
      case m: None
      from l have "lwc_inv w1" by (auto simp: lwc_inv_def)
      with i f None m abs show ?thesis
        by (simp add: lwc__intern_def Let_def n_def [symmetric] pool_intern_def mallocs_ok_def)
    next
      case (Some a)
      with assms(3) i(3) have fr: "w_mem w1 a = None" by (simp add: mallocs_fresh_def)
      have "n = unat (hasher s mod 4091)" using b(3) by (simp add: n_def)
      from links_link_new [OF l i(2) fr args(4,1) this] obtain w2 where
        w2: "lwc_link_new a n (hasher s) (length t) t c w1 = Some w2" "lwc_inv w2"
        "lwc_abs w2 = (lwc_abs w1)(a \<mapsto> \<lparr>i_text = t, i_refs = 1, i_lower = None\<rparr>)" by blast
      have "lwc_abs w a = None" using fr i(3) by (simp add: lwc_abs_def)
      then have "pool_intern t (Inr a) (lwc_abs w) (lwc_abs w2)"
        unfolding pool_intern_def using w2(3) none abs by auto
      moreover have "lwc__intern m s hasher compare copy w = Some (Inr a, w2)"
        using i f None Some w2(1) args(2,3) by (simp add: lwc__intern_def Let_def n_def [symmetric])
      ultimately show ?thesis using w2(2) by blast
    qed
  qed
qed

section \<open>Destroying\<close>

lemma drop_ref_abs:
  assumes "lwc_links w D ch" and "lwc_abs w p = Some i" and "0 < i_refs i"
  shows "\<exists>w'. drop_ref p w = Some (i_refs i - 1 = 0 \<or> i_refs i - 1 = 1 \<and> i_lower i = Some p, w') \<and>
    lwc_links w' D ch \<and> lwc_abs w' = (lwc_abs w)(p \<mapsto> i\<lparr>i_refs := i_refs i - 1\<rparr>)"
proof -
  from assms(2) obtain r where r: "w_mem w p = Some r" "i = lwc_istr r" by (auto simp: abs_Some)
  define n where "n = ls_refcnt r - 1"
  have "ls_refcnt r \<noteq> 0" using assms(3) r by (auto simp: lwc_istr_def)
  then have n: "unat n = i_refs i - 1" unfolding n_def r(2) lwc_istr_def
    by (simp add: unat_minus_one)
  then have "(n = 0) = (i_refs i - 1 = 0)" "(n = 1) = (i_refs i - 1 = 1)"
    by (metis unat_eq_zero, metis unat_1 unsigned_word_eqI)
  moreover have "drop_ref p w = Some (n = 0 \<or> n = 1 \<and> ls_insensitive r = Some p,
      w\<lparr>w_mem := (w_mem w)(p \<mapsto> r\<lparr>ls_refcnt := n\<rparr>)\<rparr>)"
    unfolding drop_ref_def r(1) n_def Let_def by (simp only: Option.bind.simps)
  ultimately show ?thesis using links_set_refcnt [OF assms(1) r(1), of n] r n by (simp add: lwc_istr_def)
qed

lemma destroy_simple:
  assumes "lwc_links w D ch" and "p \<notin> D" and "lwc_abs w p = Some i"
    and "i_lower i = None \<or> i_refs i \<noteq> 0"
  shows "\<exists>w' ch'. lwc_string_destroy p w = Some w' \<and> lwc_links w' D ch' \<and> lwc_abs w' = (lwc_abs w)(p := None)"
proof -
  from assms(3) obtain r where r: "w_mem w p = Some r" "i = lwc_istr r" by (auto simp: abs_Some)
  from links_unlink [OF assms(1,2) r(1)] obtain w1 ch1 where
    w1: "unlink r w = Some w1" "lwc_links w1 (insert p D) ch1" "w_mem w1 p = Some r" "lwc_abs w1 = lwc_abs w" by blast
  have "lwc_string_destroy p w = Some (w1\<lparr>w_mem := (w_mem w1)(p := None)\<rparr>)"
    using r w1 assms(4) by (subst lwc_string_destroy.simps) (auto simp: lwc_istr_def split: option.splits)
  moreover have "lwc_abs (w1\<lparr>w_mem := (w_mem w1)(p := None)\<rparr>) = (lwc_abs w)(p := None)"
    unfolding w1(4) [symmetric] by (auto simp: lwc_abs_def)
  ultimately show ?thesis using links_free [OF w1(2) assms(2)] by blast
qed

text \<open>A string whose caseless copy is another string takes its reference to it along.\<close>

lemma destroy_cascade:
  assumes "lwc_links w {} ch" and "lwc_abs w p = Some i" and "i_refs i = 0" and "i_lower i = Some q" and "q \<noteq> p"
    and "lwc_abs w q = Some j" and "0 < i_refs j" and "i_refs j = 1 \<Longrightarrow> i_lower j = None"
  shows "\<exists>w'. lwc_string_destroy p w = Some w' \<and> lwc_inv w' \<and>
    lwc_abs w' = (lwc_abs w)(p := None, q :=
      if i_refs j - 1 = 0 \<or> i_refs j - 1 = 1 \<and> i_lower j = Some q then None
      else Some (j\<lparr>i_refs := i_refs j - 1\<rparr>))"
proof -
  from assms(2) obtain r where r: "w_mem w p = Some r" "i = lwc_istr r" by (auto simp: abs_Some)
  from links_unlink [OF assms(1) _ r(1)] obtain w1 ch1 where
    w1: "unlink r w = Some w1" "lwc_links w1 {p} ch1" "w_mem w1 p = Some r" "lwc_abs w1 = lwc_abs w" by auto
  define dead where "dead \<longleftrightarrow> i_refs j - 1 = 0 \<or> i_refs j - 1 = 1 \<and> i_lower j = Some q"
  from drop_ref_abs [OF w1(2), of q j] assms(6,7) w1(4) obtain w2 where
    w2: "drop_ref q w1 = Some (dead, w2)" "lwc_links w2 {p} ch1"
      "lwc_abs w2 = (lwc_abs w)(q \<mapsto> j\<lparr>i_refs := i_refs j - 1\<rparr>)" unfolding dead_def by auto
  have "\<exists>w3 ch3. (if dead then lwc_string_destroy q w2 else Some w2) = Some w3 \<and> lwc_links w3 {p} ch3 \<and>
    lwc_abs w3 = (lwc_abs w)(q := if dead then None else Some (j\<lparr>i_refs := i_refs j - 1\<rparr>))"
  proof (cases dead)
    case True
    have "i_lower j = None \<or> i_refs j - 1 \<noteq> 0" using assms(7,8) by (cases "i_refs j = 1") auto
    with destroy_simple [OF w2(2), of q "j\<lparr>i_refs := i_refs j - 1\<rparr>"] w2(3) assms(5) True show ?thesis by auto
  qed (use w2 in auto)
  then obtain w3 ch3 where w3: "(if dead then lwc_string_destroy q w2 else Some w2) = Some w3"
    "lwc_links w3 {p} ch3" "lwc_abs w3 = (lwc_abs w)(q := if dead then None else Some (j\<lparr>i_refs := i_refs j - 1\<rparr>))"
    by blast
  have "ls_refcnt r = 0" "ls_insensitive r = Some q" using assms(3,4) r
    by (simp_all add: lwc_istr_def unat_eq_zero)
  then have "lwc_string_destroy p w = Some (w3\<lparr>w_mem := (w_mem w3)(p := None)\<rparr>)"
    using r w1 w2 w3(1) by (subst lwc_string_destroy.simps) simp
  moreover have "lwc_abs (w3\<lparr>w_mem := (w_mem w3)(p := None)\<rparr>) = (lwc_abs w3)(p := None)"
    by (auto simp: lwc_abs_def)
  ultimately show ?thesis using links_free [OF w3(2), simplified] w3(3) assms(5)
    by (auto simp: lwc_inv_def dead_def fun_upd_twist)
qed

section \<open>Reference counts\<close>

text \<open>\<open>ext p\<close> is the number of references to \<open>p\<close> held outside the library. The others are the
  caseless-copy pointers of other strings, or of \<open>p\<close> itself.\<close>

definition irefs :: "(addr \<rightharpoonup> istr) \<Rightarrow> addr \<Rightarrow> addr set" where
  "irefs m p = {q. \<exists>i. m q = Some i \<and> i_lower i = Some p}"

definition pool_inv :: "(addr \<rightharpoonup> istr) \<Rightarrow> (addr \<Rightarrow> nat) \<Rightarrow> bool" where
  "pool_inv m ext \<longleftrightarrow>
     finite (dom m) \<and> (\<forall>p. m p = None \<longrightarrow> ext p = 0) \<and>
     (\<forall>p q i j. m p = Some i \<and> m q = Some j \<and> i_text i = i_text j \<longrightarrow> p = q) \<and>
     (\<forall>p i q. m p = Some i \<and> i_lower i = Some q \<longrightarrow>
        (\<exists>j. m q = Some j \<and> i_text j = map lwc__dolower (i_text i))) \<and>
     (\<forall>p i. m p = Some i \<longrightarrow> i_refs i = ext p + card (irefs m p) \<and> (0 < ext p \<or> irefs m p - {p} \<noteq> {}))"

lemma dolower_idem: "lwc__dolower (lwc__dolower c) = lwc__dolower c"
  by (rule all_u8_list) code_simp

lemma lower_idem: "map lwc__dolower (map lwc__dolower t) = map lwc__dolower t"
  by (simp add: dolower_idem)

lemma pool_invI:
  assumes "finite (dom m)" and "\<And>p. m p = None \<Longrightarrow> ext p = 0"
    and "\<And>p q i j. m p = Some i \<Longrightarrow> m q = Some j \<Longrightarrow> i_text i = i_text j \<Longrightarrow> p = q"
    and "\<And>p i q. m p = Some i \<Longrightarrow> i_lower i = Some q \<Longrightarrow> \<exists>j. m q = Some j \<and> i_text j = map lwc__dolower (i_text i)"
    and "\<And>p i. m p = Some i \<Longrightarrow> i_refs i = ext p + card (irefs m p)"
    and "\<And>p i. m p = Some i \<Longrightarrow> 0 < ext p \<or> irefs m p - {p} \<noteq> {}"
  shows "pool_inv m ext"
  using assms unfolding pool_inv_def by blast

lemma pool_invD:
  assumes "pool_inv m ext"
  shows "finite (dom m)" and "m p = None \<Longrightarrow> ext p = 0"
    and "m p = Some i \<Longrightarrow> m q = Some j \<Longrightarrow> i_text i = i_text j \<Longrightarrow> p = q"
    and "m p = Some i \<Longrightarrow> i_lower i = Some q \<Longrightarrow> \<exists>j. m q = Some j \<and> i_text j = map lwc__dolower (i_text i)"
    and "m p = Some i \<Longrightarrow> i_refs i = ext p + card (irefs m p)"
    and "m p = Some i \<Longrightarrow> 0 < ext p \<or> irefs m p - {p} \<noteq> {}"
    and "finite (irefs m q)"
proof -
  show "finite (dom m)" and "m p = None \<Longrightarrow> ext p = 0"
    and "m p = Some i \<Longrightarrow> m q = Some j \<Longrightarrow> i_text i = i_text j \<Longrightarrow> p = q"
    and "m p = Some i \<Longrightarrow> i_lower i = Some q \<Longrightarrow> \<exists>j. m q = Some j \<and> i_text j = map lwc__dolower (i_text i)"
    and "m p = Some i \<Longrightarrow> i_refs i = ext p + card (irefs m p)"
    and "m p = Some i \<Longrightarrow> 0 < ext p \<or> irefs m p - {p} \<noteq> {}"
    using assms unfolding pool_inv_def by blast+
  have "irefs m q \<subseteq> dom m" by (auto simp: irefs_def)
  then show "finite (irefs m q)" using \<open>finite (dom m)\<close> by (rule finite_subset)
qed

text \<open>Changing a count, with as many external references added or removed.\<close>

lemma irefs_same_lower: "m p = Some i \<Longrightarrow> i_lower i' = i_lower i \<Longrightarrow> irefs (m(p \<mapsto> i')) = irefs m"
  by (auto simp: irefs_def fun_eq_iff)

lemma pool_set_refs:
  assumes "pool_inv m ext" and "m p = Some i" and "n = e + card (irefs m p)" and "0 < e \<or> irefs m p - {p} \<noteq> {}"
  shows "pool_inv (m(p \<mapsto> i\<lparr>i_refs := n\<rparr>)) (ext(p := e))"
proof -
  note d = pool_invD [OF assms(1)]
  have ir: "irefs (m(p \<mapsto> i\<lparr>i_refs := n\<rparr>)) = irefs m" using assms(2) by (intro irefs_same_lower) auto
  show ?thesis
  proof (rule pool_invI, goal_cases)
    case 1
    then show ?case using d(1) by simp
  next
    case (2 q)
    then show ?case using d(2) [of q] by (auto split: if_splits)
  next
    case (3 a b x y)
    then show ?case using d(3) assms(2) by (auto split: if_splits)
  next
    case (4 a x b)
    then show ?case using d(4) assms(2) by (fastforce split: if_splits)
  next
    case (5 a x)
    then show ?case using d(5) assms(3) unfolding ir by (auto split: if_splits)
  next
    case (6 a x)
    then show ?case using d(6) assms(4) unfolding ir by (auto split: if_splits)
  qed
qed

lemma pool_ref:
  assumes "pool_inv m ext" and "m p = Some i"
  shows "pool_inv (m(p \<mapsto> i\<lparr>i_refs := Suc (i_refs i)\<rparr>)) (ext(p := ext p + 1))"
  using pool_invD(5) [OF assms] by (intro pool_set_refs [OF assms]) auto

lemma pool_new:
  assumes "pool_inv m ext" and "m a = None" and "\<And>p i. m p = Some i \<Longrightarrow> i_text i \<noteq> t"
  shows "pool_inv (m(a \<mapsto> \<lparr>i_text = t, i_refs = 1, i_lower = None\<rparr>)) (ext(a := 1))"
proof -
  note d = pool_invD [OF assms(1)]
  let ?m = "m(a \<mapsto> \<lparr>i_text = t, i_refs = 1, i_lower = None\<rparr>)"
  have ir: "irefs ?m = irefs m" using assms(2) by (auto simp: irefs_def fun_eq_iff)
  have ira: "irefs m a = {}" using d(4) assms(2) by (fastforce simp: irefs_def)
  show ?thesis
  proof (rule pool_invI, goal_cases)
    case 1
    then show ?case using d(1) by simp
  next
    case (2 q)
    then show ?case using d(2) [of q] by (auto split: if_splits)
  next
    case (3 p q x y)
    then show ?case using d(3) [of p x q y] assms(3) [of p x] assms(3) [of q y] by (auto split: if_splits)
  next
    case (4 p x b)
    then show ?case using d(4) [of p x b] assms(2) by (auto split: if_splits)
  next
    case (5 p x)
    then show ?case using d(5) ira unfolding ir by (auto split: if_splits)
  next
    case (6 p x)
    then show ?case using d(6) unfolding ir by (auto split: if_splits)
  qed
qed

text \<open>A caseless-copy pointer takes over one external reference.\<close>

lemma pool_set_lower:
  assumes "pool_inv m (ext(q := ext q + 1))" and "m p = Some i" and "i_lower i = None" and "0 < ext p"
    and "m q = Some j" and "i_text j = map lwc__dolower (i_text i)"
  shows "pool_inv (m(p \<mapsto> i\<lparr>i_lower := Some q\<rparr>)) ext"
proof -
  note d = pool_invD [OF assms(1)]
  let ?m = "m(p \<mapsto> i\<lparr>i_lower := Some q\<rparr>)"
  have ir: "irefs ?m x = (if x = q then insert p (irefs m x) else irefs m x)" for x
    using assms(2,3) by (auto simp: irefs_def)
  have np: "p \<notin> irefs m x" for x using assms(2,3) by (auto simp: irefs_def)
  have card: "card (irefs ?m x) = (if x = q then 1 else 0) + card (irefs m x)" for x
    using ir [of x] np [of x] d(7) [of x] by auto
  show ?thesis
  proof (rule pool_invI, goal_cases)
    case 1
    then show ?case using d(1) by simp
  next
    case (2 x)
    then show ?case using d(2) [of x] by (auto split: if_splits)
  next
    case (3 a b x y)
    then show ?case using d(3) assms(2) by (auto split: if_splits)
  next
    case (4 a x b)
    then show ?case using d(4) [of a x b] assms(2,5,6) by (cases "a = p"; cases "b = p") (auto split: if_splits)
  next
    case (5 a x)
    then show ?case using d(5) [of a] assms(2) unfolding card by (auto split: if_splits)
  next
    case (6 a x)
    then show ?case using d(6) [of a] assms(2,4) unfolding ir by (auto split: if_splits)
  qed
qed

text \<open>Removing a string nobody else points to.\<close>

lemma pool_remove:
  assumes "pool_inv m ext" and "m p = Some i" and "i_lower i = None \<or> i_lower i = Some p" and "irefs m p \<subseteq> {p}"
  shows "pool_inv (m(p := None)) (ext(p := 0))"
proof -
  note d = pool_invD [OF assms(1)]
  have ir: "x \<noteq> p \<Longrightarrow> irefs (m(p := None)) x = irefs m x" for x
    using assms(2,3) by (auto simp: irefs_def)
  have np: "a \<noteq> p \<Longrightarrow> m a = Some x \<Longrightarrow> i_lower x \<noteq> Some p" for a x
    using assms(4) by (auto simp: irefs_def)
  show ?thesis
  proof (rule pool_invI, goal_cases)
    case 1
    then show ?case using d(1) by simp
  next
    case (2 x)
    then show ?case using d(2) [of x] by (auto split: if_splits)
  next
    case (3 a b x y)
    then show ?case using d(3) [of a x b y] by (auto split: if_splits)
  next
    case (4 a x b)
    then show ?case using d(4) [of a x b] np [of a x] by (auto split: if_splits)
  next
    case (5 a x)
    then show ?case using d(5) [of a x] ir [of a] by (auto split: if_splits)
  next
    case (6 a x)
    then show ?case using d(6) [of a x] ir [of a] by (auto split: if_splits)
  qed
qed

text \<open>Removing a string that points to another one: its reference becomes an external one.\<close>

lemma pool_remove_move:
  assumes "pool_inv m ext" and "m p = Some i" and "i_lower i = Some q" and "q \<noteq> p" and "irefs m p = {}"
  shows "pool_inv (m(p := None)) (ext(p := 0, q := ext q + 1))"
proof -
  note d = pool_invD [OF assms(1)]
  have ir: "irefs (m(p := None)) x = irefs m x - {p}" for x
    by (auto simp: irefs_def)
  have pq: "p \<in> irefs m x \<longleftrightarrow> x = q" for x using assms(2,3) by (auto simp: irefs_def)
  have card: "card (irefs m x) = card (irefs (m(p := None)) x) + (if x = q then 1 else 0)" for x
    unfolding ir using pq [of x] card.remove [OF d(7) [of x], of p] by auto
  have np: "m a = Some x \<Longrightarrow> i_lower x \<noteq> Some p" for a x
    using assms(5) by (auto simp: irefs_def)
  show ?thesis
  proof (rule pool_invI, goal_cases)
    case 1
    then show ?case using d(1) by simp
  next
    case (2 x)
    then show ?case using d(2) [of x] d(4) [OF assms(2,3)] assms(4) by (auto split: if_splits)
  next
    case (3 a b x y)
    then show ?case using d(3) [of a x b y] by (auto split: if_splits)
  next
    case (4 a x b)
    then show ?case using d(4) [of a x b] np [of a x] by (auto split: if_splits)
  next
    case (5 a x)
    then show ?case using d(5) [of a x] card [of a] assms(4) by (auto split: if_splits)
  next
    case (6 a x)
    then show ?case using d(6) [of a x] ir [of a] pq [of a] by (auto split: if_splits)
  qed
qed

definition pool_dead :: "addr \<Rightarrow> istr \<Rightarrow> bool" where
  "pool_dead p i \<longleftrightarrow> i_refs i - 1 = 0 \<or> i_refs i - 1 = 1 \<and> i_lower i = Some p"

lemma pool_dead_refs:
  assumes "pool_inv m ext" and "m p = Some i" and "0 < ext p"
  shows "pool_dead p i \<longleftrightarrow> ext p = 1 \<and> irefs m p \<subseteq> {p}"
    and "pool_dead p i \<Longrightarrow> i_refs i = 1 \<longleftrightarrow> i_lower i \<noteq> Some p"
proof -
  note d = pool_invD [OF assms(1)]
  have refs: "i_refs i = ext p + card (irefs m p)" by (rule d(5) [OF assms(2)])
  have fin: "finite (irefs m p)" by (rule d(7))
  have self: "i_lower i = Some p \<longleftrightarrow> p \<in> irefs m p" using assms(2) by (auto simp: irefs_def)
  have "card (irefs m p) = 0 \<longleftrightarrow> irefs m p = {}" using fin by simp
  moreover have "card (irefs m p) = 1 \<and> p \<in> irefs m p \<longleftrightarrow> irefs m p = {p}" by (auto simp: card_1_singleton_iff)
  moreover have "irefs m p \<subseteq> {p} \<longleftrightarrow> irefs m p = {} \<or> irefs m p = {p}" by blast
  ultimately show "pool_dead p i \<longleftrightarrow> ext p = 1 \<and> irefs m p \<subseteq> {p}"
    and "pool_dead p i \<Longrightarrow> i_refs i = 1 \<longleftrightarrow> i_lower i \<noteq> Some p"
    unfolding pool_dead_def using refs assms(3) self by auto
qed

lemma pool_release:
  assumes "pool_inv m ext" and "m p = Some i" and "0 < ext p"
    and "pool_dead p i \<Longrightarrow> i_lower i = None \<or> i_lower i = Some p"
  shows "pool_inv (m(p := if pool_dead p i then None else Some (i\<lparr>i_refs := i_refs i - 1\<rparr>))) (ext(p := ext p - 1))"
proof (cases "pool_dead p i")
  case True
  then have "ext p = 1 \<and> irefs m p \<subseteq> {p}" using pool_dead_refs(1) [OF assms(1-3)] by simp
  with pool_remove [OF assms(1,2) assms(4) [OF True]] True show ?thesis by simp
next
  case False
  have "i_refs i - 1 = ext p - 1 + card (irefs m p)" using pool_invD(5) [OF assms(1,2)] assms(3) by simp
  moreover have "0 < ext p - 1 \<or> irefs m p - {p} \<noteq> {}"
    using False pool_dead_refs(1) [OF assms(1-3)] assms(3) by auto
  ultimately have "pool_inv (m(p \<mapsto> i\<lparr>i_refs := i_refs i - 1\<rparr>)) (ext(p := ext p - 1))"
    by (rule pool_set_refs [OF assms(1,2)])
  with False show ?thesis by simp
qed

section \<open>Releasing a reference\<close>

lemma irefs_lower_two:
  assumes "pool_inv m ext" and "m p = Some i" and "i_lower i = Some q" and "q \<noteq> p" and "m q = Some j"
    and "i_refs j = 1"
  shows "i_lower j = None"
proof (rule ccontr)
  note d = pool_invD [OF assms(1)]
  assume "i_lower j \<noteq> None"
  then obtain x where x: "i_lower j = Some x" by blast
  from d(4) [OF assms(2,3)] assms(5) have j: "i_text j = map lwc__dolower (i_text i)" by auto
  from d(4) [OF assms(5) x] obtain k where k: "m x = Some k" "i_text k = map lwc__dolower (i_text j)" by blast
  then have "x = q" using d(3) [OF k(1) assms(5)] j by (simp add: dolower_idem)
  then have "{p, q} \<subseteq> irefs m q" using x assms(2,3,5) by (auto simp: irefs_def)
  then have "card {p, q} \<le> card (irefs m q)" by (rule card_mono [OF d(7)])
  then show False using d(5) [OF assms(5)] assms(4,6) by simp
qed

definition same_texts :: "(addr \<rightharpoonup> istr) \<Rightarrow> (addr \<rightharpoonup> istr) \<Rightarrow> bool" where
  "same_texts m m' \<longleftrightarrow> (\<forall>q j'. m' q = Some j' \<longrightarrow> (\<exists>j. m q = Some j \<and> i_text j' = i_text j))"

lemma lwc_unref_ok:
  assumes "lwc_inv w" and "pool_inv (lwc_abs w) ext" and "0 < ext p"
  shows "\<exists>w'. lwc_string_unref (Some p) w = Some w' \<and> lwc_inv w' \<and>
    pool_inv (lwc_abs w') (ext(p := ext p - 1)) \<and> same_texts (lwc_abs w) (lwc_abs w')"
proof -
  note d = pool_invD [OF assms(2)]
  obtain ch where ch: "lwc_links w {} ch" using assms(1) by (auto simp: lwc_inv_def)
  obtain i where i: "lwc_abs w p = Some i" using d(2) [of p] assms(3) by (cases "lwc_abs w p") auto
  have r0: "0 < i_refs i" using d(5) [OF i] assms(3) by simp
  from drop_ref_abs [OF ch i r0] obtain w1 where
    w1: "drop_ref p w = Some (pool_dead p i, w1)" "lwc_links w1 {} ch"
      "lwc_abs w1 = (lwc_abs w)(p \<mapsto> i\<lparr>i_refs := i_refs i - 1\<rparr>)"
    unfolding pool_dead_def by blast
  note dr = pool_dead_refs [OF assms(2) i assms(3)]
  note rel = pool_release [OF assms(2) i assms(3)]
  consider "\<not> pool_dead p i" | "pool_dead p i" "i_lower i = None \<or> i_lower i = Some p"
    | q where "pool_dead p i" "i_lower i = Some q" "q \<noteq> p" by (cases "i_lower i") auto
  then show ?thesis
  proof cases
    case 1
    with w1 rel i show ?thesis by (auto simp: lwc_string_unref_def lwc_inv_def same_texts_def)
  next
    case 2
    then have "i_lower (i\<lparr>i_refs := i_refs i - 1\<rparr>) = None \<or> i_refs (i\<lparr>i_refs := i_refs i - 1\<rparr>) \<noteq> 0"
      using dr(2) r0 by auto
    with destroy_simple [OF w1(2), of p "i\<lparr>i_refs := i_refs i - 1\<rparr>"] w1(3) obtain w2 ch2 where
      "lwc_string_destroy p w1 = Some w2" "lwc_links w2 {} ch2" "lwc_abs w2 = (lwc_abs w)(p := None)" by auto
    with 2 w1 rel show ?thesis by (auto simp: lwc_string_unref_def lwc_inv_def same_texts_def)
  next
    case 3
    have r1: "i_refs i = 1" "ext p = 1" "irefs (lwc_abs w) p = {}"
      using dr 3 i by (auto simp: irefs_def)
    from d(4) [OF i 3(2)] obtain j where j: "lwc_abs w q = Some j" by blast
    have "p \<in> irefs (lwc_abs w) q" using i 3(2) by (auto simp: irefs_def)
    then have "0 < i_refs j" using d(5) [OF j] d(7) [of q] by (auto simp: card_gt_0_iff)
    then obtain w2 where w2: "lwc_string_destroy p w1 = Some w2" "lwc_inv w2"
        "lwc_abs w2 = (lwc_abs w)(p := None, q := if pool_dead q j then None else Some (j\<lparr>i_refs := i_refs j - 1\<rparr>))"
      using destroy_cascade [OF w1(2), of p "i\<lparr>i_refs := i_refs i - 1\<rparr>" q j] w1(3) r1 3 j
        irefs_lower_two [OF assms(2) i 3(2,3) j] unfolding pool_dead_def by auto
    let ?m = "(lwc_abs w)(p := None)"
    have mv: "pool_inv ?m (ext(p := 0, q := ext q + 1))"
      by (rule pool_remove_move [OF assms(2) i 3(2,3) r1(3)])
    have "pool_dead q j \<Longrightarrow> i_lower j = None \<or> i_lower j = Some q"
      using irefs_lower_two [OF assms(2) i 3(2,3) j] \<open>0 < i_refs j\<close>
      by (auto simp: pool_dead_def)
    then have "pool_inv (lwc_abs w2) ((ext(p := 0, q := ext q + 1))(q := ext q))"
      using pool_release [OF mv, of q j] j 3(3) w2(3) by simp
    moreover have "(ext(p := 0, q := ext q + 1))(q := ext q) = ext(p := ext p - 1)"
      using r1(2) 3(3) by (auto simp: fun_eq_iff)
    ultimately have "pool_inv (lwc_abs w2) (ext(p := ext p - 1))" by simp
    with w1(1) w2 3 j show ?thesis by (auto simp: lwc_string_unref_def same_texts_def)
  qed
qed

section \<open>The other operations keep the counts\<close>

lemma pool_intern_inv:
  assumes "pool_inv m ext" and "pool_intern t (Inr p) m m'"
  shows "pool_inv m' (ext(p := ext p + 1))" and "map_option i_text (m' p) = Some t"
    and "m q = Some i \<Longrightarrow> \<exists>n. m' q = Some (i\<lparr>i_refs := n\<rparr>) \<and> (n = i_refs i \<or> n = Suc (i_refs i))"
    and "refs_room (Suc k) m \<Longrightarrow> refs_room k m'"
proof -
  have same: "\<exists>n. i = i\<lparr>i_refs := n\<rparr> \<and> (n = i_refs i \<or> n = Suc (i_refs i))" by (rule exI [of _ "i_refs i"]) simp
  consider j where "m p = Some j" "i_text j = t" "m' = m(p \<mapsto> j\<lparr>i_refs := Suc (i_refs j)\<rparr>)"
    | "\<And>p i. m p = Some i \<Longrightarrow> i_text i \<noteq> t" "m p = None" "m' = m(p \<mapsto> \<lparr>i_text = t, i_refs = 1, i_lower = None\<rparr>)"
    using assms(2) by (auto simp: pool_intern_def)
  then have "pool_inv m' (ext(p := ext p + 1)) \<and> map_option i_text (m' p) = Some t \<and>
    (m q = Some i \<longrightarrow> (\<exists>n. m' q = Some (i\<lparr>i_refs := n\<rparr>) \<and> (n = i_refs i \<or> n = Suc (i_refs i)))) \<and>
    (refs_room (Suc k) m \<longrightarrow> refs_room k m')"
  proof cases
    case 1
    have "m q = Some i \<longrightarrow> (\<exists>n. m' q = Some (i\<lparr>i_refs := n\<rparr>) \<and> (n = i_refs i \<or> n = Suc (i_refs i)))"
      using 1(1,3) same by (cases "q = p") auto
    moreover have "refs_room (Suc k) m \<longrightarrow> refs_room k m'"
      using 1(1,3) by (fastforce simp: refs_room_def split: if_splits)
    ultimately show ?thesis using pool_ref [OF assms(1) 1(1)] 1 by simp
  next
    case 2
    have "ext p = 0" using pool_invD(2) [OF assms(1) 2(2)] .
    moreover have "m q = Some i \<longrightarrow> (\<exists>n. m' q = Some (i\<lparr>i_refs := n\<rparr>) \<and> (n = i_refs i \<or> n = Suc (i_refs i)))"
      using 2(2,3) same by (metis fun_upd_apply option.distinct(1))
    moreover have "refs_room (Suc k) m \<longrightarrow> refs_room k m'"
      using 2(3) by (fastforce simp: refs_room_def split: if_splits)
    ultimately show ?thesis using pool_new [OF assms(1) 2(2,1)] 2(3) by simp
  qed
  then show "pool_inv m' (ext(p := ext p + 1))" and "map_option i_text (m' p) = Some t"
    and "m q = Some i \<Longrightarrow> \<exists>n. m' q = Some (i\<lparr>i_refs := n\<rparr>) \<and> (n = i_refs i \<or> n = Suc (i_refs i))"
    and "refs_room (Suc k) m \<Longrightarrow> refs_room k m'" by blast+
qed

text \<open>The state of the library and the client's references to it.\<close>

definition lwc_state :: "lwc_world \<Rightarrow> (addr \<Rightarrow> nat) \<Rightarrow> bool" where
  "lwc_state w ext \<longleftrightarrow> lwc_inv w \<and> pool_inv (lwc_abs w) ext"

definition text_at :: "lwc_world \<Rightarrow> addr \<Rightarrow> bytes option" where
  "text_at w p = map_option i_text (lwc_abs w p)"

definition texts_kept :: "lwc_world \<Rightarrow> lwc_world \<Rightarrow> bool" where
  "texts_kept w w' \<longleftrightarrow> (\<forall>q t. text_at w q = Some t \<longrightarrow> text_at w' q = Some t)"

lemma lwc_intern_state:
  assumes "lwc_state w ext" and "intern_args hasher compare copy s t" and "mallocs_fresh m w"
    and "refs_room (Suc k) (lwc_abs w)"
  shows "(\<exists>p w'. lwc__intern m s hasher compare copy w = Some (Inr p, w') \<and> lwc_state w' (ext(p := ext p + 1)) \<and>
      text_at w' p = Some t \<and> texts_kept w w' \<and> refs_room k (lwc_abs w') \<and>
      (\<forall>q i. lwc_abs w q = Some i \<longrightarrow> (\<exists>n. lwc_abs w' q = Some (i\<lparr>i_refs := n\<rparr>)))) \<or>
    (\<exists>w'. lwc__intern m s hasher compare copy w = Some (Inl lwc_error_oom, w') \<and> lwc_state w' ext \<and>
      lwc_abs w' = lwc_abs w \<and> \<not> mallocs_ok m)"
proof -
  have inv: "lwc_inv w" "pool_inv (lwc_abs w) ext" using assms(1) by (simp_all add: lwc_state_def)
  have "refs_room 1 (lwc_abs w)" using assms(4) by (fastforce simp: refs_room_def)
  from lwc_intern_refines [OF inv(1) assms(2,3) this] obtain res w' where
    r: "lwc__intern m s hasher compare copy w = Some (res, w')" "lwc_inv w'"
      "pool_intern t res (lwc_abs w) (lwc_abs w')" "mallocs_ok m \<longrightarrow> (\<exists>p. res = Inr p)" by blast
  show ?thesis
  proof (cases res)
    case (Inl e)
    then have "e = lwc_error_oom" "lwc_abs w' = lwc_abs w" using r(3) by (auto simp: pool_intern_def)
    with Inl r inv show ?thesis by (auto simp: lwc_state_def)
  next
    case (Inr p)
    note pi = pool_intern_inv [OF inv(2) r(3) [unfolded Inr]]
    have "texts_kept w w'" unfolding texts_kept_def text_at_def
    proof (intro allI impI)
      fix q u assume "map_option i_text (lwc_abs w q) = Some u"
      then obtain i where "lwc_abs w q = Some i" "i_text i = u" by auto
      with pi(3) [of q i] show "map_option i_text (lwc_abs w' q) = Some u" by auto
    qed
    moreover have "\<forall>q i. lwc_abs w q = Some i \<longrightarrow> (\<exists>n. lwc_abs w' q = Some (i\<lparr>i_refs := n\<rparr>))"
      using pi(3) by blast
    ultimately show ?thesis using Inr r pi(1,2) pi(4) [OF assms(4)] by (auto simp: lwc_state_def text_at_def)
  qed
qed

lemma caseless_state:
  assumes "lwc_state w ext" and "0 < ext str" and "lwc_abs w str = Some i" and "i_lower i = None"
    and "mallocs_fresh m w" and "refs_room (Suc k) (lwc_abs w)"
  shows "(\<exists>w' p i'. lwc__intern_caseless_string m str w = Some (lwc_error_ok, w') \<and> lwc_state w' ext \<and>
      texts_kept w w' \<and> refs_room k (lwc_abs w') \<and> lwc_abs w' str = Some i' \<and> i_lower i' = Some p \<and>
      (\<forall>q j. q \<noteq> str \<longrightarrow> lwc_abs w q = Some j \<longrightarrow> (\<exists>n. lwc_abs w' q = Some (j\<lparr>i_refs := n\<rparr>)))) \<or>
    (\<exists>w'. lwc__intern_caseless_string m str w = Some (lwc_error_oom, w') \<and> lwc_state w' ext \<and>
      lwc_abs w' = lwc_abs w \<and> \<not> mallocs_ok m)"
proof -
  obtain ch where l: "lwc_links w {} ch" using assms(1) by (auto simp: lwc_state_def lwc_inv_def)
  from assms(3) obtain r where r: "w_mem w str = Some r" "i = lwc_istr r" by (auto simp: abs_Some)
  note ok = links_live [OF l r(1)]
  define s where "s = lwc_text r"
  have s: "mem_read 0 (ls_len r) (ls_chars r) = Some s" "0 \<notin> set s"
    using ok string_ok_len [OF ok] by (simp_all add: s_def lwc_string_ok_def mem_read_def lwc_text_def)
  have low: "ls_insensitive r = None" using assms(4) r by (simp add: lwc_istr_def)
  note st = lwc_intern_state [OF assms(1) intern_args_caseless [OF s(2)] assms(5,6)]
  then show ?thesis
  proof (elim disjE exE conjE, goal_cases)
    case (2 w')
    then show ?case using r s low by (auto simp: lwc__intern_caseless_string_def)
  next
    case (1 p w1)
    from 1(6) assms(3) obtain n where n: "lwc_abs w1 str = Some (i\<lparr>i_refs := n\<rparr>)" by blast
    then obtain r1 where r1: "w_mem w1 str = Some r1" "i\<lparr>i_refs := n\<rparr> = lwc_istr r1" by (auto simp: abs_Some)
    define w' where "w' = w1\<lparr>w_mem := (w_mem w1)(str \<mapsto> r1\<lparr>ls_insensitive := Some p\<rparr>)\<rparr>"
    have res: "lwc__intern_caseless_string m str w = Some (lwc_error_ok, w')"
      using r s low 1(1) r1(1) by (simp add: lwc__intern_caseless_string_def w'_def)
    obtain ch1 where l1: "lwc_links w1 {} ch1" using 1(2) by (auto simp: lwc_state_def lwc_inv_def)
    have "lwc_links w' {} ch1" unfolding w'_def using links_live [OF l1 r1(1)]
      by (intro links_update [OF l1 r1(1)]) (auto simp: lwc_string_ok_def lwc_text_def)
    then have inv: "lwc_inv w'" by (auto simp: lwc_inv_def)
    have abs: "lwc_abs w' = (lwc_abs w1)(str \<mapsto> i\<lparr>i_refs := n, i_lower := Some p\<rparr>)"
    proof -
      have "lwc_istr (r1\<lparr>ls_insensitive := Some p\<rparr>) = (lwc_istr r1)\<lparr>i_lower := Some p\<rparr>"
        by (simp add: lwc_istr_def lwc_text_def)
      then show ?thesis unfolding r1(2) [symmetric] by (auto simp: lwc_abs_def w'_def)
    qed
    from 1(3) obtain j where j: "lwc_abs w1 p = Some j" "i_text j = map lwc__dolower s" by (auto simp: text_at_def)
    have "pool_inv (lwc_abs w') ext"
      unfolding abs using pool_set_lower [of "lwc_abs w1" ext p str "i\<lparr>i_refs := n\<rparr>" j] 1(2) n j assms(2,4) r
      by (simp add: lwc_state_def s_def lwc_istr_def)
    moreover have "texts_kept w w'" using 1(4) n abs assms(3)
      by (auto simp: texts_kept_def text_at_def split: if_splits)
    moreover have "refs_room k (lwc_abs w')" using 1(5) n abs by (fastforce simp: refs_room_def split: if_splits)
    ultimately show ?case using res inv abs 1(6)
      by (intro disjI1 exI [of _ w'] exI [of _ p]) (auto simp: lwc_state_def)
  qed
qed

lemma state_live: "lwc_state w ext \<Longrightarrow> 0 < ext p \<Longrightarrow> \<exists>i. lwc_abs w p = Some i"
  using pool_invD(2) [of "lwc_abs w" ext p] by (cases "lwc_abs w p") (auto simp: lwc_state_def)

lemma ref_state:
  assumes "lwc_state w ext" and "lwc_abs w p = Some i" and "refs_room (Suc k) (lwc_abs w)"
  shows "\<exists>w'. lwc_string_ref p w = Some w' \<and> lwc_state w' (ext(p := ext p + 1)) \<and> texts_kept w w'"
proof -
  obtain ch where l: "lwc_links w {} ch" using assms(1) by (auto simp: lwc_state_def lwc_inv_def)
  have "i_refs i < 2 ^ 32 - 1" using assms(2,3) by (fastforce simp: refs_room_def)
  from add_ref_abs [OF l assms(2) this] obtain w' where
    w': "add_ref p w = Some w'" "lwc_links w' {} ch" "lwc_abs w' = (lwc_abs w)(p \<mapsto> i\<lparr>i_refs := Suc (i_refs i)\<rparr>)"
    by blast
  then have "texts_kept w w'" using assms(2) by (auto simp: texts_kept_def text_at_def)
  with w' pool_ref [of "lwc_abs w" ext p i] assms show ?thesis
    by (auto simp: lwc_string_ref_def lwc_state_def lwc_inv_def)
qed

lemma lower_text:
  assumes "lwc_state w ext" and "lwc_abs w p = Some i" and "i_lower i = Some q"
  shows "text_at w q = Some (map lwc__dolower (i_text i))"
  using pool_invD(4) [of "lwc_abs w" ext p i q] assms by (auto simp: lwc_state_def text_at_def)

lemma tolower_state:
  assumes "lwc_state w ext" and "0 < ext str" and "text_at w str = Some t"
    and "mallocs_fresh m w" and "refs_room 2 (lwc_abs w)"
  shows "(\<exists>p w'. lwc_string_tolower m str w = Some (Inr p, w') \<and> lwc_state w' (ext(p := ext p + 1)) \<and>
      text_at w' p = Some (map lwc__dolower t) \<and> texts_kept w w') \<or>
    (\<exists>w'. lwc_string_tolower m str w = Some (Inl lwc_error_oom, w') \<and> lwc_state w' ext \<and>
      lwc_abs w' = lwc_abs w \<and> \<not> mallocs_ok m)"
proof -
  from assms(3) obtain i where i: "lwc_abs w str = Some i" "i_text i = t" by (auto simp: text_at_def)
  then obtain r where r: "w_mem w str = Some r" "i = lwc_istr r" by (auto simp: abs_Some)
  have fin: "\<exists>p w'. (do { r \<leftarrow> w_mem w1 str; p \<leftarrow> ls_insensitive r; w \<leftarrow> lwc_string_ref p w1;
        Some (Inr p :: lwc_error + addr, w) }) = Some (Inr p, w') \<and> lwc_state w' (ext(p := ext p + 1)) \<and>
      text_at w' p = Some (map lwc__dolower t) \<and> texts_kept w1 w'"
    if "lwc_state w1 ext" "texts_kept w w1" "refs_room 1 (lwc_abs w1)" "lwc_abs w1 str = Some i1" "i_lower i1 = Some p"
    for w1 i1 p
  proof -
    have "i_text i1 = t" using that(2) [unfolded texts_kept_def, rule_format, OF assms(3)] that(4)
      by (simp add: text_at_def)
    with lower_text [OF that(1,4,5)] have tp: "text_at w1 p = Some (map lwc__dolower t)" by simp
    then obtain j where "lwc_abs w1 p = Some j" by (auto simp: text_at_def)
    from ref_state [OF that(1) this, of 0] that(3) obtain w' where
      "lwc_string_ref p w1 = Some w'" "lwc_state w' (ext(p := ext p + 1))" "texts_kept w1 w'" by auto
    moreover from that(4,5) obtain r1 where "w_mem w1 str = Some r1" "ls_insensitive r1 = Some p"
      by (auto simp: abs_Some lwc_istr_def)
    ultimately show ?thesis using tp by (auto simp: texts_kept_def)
  qed
  have trans: "texts_kept w w1 \<Longrightarrow> texts_kept w1 w2 \<Longrightarrow> texts_kept w w2" for w1 w2
    by (simp add: texts_kept_def)
  show ?thesis
  proof (cases "i_lower i")
    case (Some p)
    have "refs_room 1 (lwc_abs w)" using assms(5) by (fastforce simp: refs_room_def)
    from fin [OF assms(1) _ this i(1) Some] r Some show ?thesis
      by (auto simp: lwc_string_tolower_def texts_kept_def lwc_istr_def)
  next
    case None
    then have ri: "ls_insensitive r = None" using r by (simp add: lwc_istr_def)
    have rr: "refs_room (Suc 1) (lwc_abs w)" using assms(5) by (simp add: numeral_2_eq_2)
    from caseless_state [OF assms(1,2) i(1) None assms(4) rr] show ?thesis
    proof (elim disjE exE conjE, goal_cases)
      case (1 w1 p i1)
      from fin [OF 1(2-6)] obtain p' w' where w': "(do { r \<leftarrow> w_mem w1 str; p \<leftarrow> ls_insensitive r;
          w \<leftarrow> lwc_string_ref p w1; Some (Inr p :: lwc_error + addr, w) }) = Some (Inr p', w')"
        "lwc_state w' (ext(p' := ext p' + 1))" "text_at w' p' = Some (map lwc__dolower t)" "texts_kept w1 w'" by blast
      have "lwc_string_tolower m str w = Some (Inr p', w')"
        using 1(1) r(1) ri w'(1) by (simp add: lwc_string_tolower_def)
      with w' trans [OF 1(3) w'(4)] show ?case by blast
    next
      case (2 w1)
      then have "lwc_string_tolower m str w = Some (Inl lwc_error_oom, w1)"
        using r(1) ri by (simp add: lwc_string_tolower_def)
      with 2 show ?case by blast
    qed
  qed
qed

text \<open>One side of the caseless comparison: afterwards the caseless copy is there.\<close>

definition caseless_ready :: "lwc_mallocs \<Rightarrow> addr \<Rightarrow> lwc_world \<Rightarrow> (lwc_error \<times> lwc_world) option" where
  "caseless_ready m str w = do {
     r \<leftarrow> w_mem w str;
     if ls_insensitive r = None then lwc__intern_caseless_string m str w else Some (lwc_error_ok, w)
   }"

lemma caseless_ready_state:
  assumes "lwc_state w ext" and "0 < ext str" and "mallocs_fresh m w" and "refs_room (Suc k) (lwc_abs w)"
  shows "(\<exists>w' p i'. caseless_ready m str w = Some (lwc_error_ok, w') \<and> lwc_state w' ext \<and> texts_kept w w' \<and>
      refs_room k (lwc_abs w') \<and> lwc_abs w' str = Some i' \<and> i_lower i' = Some p \<and>
      (\<forall>q j. q \<noteq> str \<longrightarrow> lwc_abs w q = Some j \<longrightarrow> (\<exists>n. lwc_abs w' q = Some (j\<lparr>i_refs := n\<rparr>)))) \<or>
    (\<exists>w'. caseless_ready m str w = Some (lwc_error_oom, w') \<and> lwc_state w' ext \<and>
      lwc_abs w' = lwc_abs w \<and> \<not> mallocs_ok m)"
proof -
  obtain i where i: "lwc_abs w str = Some i" using state_live [OF assms(1,2)] by blast
  then obtain r where r: "w_mem w str = Some r" "i = lwc_istr r" by (auto simp: abs_Some)
  show ?thesis
  proof (cases "i_lower i")
    case None
    with caseless_state [OF assms(1,2) i None assms(3,4)] r show ?thesis
      by (simp add: caseless_ready_def lwc_istr_def)
  next
    case (Some p)
    have "refs_room k (lwc_abs w)" using assms(4) by (fastforce simp: refs_room_def)
    moreover have "\<exists>n. lwc_abs w q = Some (j\<lparr>i_refs := n\<rparr>)" if "lwc_abs w q = Some j" for q j
      using that by (intro exI [of _ "i_refs j"]) simp
    moreover have "caseless_ready m str w = Some (lwc_error_ok, w)"
      using r Some by (simp add: caseless_ready_def lwc_istr_def)
    ultimately show ?thesis using assms(1) i Some by (auto simp: texts_kept_def)
  qed
qed

lemma caseless_isequal_ready:
  "lwc_string_caseless_isequal m1 m2 str1 str2 w = do {
     (e, w) \<leftarrow> caseless_ready m1 str1 w;
     if e \<noteq> lwc_error_ok then do { r2 \<leftarrow> w_mem w str2; Some (Inl e, w) }
     else do {
       (e, w) \<leftarrow> caseless_ready m2 str2 w;
       if e \<noteq> lwc_error_ok then Some (Inl e, w)
       else do {
         r1 \<leftarrow> w_mem w str1;
         r2 \<leftarrow> w_mem w str2;
         Some (Inr (ls_insensitive r1 = ls_insensitive r2), w)
       }
     }
   }"
  by (auto simp: lwc_string_caseless_isequal_def caseless_ready_def split: Option.bind_splits)

lemma texts_kept_trans: "texts_kept w w1 \<Longrightarrow> texts_kept w1 w2 \<Longrightarrow> texts_kept w w2"
  by (simp add: texts_kept_def)

lemma state_unique:
  assumes "lwc_state w ext" and "text_at w p = Some s" and "text_at w q = Some t"
  shows "p = q \<longleftrightarrow> s = t"
  using assms pool_invD(3) [of "lwc_abs w" ext] by (auto simp: lwc_state_def text_at_def)

lemma caseless_answer:
  assumes "lwc_state w ext" and "text_at w str1 = Some t1" and "text_at w str2 = Some t2"
    and "lwc_abs w str1 = Some i1" and "i_lower i1 = Some p1" and "lwc_abs w str2 = Some i2" and "i_lower i2 = Some p2"
  shows "p1 = p2 \<longleftrightarrow> map lwc__dolower t1 = map lwc__dolower t2"
  using state_unique [OF assms(1) lower_text [OF assms(1,4,5)] lower_text [OF assms(1,6,7)]] assms(2-4,6)
  by (simp add: text_at_def)

lemma caseless_isequal_state:
  assumes "lwc_state w ext" and "0 < ext str1" and "0 < ext str2" and "text_at w str1 = Some t1" and "text_at w str2 = Some t2"
    and "mallocs_fresh m1 w" and "\<forall>e w1. caseless_ready m1 str1 w = Some (e, w1) \<longrightarrow> mallocs_fresh m2 w1"
    and "refs_room 2 (lwc_abs w)"
  shows "(\<exists>w'. lwc_string_caseless_isequal m1 m2 str1 str2 w =
        Some (Inr (map lwc__dolower t1 = map lwc__dolower t2), w') \<and> lwc_state w' ext \<and> texts_kept w w') \<or>
    (\<exists>w'. lwc_string_caseless_isequal m1 m2 str1 str2 w = Some (Inl lwc_error_oom, w') \<and> lwc_state w' ext \<and>
      texts_kept w w' \<and> \<not> (mallocs_ok m1 \<and> mallocs_ok m2))"
proof -
  have rr: "refs_room (Suc 1) (lwc_abs w)" using assms(8) by (simp add: numeral_2_eq_2)
  from caseless_ready_state [OF assms(1,2,6) rr] show ?thesis
  proof (elim disjE exE conjE, goal_cases)
    case (2 w1)
    obtain r2 where "w_mem w1 str2 = Some r2" using state_live [OF 2(2) assms(3)] by (auto simp: abs_Some)
    with 2 show ?case by (auto simp: caseless_isequal_ready texts_kept_def text_at_def)
  next
    case (1 w1 p1 i1)
    have "refs_room (Suc 0) (lwc_abs w1)" using 1(4) by simp
    from caseless_ready_state [OF 1(2) assms(3) assms(7) [rule_format, OF 1(1)] this] show ?case
    proof (elim disjE exE conjE, goal_cases)
      case c2: (1 w2 p2 i2)
      from c2(6,7) 1(5,6) c2(5) obtain j1 where j1: "lwc_abs w2 str1 = Some j1" "i_lower j1 = Some p1 \<or> str1 = str2"
        by (cases "str1 = str2") fastforce+
      then obtain q1 where q1: "i_lower j1 = Some q1" using c2(5,6) by auto
      have tk: "texts_kept w w2" using texts_kept_trans 1(3) c2(3) by blast
      then have "q1 = p2 \<longleftrightarrow> map lwc__dolower t1 = map lwc__dolower t2"
        using caseless_answer [OF c2(2) _ _ j1(1) q1 c2(5,6)] assms(4,5) by (simp add: texts_kept_def)
      moreover obtain r1 r2 where "w_mem w2 str1 = Some r1" "ls_insensitive r1 = Some q1"
        "w_mem w2 str2 = Some r2" "ls_insensitive r2 = Some p2"
        using j1(1) q1 c2(5,6) by (auto simp: abs_Some lwc_istr_def)
      ultimately show ?case using 1(1) c2(1,2) tk by (auto simp: caseless_isequal_ready)
    next
      case (2 w2)
      with 1 have "texts_kept w w2" by (auto simp: texts_kept_def text_at_def)
      with 1 2 show ?case by (auto simp: caseless_isequal_ready)
    qed
  qed
qed

lemma intern_string_state:
  assumes "lwc_state w ext" and "0 \<notin> set s" and "mallocs_fresh m w" and "refs_room (Suc k) (lwc_abs w)"
  shows "(\<exists>p w'. lwc_intern_string m s w = Some (Inr p, w') \<and> lwc_state w' (ext(p := ext p + 1)) \<and>
      text_at w' p = Some s \<and> texts_kept w w' \<and> refs_room k (lwc_abs w')) \<or>
    (\<exists>w'. lwc_intern_string m s w = Some (Inl lwc_error_oom, w') \<and> lwc_state w' ext \<and>
      lwc_abs w' = lwc_abs w \<and> \<not> mallocs_ok m)"
  using lwc_intern_state [OF assms(1) intern_args_string [OF assms(2)] assms(3,4)]
  unfolding lwc_intern_string_def by blast

lemma intern_substring_eq:
  assumes "lwc_state w ext" and "text_at w str = Some t" and "off < length t" and "off + n \<le> length t"
    and "length t < SIZE_MODULUS"
  shows "lwc_intern_substring m str off n w = lwc_intern_string m (take n (drop off t)) w" and "0 \<notin> set t"
proof -
  obtain ch where l: "lwc_links w {} ch" using assms(1) by (auto simp: lwc_state_def lwc_inv_def)
  from assms(2) obtain r where r: "w_mem w str = Some r" "lwc_text r = t"
    by (auto simp: text_at_def abs_Some lwc_istr_def)
  note ok = links_live [OF l r(1)] 
  have "ls_len r = length t" "ls_chars r = t @ [0]" "0 \<notin> set t"
    using string_ok_len [OF ok] ok r(2) by (auto simp: lwc_string_ok_def)
  with assms(3-5) r show "lwc_intern_substring m str off n w = lwc_intern_string m (take n (drop off t)) w" "0 \<notin> set t"
    by (simp_all add: lwc_intern_substring_def mem_read_def)
qed

section \<open>Client runs\<close>

definition lwc_initial :: lwc_world where
  "lwc_initial = \<lparr>w_ctx = None, w_mem = Map.empty\<rparr>"

text \<open>Every sequence of calls a client may make: it gives back only references it holds and asks
  only about strings it has a reference to. \<open>ext\<close> counts its references.\<close>

inductive lwc_run :: "lwc_world \<Rightarrow> (addr \<Rightarrow> nat) \<Rightarrow> bool" where
  run_init: "lwc_run lwc_initial (\<lambda>_. 0)"
| run_intern: "lwc_run w ext \<Longrightarrow> 0 \<notin> set s \<Longrightarrow> mallocs_fresh m w \<Longrightarrow> refs_room 2 (lwc_abs w) \<Longrightarrow>
    lwc_intern_string m s w = Some (res, w') \<Longrightarrow>
    lwc_run w' (case res of Inl _ \<Rightarrow> ext | Inr p \<Rightarrow> ext(p := ext p + 1))"
| run_substring: "lwc_run w ext \<Longrightarrow> 0 < ext str \<Longrightarrow> text_at w str = Some t \<Longrightarrow> length t < SIZE_MODULUS \<Longrightarrow>
    off < length t \<Longrightarrow> off + n \<le> length t \<Longrightarrow> mallocs_fresh m w \<Longrightarrow> refs_room 2 (lwc_abs w) \<Longrightarrow>
    lwc_intern_substring m str off n w = Some (res, w') \<Longrightarrow>
    lwc_run w' (case res of Inl _ \<Rightarrow> ext | Inr p \<Rightarrow> ext(p := ext p + 1))"
| run_tolower: "lwc_run w ext \<Longrightarrow> 0 < ext str \<Longrightarrow> mallocs_fresh m w \<Longrightarrow> refs_room 2 (lwc_abs w) \<Longrightarrow>
    lwc_string_tolower m str w = Some (res, w') \<Longrightarrow>
    lwc_run w' (case res of Inl _ \<Rightarrow> ext | Inr p \<Rightarrow> ext(p := ext p + 1))"
| run_ref: "lwc_run w ext \<Longrightarrow> 0 < ext p \<Longrightarrow> refs_room 2 (lwc_abs w) \<Longrightarrow> lwc_string_ref p w = Some w' \<Longrightarrow>
    lwc_run w' (ext(p := ext p + 1))"
| run_unref: "lwc_run w ext \<Longrightarrow> 0 < ext p \<Longrightarrow> lwc_string_unref (Some p) w = Some w' \<Longrightarrow>
    lwc_run w' (ext(p := ext p - 1))"
| run_caseless: "lwc_run w ext \<Longrightarrow> 0 < ext str1 \<Longrightarrow> 0 < ext str2 \<Longrightarrow> mallocs_fresh m1 w \<Longrightarrow>
    \<forall>e w1. caseless_ready m1 str1 w = Some (e, w1) \<longrightarrow> mallocs_fresh m2 w1 \<Longrightarrow> refs_room 2 (lwc_abs w) \<Longrightarrow>
    lwc_string_caseless_isequal m1 m2 str1 str2 w = Some (res, w') \<Longrightarrow> lwc_run w' ext"

lemma initial_state: "lwc_state lwc_initial (\<lambda>_. 0)"
  by (auto simp: lwc_state_def lwc_initial_def lwc_inv_def lwc_links_def lwc_chains_def lwc_members_def
      lwc_abs_def pool_inv_def intro!: exI [of _ "\<lambda>_. []"])

lemma state_text: "lwc_state w ext \<Longrightarrow> 0 < ext p \<Longrightarrow> \<exists>t. text_at w p = Some t"
  using state_live by (fastforce simp: text_at_def)

lemma zero_take_drop: "0 \<notin> set t \<Longrightarrow> 0 \<notin> set (take n (drop k t))"
  using in_set_dropD in_set_takeD by metis

lemma run_state: "lwc_run w ext \<Longrightarrow> lwc_state w ext"
proof (induction rule: lwc_run.induct)
  case run_init
  show ?case by (rule initial_state)
next
  case (run_intern w ext s m res w')
  have "refs_room (Suc 1) (lwc_abs w)" using run_intern by (simp add: numeral_2_eq_2)
  from intern_string_state [OF run_intern(6,2,3) this] run_intern(5) show ?case by (auto simp: fun_upd_def)
next
  case (run_substring w ext str t off n m res w')
  have rr: "refs_room (Suc 1) (lwc_abs w)" using run_substring by (simp add: numeral_2_eq_2)
  note e = intern_substring_eq [OF run_substring(10,3,5,6,4)]
  from intern_string_state [OF run_substring(10) zero_take_drop [OF e(2), of n off] run_substring(7) rr]
    run_substring(9) [unfolded e(1)]
  show ?case by (auto simp: fun_upd_def)
next
  case (run_tolower w ext str m res w')
  obtain t where "text_at w str = Some t" using state_text [OF run_tolower(6,2)] by blast
  from tolower_state [OF run_tolower(6,2) this run_tolower(3,4)] run_tolower(5) show ?case by (auto simp: fun_upd_def)
next
  case (run_ref w ext p w')
  have rr: "refs_room (Suc 1) (lwc_abs w)" using run_ref by (simp add: numeral_2_eq_2)
  obtain i where "lwc_abs w p = Some i" using state_live [OF run_ref(5,2)] by blast
  from ref_state [OF run_ref(5) this rr] run_ref(4) show ?case by (auto simp: fun_upd_def)
next
  case (run_unref w ext p w')
  from lwc_unref_ok [of w ext p] run_unref show ?case by (auto simp: lwc_state_def fun_upd_def)
next
  case (run_caseless w ext str1 str2 m1 m2 res w')
  obtain t1 t2 where t: "text_at w str1 = Some t1" "text_at w str2 = Some t2"
    using state_text [OF run_caseless(8)] run_caseless(2,3) by metis
  from caseless_isequal_state [OF run_caseless(8,2,3) t run_caseless(4-6)] run_caseless(7)
  show ?case by auto
qed

lemma no_references_empty:
  assumes "pool_inv m (\<lambda>_. 0)"
  shows "m p = None"
proof (rule ccontr)
  note d = pool_invD [OF assms]
  assume "m p \<noteq> None"
  then obtain i where i: "m p = Some i" by blast
  from d(6) [OF i] obtain q j where q: "q \<noteq> p" "m q = Some j" "i_lower j = Some p" by (auto simp: irefs_def)
  from d(6) [OF q(2)] obtain x k where x: "x \<noteq> q" "m x = Some k" "i_lower k = Some q" by (auto simp: irefs_def)
  from d(4) [OF x(2,3)] q(2) have "i_text j = map lwc__dolower (i_text k)" by auto
  moreover from d(4) [OF q(2,3)] i have "i_text i = map lwc__dolower (i_text j)" by auto
  ultimately have "p = q" using d(3) [OF i q(2)] by (simp add: dolower_idem)
  with q(1) show False by simp
qed

text \<open>A function that checks that no string is lost: with no strings the walk finds nothing.\<close>

lemma iterate_all:
  assumes "lwc_state w ext" and "w_ctx w = Some c"
  shows "\<exists>ps w'. lwc_iterate_strings w = Some (ps, w') \<and> set ps = dom (w_mem w) \<and>
    w' = (if w_mem w = Map.empty then w\<lparr>w_ctx := None\<rparr> else w)"
proof -
  obtain ch where l: "lwc_links w {} ch" using assms(1) by (auto simp: lwc_state_def lwc_inv_def)
  note b = links_bucket [OF l assms(2)]
  have walk: "lwc_walk_all (w_mem w) (lc_buckets c) ns = Some (concat (map ch ns))" for ns
    by (induction ns) (simp_all add: walk_chain [OF b(1)])
  have mem: "p \<in> set (ch n) \<longleftrightarrow> (\<exists>r. w_mem w p = Some r \<and> lwc_bucket r = n)" for p n
    using l by (simp add: lwc_links_def lwc_members_def)
  have "lwc_bucket r < 4091" for r
  proof -
    have "unat (ls_hash r) mod 4091 < 4091" by simp
    then show ?thesis by (simp add: lwc_bucket_def unat_mod_distrib)
  qed
  then have s: "set (concat (map ch [0..<4091])) = dom (w_mem w)" using mem by auto
  then have "concat (map ch [0..<4091]) = [] \<longleftrightarrow> w_mem w = Map.empty"
    by (metis dom_eq_empty_conv set_empty)
  with s assms(2) b(3) walk show ?thesis by (simp add: lwc_iterate_strings_def)
qed

section \<open>What clients of an interner rely on\<close>

locale interner =
  fixes ok :: "'w \<Rightarrow> bool"
    and content :: "'w \<Rightarrow> 'p \<Rightarrow> bytes option"
    and interns :: "'w \<Rightarrow> bytes \<Rightarrow> 'p \<Rightarrow> 'w \<Rightarrow> bool"
  assumes interns_ok: "ok w \<Longrightarrow> interns w s p w' \<Longrightarrow> ok w' \<and> content w' p = Some s"
    and interns_keeps: "ok w \<Longrightarrow> interns w s p w' \<Longrightarrow> content w q = Some t \<Longrightarrow> content w' q = Some t"
    and content_unique: "ok w \<Longrightarrow> content w p = Some t \<Longrightarrow> content w q = Some t \<Longrightarrow> p = q"
begin

fun interns_all :: "'w \<Rightarrow> bytes list \<Rightarrow> 'p list \<Rightarrow> 'w \<Rightarrow> bool" where
  "interns_all w [] [] w' = (w' = w)"
| "interns_all w (s # ss) (p # ps) w' = (\<exists>w1. interns w s p w1 \<and> interns_all w1 ss ps w')"
| "interns_all w _ _ w' = False"

lemma interns_all_texts:
  assumes "ok w" and "interns_all w ss ps w'"
  shows "ok w' \<and> list_all2 (\<lambda>s p. content w' p = Some s) ss ps \<and> (\<forall>q t. content w q = Some t \<longrightarrow> content w' q = Some t)"
  using assms
proof (induction w ss ps w' rule: interns_all.induct)
  case (2 w s ss p ps w')
  then obtain w1 where "interns w s p w1" "interns_all w1 ss ps w'" by auto
  with 2 interns_ok [of w s p w1] interns_keeps [of w s p w1] show ?case by auto
qed auto

lemma pointers_equal_iff:
  assumes "ok w" and "interns_all w ss ps w'" and "i < length ss" and "j < length ss"
  shows "ps ! i = ps ! j \<longleftrightarrow> ss ! i = ss ! j"
proof -
  from interns_all_texts [OF assms(1,2)] have t: "ok w'" "content w' (ps ! i) = Some (ss ! i)" "content w' (ps ! j) = Some (ss ! j)"
    using assms(3,4) by (auto simp: list_all2_conv_all_nth)
  then show ?thesis using content_unique [OF t(1)] by auto
qed

end

text \<open>One successful call of \<open>lwc_intern_string\<close>, whatever malloc returns.\<close>

definition lwc_interns :: "lwc_world \<Rightarrow> bytes \<Rightarrow> addr \<Rightarrow> lwc_world \<Rightarrow> bool" where
  "lwc_interns w s p w' \<longleftrightarrow> 0 \<notin> set s \<and> refs_room 1 (lwc_abs w) \<and>
     (\<exists>m. mallocs_fresh m w \<and> lwc_intern_string m s w = Some (Inr p, w'))"

lemma lwc_interns_state:
  assumes "lwc_state w ext" and "lwc_interns w s p w'"
  shows "lwc_state w' (ext(p := ext p + 1)) \<and> text_at w' p = Some s \<and> texts_kept w w'"
  using assms intern_string_state [OF assms(1), of s _ 0] by (fastforce simp: lwc_interns_def)

interpretation lwc: interner "\<lambda>w. \<exists>ext. lwc_state w ext" text_at lwc_interns
proof unfold_locales
  fix w s p w' assume "\<exists>ext. lwc_state w ext" and i: "lwc_interns w s p w'"
  then obtain ext where "lwc_state w ext" by blast
  from lwc_interns_state [OF this i] show "(\<exists>ext. lwc_state w' ext) \<and> text_at w' p = Some s" by blast
  fix q t assume "text_at w q = Some t"
  with lwc_interns_state [OF \<open>lwc_state w ext\<close> i] show "text_at w' q = Some t" by (simp add: texts_kept_def)
next
  fix w p t q assume "\<exists>ext. lwc_state w ext" "text_at w p = Some t" "text_at w q = Some t"
  then show "p = q" using state_unique by blast
qed

section \<open>Properties\<close>

text \<open>Interning succeeds whenever the allocations do; the witnesses start from such a run.\<close>

definition example_mallocs :: lwc_mallocs where
  "example_mallocs = \<lparr>m_ctx = True, m_buckets = True, m_string = Some 7\<rparr>"

lemma interns_exists:
  assumes "lwc_state w ext" and "0 \<notin> set s" and "refs_room (Suc k) (lwc_abs w)"
  shows "\<exists>p w'. lwc_interns w s p w' \<and> refs_room k (lwc_abs w')"
proof -
  have "finite (dom (lwc_abs w))" using assms(1) pool_invD(1) by (auto simp: lwc_state_def)
  then obtain a where a: "a \<notin> dom (lwc_abs w)" using ex_new_if_finite infinite_UNIV_nat by blast
  define m where "m = \<lparr>m_ctx = True, m_buckets = True, m_string = Some a\<rparr>"
  have m: "mallocs_fresh m w" "mallocs_ok m"
    using a by (auto simp: mallocs_fresh_def mallocs_ok_def m_def lwc_abs_def)
  have "refs_room 1 (lwc_abs w)" using assms(3) by (fastforce simp: refs_room_def)
  with intern_string_state [OF assms(1,2) m(1) assms(3)] m assms(2) show ?thesis
    unfolding lwc_interns_def by blast
qed

lemma initial_room: "k \<le> 3 \<Longrightarrow> refs_room k (lwc_abs lwc_initial)"
  by (simp add: refs_room_def lwc_abs_def lwc_initial_def)

lemma run_interns: "lwc_run w ext \<Longrightarrow> refs_room 2 (lwc_abs w) \<Longrightarrow> lwc_interns w s p w' \<Longrightarrow> lwc_run w' (ext(p := ext p + 1))"
  using run_intern [of w ext s _ "Inr p" w'] by (auto simp: lwc_interns_def)

lemma example_run:
  assumes "0 \<notin> set s"
  shows "\<exists>p w. lwc_interns lwc_initial s p w \<and> lwc_run w ((\<lambda>_. 0)(p := 1)) \<and> text_at w p = Some s \<and>
    refs_room 2 (lwc_abs w)"
proof -
  from interns_exists [OF initial_state assms, of 2] initial_room [of 3] obtain p w where
    i: "lwc_interns lwc_initial s p w" "refs_room 2 (lwc_abs w)" by (auto simp: numeral_3_eq_3 numeral_2_eq_2)
  from run_interns [OF run_init initial_room i(1)] lwc_interns_state [OF initial_state i(1)] i show ?thesis by auto
qed

text \<open>C1: Two interned strings are the same pointer exactly when they have the same content: in
  any state a client can reach, interning NUL-free \<open>s\<close> and then \<open>t\<close> returns pointers that
  lwc_string_isequal equates if and only if \<open>s = t\<close>, and both keep their text.\<close>

theorem lwc_pointer_equality:
  assumes "lwc_run w ext" and "lwc_interns w s p w1" and "lwc_interns w1 t q w2"
  shows "(lwc_string_isequal p q \<longleftrightarrow> s = t) \<and> text_at w2 p = Some s \<and> text_at w2 q = Some t"
proof -
  have st: "\<exists>ext. lwc_state w ext" using run_state [OF assms(1)] by blast
  have all: "lwc.interns_all w [s, t] [p, q] w2" using assms(2,3) by auto
  from lwc.pointers_equal_iff [OF st all, of 0 1] lwc.interns_all_texts [OF st all] show ?thesis
    by (simp add: lwc_string_isequal_def)
qed

theorem lwc_pointer_equality_witness:
  "\<exists>p w1 q w2. lwc_interns lwc_initial [97] p w1 \<and> lwc_interns w1 [65] q w2 \<and>
     (lwc_string_isequal p q \<longleftrightarrow> [97 :: u8] = [65]) \<and> text_at w2 p = Some [97] \<and> text_at w2 q = Some [65]"
proof -
  from example_run [of "[97]"] obtain p w1 where
    1: "lwc_interns lwc_initial [97] p w1" "lwc_run w1 ((\<lambda>_. 0)(p := 1))" "refs_room 2 (lwc_abs w1)" by auto
  have "refs_room (Suc 1) (lwc_abs w1)" using 1(3) by (simp add: numeral_2_eq_2)
  from interns_exists [OF run_state [OF 1(2)] _ this, of "[65]"] obtain q w2 where
    2: "lwc_interns w1 [65] q w2" by auto
  from lwc_pointer_equality [OF run_init 1(1) 2] 1(1) 2 show ?thesis by blast
qed



text \<open>C25: Nothing leaks: when a client has given back every reference it was handed, no string is
  left in memory, and iterating finds nothing and frees the table.\<close>

theorem lwc_no_leak:
  assumes "lwc_run w (\<lambda>_. 0)"
  shows "w_mem w = Map.empty \<and> map_option fst (lwc_iterate_strings w) = Some [] \<and>
    map_option (\<lambda>(_, w'). w_ctx w') (lwc_iterate_strings w) = Some None"
proof -
  note st = run_state [OF assms]
  then have "lwc_abs w p = None" for p using no_references_empty by (auto simp: lwc_state_def)
  then have e: "w_mem w = Map.empty" by (auto simp: lwc_abs_def fun_eq_iff)
  show ?thesis
  proof (cases "w_ctx w")
    case None
    with e show ?thesis by (simp add: lwc_iterate_strings_def)
  next
    case (Some c)
    from iterate_all [OF st Some] e show ?thesis by auto
  qed
qed

theorem lwc_no_leak_witness:
  "\<exists>p w w'. lwc_interns lwc_initial [97] p w \<and> lwc_string_unref (Some p) w = Some w' \<and>
     w_mem w' = Map.empty \<and> map_option fst (lwc_iterate_strings w') = Some [] \<and>
     map_option (\<lambda>(_, w'). w_ctx w') (lwc_iterate_strings w') = Some None"
proof -
  from example_run [of "[97]"] obtain p w where
    1: "lwc_interns lwc_initial [97] p w" "lwc_run w ((\<lambda>_. 0)(p := 1))" by auto
  from lwc_unref_ok [of w "(\<lambda>_. 0)(p := 1)" p] run_state [OF 1(2)] obtain w' where 2: "lwc_string_unref (Some p) w = Some w'"
    by (auto simp: lwc_state_def)
  from run_unref [OF 1(2) _ 2] have "lwc_run w' (\<lambda>_. 0)" by (simp add: fun_upd_def if_distrib cong: if_cong)
  from lwc_no_leak [OF this] 1 2 show ?thesis by blast
qed

text \<open>The caseless comparison is right: in any state a client can reach, comparing two held
  strings answers whether their texts agree after lowering the ASCII capitals, and only a failed
  allocation makes it return an error; either way no reference count of the client changes.\<close>

theorem lwc_caseless_isequal_correct:
  assumes "lwc_run w ext" and "0 < ext str1" and "0 < ext str2"
    and "text_at w str1 = Some t1" and "text_at w str2 = Some t2" and "refs_room 2 (lwc_abs w)"
    and "mallocs_fresh m1 w" and "\<forall>e w1. caseless_ready m1 str1 w = Some (e, w1) \<longrightarrow> mallocs_fresh m2 w1"
  shows "\<exists>res w'. lwc_string_caseless_isequal m1 m2 str1 str2 w = Some (res, w') \<and> lwc_run w' ext \<and>
    texts_kept w w' \<and>
    (res = Inr (map lwc__dolower t1 = map lwc__dolower t2) \<or>
     res = Inl lwc_error_oom \<and> \<not> (mallocs_ok m1 \<and> mallocs_ok m2))"
proof -
  note c = caseless_isequal_state [OF run_state [OF assms(1)] assms(2-5,7,8,6)]
  then obtain res w' where r: "lwc_string_caseless_isequal m1 m2 str1 str2 w = Some (res, w')" by blast
  from run_caseless [OF assms(1-3,7,8,6) r] r c show ?thesis by auto
qed

theorem lwc_caseless_isequal_correct_witness:
  "\<exists>p w m res w'. lwc_interns lwc_initial [97] p w \<and>
    lwc_string_caseless_isequal m m p p w = Some (res, w') \<and> lwc_run w' ((\<lambda>_. 0)(p := 1)) \<and>
    texts_kept w w' \<and>
    (res = Inr (map lwc__dolower [97] = map lwc__dolower [97]) \<or>
     res = Inl lwc_error_oom \<and> \<not> (mallocs_ok m \<and> mallocs_ok m))"
proof -
  from example_run [of "[97]"] obtain p w where
    1: "lwc_interns lwc_initial [97] p w" "lwc_run w ((\<lambda>_. 0)(p := 1))" "text_at w p = Some [97]" and room: "refs_room 2 (lwc_abs w)"
    by auto
  define m where "m = \<lparr>m_ctx = True, m_buckets = True, m_string = None\<rparr>"
  have fr: "mallocs_fresh m v" for v by (simp add: m_def mallocs_fresh_def)
  from lwc_caseless_isequal_correct [OF 1(2) _ _ 1(3,3) room fr, of m] fr 1(1) show ?thesis by fastforce
qed


text \<open>The range check of lwc_intern_substring can be passed by wrapping around: at every inner
  offset of every string there is a length for which the end of the range computes as 0, and the
  call goes on to read past the end of the string.\<close>

theorem lwc_intern_substring_wraps:
  assumes "lwc_run w ext" and "text_at w str = Some t" and "0 < off" and "off < length t"
    and "length t < PTRDIFF_MAX"
  shows "\<exists>sslen \<le> SIZE_MAX. lwc_intern_substring m str off sslen w = None"
proof -
  obtain ch where l: "lwc_links w {} ch" using run_state [OF assms(1)] by (auto simp: lwc_state_def lwc_inv_def)
  from assms(2) obtain r where r: "w_mem w str = Some r" "lwc_text r = t"
    by (auto simp: text_at_def abs_Some lwc_istr_def)
  note ok = links_live [OF l r(1)]
  have "ls_len r = length t" "ls_chars r = t @ [0]"
    using string_ok_len [OF ok] ok r(2) by (auto simp: lwc_string_ok_def)
  with assms(3-5) r(1) have "lwc_intern_substring m str off (SIZE_MODULUS - off) w = None"
    by (simp add: lwc_intern_substring_def mem_read_def size_wrap_def)
  moreover have "SIZE_MODULUS - off \<le> SIZE_MAX" using assms(3) by simp
  ultimately show ?thesis by blast
qed

theorem lwc_intern_substring_wraps_witness:
  "\<exists>p w. lwc_interns lwc_initial [97, 98, 99] p w \<and>
     (\<exists>sslen \<le> SIZE_MAX. lwc_intern_substring example_mallocs p 1 sslen w = None)"
proof -
  from example_run [of "[97, 98, 99]"] obtain p w where
    1: "lwc_interns lwc_initial [97, 98, 99] p w" "lwc_run w ((\<lambda>_. 0)(p := 1))" "text_at w p = Some [97, 98, 99]"
    by auto
  from lwc_intern_substring_wraps [OF 1(2,3), of 1 example_mallocs] 1(1) show ?thesis by auto
qed

end
