(* ===== verification/Buffer.thy ===== *)
theory Buffer
  imports Stack_Vector
begin

text \<open>
  The memory buffer of libparserutils, \<^verbatim>\<open>libparserutils/src/utils/buffer.c\<close>: a byte
  allocation, an offset where the data starts (discarding a prefix only moves it), and a
  length. The lexer of libcss and the input stream both keep their text here. The operations
  are copies and moves inside one allocation; the model performs them with the memory
  primitives of the prelude, which are undefined out of bounds or on overlap, so that every
  refinement lemma below is also a memory-safety statement. The growth loop has fuel 64:
  the allocation doubles each time and no allocation exceeds PTRDIFF_MAX.
\<close>

section \<open>State and operations\<close>

record parserutils_buffer =
  b_alloc :: bytes
  b_data :: nat
  b_length :: nat
  b_allocated :: nat

abbreviation DEFAULT_SIZE :: nat where "DEFAULT_SIZE \<equiv> 4096"

definition fresh_bytes :: "heap \<Rightarrow> nat \<Rightarrow> bytes" where
  "fresh_bytes h n = replicate n (heap_junk h)"

definition realloc_bytes :: "heap \<Rightarrow> nat \<Rightarrow> bytes \<Rightarrow> bytes" where
  "realloc_bytes h n mem = take n mem @ replicate (n - length mem) (heap_junk h)"

abbreviation sizeof_buffer :: nat where "sizeof_buffer \<equiv> 32"

definition parserutils_buffer_create :: "heap \<Rightarrow> parserutils_error \<times> parserutils_buffer option" where
  "parserutils_buffer_create h =
     (if \<not> malloc_ok h sizeof_buffer then (PARSERUTILS_NOMEM, None)
      else if \<not> malloc_ok h DEFAULT_SIZE then (PARSERUTILS_NOMEM, None)
      else (PARSERUTILS_OK,
        Some \<lparr>b_alloc = fresh_bytes h DEFAULT_SIZE, b_data = 0, b_length = 0,
              b_allocated = DEFAULT_SIZE\<rparr>))"

definition get_offset :: "parserutils_buffer \<Rightarrow> nat" where
  "get_offset b = b_data b"

definition try_rebase :: "parserutils_buffer \<Rightarrow> parserutils_buffer option" where
  "try_rebase b =
     (if get_offset b \<ge> b_length b
      then map_option (\<lambda>mem. b\<lparr>b_alloc := mem, b_data := 0\<rparr>)
             (mem_copy 0 (b_data b) (b_length b) (b_alloc b))
      else Some b)"

definition parserutils_buffer_grow ::
  "heap \<Rightarrow> parserutils_buffer \<Rightarrow> parserutils_error \<times> parserutils_buffer" where
  "parserutils_buffer_grow h b =
     (let n = size_wrap (b_allocated b * 2) in
      if \<not> malloc_ok h n then (PARSERUTILS_NOMEM, b)
      else (PARSERUTILS_OK, b\<lparr>b_alloc := realloc_bytes h n (b_alloc b), b_allocated := n\<rparr>))"

fun ensure_loop ::
  "nat \<Rightarrow> heap \<Rightarrow> parserutils_buffer \<Rightarrow> nat \<Rightarrow> (parserutils_error \<times> parserutils_buffer) option" where
  "ensure_loop 0 h b len = None"
| "ensure_loop (Suc fuel) h b len =
     (if len \<ge> size_sub (size_sub (b_allocated b) (b_length b)) (get_offset b)
      then (case parserutils_buffer_grow h b of
              (PARSERUTILS_OK, b') \<Rightarrow> ensure_loop fuel h b' len
            | (e, b') \<Rightarrow> Some (e, b'))
      else Some (PARSERUTILS_OK, b))"

definition ensure_space ::
  "heap \<Rightarrow> parserutils_buffer \<Rightarrow> nat \<Rightarrow> (parserutils_error \<times> parserutils_buffer) option" where
  "ensure_space h b len = do { b \<leftarrow> try_rebase b; ensure_loop 64 h b len }"

definition parserutils_buffer_append ::
  "heap \<Rightarrow> parserutils_buffer \<Rightarrow> bytes \<Rightarrow> (parserutils_error \<times> parserutils_buffer) option" where
  "parserutils_buffer_append h b data = do {
     (e, b) \<leftarrow> ensure_space h b (length data);
     if e \<noteq> PARSERUTILS_OK then Some (e, b)
     else do {
       mem \<leftarrow> mem_write (b_data b + b_length b) data (b_alloc b);
       Some (PARSERUTILS_OK, b\<lparr>b_alloc := mem, b_length := b_length b + length data\<rparr>)
     }
   }"

fun parserutils_buffer_appendv ::
  "heap \<Rightarrow> parserutils_buffer \<Rightarrow> bytes list \<Rightarrow> (parserutils_error \<times> parserutils_buffer) option" where
  "parserutils_buffer_appendv h b [] = Some (PARSERUTILS_OK, b)"
| "parserutils_buffer_appendv h b (data # rest) =
     (case parserutils_buffer_append h b data of
        None \<Rightarrow> None
      | Some (e, b') \<Rightarrow>
          if e \<noteq> PARSERUTILS_OK then Some (e, b') else parserutils_buffer_appendv h b' rest)"

definition parserutils_buffer_insert ::
  "heap \<Rightarrow> parserutils_buffer \<Rightarrow> nat \<Rightarrow> bytes \<Rightarrow> (parserutils_error \<times> parserutils_buffer) option" where
  "parserutils_buffer_insert h b offset data =
     (if offset > b_length b then Some (PARSERUTILS_BADPARM, b)
      else if offset = b_length b then parserutils_buffer_append h b data
      else do {
        (e, b) \<leftarrow> ensure_space h b (length data);
        if e \<noteq> PARSERUTILS_OK then Some (e, b)
        else do {
          mem \<leftarrow> mem_move (b_data b + offset + length data) (b_data b + offset)
                   (b_length b - offset) (b_alloc b);
          mem \<leftarrow> mem_write (b_data b + offset) data mem;
          Some (PARSERUTILS_OK, b\<lparr>b_alloc := mem, b_length := b_length b + length data\<rparr>)
        }
      })"

definition parserutils_buffer_discard ::
  "parserutils_buffer \<Rightarrow> nat \<Rightarrow> nat \<Rightarrow> (parserutils_error \<times> parserutils_buffer) option" where
  "parserutils_buffer_discard b offset len =
     (if offset \<ge> b_length b \<or> size_wrap (offset + len) > b_length b
      then Some (PARSERUTILS_BADPARM, b)
      else if offset = 0
      then map_option (\<lambda>b'. (PARSERUTILS_OK, b'))
             (try_rebase (b\<lparr>b_data := b_data b + len, b_length := size_sub (b_length b) len\<rparr>))
      else do {
        mem \<leftarrow> mem_move (b_data b + offset) (b_data b + offset + len)
                 (size_sub (b_length b) (size_wrap (len + offset))) (b_alloc b);
        Some (PARSERUTILS_OK, b\<lparr>b_alloc := mem, b_length := size_sub (b_length b) len\<rparr>)
      })"

text \<open>The debugging aid that moves the data to a fresh allocation (built without NDEBUG).\<close>

fun parserutils_buffer_randomise ::
  "heap \<Rightarrow> parserutils_buffer option \<Rightarrow> (parserutils_error \<times> parserutils_buffer option) option" where
  "parserutils_buffer_randomise h None = Some (PARSERUTILS_BADPARM, None)"
| "parserutils_buffer_randomise h (Some b) =
     (if \<not> malloc_ok h (b_allocated b) then Some (PARSERUTILS_NOMEM, Some b)
      else do {
        xs \<leftarrow> mem_read (b_data b) (b_length b) (b_alloc b);
        mem \<leftarrow> mem_write 0 xs (fresh_bytes h (b_allocated b));
        Some (PARSERUTILS_OK, Some (b\<lparr>b_alloc := mem, b_data := 0\<rparr>))
      })"

section \<open>Invariant and abstraction\<close>

definition buf_inv :: "parserutils_buffer \<Rightarrow> bool" where
  "buf_inv b \<longleftrightarrow> length (b_alloc b) = b_allocated b \<and> b_data b + b_length b \<le> b_allocated b \<and>
     0 < b_allocated b \<and> b_allocated b \<le> PTRDIFF_MAX"

definition buf_bytes :: "parserutils_buffer \<Rightarrow> bytes" where
  "buf_bytes b = take (b_length b) (drop (b_data b) (b_alloc b))"

lemma length_buf_bytes [simp]: "buf_inv b \<Longrightarrow> length (buf_bytes b) = b_length b"
  by (auto simp: buf_inv_def buf_bytes_def)

text \<open>The allocation as prefix, data and rest; a buffer with such an allocation holds the
  data.\<close>

lemma buf_split:
  assumes "buf_inv b"
  obtains pre post where "b_alloc b = pre @ buf_bytes b @ post" and "length pre = b_data b"
proof
  show "b_alloc b = take (b_data b) (b_alloc b) @ buf_bytes b @
      drop (b_length b) (drop (b_data b) (b_alloc b))"
    by (simp only: buf_bytes_def append_take_drop_id)
  show "length (take (b_data b) (b_alloc b)) = b_data b"
    using assms by (simp add: buf_inv_def)
qed

lemma buf_bytesI:
  "b_alloc b = pre @ xs @ post \<Longrightarrow> length pre = b_data b \<Longrightarrow> length xs = b_length b \<Longrightarrow>
   buf_bytes b = xs"
  by (simp add: buf_bytes_def)

lemma buffer_create_inv:
  "parserutils_buffer_create h = (PARSERUTILS_OK, Some b) \<Longrightarrow> buf_inv b \<and> buf_bytes b = []"
  by (auto simp: parserutils_buffer_create_def buf_inv_def buf_bytes_def fresh_bytes_def
      split: if_splits)

lemma try_rebase_ok:
  assumes "buf_inv b"
  shows "\<exists>b'. try_rebase b = Some b' \<and> buf_inv b' \<and> buf_bytes b' = buf_bytes b \<and>
    b_length b' = b_length b \<and> b_allocated b' = b_allocated b \<and> b_data b' \<le> b_data b"
proof (cases "b_data b \<ge> b_length b")
  case True
  then have "mem_copy 0 (b_data b) (b_length b) (b_alloc b) =
      Some (take (b_length b) (drop (b_data b) (b_alloc b)) @ drop (b_length b) (b_alloc b))"
    using assms by (subst mem_copy_ok) (auto simp: buf_inv_def)
  with True assms show ?thesis
    by (auto simp: try_rebase_def get_offset_def buf_inv_def buf_bytes_def)
next
  case False
  with assms show ?thesis by (auto simp: try_rebase_def get_offset_def)
qed

lemma buffer_grow_ok:
  assumes "buf_inv b" and "parserutils_buffer_grow h b = (e, b')"
  shows "e \<in> {PARSERUTILS_OK, PARSERUTILS_NOMEM}" and "buf_inv b'"
    and "buf_bytes b' = buf_bytes b" and "b_length b' = b_length b" and "b_data b' = b_data b"
    and "e = PARSERUTILS_OK \<Longrightarrow> b_allocated b' = 2 * b_allocated b \<and> 2 * b_allocated b \<le> PTRDIFF_MAX"
  using assms
  by (auto simp: parserutils_buffer_grow_def Let_def buf_inv_def buf_bytes_def realloc_bytes_def
      malloc_ok_def split: if_splits)

lemma ensure_loop_ok:
  assumes "buf_inv b" and "PTRDIFF_MAX < b_allocated b * 2 ^ fuel"
  shows "\<exists>e b'. ensure_loop fuel h b len = Some (e, b') \<and> buf_inv b' \<and> buf_bytes b' = buf_bytes b \<and>
    b_length b' = b_length b \<and> b_data b' = b_data b \<and>
    (if e = PARSERUTILS_OK then b_data b' + b_length b' + len < b_allocated b' else e = PARSERUTILS_NOMEM)"
  using assms
proof (induction fuel arbitrary: b)
  case 0
  then show ?case by (simp add: buf_inv_def)
next
  case (Suc fuel)
  have sub: "size_sub (size_sub (b_allocated b) (b_length b)) (get_offset b) =
      b_allocated b - b_length b - b_data b"
    using Suc.prems(1) by (auto simp: buf_inv_def get_offset_def)
  obtain e b1 where g: "parserutils_buffer_grow h b = (e, b1)" by fastforce
  note gr = buffer_grow_ok [OF Suc.prems(1) g]
  show ?case
  proof (cases "len \<ge> b_allocated b - b_length b - b_data b")
    case False
    with sub Suc.prems(1) show ?thesis by auto
  next
    case full: True
    show ?thesis
    proof (cases "e = PARSERUTILS_OK")
      case True
      with gr(6) Suc.prems(2) have "PTRDIFF_MAX < b_allocated b1 * 2 ^ fuel" by simp
      from Suc.IH [OF gr(2) this] full sub g True gr(3,4,5) show ?thesis by auto
    next
      case False
      with gr(1) have "e = PARSERUTILS_NOMEM" by auto
      with full sub g gr show ?thesis by auto
    qed
  qed
qed

lemma ensure_space_ok:
  assumes "buf_inv b"
  shows "\<exists>e b'. ensure_space h b len = Some (e, b') \<and> buf_inv b' \<and> buf_bytes b' = buf_bytes b \<and>
    b_length b' = b_length b \<and>
    (if e = PARSERUTILS_OK then b_data b' + b_length b' + len < b_allocated b' else e = PARSERUTILS_NOMEM)"
proof -
  from try_rebase_ok [OF assms] obtain b1 where
    b1: "try_rebase b = Some b1" "buf_inv b1" "buf_bytes b1 = buf_bytes b" "b_length b1 = b_length b"
    by blast
  have "PTRDIFF_MAX < b_allocated b1 * 2 ^ 64" using b1(2) by (auto simp: buf_inv_def)
  from ensure_loop_ok [OF b1(2) this, of h len] b1 show ?thesis
    unfolding ensure_space_def by (metis bind.bind_lunit)
qed

section \<open>The operations refine list operations\<close>

lemma buffer_append_cases:
  assumes "buf_inv b"
  shows "\<exists>e b'. parserutils_buffer_append h b data = Some (e, b') \<and> buf_inv b' \<and>
    (if e = PARSERUTILS_OK then buf_bytes b' = buf_bytes b @ data
     else e = PARSERUTILS_NOMEM \<and> buf_bytes b' = buf_bytes b)"
proof -
  from ensure_space_ok [OF assms, of h "length data"] obtain e b1 where
    sp: "ensure_space h b (length data) = Some (e, b1)" "buf_inv b1" "buf_bytes b1 = buf_bytes b"
      "if e = PARSERUTILS_OK then b_data b1 + b_length b1 + length data < b_allocated b1
       else e = PARSERUTILS_NOMEM" by blast
  show ?thesis
  proof (cases "e = PARSERUTILS_OK")
    case False
    with sp show ?thesis by (auto simp: parserutils_buffer_append_def)
  next
    case True
    with sp have room: "b_data b1 + b_length b1 + length data \<le> length (b_alloc b1)"
      by (simp add: buf_inv_def)
    from buf_split [OF sp(2)] obtain pre post where
      al: "b_alloc b1 = pre @ buf_bytes b1 @ post" and pre: "length pre = b_data b1" .
    have len: "length (buf_bytes b1) = b_length b1" using sp(2) by simp
    let ?b = "b1\<lparr>b_alloc := pre @ (buf_bytes b1 @ data) @ drop (length data) post,
        b_length := b_length b1 + length data\<rparr>"
    have wr: "mem_write (b_data b1 + b_length b1) data (b_alloc b1) =
        Some (pre @ (buf_bytes b1 @ data) @ drop (length data) post)"
      using room al pre len by (simp add: mem_write_def)
    have "buf_bytes ?b = buf_bytes b1 @ data"
      by (rule buf_bytesI) (auto simp: pre len)
    moreover have "buf_inv ?b" using sp(2) room al pre len by (auto simp: buf_inv_def)
    ultimately show ?thesis using True sp wr by (auto simp: parserutils_buffer_append_def)
  qed
qed

lemma buffer_insert_cases:
  assumes "buf_inv b" and "offset \<le> b_length b"
  shows "\<exists>e b'. parserutils_buffer_insert h b offset data = Some (e, b') \<and> buf_inv b' \<and>
    (if e = PARSERUTILS_OK
     then buf_bytes b' = take offset (buf_bytes b) @ data @ drop offset (buf_bytes b)
     else e = PARSERUTILS_NOMEM \<and> buf_bytes b' = buf_bytes b)"
proof (cases "offset = b_length b")
  case True
  have "parserutils_buffer_insert h b offset data = parserutils_buffer_append h b data"
    using True by (simp add: parserutils_buffer_insert_def)
  moreover have "take offset (buf_bytes b) @ data @ drop offset (buf_bytes b) = buf_bytes b @ data"
    using True assms(1) by simp
  ultimately show ?thesis using buffer_append_cases [OF assms(1), of h data] by metis
next
  case False
  with assms(2) have off: "offset < b_length b" by simp
  from ensure_space_ok [OF assms(1), of h "length data"] obtain e b1 where
    sp: "ensure_space h b (length data) = Some (e, b1)" "buf_inv b1" "buf_bytes b1 = buf_bytes b"
      "b_length b1 = b_length b"
      "if e = PARSERUTILS_OK then b_data b1 + b_length b1 + length data < b_allocated b1
       else e = PARSERUTILS_NOMEM" by blast
  show ?thesis
  proof (cases "e = PARSERUTILS_OK")
    case False
    with sp off show ?thesis by (auto simp: parserutils_buffer_insert_def)
  next
    case True
    from buf_split [OF sp(2)] obtain pre post where
      al: "b_alloc b1 = pre @ buf_bytes b1 @ post" and pre: "length pre = b_data b1" .
    let ?x = "take offset (buf_bytes b1)" and ?y = "drop offset (buf_bytes b1)"
    have len: "length ?x = offset" "length ?y = b_length b1 - offset" "length (buf_bytes b1) = b_length b1"
      using length_buf_bytes [OF sp(2)] sp(4) off by auto
    have al': "b_alloc b1 = (pre @ ?x) @ ?y @ post" using al by simp
    have room: "b_data b1 + b_length b1 + length data \<le> length (b_alloc b1)"
      using sp True by (simp add: buf_inv_def)
    define gap where "gap = take (length data) (?y @ post)"
    have lgap: "length gap = length data"
      using room al pre len sp(4) off by (simp add: gap_def)
    have mv: "mem_move (b_data b1 + offset + length data) (b_data b1 + offset) (b_length b1 - offset)
        (b_alloc b1) = Some ((pre @ ?x) @ gap @ ?y @ drop (length data) post)"
      using room pre len off sp(4)
      by (subst mem_move_ok) (auto simp: al' gap_def)
    have wr: "mem_write (b_data b1 + offset) data ((pre @ ?x) @ gap @ ?y @ drop (length data) post) =
        Some (pre @ (?x @ data @ ?y) @ drop (length data) post)"
      using lgap pre len by (simp add: mem_write_def)
    let ?b = "b1\<lparr>b_alloc := pre @ (?x @ data @ ?y) @ drop (length data) post,
        b_length := b_length b1 + length data\<rparr>"
    have "buf_bytes ?b = ?x @ data @ ?y"
      using off sp(4) len by (intro buf_bytesI) (auto simp: pre)
    moreover have "buf_inv ?b"
      using sp(2,4) room al pre len off by (auto simp: buf_inv_def)
    ultimately show ?thesis
      using True sp off mv wr by (auto simp: parserutils_buffer_insert_def)
  qed
qed

lemma buffer_discard_ok:
  assumes "buf_inv b" and "offset < b_length b" and "offset + len \<le> b_length b"
  shows "\<exists>b'. parserutils_buffer_discard b offset len = Some (PARSERUTILS_OK, b') \<and> buf_inv b' \<and>
    buf_bytes b' = take offset (buf_bytes b) @ drop (offset + len) (buf_bytes b)"
proof -
  have lt: "b_length b < SIZE_MODULUS" using assms(1) by (auto simp: buf_inv_def)
  have ok: "\<not> (offset \<ge> b_length b \<or> size_wrap (offset + len) > b_length b)"
    using assms lt by (simp add: size_wrap_def)
  have sub: "size_sub (b_length b) len = b_length b - len"
    "size_sub (b_length b) (size_wrap (len + offset)) = b_length b - (len + offset)"
    using assms lt by (simp_all add: add.commute)
  show ?thesis
  proof (cases "offset = 0")
    case True
    let ?b = "b\<lparr>b_data := b_data b + len, b_length := b_length b - len\<rparr>"
    have inv: "buf_inv ?b" using assms by (auto simp: buf_inv_def)
    have "buf_bytes ?b = drop len (buf_bytes b)"
      using assms(3) True by (simp add: buf_bytes_def drop_take add.commute)
    with try_rebase_ok [OF inv] True ok sub show ?thesis
      by (auto simp: parserutils_buffer_discard_def)
  next
    case False
    from buf_split [OF assms(1)] obtain pre post where
      al: "b_alloc b = pre @ buf_bytes b @ post" and pre: "length pre = b_data b" .
    let ?x = "take offset (buf_bytes b)" and ?y = "drop (offset + len) (buf_bytes b)"
    have len: "length (buf_bytes b) = b_length b" using assms(1) by simp
    let ?m = "pre @ (?x @ ?y) @ drop (b_data b + b_length b - len) (b_alloc b)"
    have mv: "mem_move (b_data b + offset) (b_data b + offset + len) (b_length b - (len + offset))
        (b_alloc b) = Some ?m"
    proof -
      have "take (b_length b - (len + offset)) (drop (b_data b + offset + len) (b_alloc b)) = ?y"
        using al pre len assms(3) by (simp add: add.commute add.left_commute)
      moreover have "take (b_data b + offset) (b_alloc b) = pre @ ?x"
        using al pre len assms(2) by simp
      moreover have "b_data b + offset + (b_length b - (len + offset)) = b_data b + b_length b - len"
        using assms(3) by simp
      ultimately show ?thesis
        using assms by (subst mem_move_ok) (auto simp: buf_inv_def)
    qed
    let ?b = "b\<lparr>b_alloc := ?m, b_length := b_length b - len\<rparr>"
    have "buf_bytes ?b = ?x @ ?y"
      using len assms(2,3) by (intro buf_bytesI) (auto simp: pre)
    moreover have "buf_inv ?b"
      using assms al pre len by (auto simp: buf_inv_def)
    ultimately show ?thesis
      using False ok sub mv by (simp add: parserutils_buffer_discard_def del: append_assoc)
  qed
qed

lemma buffer_randomise_ok:
  assumes "buf_inv b"
  shows "\<exists>e b'. parserutils_buffer_randomise h (Some b) = Some (e, Some b') \<and> buf_inv b' \<and>
    e \<in> {PARSERUTILS_OK, PARSERUTILS_NOMEM} \<and> buf_bytes b' = buf_bytes b"
  using assms
  by (auto simp: mem_read_def mem_write_def buf_inv_def buf_bytes_def fresh_bytes_def)

section \<open>The interface its clients use\<close>

locale byte_buffer =
  fixes bytes_of :: "'b \<Rightarrow> bytes"
    and inv :: "'b \<Rightarrow> bool"
    and append_op :: "heap \<Rightarrow> 'b \<Rightarrow> bytes \<Rightarrow> (parserutils_error \<times> 'b) option"
    and insert_op :: "heap \<Rightarrow> 'b \<Rightarrow> nat \<Rightarrow> bytes \<Rightarrow> (parserutils_error \<times> 'b) option"
    and discard_op :: "'b \<Rightarrow> nat \<Rightarrow> nat \<Rightarrow> (parserutils_error \<times> 'b) option"
  assumes append_law: "inv b \<Longrightarrow> \<exists>e b'. append_op h b xs = Some (e, b') \<and> inv b' \<and>
      (if e = PARSERUTILS_OK then bytes_of b' = bytes_of b @ xs
       else e = PARSERUTILS_NOMEM \<and> bytes_of b' = bytes_of b)"
    and insert_law: "inv b \<Longrightarrow> offset \<le> length (bytes_of b) \<Longrightarrow>
      \<exists>e b'. insert_op h b offset xs = Some (e, b') \<and> inv b' \<and>
      (if e = PARSERUTILS_OK
       then bytes_of b' = take offset (bytes_of b) @ xs @ drop offset (bytes_of b)
       else e = PARSERUTILS_NOMEM \<and> bytes_of b' = bytes_of b)"
    and discard_law: "inv b \<Longrightarrow> offset < length (bytes_of b) \<Longrightarrow> offset + n \<le> length (bytes_of b) \<Longrightarrow>
      \<exists>b'. discard_op b offset n = Some (PARSERUTILS_OK, b') \<and> inv b' \<and>
        bytes_of b' = take offset (bytes_of b) @ drop (offset + n) (bytes_of b)"
begin

lemma insert_then_discard:
  assumes "inv b" and "offset \<le> length (bytes_of b)" and "xs \<noteq> []"
    and "insert_op h b offset xs = Some (PARSERUTILS_OK, b')"
  shows "\<exists>b''. discard_op b' offset (length xs) = Some (PARSERUTILS_OK, b'') \<and> inv b'' \<and>
    bytes_of b'' = bytes_of b"
proof -
  from insert_law [OF assms(1,2), of h xs] assms(4)
  have b': "inv b'" "bytes_of b' = take offset (bytes_of b) @ xs @ drop offset (bytes_of b)"
    by auto
  have "offset < length (bytes_of b')" "offset + length xs \<le> length (bytes_of b')"
    using assms(2,3) b'(2) by (auto simp flip: length_greater_0_conv)
  from discard_law [OF b'(1) this] b'(2) assms(2) show ?thesis by auto
qed

lemma fifo:
  assumes "inv b" and "append_op h b xs = Some (PARSERUTILS_OK, b')" and "bytes_of b \<noteq> []"
  shows "\<exists>b''. discard_op b' 0 (length (bytes_of b)) = Some (PARSERUTILS_OK, b'') \<and> inv b'' \<and>
    bytes_of b'' = xs"
proof -
  from append_law [OF assms(1), of h xs] assms(2) have "inv b'" "bytes_of b' = bytes_of b @ xs" by auto
  with discard_law [of b' 0 "length (bytes_of b)"] assms(3) show ?thesis by simp
qed

end

interpretation pubuf: byte_buffer buf_bytes buf_inv parserutils_buffer_append
  parserutils_buffer_insert parserutils_buffer_discard
proof unfold_locales
  fix b h xs assume "buf_inv b"
  then show "\<exists>e b'. parserutils_buffer_append h b xs = Some (e, b') \<and> buf_inv b' \<and>
      (if e = PARSERUTILS_OK then buf_bytes b' = buf_bytes b @ xs
       else e = PARSERUTILS_NOMEM \<and> buf_bytes b' = buf_bytes b)"
    by (rule buffer_append_cases)
next
  fix b h offset xs assume "buf_inv b" "offset \<le> length (buf_bytes b)"
  then show "\<exists>e b'. parserutils_buffer_insert h b offset xs = Some (e, b') \<and> buf_inv b' \<and>
      (if e = PARSERUTILS_OK
       then buf_bytes b' = take offset (buf_bytes b) @ xs @ drop offset (buf_bytes b)
       else e = PARSERUTILS_NOMEM \<and> buf_bytes b' = buf_bytes b)"
    by (intro buffer_insert_cases) simp_all
next
  fix b offset n
  assume "buf_inv b" "offset < length (buf_bytes b)" "offset + n \<le> length (buf_bytes b)"
  then show "\<exists>b'. parserutils_buffer_discard b offset n = Some (PARSERUTILS_OK, b') \<and> buf_inv b' \<and>
      buf_bytes b' = take offset (buf_bytes b) @ drop (offset + n) (buf_bytes b)"
    by (intro buffer_discard_ok) simp_all
qed

section \<open>Properties\<close>

definition buffer_example :: parserutils_buffer where
  "buffer_example = \<lparr>b_alloc = [1, 2, 3, 4], b_data = 1, b_length = 3, b_allocated = 4\<rparr>"

lemma buffer_example_inv: "buf_inv buffer_example"
  by (simp add: buffer_example_def buf_inv_def)

text \<open>C35: Inserting bytes at any offset inside a well-formed buffer (the end included) is
  defined, keeps the invariant and either splices the bytes in at that offset or fails
  with NOMEM leaving the contents as they were; an offset past the end is rejected with
  BADPARM and the buffer is unchanged.\<close>

theorem buffer_insert_refines:
  assumes "buf_inv b"
  shows "\<exists>e b'. parserutils_buffer_insert h b offset data = Some (e, b') \<and> buf_inv b' \<and>
    (if offset > length (buf_bytes b) then e = PARSERUTILS_BADPARM \<and> b' = b
     else if e = PARSERUTILS_OK
     then buf_bytes b' = take offset (buf_bytes b) @ data @ drop offset (buf_bytes b)
     else e = PARSERUTILS_NOMEM \<and> buf_bytes b' = buf_bytes b)"
proof (cases "offset > b_length b")
  case True
  with assms show ?thesis by (auto simp: parserutils_buffer_insert_def)
next
  case False
  with buffer_insert_cases [OF assms, of offset h data] assms show ?thesis by auto
qed

theorem buffer_insert_refines_witness:
  "buf_inv buffer_example \<and>
   (\<exists>e b'. parserutils_buffer_insert heap_all buffer_example 1 [9, 9, 9, 9] = Some (e, b') \<and> buf_inv b' \<and>
     (if 1 > length (buf_bytes buffer_example) then e = PARSERUTILS_BADPARM \<and> b' = buffer_example
      else if e = PARSERUTILS_OK
      then buf_bytes b' = take 1 (buf_bytes buffer_example) @ [9, 9, 9, 9] @ drop 1 (buf_bytes buffer_example)
      else e = PARSERUTILS_NOMEM \<and> buf_bytes b' = buf_bytes buffer_example))"
  using buffer_example_inv buffer_insert_refines [OF buffer_example_inv, of heap_all 1 "[9, 9, 9, 9]"]
  by blast

text \<open>Discarding a range that starts inside the data and ends within it removes exactly that
  range; every other range is refused with BADPARM. The one exception is the check's own
  wrap: the sum of offset and length is computed modulo 2 to the 64.\<close>

theorem buffer_discard_refines:
  assumes "buf_inv b" and "offset + len < SIZE_MODULUS"
  shows "\<exists>e b'. parserutils_buffer_discard b offset len = Some (e, b') \<and> buf_inv b' \<and>
    (if offset < length (buf_bytes b) \<and> offset + len \<le> length (buf_bytes b)
     then e = PARSERUTILS_OK \<and>
       buf_bytes b' = take offset (buf_bytes b) @ drop (offset + len) (buf_bytes b)
     else e = PARSERUTILS_BADPARM \<and> b' = b)"
proof (cases "offset < b_length b \<and> offset + len \<le> b_length b")
  case True
  with buffer_discard_ok [OF assms(1), of offset len] assms(1) show ?thesis by auto
next
  case False
  with assms show ?thesis by (auto simp: parserutils_buffer_discard_def)
qed

theorem buffer_discard_refines_witness:
  "buf_inv buffer_example \<and> 1 + 1 < SIZE_MODULUS \<and>
   (\<exists>e b'. parserutils_buffer_discard buffer_example 1 1 = Some (e, b') \<and> buf_inv b' \<and>
     (if 1 < length (buf_bytes buffer_example) \<and> 1 + 1 \<le> length (buf_bytes buffer_example)
      then e = PARSERUTILS_OK \<and>
        buf_bytes b' = take 1 (buf_bytes buffer_example) @ drop (1 + 1) (buf_bytes buffer_example)
      else e = PARSERUTILS_BADPARM \<and> b' = buffer_example))"
proof -
  have h: "(1::nat) + 1 < SIZE_MODULUS" by simp
  show ?thesis using buffer_example_inv h buffer_discard_refines [OF buffer_example_inv h] by blast
qed

text \<open>Appending a sequence of blocks appends their concatenation; if the allocator refuses
  part-way the call reports NOMEM and the buffer holds the blocks appended so far.\<close>

theorem buffer_appendv_refines:
  assumes "buf_inv b"
  shows "\<exists>e b'. parserutils_buffer_appendv h b blocks = Some (e, b') \<and> buf_inv b' \<and>
    (if e = PARSERUTILS_OK then buf_bytes b' = buf_bytes b @ concat blocks
     else e = PARSERUTILS_NOMEM \<and>
       (\<exists>k < length blocks. buf_bytes b' = buf_bytes b @ concat (take k blocks)))"
  using assms
proof (induction blocks arbitrary: b)
  case Nil
  then show ?case by simp
next
  case (Cons x xs)
  from pubuf.append_law [OF Cons.prems, of h x] obtain e b1 where
    ap: "parserutils_buffer_append h b x = Some (e, b1)" "buf_inv b1" and
    res: "if e = PARSERUTILS_OK then buf_bytes b1 = buf_bytes b @ x
      else e = PARSERUTILS_NOMEM \<and> buf_bytes b1 = buf_bytes b" by blast
  show ?case
  proof (cases "e = PARSERUTILS_OK")
    case False
    with ap res show ?thesis by (auto intro: exI [of _ 0])
  next
    case True
    from Cons.IH [OF ap(2)] obtain e2 b2 where
      rest: "parserutils_buffer_appendv h b1 xs = Some (e2, b2)" "buf_inv b2" and
      res2: "if e2 = PARSERUTILS_OK then buf_bytes b2 = buf_bytes b1 @ concat xs
        else e2 = PARSERUTILS_NOMEM \<and> (\<exists>k < length xs. buf_bytes b2 = buf_bytes b1 @ concat (take k xs))"
      by blast
    have "(\<exists>k < length xs. buf_bytes b2 = buf_bytes b1 @ concat (take k xs)) \<Longrightarrow>
        \<exists>k < length (x # xs). buf_bytes b2 = buf_bytes b @ concat (take k (x # xs))"
      using True res by (force intro: exI [of _ "Suc _"])
    with True ap rest res res2 show ?thesis by (auto split: if_splits)
  qed
qed

theorem buffer_appendv_refines_witness:
  "buf_inv buffer_example \<and>
   (\<exists>e b'. parserutils_buffer_appendv heap_all buffer_example [[5], [6, 7]] = Some (e, b') \<and> buf_inv b' \<and>
     (if e = PARSERUTILS_OK then buf_bytes b' = buf_bytes buffer_example @ concat [[5], [6, 7]]
      else e = PARSERUTILS_NOMEM \<and>
        (\<exists>k < length [[5], [6, 7 :: u8]].
           buf_bytes b' = buf_bytes buffer_example @ concat (take k [[5], [6, 7]]))))"
  using buffer_example_inv buffer_appendv_refines [OF buffer_example_inv, of heap_all "[[5], [6, 7]]"]
  by blast

end
