(* ===== verification/Input_Stream.thy ===== *)
theory Input_Stream
  imports Buffer Utf8
begin

text \<open>
  The input stream that feeds the HTML tokeniser and the CSS lexer:
  \<^verbatim>\<open>libparserutils/src/input/inputstream.c\<close>, the inline functions of
  \<^verbatim>\<open>libparserutils/include/parserutils/input/inputstream.h\<close> and the charset conversion filter
  \<^verbatim>\<open>libparserutils/src/input/filter.c\<close> as it is built, on top of iconv. The C library's
  iconv and the table of charset names (generated at build time) are parameters, collected in
  \<open>charset_env\<close>; what the code relies on of iconv is \<open>iconv_laws\<close>, its documented behaviour.
  A failed assertion and an access outside an allocation are \<open>None\<close>.

  The abstraction is the text the client has not read yet, \<open>unread\<close>: filling appends
  converted bytes to it, advancing drops a prefix, inserting puts bytes in front.
\<close>

section \<open>The conversion filter\<close>

datatype iconv_errno = E2BIG | EILSEQ | EINVAL | EBADF

record 'cd charset_env =
  ce_from_name :: "string \<Rightarrow> u16"
  ce_to_name :: "u16 \<Rightarrow> string option"
  ce_open :: "string option \<Rightarrow> string option \<Rightarrow> iconv_errno + 'cd"
  ce_iconv :: "'cd \<Rightarrow> bytes \<Rightarrow> nat \<Rightarrow> iconv_errno option \<times> 'cd \<times> nat \<times> bytes"

record 'cd parserutils_filter =
  f_cd :: "'cd option"
  f_int_enc :: u16
  f_encoding :: u16

definition filter_set_encoding ::
  "'cd charset_env \<Rightarrow> 'cd parserutils_filter \<Rightarrow> string option \<Rightarrow> parserutils_error \<times> 'cd parserutils_filter" where
  "filter_set_encoding env f enc =
     (case enc of
        None \<Rightarrow> (PARSERUTILS_BADPARM, f)
      | Some name \<Rightarrow>
          (let mibenum = ce_from_name env name in
           if mibenum = 0 then (PARSERUTILS_BADENCODING, f)
           else if f_encoding f = mibenum then (PARSERUTILS_OK, f)
           else (case ce_open env (ce_to_name env (f_int_enc f)) (ce_to_name env mibenum) of
                   Inl e \<Rightarrow> (if e = EINVAL then PARSERUTILS_BADENCODING else PARSERUTILS_NOMEM, f\<lparr>f_cd := None\<rparr>)
                 | Inr cd \<Rightarrow> (PARSERUTILS_OK, f\<lparr>f_cd := Some cd, f_encoding := mibenum\<rparr>))))"

abbreviation (input) sizeof_filter :: nat where "sizeof_filter \<equiv> 16"

definition parserutils__filter_create ::
  "heap \<Rightarrow> 'cd charset_env \<Rightarrow> string \<Rightarrow> parserutils_error \<times> 'cd parserutils_filter option" where
  "parserutils__filter_create h env int_enc =
     (if \<not> malloc_ok h sizeof_filter then (PARSERUTILS_NOMEM, None)
      else if ce_from_name env int_enc = 0 then (PARSERUTILS_BADENCODING, None)
      else (case filter_set_encoding env
                   \<lparr>f_cd = None, f_int_enc = ce_from_name env int_enc, f_encoding = 0\<rparr> (Some ''UTF-8'') of
              (PARSERUTILS_OK, f) \<Rightarrow> (PARSERUTILS_OK, Some f)
            | (e, _) \<Rightarrow> (e, None)))"

definition parserutils__filter_setopt ::
  "'cd charset_env \<Rightarrow> 'cd parserutils_filter \<Rightarrow> string option \<Rightarrow> parserutils_error \<times> 'cd parserutils_filter" where
  "parserutils__filter_setopt env f name = filter_set_encoding env f name"

definition call_iconv ::
  "'cd charset_env \<Rightarrow> 'cd option \<Rightarrow> bytes \<Rightarrow> nat \<Rightarrow> iconv_errno option \<times> 'cd option \<times> nat \<times> bytes" where
  "call_iconv env cd data space =
     (case cd of
        None \<Rightarrow> (Some EBADF, None, 0, [])
      | Some c \<Rightarrow> (let (e, c', n, out) = ce_iconv env c data space in (e, Some c', n, out)))"

abbreviation (input) replacement :: bytes where "replacement \<equiv> [0xef, 0xbf, 0xbd]"

text \<open>The loop after the first illegal sequence; its input is already past the offending byte. A
  result is the error, the descriptor, the unread input and what was written.\<close>

function replace_loop ::
  "'cd charset_env \<Rightarrow> 'cd option \<Rightarrow> bytes \<Rightarrow> nat \<Rightarrow> (parserutils_error \<times> 'cd option \<times> bytes \<times> bytes) option" where
  "replace_loop env cd data space =
     (if data = [] then Some (PARSERUTILS_OK, cd, [], [])
      else (let (e, cd', n, out) = call_iconv env cd data space;
                rest = drop n data; space' = space - length out
            in if e \<noteq> Some EILSEQ
               then Some (if e = Some E2BIG then PARSERUTILS_NOMEM else PARSERUTILS_OK, cd', rest, out)
               else if space' < 3 then Some (PARSERUTILS_NOMEM, cd', rest, out)
               else if rest = [] then None
               else map_option (\<lambda>(e, cd, r, o2). (e, cd, r, out @ replacement @ o2))
                      (replace_loop env cd' (tl rest) (space' - 3))))"
  by pat_completeness auto
termination
  by (relation "measure (\<lambda>(env, cd, data, space). length data)")
    (auto simp: less_Suc_eq_le intro!: le_less_trans [OF diff_le_self])

definition parserutils__filter_process_chunk ::
  "'cd charset_env \<Rightarrow> 'cd parserutils_filter \<Rightarrow> bytes \<Rightarrow> nat \<Rightarrow>
   (parserutils_error \<times> 'cd parserutils_filter \<times> bytes \<times> bytes) option" where
  "parserutils__filter_process_chunk env f data space =
     (let (e, cd, n, out) = call_iconv env (f_cd f) data space;
          rest = drop n data; space' = space - length out
      in if e = Some E2BIG then Some (PARSERUTILS_NOMEM, f\<lparr>f_cd := cd\<rparr>, rest, out)
         else if e = Some EILSEQ then
           (if space' < 3 then Some (PARSERUTILS_NOMEM, f\<lparr>f_cd := cd\<rparr>, rest, out)
            else if rest = [] then None
            else map_option (\<lambda>(e, cd, r, o2). (e, f\<lparr>f_cd := cd\<rparr>, r, out @ replacement @ o2))
                   (replace_loop env cd (tl rest) (space' - 3)))
         else Some (PARSERUTILS_OK, f\<lparr>f_cd := cd\<rparr>, rest, out))"

section \<open>The stream\<close>

type_synonym charset_detect = "bytes \<Rightarrow> u16 \<Rightarrow> u32 \<Rightarrow> parserutils_error \<times> u16 \<times> u32"

record 'cd inputstream =
  is_utf8 :: parserutils_buffer
  is_cursor :: nat
  is_had_eof :: bool
  is_raw :: parserutils_buffer
  is_done_first_chunk :: bool
  is_mibenum :: u16
  is_encsrc :: u32
  is_input :: "'cd parserutils_filter"
  is_csdetect :: "charset_detect option"

abbreviation (input) sizeof_inputstream :: nat where "sizeof_inputstream \<equiv> 72"

definition parserutils_inputstream_create ::
  "heap \<Rightarrow> 'cd charset_env \<Rightarrow> string option \<Rightarrow> u32 \<Rightarrow> charset_detect option \<Rightarrow>
   parserutils_error \<times> 'cd inputstream option" where
  "parserutils_inputstream_create h env enc encsrc csdetect =
     (if \<not> malloc_ok h sizeof_inputstream then (PARSERUTILS_NOMEM, None)
      else (case parserutils_buffer_create h of
          (e, None) \<Rightarrow> (e, None)
        | (e, Some raw) \<Rightarrow>
            (case parserutils_buffer_create h of
               (e, None) \<Rightarrow> (e, None)
             | (e, Some utf8) \<Rightarrow>
                 (case parserutils__filter_create h env ''UTF-8'' of
                    (e, None) \<Rightarrow> (e, None)
                  | (e, Some f) \<Rightarrow>
                      (let s = \<lparr>is_utf8 = utf8, is_cursor = 0, is_had_eof = False, is_raw = raw,
                                is_done_first_chunk = False, is_mibenum = 0, is_encsrc = 0, is_input = f,
                                is_csdetect = csdetect\<rparr>
                       in case enc of
                            None \<Rightarrow> (PARSERUTILS_OK, Some s)
                          | Some name \<Rightarrow>
                              if ce_from_name env name = 0 then (PARSERUTILS_BADENCODING, None)
                              else (case parserutils__filter_setopt env f (Some name) of
                                      (PARSERUTILS_OK, f') \<Rightarrow>
                                        (PARSERUTILS_OK, Some (s\<lparr>is_mibenum := ce_from_name env name,
                                           is_input := f', is_encsrc := encsrc\<rparr>))
                                    | (e, _) \<Rightarrow> (e, None)))))))"

definition parserutils_inputstream_append ::
  "heap \<Rightarrow> 'cd inputstream \<Rightarrow> bytes option \<Rightarrow> (parserutils_error \<times> 'cd inputstream) option" where
  "parserutils_inputstream_append h s data =
     (case data of
        None \<Rightarrow> Some (PARSERUTILS_OK, s\<lparr>is_had_eof := True\<rparr>)
      | Some bs \<Rightarrow> map_option (\<lambda>(e, b). (e, s\<lparr>is_raw := b\<rparr>)) (parserutils_buffer_append h (is_raw s) bs))"

definition parserutils_inputstream_insert ::
  "heap \<Rightarrow> 'cd inputstream \<Rightarrow> bytes \<Rightarrow> (parserutils_error \<times> 'cd inputstream) option" where
  "parserutils_inputstream_insert h s data =
     map_option (\<lambda>(e, b). (e, s\<lparr>is_utf8 := b\<rparr>)) (parserutils_buffer_insert h (is_utf8 s) (is_cursor s) data)"

definition parserutils_inputstream_change_charset ::
  "'cd charset_env \<Rightarrow> 'cd inputstream \<Rightarrow> string \<Rightarrow> u32 \<Rightarrow> parserutils_error \<times> 'cd inputstream" where
  "parserutils_inputstream_change_charset env s enc source =
     (if is_done_first_chunk s then (PARSERUTILS_INVALID, s)
      else if ce_from_name env enc = 0 then (PARSERUTILS_BADENCODING, s)
      else (case parserutils__filter_setopt env (is_input s) (Some enc) of
              (PARSERUTILS_OK, f) \<Rightarrow>
                (PARSERUTILS_OK, s\<lparr>is_input := f, is_mibenum := ce_from_name env enc, is_encsrc := source\<rparr>)
            | (e, f) \<Rightarrow> (e, s\<lparr>is_input := f\<rparr>)))"

definition parserutils_inputstream_read_charset ::
  "'cd charset_env \<Rightarrow> 'cd inputstream \<Rightarrow> string option \<times> u32" where
  "parserutils_inputstream_read_charset env s =
     (if is_encsrc s = 0 then Some ''UTF-8'' else ce_to_name env (is_mibenum s), is_encsrc s)"

text \<open>Stripping a byte order mark; UTF-16 and UTF-32 without a byte order become the variant the
  mark announces, big endian if there is none.\<close>

definition has_bom :: "bytes \<Rightarrow> parserutils_buffer \<Rightarrow> bool" where
  "has_bom bom b \<longleftrightarrow> b_length b \<ge> length bom \<and> take (length bom) (buf_bytes b) = bom"

definition discard_bom ::
  "u16 \<Rightarrow> nat \<Rightarrow> parserutils_buffer \<Rightarrow> (parserutils_error \<times> u16 \<times> parserutils_buffer) option" where
  "discard_bom mibenum n b = map_option (\<lambda>(e, b). (e, mibenum, b)) (parserutils_buffer_discard b 0 n)"

definition parserutils_inputstream_strip_bom ::
  "'cd charset_env \<Rightarrow> u16 \<Rightarrow> parserutils_buffer \<Rightarrow> (parserutils_error \<times> u16 \<times> parserutils_buffer) option" where
  "parserutils_inputstream_strip_bom env mibenum b =
     (let utf8 = ce_from_name env ''UTF-8''; utf16 = ce_from_name env ''UTF-16'';
          utf16be = ce_from_name env ''UTF-16BE''; utf16le = ce_from_name env ''UTF-16LE'';
          utf32 = ce_from_name env ''UTF-32''; utf32be = ce_from_name env ''UTF-32BE'';
          utf32le = ce_from_name env ''UTF-32LE''
      in if mibenum = utf8 then
           (if has_bom [0xEF, 0xBB, 0xBF] b then discard_bom mibenum 3 b else Some (PARSERUTILS_OK, mibenum, b))
         else if mibenum = utf16be then
           (if has_bom [0xFE, 0xFF] b then discard_bom mibenum 2 b else Some (PARSERUTILS_OK, mibenum, b))
         else if mibenum = utf16le then
           (if has_bom [0xFF, 0xFE] b then discard_bom mibenum 2 b else Some (PARSERUTILS_OK, mibenum, b))
         else if mibenum = utf16 then
           (if has_bom [0xFE, 0xFF] b then discard_bom utf16be 2 b
            else if has_bom [0xFF, 0xFE] b then discard_bom utf16le 2 b
            else Some (PARSERUTILS_OK, utf16be, b))
         else if mibenum = utf32be then
           (if has_bom [0, 0, 0xFE, 0xFF] b then discard_bom mibenum 4 b else Some (PARSERUTILS_OK, mibenum, b))
         else if mibenum = utf32le then
           (if has_bom [0xFF, 0xFE, 0, 0] b then discard_bom mibenum 4 b else Some (PARSERUTILS_OK, mibenum, b))
         else if mibenum = utf32 then
           (if has_bom [0, 0, 0xFE, 0xFF] b then discard_bom utf32be 4 b
            else if has_bom [0xFF, 0xFE, 0, 0] b then discard_bom utf32le 4 b
            else Some (PARSERUTILS_OK, utf32be, b))
         else Some (PARSERUTILS_OK, mibenum, b))"

text \<open>Refilling, in the three stages of the code: the first chunk, making room, converting.\<close>

definition detect_charset ::
  "'cd inputstream \<Rightarrow> parserutils_error \<times> 'cd inputstream" where
  "detect_charset s =
     (case is_csdetect s of
        None \<Rightarrow> (PARSERUTILS_OK, s)
      | Some detect \<Rightarrow>
          (let (e, mib, src) = detect (buf_bytes (is_raw s)) (is_mibenum s) (is_encsrc s)
           in (if e = PARSERUTILS_NEEDDATA \<and> is_had_eof s then PARSERUTILS_OK else e,
               s\<lparr>is_mibenum := mib, is_encsrc := src\<rparr>)))"

definition refill_first_chunk ::
  "'cd charset_env \<Rightarrow> 'cd inputstream \<Rightarrow> (parserutils_error \<times> 'cd inputstream) option" where
  "refill_first_chunk env s =
     (if is_done_first_chunk s then Some (PARSERUTILS_OK, s)
      else (let (e, s) = detect_charset s in
        if e \<noteq> PARSERUTILS_OK then Some (e, s)
        else (let s = (if is_mibenum s = 0
                       then s\<lparr>is_mibenum := ce_from_name env ''UTF-8'', is_encsrc := 0\<rparr> else s)
          in if is_mibenum s = 0 then None
             else do {
               (e, mib, raw) \<leftarrow> parserutils_inputstream_strip_bom env (is_mibenum s) (is_raw s);
               (let s = s\<lparr>is_mibenum := mib, is_raw := raw\<rparr> in
                if e \<noteq> PARSERUTILS_OK then Some (e, s)
                else (let (e, f) = parserutils__filter_setopt env (is_input s) (ce_to_name env mib);
                          s = s\<lparr>is_input := f\<rparr>
                      in if e \<noteq> PARSERUTILS_OK then Some (e, s)
                         else Some (PARSERUTILS_OK, s\<lparr>is_done_first_chunk := True\<rparr>)))
             })))"

text \<open>Where converted bytes go: the error, the stream and the offset from the start of the data. The
  cursor is not moved here.\<close>

definition refill_make_room ::
  "heap \<Rightarrow> 'cd inputstream \<Rightarrow> (parserutils_error \<times> 'cd inputstream \<times> nat) option" where
  "refill_make_room h s =
     (let u = is_utf8 s in
      if is_cursor s = b_length u then Some (PARSERUTILS_OK, s, 0)
      else do {
        mem \<leftarrow> mem_move (b_data u) (b_data u + is_cursor s) (size_sub (b_length u) (is_cursor s)) (b_alloc u);
        (let u = u\<lparr>b_alloc := mem, b_length := size_sub (b_length u) (is_cursor s)\<rparr>;
             (e, u) = (if b_length u > b_allocated u div 2 then parserutils_buffer_grow h u
                       else (PARSERUTILS_OK, u))
         in Some (e, s\<lparr>is_utf8 := u\<rparr>, b_length u))
      })"

definition refill_convert ::
  "'cd charset_env \<Rightarrow> 'cd inputstream \<Rightarrow> nat \<Rightarrow> (parserutils_error \<times> 'cd inputstream) option" where
  "refill_convert env s base =
     (let u = is_utf8 s; space = size_sub (b_allocated u) base in do {
        (e, f, rest, out) \<leftarrow> parserutils__filter_process_chunk env (is_input s) (buf_bytes (is_raw s)) space;
        mem \<leftarrow> mem_write (b_data u + base) out (b_alloc u);
        (let s = s\<lparr>is_input := f, is_utf8 := u\<lparr>b_alloc := mem\<rparr>\<rparr> in
         if e \<noteq> PARSERUTILS_OK \<and> e \<noteq> PARSERUTILS_NOMEM then Some (e, s)
         else do {
           (e, raw) \<leftarrow> parserutils_buffer_discard (is_raw s) 0 (size_sub (b_length (is_raw s)) (length rest));
           if e \<noteq> PARSERUTILS_OK then Some (e, s\<lparr>is_raw := raw\<rparr>)
           else Some (PARSERUTILS_OK, s\<lparr>is_raw := raw, is_cursor := 0,
                  is_utf8 := (is_utf8 s)\<lparr>b_length := size_sub (b_allocated u) (size_sub space (length out))\<rparr>\<rparr>)
         })
      })"

definition parserutils_inputstream_refill_buffer ::
  "heap \<Rightarrow> 'cd charset_env \<Rightarrow> 'cd inputstream \<Rightarrow> (parserutils_error \<times> 'cd inputstream) option" where
  "parserutils_inputstream_refill_buffer h env s = do {
     (e, s) \<leftarrow> refill_first_chunk env s;
     if e \<noteq> PARSERUTILS_OK then Some (e, s)
     else do {
       (e, s, base) \<leftarrow> refill_make_room h s;
       if e \<noteq> PARSERUTILS_OK then Some (e, s) else refill_convert env s base
     }
   }"

text \<open>Reading the character at an offset from the cursor: its position in the buffer and its length
  in bytes. The byte is read from the allocation, whatever the length of the data.\<close>

definition read_char_at :: "parserutils_buffer \<Rightarrow> nat \<Rightarrow> (parserutils_error + nat \<times> nat) option" where
  "read_char_at u off =
     (if b_data u + off \<ge> length (b_alloc u) then None
      else (let c = b_alloc u ! (b_data u + off) in
            if c AND 0x80 = 0 then Some (Inr (off, 1))
            else map_option (\<lambda>r. case r of Inl e \<Rightarrow> Inl e | Inr n \<Rightarrow> Inr (off, n))
                   (parserutils_charset_utf8_char_byte_length (Some (drop (b_data u + off) (b_alloc u))))))"

definition parserutils_inputstream_peek_slow ::
  "heap \<Rightarrow> 'cd charset_env \<Rightarrow> 'cd inputstream \<Rightarrow> nat \<Rightarrow> ((parserutils_error + nat \<times> nat) \<times> 'cd inputstream) option" where
  "parserutils_inputstream_peek_slow h env s offset =
     (if b_length (is_raw s) = 0
      then Some (Inl (if is_had_eof s then PARSERUTILS_EOF else PARSERUTILS_NEEDDATA), s)
      else do {
        (e, s) \<leftarrow> parserutils_inputstream_refill_buffer h env s;
        if e \<noteq> PARSERUTILS_OK then Some (Inl e, s)
        else if is_cursor s + offset = b_length (is_utf8 s) then Some (Inl PARSERUTILS_NEEDDATA, s)
        else do {
          r \<leftarrow> read_char_at (is_utf8 s) (is_cursor s + offset);
          (case r of
             Inl PARSERUTILS_NEEDDATA \<Rightarrow>
               Some (Inl (if is_had_eof s then PARSERUTILS_EOF else PARSERUTILS_NEEDDATA), s)
           | _ \<Rightarrow> Some (r, s))
        }
      })"

definition parserutils_inputstream_peek ::
  "heap \<Rightarrow> 'cd charset_env \<Rightarrow> 'cd inputstream \<Rightarrow> nat \<Rightarrow> ((parserutils_error + nat \<times> nat) \<times> 'cd inputstream) option" where
  "parserutils_inputstream_peek h env s offset =
     (if is_cursor s + offset < b_length (is_utf8 s)
      then do {
        r \<leftarrow> read_char_at (is_utf8 s) (is_cursor s + offset);
        if r = Inl PARSERUTILS_NEEDDATA then parserutils_inputstream_peek_slow h env s offset else Some (r, s)
      }
      else parserutils_inputstream_peek_slow h env s offset)"

text \<open>The cursor is a 32-bit field.\<close>

definition parserutils_inputstream_advance :: "'cd inputstream \<Rightarrow> nat \<Rightarrow> 'cd inputstream" where
  "parserutils_inputstream_advance s n =
     (let left = size_sub (b_length (is_utf8 s)) (is_cursor s);
          n = (if n > left then left else n)
      in if is_cursor s = b_length (is_utf8 s) then s
         else s\<lparr>is_cursor := (is_cursor s + n) mod 2 ^ 32\<rparr>)"

section \<open>What the code relies on of iconv\<close>

text \<open>iconv reads no more than it is given and writes no more than fits; when it stops at an illegal
  sequence that sequence is still unread.\<close>

definition iconv_laws :: "'cd charset_env \<Rightarrow> bool" where
  "iconv_laws env \<longleftrightarrow> (\<forall>cd data space e cd' n out. ce_iconv env cd data space = (e, cd', n, out) \<longrightarrow>
     n \<le> length data \<and> length out \<le> space \<and> (e = Some EILSEQ \<longrightarrow> n < length data))"

lemma call_iconv_bounds:
  assumes "iconv_laws env" and "call_iconv env cd data space = (e, cd', n, out)"
  shows "n \<le> length data \<and> length out \<le> space \<and> (e = Some EILSEQ \<longrightarrow> n < length data)"
  using assms by (auto simp: iconv_laws_def call_iconv_def split: option.splits prod.splits)

declare replace_loop.simps [simp del]

lemma replace_loop_ok:
  assumes "iconv_laws env"
  shows "\<exists>e cd' n out. replace_loop env cd data space = Some (e, cd', drop n data, out) \<and>
    n \<le> length data \<and> length out \<le> space \<and> e \<in> {PARSERUTILS_OK, PARSERUTILS_NOMEM}"
proof (induction "length data" arbitrary: cd data space rule: less_induct)
  case less
  show ?case
  proof (cases "data = []")
    case True
    then show ?thesis by (subst replace_loop.simps) (auto intro: exI [of _ 0])
  next
    case ne: False
    obtain e cd1 n out where c: "call_iconv env cd data space = (e, cd1, n, out)" by (metis prod_cases4)
    note b = call_iconv_bounds [OF assms c]
    show ?thesis
    proof (cases "e = Some EILSEQ \<and> 3 \<le> space - length out")
      case False
      with b ne c show ?thesis
        by (subst replace_loop.simps) (auto simp: Let_def intro!: exI [of _ n])
    next
      case True
      with b have n: "n < length data" by simp
      then have tl: "tl (drop n data) = drop (Suc n) data" by (simp add: drop_Suc tl_drop)
      have "length (drop (Suc n) data) < length data" using n by simp
      from less.hyps [OF this, of cd1 "space - length out - 3"] obtain e2 cd2 k o2 where
        l: "replace_loop env cd1 (drop (Suc n) data) (space - length out - 3) = Some (e2, cd2, drop k (drop (Suc n) data), o2)"
          "k \<le> length (drop (Suc n) data)" "length o2 \<le> space - length out - 3"
          "e2 \<in> {PARSERUTILS_OK, PARSERUTILS_NOMEM}" by blast
      have "replace_loop env cd data space = Some (e2, cd2, drop (k + Suc n) data, out @ replacement @ o2)"
        using c True ne l(1) n by (subst replace_loop.simps) (simp add: Let_def tl)
      moreover have "k + Suc n \<le> length data" using l(2) n by simp
      moreover have "length (out @ replacement @ o2) \<le> space" using l(3) True b by auto
      ultimately show ?thesis using l(4) by blast
    qed
  qed
qed

lemma process_chunk_ok:
  assumes "iconv_laws env"
  shows "\<exists>e f' n out. parserutils__filter_process_chunk env f data space = Some (e, f', drop n data, out) \<and>
    n \<le> length data \<and> length out \<le> space \<and> e \<in> {PARSERUTILS_OK, PARSERUTILS_NOMEM}"
proof -
  obtain e cd1 n out where c: "call_iconv env (f_cd f) data space = (e, cd1, n, out)" by (metis prod_cases4)
  note b = call_iconv_bounds [OF assms c]
  show ?thesis
  proof (cases "e = Some EILSEQ \<and> 3 \<le> space - length out")
    case False
    with b c show ?thesis
      by (auto simp: parserutils__filter_process_chunk_def Let_def intro!: exI [of _ n])
  next
    case True
    with b have n: "n < length data" by simp
    then have tl: "tl (drop n data) = drop (Suc n) data" by (simp add: drop_Suc tl_drop)
    from replace_loop_ok [OF assms, of cd1 "drop (Suc n) data" "space - length out - 3"] obtain e2 cd2 k o2 where
      l: "replace_loop env cd1 (drop (Suc n) data) (space - length out - 3) = Some (e2, cd2, drop k (drop (Suc n) data), o2)"
        "k \<le> length (drop (Suc n) data)" "length o2 \<le> space - length out - 3"
        "e2 \<in> {PARSERUTILS_OK, PARSERUTILS_NOMEM}" by blast
    have "parserutils__filter_process_chunk env f data space =
        Some (e2, f\<lparr>f_cd := cd2\<rparr>, drop (k + Suc n) data, out @ replacement @ o2)"
      using c True l(1) n by (simp add: parserutils__filter_process_chunk_def Let_def tl)
    moreover have "k + Suc n \<le> length data" using l(2) n by simp
    moreover have "length (out @ replacement @ o2) \<le> space" using l(3) True b by auto
    ultimately show ?thesis using l(4) by blast
  qed
qed

section \<open>Invariant and abstraction\<close>

definition is_inv :: "'cd inputstream \<Rightarrow> bool" where
  "is_inv s \<longleftrightarrow> buf_inv (is_utf8 s) \<and> b_data (is_utf8 s) = 0 \<and> buf_inv (is_raw s) \<and>
     is_cursor s \<le> b_length (is_utf8 s) \<and> is_cursor s < 2 ^ 32"

definition unread :: "'cd inputstream \<Rightarrow> bytes" where
  "unread s = drop (is_cursor s) (buf_bytes (is_utf8 s))"

lemma make_room_ok:
  assumes "is_inv s"
  shows "\<exists>e s' base. refill_make_room h s = Some (e, s', base) \<and> e \<in> {PARSERUTILS_OK, PARSERUTILS_NOMEM} \<and>
    is_raw s' = is_raw s \<and> is_input s' = is_input s \<and> is_cursor s' = is_cursor s \<and> is_had_eof s' = is_had_eof s \<and>
    is_done_first_chunk s' = is_done_first_chunk s \<and>
    buf_inv (is_utf8 s') \<and> b_data (is_utf8 s') = 0 \<and> base \<le> b_allocated (is_utf8 s') \<and>
    take base (b_alloc (is_utf8 s')) = unread s"
proof (cases "is_cursor s = b_length (is_utf8 s)")
  case True
  with assms show ?thesis by (simp add: refill_make_room_def Let_def is_inv_def unread_def)
next
  case False
  let ?u = "is_utf8 s" and ?c = "is_cursor s"
  have c: "?c \<le> b_length ?u" "b_length ?u \<le> b_allocated ?u" "length (b_alloc ?u) = b_allocated ?u"
    "b_data ?u = 0" "b_allocated ?u \<le> PTRDIFF_MAX" "0 < b_allocated ?u"
    using assms by (auto simp: is_inv_def buf_inv_def)
  define n where "n = b_length ?u - ?c"
  have n: "size_sub (b_length ?u) ?c = n" using c by (simp add: n_def)
  define mem where "mem = take n (drop ?c (b_alloc ?u)) @ drop n (b_alloc ?u)"
  have mv: "mem_move (b_data ?u) (b_data ?u + ?c) n (b_alloc ?u) = Some mem"
    using c by (subst mem_move_ok) (auto simp: mem_def n_def)
  define u where "u = ?u\<lparr>b_alloc := mem, b_length := n\<rparr>"
  have u: "buf_inv u" "b_data u = 0" "b_length u = n" "buf_bytes u = unread s"
    using c by (auto simp: u_def buf_inv_def n_def mem_def buf_bytes_def unread_def drop_take)
  have ua: "b_allocated u = b_allocated ?u" by (simp add: u_def)
  obtain e v where g: "(if b_length u > b_allocated u div 2 then parserutils_buffer_grow h u
      else (PARSERUTILS_OK, u)) = (e, v)" by fastforce
  have v: "e \<in> {PARSERUTILS_OK, PARSERUTILS_NOMEM}" "buf_inv v" "buf_bytes v = unread s" "b_length v = n" "b_data v = 0"
    using g buffer_grow_ok [OF u(1), of h e v] u by (auto split: if_splits)
  have "refill_make_room h s = Some (e, s\<lparr>is_utf8 := v\<rparr>, n)"
    using False n mv g v(4) u(3) ua
    by (auto simp: refill_make_room_def Let_def u_def [symmetric] split: if_splits)
  moreover have "take n (b_alloc v) = unread s" using v(3,4,5) by (simp add: buf_bytes_def)
  ultimately show ?thesis using v by (auto simp: buf_inv_def)
qed

text \<open>Converting appends to the unread text what the filter makes of a prefix of the raw bytes.\<close>

lemma convert_ok:
  assumes "iconv_laws env" and "buf_inv (is_utf8 s)" and "b_data (is_utf8 s) = 0" and "buf_inv (is_raw s)"
    and "0 < b_length (is_raw s)" and "base \<le> b_allocated (is_utf8 s)"
  shows "\<exists>s' n out e f. refill_convert env s base = Some (PARSERUTILS_OK, s') \<and> is_inv s' \<and>
    parserutils__filter_process_chunk env (is_input s) (buf_bytes (is_raw s))
      (b_allocated (is_utf8 s) - base) = Some (e, f, drop n (buf_bytes (is_raw s)), out) \<and>
    n \<le> b_length (is_raw s) \<and>
    is_cursor s' = 0 \<and> unread s' = take base (b_alloc (is_utf8 s)) @ out \<and>
    buf_bytes (is_raw s') = drop n (buf_bytes (is_raw s)) \<and> is_had_eof s' = is_had_eof s \<and>
    is_done_first_chunk s' = is_done_first_chunk s \<and> is_input s' = f"
proof -
  let ?u = "is_utf8 s" and ?raw = "buf_bytes (is_raw s)"
  have u: "length (b_alloc ?u) = b_allocated ?u" "b_allocated ?u \<le> PTRDIFF_MAX" "0 < b_allocated ?u"
    using assms(2) by (auto simp: buf_inv_def)
  define space where "space = b_allocated ?u - base"
  have sp: "size_sub (b_allocated ?u) base = space" using u assms(6) by (simp add: space_def)
  from process_chunk_ok [OF assms(1), of "is_input s" ?raw space] obtain e f n out where
    p: "parserutils__filter_process_chunk env (is_input s) ?raw space = Some (e, f, drop n ?raw, out)"
      "n \<le> length ?raw" "length out \<le> space" "e \<in> {PARSERUTILS_OK, PARSERUTILS_NOMEM}" by blast
  have n: "n \<le> b_length (is_raw s)" using p(2) assms(4) by simp
  have room: "base + length out \<le> length (b_alloc ?u)" using p(3) u assms(6) by (simp add: space_def)
  define mem where "mem = take base (b_alloc ?u) @ out @ drop (base + length out) (b_alloc ?u)"
  have wr: "mem_write (b_data ?u + base) out (b_alloc ?u) = Some mem"
    using room assms(3) by (simp add: mem_write_def mem_def)
  have "b_length (is_raw s) \<le> PTRDIFF_MAX" using assms(4) by (auto simp: buf_inv_def)
  then have disc: "size_sub (b_length (is_raw s)) (length (drop n ?raw)) = n"
    using n assms(4) by simp
  from pubuf.discard_law [OF assms(4), of 0 n] assms(4,5) n obtain raw where
    r: "parserutils_buffer_discard (is_raw s) 0 n = Some (PARSERUTILS_OK, raw)" "buf_inv raw"
      "buf_bytes raw = drop n ?raw" by auto
  have len: "size_sub (b_allocated ?u) (size_sub space (length out)) = base + length out"
    using p(3) u assms(6) by (simp add: space_def)
  define s' where "s' = s\<lparr>is_input := f, is_utf8 := ?u\<lparr>b_alloc := mem, b_length := base + length out\<rparr>,
    is_raw := raw, is_cursor := 0\<rparr>"
  have eq: "refill_convert env s base = Some (PARSERUTILS_OK, s')"
    using p(1,4) wr disc r(1) len by (auto simp: refill_convert_def Let_def sp s'_def)
  have lb: "length (take base (b_alloc ?u)) = base" using assms(6) u by simp
  have "length mem = b_allocated ?u" using room u by (simp add: mem_def)
  then have "is_inv s'" using r(2) room u assms(3) by (simp add: is_inv_def s'_def buf_inv_def)
  moreover have "unread s' = take base (b_alloc ?u) @ out"
    using lb assms(3) by (simp add: unread_def s'_def buf_bytes_def mem_def)
  ultimately show ?thesis using eq p(1) n r(3) unfolding space_def s'_def by fastforce
qed

lemma discard_bom_ok:
  assumes "buf_inv b" and "has_bom bom b" and "bom \<noteq> []"
  shows "\<exists>b'. discard_bom mib (length bom) b = Some (PARSERUTILS_OK, mib, b') \<and> buf_inv b' \<and>
    buf_bytes b' = drop (length bom) (buf_bytes b)"
proof -
  have "0 < length (buf_bytes b)" "0 + length bom \<le> length (buf_bytes b)"
    using assms by (auto simp: has_bom_def simp flip: length_greater_0_conv)
  from pubuf.discard_law [OF assms(1) this] show ?thesis by (auto simp: discard_bom_def)
qed

text \<open>The outcome of stripping: no error, and a prefix of the raw bytes is gone.\<close>

definition bom_stripped ::
  "parserutils_buffer \<Rightarrow> (parserutils_error \<times> u16 \<times> parserutils_buffer) option \<Rightarrow> bool" where
  "bom_stripped b r \<longleftrightarrow> (\<exists>mib' b' k. r = Some (PARSERUTILS_OK, mib', b') \<and> buf_inv b' \<and>
     buf_bytes b' = drop k (buf_bytes b))"

lemma bom_stripped_if:
  "(c \<Longrightarrow> bom_stripped b x) \<Longrightarrow> (\<not> c \<Longrightarrow> bom_stripped b y) \<Longrightarrow> bom_stripped b (if c then x else y)"
  by simp

lemma strip_bom_ok:
  assumes "buf_inv b"
  shows "bom_stripped b (parserutils_inputstream_strip_bom env mib b)"
proof -
  have k: "bom_stripped b (Some (PARSERUTILS_OK, m, b))" for m
    using assms by (auto simp: bom_stripped_def intro: exI [of _ 0])
  have d: "has_bom bom b \<Longrightarrow> bom \<noteq> [] \<Longrightarrow> n = length bom \<Longrightarrow> bom_stripped b (discard_bom m n b)" for bom n m
    using discard_bom_ok [OF assms] by (fastforce simp: bom_stripped_def)
  show ?thesis unfolding parserutils_inputstream_strip_bom_def Let_def
    by (rule bom_stripped_if | rule k | (erule d, simp, simp))+
qed

lemma first_chunk_ok:
  assumes "is_inv s" and "ce_from_name env ''UTF-8'' \<noteq> 0"
  shows "\<exists>e s' k. refill_first_chunk env s = Some (e, s') \<and> is_inv s' \<and> is_utf8 s' = is_utf8 s \<and>
    is_cursor s' = is_cursor s \<and> is_had_eof s' = is_had_eof s \<and> buf_bytes (is_raw s') = drop k (buf_bytes (is_raw s)) \<and>
    (e = PARSERUTILS_OK \<longrightarrow> is_done_first_chunk s')"
proof (cases "is_done_first_chunk s")
  case True
  with assms(1) show ?thesis by (auto simp: refill_first_chunk_def intro: exI [of _ 0])
next
  case False
  obtain e s1 where d: "detect_charset s = (e, s1)" by fastforce
  have s1: "is_inv s1" "is_utf8 s1 = is_utf8 s" "is_cursor s1 = is_cursor s" "is_had_eof s1 = is_had_eof s"
      "is_raw s1 = is_raw s"
    using d assms(1) by (auto simp: detect_charset_def is_inv_def Let_def split: option.splits prod.splits)
  show ?thesis
  proof (cases "e = PARSERUTILS_OK")
    case False
    with \<open>\<not> is_done_first_chunk s\<close> d s1 show ?thesis by (auto simp: refill_first_chunk_def intro: exI [of _ 0])
  next
    case True
    define s2 where "s2 = (if is_mibenum s1 = 0
      then s1\<lparr>is_mibenum := ce_from_name env ''UTF-8'', is_encsrc := 0\<rparr> else s1)"
    have s2: "is_inv s2" "is_utf8 s2 = is_utf8 s" "is_cursor s2 = is_cursor s" "is_had_eof s2 = is_had_eof s"
      "is_raw s2 = is_raw s" "is_mibenum s2 \<noteq> 0"
      using s1 assms(2) by (auto simp: s2_def is_inv_def)
    have "buf_inv (is_raw s)" using assms(1) by (simp add: is_inv_def)
    from strip_bom_ok [OF this, of env "is_mibenum s2"] obtain mib raw k where
      b: "parserutils_inputstream_strip_bom env (is_mibenum s2) (is_raw s) = Some (PARSERUTILS_OK, mib, raw)"
        "buf_inv raw" "buf_bytes raw = drop k (buf_bytes (is_raw s))" by (auto simp: bom_stripped_def)
    obtain e3 f where f: "parserutils__filter_setopt env (is_input s2) (ce_to_name env mib) = (e3, f)" by fastforce
    have "refill_first_chunk env s = (if e3 \<noteq> PARSERUTILS_OK
        then Some (e3, s2\<lparr>is_mibenum := mib, is_raw := raw, is_input := f\<rparr>)
        else Some (PARSERUTILS_OK, s2\<lparr>is_mibenum := mib, is_raw := raw, is_input := f, is_done_first_chunk := True\<rparr>))"
      using False d True s2(5,6) b(1) f by (simp add: refill_first_chunk_def s2_def [symmetric] Let_def)
    then show ?thesis using s2 b(2,3) by (auto simp: is_inv_def)
  qed
qed

text \<open>With no raw bytes left the discard is refused: its offset is not inside the empty buffer.\<close>

lemma convert_empty:
  assumes "iconv_laws env" and "buf_inv (is_utf8 s)" and "b_data (is_utf8 s) = 0" and "buf_inv (is_raw s)"
    and "b_length (is_raw s) = 0" and "base \<le> b_allocated (is_utf8 s)"
  shows "\<exists>s'. refill_convert env s base = Some (PARSERUTILS_BADPARM, s')"
proof -
  let ?u = "is_utf8 s"
  have u: "length (b_alloc ?u) = b_allocated ?u" "b_allocated ?u \<le> PTRDIFF_MAX" using assms(2) by (auto simp: buf_inv_def)
  have raw: "buf_bytes (is_raw s) = []" using assms(4,5) by (simp flip: length_0_conv)
  from process_chunk_ok [OF assms(1), of "is_input s" "[]" "b_allocated ?u - base"] obtain e f out where
    p: "parserutils__filter_process_chunk env (is_input s) [] (b_allocated ?u - base) = Some (e, f, [], out)"
      "length out \<le> b_allocated ?u - base" "e \<in> {PARSERUTILS_OK, PARSERUTILS_NOMEM}" by auto
  have "size_sub (b_allocated ?u) base = b_allocated ?u - base" using u assms(6) by simp
  moreover have "mem_write (b_data ?u + base) out (b_alloc ?u) \<noteq> None"
    using p(2) u assms(3,6) by (simp add: mem_write_def)
  ultimately show ?thesis using p raw assms(5)
    by (auto simp: refill_convert_def Let_def parserutils_buffer_discard_def)
qed

definition refill_result :: "'cd inputstream \<Rightarrow> 'cd inputstream \<Rightarrow> bool" where
  "refill_result s s' \<longleftrightarrow> is_inv s' \<and> is_cursor s' = 0 \<and> is_had_eof s' = is_had_eof s \<and>
     is_done_first_chunk s' \<and>
     (\<exists>out. unread s' = unread s @ out) \<and> (\<exists>k. buf_bytes (is_raw s') = drop k (buf_bytes (is_raw s)))"

lemma refill_total:
  assumes "iconv_laws env" and "is_inv s" and "ce_from_name env ''UTF-8'' \<noteq> 0"
  shows "\<exists>e s'. parserutils_inputstream_refill_buffer h env s = Some (e, s') \<and>
    (e = PARSERUTILS_OK \<longrightarrow> refill_result s s') \<and>
    (e \<notin> {PARSERUTILS_OK, PARSERUTILS_NOMEM, PARSERUTILS_BADPARM} \<longrightarrow> is_inv s' \<and> unread s' = unread s)"
proof -
  from first_chunk_ok [OF assms(2,3)] obtain e1 s1 k where
    1: "refill_first_chunk env s = Some (e1, s1)" "is_inv s1" "is_utf8 s1 = is_utf8 s" "is_cursor s1 = is_cursor s"
      "is_had_eof s1 = is_had_eof s" "buf_bytes (is_raw s1) = drop k (buf_bytes (is_raw s))"
      "e1 = PARSERUTILS_OK \<longrightarrow> is_done_first_chunk s1" by blast
  from make_room_ok [OF 1(2), of h] obtain e2 s2 base where
    2: "refill_make_room h s1 = Some (e2, s2, base)" "e2 \<in> {PARSERUTILS_OK, PARSERUTILS_NOMEM}" "is_raw s2 = is_raw s1" "is_input s2 = is_input s1"
      "is_had_eof s2 = is_had_eof s1" "is_done_first_chunk s2 = is_done_first_chunk s1"
      "buf_inv (is_utf8 s2)" "b_data (is_utf8 s2) = 0"
      "base \<le> b_allocated (is_utf8 s2)" "take base (b_alloc (is_utf8 s2)) = unread s1" by blast
  have raw: "buf_inv (is_raw s2)" using 1(2) 2(3) by (simp add: is_inv_def)
  have un: "unread s1 = unread s" using 1(3,4) by (simp add: unread_def)
  show ?thesis
  proof (cases "e1 = PARSERUTILS_OK \<and> e2 = PARSERUTILS_OK")
    case False
    with 1(1,2) 2(1,2) un show ?thesis by (auto simp: parserutils_inputstream_refill_buffer_def)
  next
    case True
    then have eq: "parserutils_inputstream_refill_buffer h env s = refill_convert env s2 base"
      using 1(1) 2(1) by (simp add: parserutils_inputstream_refill_buffer_def)
    show ?thesis
    proof (cases "b_length (is_raw s2) = 0")
      case True
      with convert_empty [OF assms(1) 2(7,8) raw True 2(9)] eq show ?thesis by auto
    next
      case False
      then have "0 < b_length (is_raw s2)" by simp
      from convert_ok [OF assms(1) 2(7,8) raw this 2(9)] obtain s' n out where
        "refill_convert env s2 base = Some (PARSERUTILS_OK, s')" "is_inv s'" "is_cursor s' = 0"
        "unread s' = take base (b_alloc (is_utf8 s2)) @ out" "buf_bytes (is_raw s') = drop n (buf_bytes (is_raw s2))"
        "is_had_eof s' = is_had_eof s2" "is_done_first_chunk s' = is_done_first_chunk s2" by blast
      with eq 1 2 un True show ?thesis by (auto simp: refill_result_def)
    qed
  qed
qed

section \<open>Peeking\<close>

definition char_length :: "u8 \<Rightarrow> nat" where
  "char_length c = numContinuations ! unat c + 1"

lemma ascii_length: "c AND 0x80 = 0 \<longrightarrow> char_length c = 1"
  unfolding char_length_def by (rule all_u8_list) code_simp

lemma read_char_at_ok:
  assumes "buf_inv u" and "off < b_length u"
  shows "read_char_at u off = Some (Inr (off, char_length (buf_bytes u ! off)))"
proof -
  have i: "b_data u + off < length (b_alloc u)" using assms by (auto simp: buf_inv_def)
  then have "buf_bytes u ! off = b_alloc u ! (b_data u + off)" using assms by (simp add: buf_bytes_def)
  moreover have "drop (b_data u + off) (b_alloc u) = b_alloc u ! (b_data u + off) # drop (Suc (b_data u + off)) (b_alloc u)"
    using i by (rule Cons_nth_drop_Suc [symmetric])
  ultimately show ?thesis using i ascii_length [of "b_alloc u ! (b_data u + off)"]
    by (auto simp: read_char_at_def Let_def UTF8_CHAR_BYTE_LENGTH_def char_length_def)
qed

lemma unread_nth:
  assumes "is_inv s" and "is_cursor s + offset < b_length (is_utf8 s)"
  shows "buf_bytes (is_utf8 s) ! (is_cursor s + offset) = unread s ! offset"
  using assms by (simp add: unread_def is_inv_def)

lemma length_unread: "is_inv s \<Longrightarrow> length (unread s) = b_length (is_utf8 s) - is_cursor s"
  by (simp add: unread_def is_inv_def)

text \<open>What a look at the stream may return: a character of the unread text, which only grew, or an
  error. After NEEDDATA and EOF the stream is as good as before.\<close>

definition peek_result ::
  "'cd inputstream \<Rightarrow> nat \<Rightarrow> (parserutils_error + nat \<times> nat) \<Rightarrow> 'cd inputstream \<Rightarrow> bool" where
  "peek_result s offset r s' \<longleftrightarrow>
     (case r of
        Inr (pos, n) \<Rightarrow> is_inv s' \<and> (\<exists>more. unread s' = unread s @ more) \<and> offset < length (unread s') \<and>
          pos = is_cursor s' + offset \<and> n = char_length (unread s' ! offset)
      | Inl e \<Rightarrow> e = PARSERUTILS_NEEDDATA \<or> e = PARSERUTILS_EOF \<longrightarrow>
          is_inv s' \<and> (\<exists>more. unread s' = unread s @ more))"

lemma peek_slow_ok:
  assumes "iconv_laws env" and "is_inv s" and "ce_from_name env ''UTF-8'' \<noteq> 0" and "offset \<le> length (unread s)"
  shows "\<exists>r s'. parserutils_inputstream_peek_slow h env s offset = Some (r, s') \<and> peek_result s offset r s'"
proof (cases "b_length (is_raw s) = 0")
  case True
  with assms(2) show ?thesis by (auto simp: parserutils_inputstream_peek_slow_def peek_result_def)
next
  case False
  from refill_total [OF assms(1-3), of h] obtain e s1 where
    r: "parserutils_inputstream_refill_buffer h env s = Some (e, s1)"
      "e = PARSERUTILS_OK \<longrightarrow> refill_result s s1"
      "e \<notin> {PARSERUTILS_OK, PARSERUTILS_NOMEM, PARSERUTILS_BADPARM} \<longrightarrow> is_inv s1 \<and> unread s1 = unread s" by blast
  show ?thesis
  proof (cases "e = PARSERUTILS_OK")
    case e: False
    with False r show ?thesis by (auto simp: parserutils_inputstream_peek_slow_def peek_result_def)
  next
    case e: True
    with r(2) have s1: "is_inv s1" "is_cursor s1 = 0" "\<exists>out. unread s1 = unread s @ out"
      by (auto simp: refill_result_def)
    have len: "length (unread s1) = b_length (is_utf8 s1)" using length_unread [OF s1(1)] s1(2) by simp
    have le: "offset \<le> length (unread s1)" using s1(3) assms(4) by auto
    show ?thesis
    proof (cases "offset = b_length (is_utf8 s1)")
      case True
      with False r e s1 show ?thesis by (auto simp: parserutils_inputstream_peek_slow_def peek_result_def)
    next
      case off: False
      with le len have lt: "offset < b_length (is_utf8 s1)" by simp
      have "read_char_at (is_utf8 s1) (is_cursor s1 + offset) = Some (Inr (offset, char_length (unread s1 ! offset)))"
        using read_char_at_ok [OF _ lt] unread_nth [OF s1(1), of offset] s1 lt by (simp add: is_inv_def)
      with False r e s1 off lt len show ?thesis by (auto simp: parserutils_inputstream_peek_slow_def peek_result_def)
    qed
  qed
qed

section \<open>Advancing and inserting\<close>

lemma ensure_loop_data: "ensure_loop fuel h b len = Some (e, b') \<Longrightarrow> b_data b' = b_data b"
  by (induction fuel h b len rule: ensure_loop.induct)
    (auto simp: parserutils_buffer_grow_def Let_def split: if_splits)

lemma ensure_space_data: "ensure_space h b len = Some (e, b') \<Longrightarrow> b_data b = 0 \<Longrightarrow> b_data b' = 0"
  by (auto simp: ensure_space_def try_rebase_def bind_eq_Some_conv split: if_splits dest!: ensure_loop_data)

lemma buffer_insert_data:
  "parserutils_buffer_insert h b off data = Some (e, b') \<Longrightarrow> b_data b = 0 \<Longrightarrow> b_data b' = 0"
  by (auto simp: parserutils_buffer_insert_def parserutils_buffer_append_def bind_eq_Some_conv
      split: if_splits dest: ensure_space_data)

lemma inputstream_insert_ok:
  assumes "is_inv s"
  shows "\<exists>e s'. parserutils_inputstream_insert h s data = Some (e, s') \<and> is_inv s' \<and>
    (if e = PARSERUTILS_OK then unread s' = data @ unread s else e = PARSERUTILS_NOMEM \<and> unread s' = unread s)"
proof -
  have i: "buf_inv (is_utf8 s)" "is_cursor s \<le> length (buf_bytes (is_utf8 s))" "b_data (is_utf8 s) = 0"
    using assms by (simp_all add: is_inv_def)
  from pubuf.insert_law [OF i(1,2), of h data] obtain e b where
    b: "parserutils_buffer_insert h (is_utf8 s) (is_cursor s) data = Some (e, b)" "buf_inv b"
      "if e = PARSERUTILS_OK
       then buf_bytes b = take (is_cursor s) (buf_bytes (is_utf8 s)) @ data @ drop (is_cursor s) (buf_bytes (is_utf8 s))
       else e = PARSERUTILS_NOMEM \<and> buf_bytes b = buf_bytes (is_utf8 s)" by blast
  have d: "b_data b = 0" by (rule buffer_insert_data [OF b(1) i(3)])
  have c: "is_cursor s \<le> length (buf_bytes b)" using b(3) i(2) by (auto split: if_splits)
  have "is_inv (s\<lparr>is_utf8 := b\<rparr>)" using assms b(2) d c by (simp add: is_inv_def)
  moreover have "parserutils_inputstream_insert h s data = Some (e, s\<lparr>is_utf8 := b\<rparr>)"
    using b(1) by (simp add: parserutils_inputstream_insert_def)
  ultimately show ?thesis using b(3) i(2) by (auto simp: unread_def split: if_splits)
qed

lemma inputstream_advance_ok:
  assumes "is_inv s" and "b_length (is_utf8 s) < 2 ^ 32"
  shows "is_inv (parserutils_inputstream_advance s n)" and
    "unread (parserutils_inputstream_advance s n) = drop n (unread s)"
proof -
  have sub: "size_sub (b_length (is_utf8 s)) (is_cursor s) = b_length (is_utf8 s) - is_cursor s"
    using assms by (auto simp: is_inv_def)
  let ?m = "min n (b_length (is_utf8 s) - is_cursor s)"
  have lt: "is_cursor s + ?m < 2 ^ 32" "is_cursor s + ?m \<le> b_length (is_utf8 s)"
    using assms by (auto simp: is_inv_def min_def)
  have adv: "parserutils_inputstream_advance s n = s\<lparr>is_cursor := is_cursor s + ?m\<rparr>"
    using lt by (auto simp: parserutils_inputstream_advance_def Let_def sub min_def)
  show "is_inv (parserutils_inputstream_advance s n)" using assms lt unfolding adv by (simp add: is_inv_def)
  show "unread (parserutils_inputstream_advance s n) = drop n (unread s)"
    using assms(1) unfolding adv by (auto simp: unread_def min_def is_inv_def add.commute)
qed

text \<open>The view the tokenisers have of the stream: unread text that is consumed from the front and
  may be given more text in front.\<close>

locale text_source =
  fixes inv :: "'s \<Rightarrow> bool"
    and small :: "'s \<Rightarrow> bool"
    and rest :: "'s \<Rightarrow> bytes"
    and advance :: "'s \<Rightarrow> nat \<Rightarrow> 's"
    and insert :: "heap \<Rightarrow> 's \<Rightarrow> bytes \<Rightarrow> (parserutils_error \<times> 's) option"
  assumes advance_law: "inv s \<Longrightarrow> small s \<Longrightarrow>
      inv (advance s n) \<and> small (advance s n) \<and> rest (advance s n) = drop n (rest s)"
    and insert_law: "inv s \<Longrightarrow> \<exists>e s'. insert h s xs = Some (e, s') \<and> inv s' \<and>
      (if e = PARSERUTILS_OK then rest s' = xs @ rest s else e = PARSERUTILS_NOMEM \<and> rest s' = rest s)"
begin

lemma advance_advance:
  assumes "inv s" and "small s"
  shows "rest (advance (advance s m) n) = drop (m + n) (rest s)"
  using advance_law [OF assms, of m] advance_law [of "advance s m" n] by (simp add: add.commute)

lemma insert_read_back:
  assumes "inv s" and "insert h s xs = Some (PARSERUTILS_OK, s')" and "small s'"
  shows "take (length xs) (rest s') = xs \<and> rest (advance s' (length xs)) = rest s"
  using insert_law [OF assms(1), of h xs] advance_law [of s' "length xs"] assms(2,3) by auto

end

interpretation puin: text_source is_inv "\<lambda>s. b_length (is_utf8 s) < 2 ^ 32" unread
  parserutils_inputstream_advance parserutils_inputstream_insert
proof unfold_locales
  fix s :: "'cd inputstream" and n
  assume "is_inv s" "b_length (is_utf8 s) < 2 ^ 32"
  moreover have "is_utf8 (parserutils_inputstream_advance s n) = is_utf8 s"
    by (simp add: parserutils_inputstream_advance_def Let_def)
  ultimately show "is_inv (parserutils_inputstream_advance s n) \<and>
      b_length (is_utf8 (parserutils_inputstream_advance s n)) < 2 ^ 32 \<and>
      unread (parserutils_inputstream_advance s n) = drop n (unread s)"
    using inputstream_advance_ok by auto
next
  fix s :: "'cd inputstream" and h xs
  assume "is_inv s"
  then show "\<exists>e s'. parserutils_inputstream_insert h s xs = Some (e, s') \<and> is_inv s' \<and>
      (if e = PARSERUTILS_OK then unread s' = xs @ unread s else e = PARSERUTILS_NOMEM \<and> unread s' = unread s)"
    by (rule inputstream_insert_ok)
qed

section \<open>Properties\<close>

text \<open>The charset environment of the witnesses: it knows the Unicode encodings, and its converter
  passes ASCII through, reports a lead byte at the end of the input as incomplete and everything
  else as illegal.\<close>

fun ascii_run :: "bytes \<Rightarrow> nat \<Rightarrow> iconv_errno option \<times> nat \<times> bytes" where
  "ascii_run [] space = (None, 0, [])"
| "ascii_run (b # bs) space =
     (if b \<ge> 0x80 then (if bs = [] \<and> b \<ge> 0xC0 then Some EINVAL else Some EILSEQ, 0, [])
      else case space of
          0 \<Rightarrow> (Some E2BIG, 0, [])
        | Suc k \<Rightarrow> (let (e, n, out) = ascii_run bs k in (e, Suc n, b # out)))"

definition ascii_env :: "unit charset_env" where
  "ascii_env = \<lparr>
     ce_from_name = (\<lambda>name. if name = ''UTF-8'' then 106 else if name = ''UTF-16BE'' then 1013
       else if name = ''UTF-16LE'' then 1014 else if name = ''UTF-16'' then 1015
       else if name = ''UTF-32'' then 1017 else if name = ''UTF-32BE'' then 1018
       else if name = ''UTF-32LE'' then 1019 else 0),
     ce_to_name = (\<lambda>mib. if mib = 106 then Some ''UTF-8'' else None),
     ce_open = (\<lambda>_ _. Inr ()),
     ce_iconv = (\<lambda>_ data space. case ascii_run data space of (e, n, out) \<Rightarrow> (e, (), n, out))\<rparr>"

lemma ascii_run_bounds:
  "ascii_run data space = (e, n, out) \<Longrightarrow>
   n \<le> length data \<and> length out \<le> space \<and> (e = Some EILSEQ \<longrightarrow> n < length data)"
  by (induction data space arbitrary: e n out rule: ascii_run.induct)
    (auto split: if_splits nat.splits prod.splits)

lemma ascii_env_laws: "iconv_laws ascii_env" "ce_from_name ascii_env ''UTF-8'' \<noteq> 0"
  using ascii_run_bounds by (auto simp: iconv_laws_def ascii_env_def split: prod.splits)

text \<open>A stream with the given raw bytes and nothing converted yet.\<close>

definition example_stream :: "bytes \<Rightarrow> unit inputstream" where
  "example_stream raw = \<lparr>
     is_utf8 = \<lparr>b_alloc = replicate 8 0, b_data = 0, b_length = 0, b_allocated = 8\<rparr>, is_cursor = 0,
     is_had_eof = False, is_raw = \<lparr>b_alloc = raw @ [0], b_data = 0, b_length = length raw, b_allocated = length raw + 1\<rparr>,
     is_done_first_chunk = False, is_mibenum = 0, is_encsrc = 0,
     is_input = \<lparr>f_cd = Some (), f_int_enc = 106, f_encoding = 106\<rparr>, is_csdetect = None\<rparr>"

lemma example_stream_inv: "length raw < 100 \<Longrightarrow> is_inv (example_stream raw)"
  by (simp add: example_stream_def is_inv_def buf_inv_def)

text \<open>C6: Peeking reads the stream: at any offset up to the end of the unread text,
  parserutils_inputstream_peek makes no access outside its buffers whatever iconv does within its
  documented bounds; if it returns a character it is the one at that offset of the unread text, of
  which nothing was lost, with the length its first byte announces; and after NEEDDATA or EOF
  the stream is still well formed with the unread text extended at most.\<close>

theorem inputstream_peek_refines:
  assumes "iconv_laws env" and "is_inv s" and "ce_from_name env ''UTF-8'' \<noteq> 0" and "offset \<le> length (unread s)"
  shows "\<exists>r s'. parserutils_inputstream_peek h env s offset = Some (r, s') \<and> peek_result s offset r s'"
proof (cases "is_cursor s + offset < b_length (is_utf8 s)")
  case False
  with peek_slow_ok [OF assms] show ?thesis by (simp add: parserutils_inputstream_peek_def)
next
  case True
  have "read_char_at (is_utf8 s) (is_cursor s + offset) =
      Some (Inr (is_cursor s + offset, char_length (unread s ! offset)))"
    using read_char_at_ok [OF _ True] unread_nth [OF assms(2) True] assms(2) by (simp add: is_inv_def)
  with True assms(2) length_unread [OF assms(2)] show ?thesis
    by (auto simp: parserutils_inputstream_peek_def peek_result_def)
qed

theorem inputstream_peek_refines_witness:
  "\<exists>r s'. parserutils_inputstream_peek heap_all ascii_env (example_stream [0x41, 0x42]) 0 = Some (r, s') \<and>
    peek_result (example_stream [0x41, 0x42]) 0 r s'"
  by (rule inputstream_peek_refines) (simp_all add: ascii_env_laws example_stream_inv)

text \<open>Text inserted into the stream is read next and nothing after it is disturbed: after a
  successful insertion the inserted bytes come first, and once they are advanced past, the unread
  text is what it was before; advancing twice is advancing by the sum.\<close>

theorem inputstream_insert_read_back:
  assumes "is_inv s" and "parserutils_inputstream_insert h s data = Some (PARSERUTILS_OK, s')"
    and "b_length (is_utf8 s') < 2 ^ 32"
  shows "take (length data) (unread s') = data \<and>
    unread (parserutils_inputstream_advance s' (length data)) = unread s \<and>
    unread (parserutils_inputstream_advance (parserutils_inputstream_advance s' m) n) = drop (m + n) (unread s')"
proof -
  have "is_inv s'" using puin.insert_law [OF assms(1), of h data] assms(2) by auto
  with puin.insert_read_back [OF assms] puin.advance_advance [of s' m n] assms(3) show ?thesis by blast
qed

theorem inputstream_insert_read_back_witness:
  "\<exists>s'. parserutils_inputstream_insert heap_all (example_stream []) [0x41] = Some (PARSERUTILS_OK, s') \<and>
    take (length [0x41 :: u8]) (unread s') = [0x41] \<and>
    unread (parserutils_inputstream_advance s' (length [0x41 :: u8])) = unread (example_stream []) \<and>
    unread (parserutils_inputstream_advance (parserutils_inputstream_advance s' 1) 1) = drop (1 + 1) (unread s')"
proof -
  have ex: "map_option (\<lambda>(e, s'). (e, b_length (is_utf8 s')))
      (parserutils_inputstream_insert heap_all (example_stream []) [0x41]) = Some (PARSERUTILS_OK, 1)"
    using ensure_loop.simps(2) [of 63]
    by (simp add: parserutils_inputstream_insert_def parserutils_buffer_insert_def example_stream_def
        parserutils_buffer_append_def ensure_space_def try_rebase_def get_offset_def mem_copy_def mem_move_def
        mem_read_def mem_write_def)
  then obtain s' where s': "parserutils_inputstream_insert heap_all (example_stream []) [0x41] = Some (PARSERUTILS_OK, s')"
    "b_length (is_utf8 s') = 1" by auto
  from inputstream_insert_read_back [OF example_stream_inv s'(1), of 1 1] s' show ?thesis by simp
qed

text \<open>A first chunk that is exactly a byte order mark makes the stream report a bad parameter:
  stripping the mark empties the raw buffer, and discarding nothing from an empty buffer is
  refused, so the first peek fails although nothing is wrong with the input.\<close>

theorem inputstream_lone_bom_rejected:
  assumes "iconv_laws env" and "is_inv s" and "\<not> is_done_first_chunk s" and "is_csdetect s = None"
    and "buf_bytes (is_raw s) = [0xEF, 0xBB, 0xBF]" and "is_mibenum s = ce_from_name env ''UTF-8''"
    and "ce_from_name env ''UTF-8'' \<noteq> 0" and "ce_to_name env (ce_from_name env ''UTF-8'') = Some ''UTF-8''"
    and "f_encoding (is_input s) = ce_from_name env ''UTF-8''" and "is_cursor s = b_length (is_utf8 s)"
  shows "\<exists>s'. parserutils_inputstream_peek h env s 0 = Some (Inl PARSERUTILS_BADPARM, s')"
proof -
  have raw: "buf_inv (is_raw s)" using assms(2) by (simp add: is_inv_def)
  then have len: "b_length (is_raw s) = 3" using assms(5) length_buf_bytes by fastforce
  from pubuf.discard_law [OF raw, of 0 3] assms(5) obtain b where
    b: "parserutils_buffer_discard (is_raw s) 0 3 = Some (PARSERUTILS_OK, b)" "buf_inv b" "buf_bytes b = []" by auto
  have bl: "b_length b = 0" using length_buf_bytes [OF b(2)] b(3) by simp
  define s1 where "s1 = s\<lparr>is_raw := b, is_done_first_chunk := True\<rparr>"
  have strip: "parserutils_inputstream_strip_bom env (is_mibenum s) (is_raw s) = Some (PARSERUTILS_OK, is_mibenum s, b)"
    using b(1) assms(5,6) len by (simp add: parserutils_inputstream_strip_bom_def Let_def has_bom_def discard_bom_def)
  have set: "parserutils__filter_setopt env (is_input s) (ce_to_name env (is_mibenum s)) = (PARSERUTILS_OK, is_input s)"
    using assms(6-9) by (simp add: parserutils__filter_setopt_def filter_set_encoding_def Let_def)
  have fc: "refill_first_chunk env s = Some (PARSERUTILS_OK, s1)"
    using assms(3,4,6,7) strip set by (simp add: refill_first_chunk_def detect_charset_def Let_def s1_def)
  have mr: "refill_make_room h s1 = Some (PARSERUTILS_OK, s1, 0)"
    using assms(10) by (simp add: refill_make_room_def Let_def s1_def)
  have "\<exists>s'. refill_convert env s1 0 = Some (PARSERUTILS_BADPARM, s')"
    using convert_empty [OF assms(1), of s1 0] assms(2) b(2) bl by (simp add: s1_def is_inv_def)
  with fc mr len assms(10) show ?thesis
    by (auto simp: parserutils_inputstream_peek_def parserutils_inputstream_peek_slow_def
        parserutils_inputstream_refill_buffer_def)
qed

theorem inputstream_lone_bom_rejected_witness:
  "\<exists>s'. parserutils_inputstream_peek heap_all ascii_env ((example_stream [0xEF, 0xBB, 0xBF])\<lparr>is_mibenum := 106\<rparr>) 0 =
     Some (Inl PARSERUTILS_BADPARM, s')"
  by (rule inputstream_lone_bom_rejected)
    (use ascii_env_laws in \<open>simp_all add: example_stream_def is_inv_def buf_inv_def buf_bytes_def ascii_env_def\<close>)

text \<open>A document that ends inside a multi-byte sequence never reaches its end: when the input is
  complete but iconv still waits for the rest of the last sequence, peeking at the end of the text
  returns NEEDDATA, not EOF, and leaves the stream in the same situation.\<close>

theorem inputstream_truncated_no_eof:
  assumes "iconv_laws env" and "is_inv s" and "is_had_eof s" and "is_done_first_chunk s"
    and "buf_bytes (is_raw s) \<noteq> []" and "is_cursor s = b_length (is_utf8 s)"
    and "\<forall>space. call_iconv env (f_cd (is_input s)) (buf_bytes (is_raw s)) space = (Some EINVAL, f_cd (is_input s), 0, [])"
  shows "\<exists>s'. parserutils_inputstream_peek h env s 0 = Some (Inl PARSERUTILS_NEEDDATA, s') \<and> is_inv s' \<and>
    is_had_eof s' \<and> buf_bytes (is_raw s') = buf_bytes (is_raw s) \<and> is_cursor s' = b_length (is_utf8 s')"
proof -
  have i: "buf_inv (is_utf8 s)" "b_data (is_utf8 s) = 0" "buf_inv (is_raw s)" using assms(2) by (simp_all add: is_inv_def)
  have r0: "0 < b_length (is_raw s)" using length_buf_bytes [OF i(3)] assms(5) by (metis length_greater_0_conv)
  from convert_ok [OF assms(1) i r0, of 0] obtain s' n out e f where
    c: "refill_convert env s 0 = Some (PARSERUTILS_OK, s')" "is_inv s'"
      "parserutils__filter_process_chunk env (is_input s) (buf_bytes (is_raw s)) (b_allocated (is_utf8 s)) =
         Some (e, f, drop n (buf_bytes (is_raw s)), out)"
      "is_cursor s' = 0" "unread s' = out" "buf_bytes (is_raw s') = drop n (buf_bytes (is_raw s))"
      "is_had_eof s' = is_had_eof s" by auto
  have "out = []" "drop n (buf_bytes (is_raw s)) = buf_bytes (is_raw s)"
    using c(3) assms(7) by (auto simp: parserutils__filter_process_chunk_def Let_def)
  moreover have "b_length (is_utf8 s') = 0" using length_unread [OF c(2)] c(4,5) \<open>out = []\<close> by simp
  ultimately show ?thesis using c assms(3,4,6) r0
    by (auto simp: parserutils_inputstream_peek_def parserutils_inputstream_peek_slow_def refill_make_room_def
        parserutils_inputstream_refill_buffer_def refill_first_chunk_def Let_def)
qed

definition truncated_stream :: "unit inputstream" where
  "truncated_stream = (example_stream [0xC3])\<lparr>is_had_eof := True, is_done_first_chunk := True, is_mibenum := 106\<rparr>"

theorem inputstream_truncated_no_eof_witness:
  "\<exists>s'. parserutils_inputstream_peek heap_all ascii_env truncated_stream 0 = Some (Inl PARSERUTILS_NEEDDATA, s') \<and>
    is_inv s' \<and> is_had_eof s' \<and> buf_bytes (is_raw s') = buf_bytes (is_raw truncated_stream) \<and>
    is_cursor s' = b_length (is_utf8 s')"
  by (rule inputstream_truncated_no_eof)
    (use ascii_env_laws in \<open>simp_all add: truncated_stream_def example_stream_def is_inv_def buf_inv_def
      buf_bytes_def call_iconv_def ascii_env_def\<close>)

text \<open>Running out of memory while refilling loses text: the unread bytes have already been
  moved to the start of the buffer when growing it fails, but the cursor still counts from the old
  start, so as many unread bytes as had been read before are skipped.\<close>

theorem inputstream_nomem_skips_text:
  assumes "is_inv s" and "is_done_first_chunk s" and "0 < b_length (is_raw s)" and "is_cursor s < b_length (is_utf8 s)"
    and "b_allocated (is_utf8 s) div 2 < length (unread s)" and "\<not> malloc_ok h (2 * b_allocated (is_utf8 s))"
  shows "\<exists>s'. parserutils_inputstream_peek h env s (length (unread s)) = Some (Inl PARSERUTILS_NOMEM, s') \<and>
    unread s' = drop (is_cursor s) (unread s)"
proof -
  let ?u = "is_utf8 s" and ?c = "is_cursor s"
  have c: "?c \<le> b_length ?u" "b_length ?u \<le> b_allocated ?u" "length (b_alloc ?u) = b_allocated ?u"
    "b_data ?u = 0" "b_allocated ?u \<le> PTRDIFF_MAX"
    using assms(1) by (auto simp: is_inv_def buf_inv_def)
  define n where "n = b_length ?u - ?c"
  have n: "size_sub (b_length ?u) ?c = n" "length (unread s) = n" "?c + n = b_length ?u"
    using c length_unread [OF assms(1)] by (simp_all add: n_def)
  define mem where "mem = take n (drop ?c (b_alloc ?u)) @ drop n (b_alloc ?u)"
  have mv: "mem_move (b_data ?u) (b_data ?u + ?c) n (b_alloc ?u) = Some mem"
    using c by (subst mem_move_ok) (auto simp: mem_def n_def)
  define u where "u = ?u\<lparr>b_alloc := mem, b_length := n\<rparr>"
  have "buf_bytes u = unread s" using c by (simp add: u_def n_def mem_def buf_bytes_def unread_def drop_take)
  then have un: "unread (s\<lparr>is_utf8 := u\<rparr>) = drop ?c (unread s)" by (simp add: unread_def)
  have "2 * b_allocated ?u < SIZE_MODULUS" using c by simp
  then have g: "parserutils_buffer_grow h u = (PARSERUTILS_NOMEM, u)"
    using assms(6) by (simp add: parserutils_buffer_grow_def u_def Let_def mult.commute)
  have "refill_make_room h s = Some (PARSERUTILS_NOMEM, s\<lparr>is_utf8 := u\<rparr>, n)"
    using assms(4,5) n mv g by (simp add: refill_make_room_def Let_def u_def [symmetric]) (simp add: u_def)
  with assms(2,3) n(3) un show ?thesis
    by (auto simp: parserutils_inputstream_peek_def parserutils_inputstream_peek_slow_def n(2)
        parserutils_inputstream_refill_buffer_def refill_first_chunk_def)
qed

definition full_stream :: "unit inputstream" where
  "full_stream = (example_stream [0x45])\<lparr>is_done_first_chunk := True, is_mibenum := 106, is_cursor := 1,
     is_utf8 := \<lparr>b_alloc = [0x41, 0x42, 0x43, 0x44], b_data = 0, b_length = 4, b_allocated = 4\<rparr>\<rparr>"

theorem inputstream_nomem_skips_text_witness:
  "\<exists>s'. parserutils_inputstream_peek heap_none ascii_env full_stream (length (unread full_stream)) =
      Some (Inl PARSERUTILS_NOMEM, s') \<and> unread s' = drop (is_cursor full_stream) (unread full_stream)"
  by (rule inputstream_nomem_skips_text)
    (simp_all add: full_stream_def example_stream_def is_inv_def buf_inv_def buf_bytes_def unread_def
      heap_none_def malloc_ok_def)

end
