(* ===== verification/Lzw.thy ===== *)
theory Lzw
  imports Prelude
begin

text \<open>
  The LZW decompressor of the GIF decoder, \<^verbatim>\<open>libnsgif/src/lzw.c\<close>. The input is a byte string
  with a position in it; the code table is a function from indices below 4096 to entries, whose
  contents before they are written are arbitrary, as malloc leaves them. An access outside the
  input, the table, the output or the colour map is \<open>None\<close>. The 16-bit fields are numbers;
  the additions that could leave 16 bits are reduced explicitly. The loop over clear codes has as
  fuel the number of bits in the input and one more, the decode loop the size of the output;
  both are shown to be enough.

  The development shows that no input makes the decoder leave its arrays, that it always ends, and
  that it implements the textbook algorithm: the table is a dictionary of strings that grows by the
  previous string extended with the first value of the current one.
\<close>

section \<open>State\<close>

datatype lzw_result =
    LZW_OK | LZW_OK_EOD | LZW_NO_MEM | LZW_NO_DATA | LZW_EOI_CODE | LZW_NO_COLOUR | LZW_BAD_ICODE
  | LZW_BAD_PARAM | LZW_BAD_CODE

abbreviation (input) LZW_CODE_MAX :: nat where "LZW_CODE_MAX \<equiv> 12"
abbreviation (input) LZW_TABLE_ENTRY_MAX :: nat where "LZW_TABLE_ENTRY_MAX \<equiv> 4096"

record lzw_read_ctx =
  lr_data :: bytes
  lr_data_sb_next :: nat
  lr_sb_data :: nat
  lr_sb_bit :: nat
  lr_sb_bit_count :: nat

record lzw_table_entry =
  le_value :: u8
  le_first :: u8
  le_count :: nat
  le_extends :: nat

record lzw_ctx =
  lz_input :: lzw_read_ctx
  lz_prev_code :: nat
  lz_prev_code_first :: u8
  lz_prev_code_count :: nat
  lz_initial_code_size :: nat
  lz_code_size :: nat
  lz_code_max :: nat
  lz_clear_code :: nat
  lz_eoi_code :: nat
  lz_table_size :: nat
  lz_output_code :: nat
  lz_output_left :: nat
  lz_has_transparency :: bool
  lz_transparency_idx :: u8
  lz_colour_map :: "u32 list option"
  lz_table :: "nat \<Rightarrow> lzw_table_entry"

section \<open>Reading codes\<close>

definition lzw__block_advance :: "lzw_read_ctx \<Rightarrow> lzw_result \<times> lzw_read_ctx" where
  "lzw__block_advance ctx =
     (let next = lr_data_sb_next ctx in
      if next \<ge> length (lr_data ctx) then (LZW_NO_DATA, ctx)
      else (let block_size = unat (lr_data ctx ! next) in
            if next + block_size \<ge> length (lr_data ctx) then (LZW_NO_DATA, ctx)
            else (let ctx = ctx\<lparr>lr_sb_bit := 0, lr_sb_bit_count := block_size * 8\<rparr> in
                  if block_size = 0 then (LZW_OK_EOD, ctx\<lparr>lr_data_sb_next := next + 1\<rparr>)
                  else (LZW_OK, ctx\<lparr>lr_sb_data := next + 1, lr_data_sb_next := next + block_size + 1\<rparr>))))"

definition read_byte :: "lzw_read_ctx \<Rightarrow> nat \<Rightarrow> u32 option" where
  "read_byte ctx i =
     (let p = lr_sb_data ctx + i in if p < length (lr_data ctx) then Some (ucast (lr_data ctx ! p)) else None)"

text \<open>The bytes of a code that are left in this sub-block.\<close>

function lzw_sb_loop ::
  "lzw_read_ctx \<Rightarrow> u32 \<Rightarrow> nat \<Rightarrow> nat \<Rightarrow> nat list \<Rightarrow> (lzw_read_ctx \<times> u32 \<times> nat) option" where
  "lzw_sb_loop ctx code byte byte_advance bits_used =
     (if byte \<le> byte_advance \<and> lr_sb_bit ctx < lr_sb_bit_count ctx
      then (if byte \<ge> length bits_used then None
            else do {
              b \<leftarrow> read_byte ctx (lr_sb_bit ctx div 8);
              lzw_sb_loop (ctx\<lparr>lr_sb_bit := lr_sb_bit ctx + bits_used ! byte\<rparr>) (code OR push_bit (8 * byte) b)
                (byte + 1) byte_advance bits_used
            })
      else Some (ctx, code, byte))"
  by pat_completeness auto
termination
  by (relation "measure (\<lambda>(ctx, code, byte, adv, bits). length bits - byte)") auto

text \<open>The outer loop: from sub-block to sub-block. Every sub-block but the first holds a byte, and a
  code has at most three, so four rounds are enough.\<close>

fun lzw_slow_loop ::
  "nat \<Rightarrow> lzw_read_ctx \<Rightarrow> u32 \<Rightarrow> nat \<Rightarrow> nat \<Rightarrow> nat list \<Rightarrow> (lzw_result \<times> lzw_read_ctx \<times> u32) option" where
  "lzw_slow_loop 0 ctx code byte byte_advance bits_used = None"
| "lzw_slow_loop (Suc fuel) ctx code byte byte_advance bits_used = do {
     (ctx, code, byte) \<leftarrow> lzw_sb_loop ctx code byte byte_advance bits_used;
     if byte > byte_advance then Some (LZW_OK, ctx, code)
     else (case lzw__block_advance ctx of
             (LZW_OK, ctx) \<Rightarrow> lzw_slow_loop fuel ctx code byte byte_advance bits_used
           | (res, ctx) \<Rightarrow> Some (res, ctx, code))
   }"

definition lzw__read_code :: "lzw_read_ctx \<Rightarrow> nat \<Rightarrow> (lzw_result \<times> lzw_read_ctx \<times> nat) option" where
  "lzw__read_code ctx code_size =
     (let current_bit = lr_sb_bit ctx mod 8;
          finish = (\<lambda>code :: u32. unat (drop_bit current_bit code AND (push_bit code_size 1 - 1)))
      in if lr_sb_bit ctx + 24 \<le> lr_sb_bit_count ctx
         then do {
           b0 \<leftarrow> read_byte ctx (lr_sb_bit ctx div 8);
           b1 \<leftarrow> read_byte ctx (lr_sb_bit ctx div 8 + 1);
           b2 \<leftarrow> read_byte ctx (lr_sb_bit ctx div 8 + 2);
           Some (LZW_OK, ctx\<lparr>lr_sb_bit := lr_sb_bit ctx + code_size\<rparr>,
             finish (b0 OR push_bit 8 b1 OR push_bit 16 b2))
         }
         else (let byte_advance = (current_bit + code_size) div 8;
                   bits0 = (if code_size < 8 - current_bit then code_size else 8 - current_bit);
                   bits1 = code_size - bits0;
                   bits_used = [bits0, if bits1 < 8 then bits1 else 8, (bits1 + 256 - 8) mod 256]
               in if byte_advance > 2 then None
                  else map_option (\<lambda>(res, ctx, code). (res, ctx, finish code))
                         (lzw_slow_loop 4 ctx 0 0 byte_advance bits_used)))"

section \<open>The code table\<close>

definition lzw_entry :: "(nat \<Rightarrow> lzw_table_entry) \<Rightarrow> nat \<Rightarrow> lzw_table_entry option" where
  "lzw_entry table code = (if code < LZW_TABLE_ENTRY_MAX then Some (table code) else None)"

fun lzw_clear_loop :: "nat \<Rightarrow> lzw_ctx \<Rightarrow> (lzw_result \<times> lzw_ctx \<times> nat) option" where
  "lzw_clear_loop 0 ctx = None"
| "lzw_clear_loop (Suc fuel) ctx = do {
     (res, input, code) \<leftarrow> lzw__read_code (lz_input ctx) (lz_code_size ctx);
     (let ctx = ctx\<lparr>lz_input := input\<rparr> in
      if res \<noteq> LZW_OK then Some (res, ctx, code)
      else if code = lz_clear_code ctx then lzw_clear_loop fuel ctx
      else Some (LZW_OK, ctx, code))
   }"

definition lzw__handle_clear :: "lzw_ctx \<Rightarrow> (lzw_result \<times> lzw_ctx \<times> nat) option" where
  "lzw__handle_clear ctx =
     (let ctx = ctx\<lparr>lz_code_size := lz_initial_code_size ctx,
                    lz_code_max := 2 ^ lz_initial_code_size ctx - 1,
                    lz_table_size := (lz_eoi_code ctx + 1) mod 2 ^ 16\<rparr>
      in do {
        (res, ctx, code) \<leftarrow> lzw_clear_loop (8 * length (lr_data (lz_input ctx)) + 1) ctx;
        if res \<noteq> LZW_OK then Some (res, ctx, code)
        else if code > lz_clear_code ctx then Some (LZW_BAD_ICODE, ctx, code)
        else Some (LZW_OK, ctx, code)
      })"

fun lzw_init_table :: "nat list \<Rightarrow> (nat \<Rightarrow> lzw_table_entry) \<Rightarrow> (nat \<Rightarrow> lzw_table_entry)" where
  "lzw_init_table [] table = table"
| "lzw_init_table (i # is) table =
     lzw_init_table is (table(i := (table i)\<lparr>le_first := of_nat i, le_value := of_nat i, le_count := 1\<rparr>))"

definition lzw_decode_init ::
  "lzw_ctx \<Rightarrow> nat \<Rightarrow> bytes \<Rightarrow> nat \<Rightarrow> (lzw_result \<times> lzw_ctx) option" where
  "lzw_decode_init ctx minimum_code_size input_data input_pos =
     (if minimum_code_size \<ge> LZW_CODE_MAX then Some (LZW_BAD_ICODE, ctx)
      else (let clear = 2 ^ minimum_code_size;
                ctx = ctx\<lparr>lz_input := (lz_input ctx)\<lparr>lr_data := input_data, lr_data_sb_next := input_pos,
                            lr_sb_bit := 0, lr_sb_bit_count := 0\<rparr>,
                          lz_initial_code_size := minimum_code_size + 1,
                          lz_clear_code := clear, lz_eoi_code := clear + 1, lz_output_left := 0,
                          lz_table := lzw_init_table [0..<clear] (lz_table ctx)\<rparr>
            in do {
              (res, ctx, code) \<leftarrow> lzw__handle_clear ctx;
              if res \<noteq> LZW_OK then Some (res, ctx)
              else do {
                entry \<leftarrow> lzw_entry (lz_table ctx) code;
                Some (LZW_OK, ctx\<lparr>lz_prev_code_first := le_first entry, lz_prev_code_count := le_count entry,
                  lz_prev_code := code, lz_output_code := code, lz_output_left := 1,
                  lz_has_transparency := False, lz_transparency_idx := 0, lz_colour_map := None\<rparr>)
              }
            }))"

definition lzw_decode_init_map ::
  "lzw_ctx \<Rightarrow> nat \<Rightarrow> u32 \<Rightarrow> u32 list option \<Rightarrow> bytes \<Rightarrow> nat \<Rightarrow> (lzw_result \<times> lzw_ctx) option" where
  "lzw_decode_init_map ctx minimum_code_size transparency_idx colour_table input_data input_pos =
     (if colour_table = None then Some (LZW_BAD_PARAM, ctx)
      else do {
        (res, ctx) \<leftarrow> lzw_decode_init ctx minimum_code_size input_data input_pos;
        if res \<noteq> LZW_OK then Some (res, ctx)
        else Some (LZW_OK, ctx\<lparr>lz_has_transparency := (transparency_idx \<le> 0xFF),
               lz_transparency_idx := ucast transparency_idx, lz_colour_map := colour_table\<rparr>)
      })"

definition lzw__table_add_entry :: "lzw_ctx \<Rightarrow> u8 \<Rightarrow> lzw_ctx option" where
  "lzw__table_add_entry ctx code =
     (let i = lz_table_size ctx in
      if i \<ge> LZW_TABLE_ENTRY_MAX then None
      else Some (ctx\<lparr>lz_table := (lz_table ctx)(i := \<lparr>le_value = code, le_first = lz_prev_code_first ctx,
                       le_count = (lz_prev_code_count ctx + 1) mod 2 ^ 16, le_extends = lz_prev_code ctx\<rparr>),
                     lz_table_size := (i + 1) mod 2 ^ 16\<rparr>))"

section \<open>Writing the values of a code\<close>

fun lzw_skip :: "(nat \<Rightarrow> lzw_table_entry) \<Rightarrow> nat \<Rightarrow> nat \<Rightarrow> nat option" where
  "lzw_skip table 0 code = Some code"
| "lzw_skip table (Suc n) code = do { e \<leftarrow> lzw_entry table code; lzw_skip table n (le_extends e) }"

text \<open>The output loop writes from the end to the front; the accumulator is what is written so far.\<close>

fun lzw_collect :: "(nat \<Rightarrow> lzw_table_entry) \<Rightarrow> nat \<Rightarrow> nat \<Rightarrow> u8 list \<Rightarrow> u8 list option" where
  "lzw_collect table 0 code acc = Some acc"
| "lzw_collect table (Suc n) code acc = do {
     e \<leftarrow> lzw_entry table code;
     lzw_collect table n (le_extends e) (le_value e # acc)
   }"

text \<open>What both writers share: how much fits, the values to write, the rest remembered.\<close>

definition lzw_values :: "lzw_ctx \<Rightarrow> nat \<Rightarrow> nat \<Rightarrow> nat \<Rightarrow> (lzw_ctx \<times> u8 list) option" where
  "lzw_values ctx space code left =
     (let count = (if left > space then space else left);
          left = (if left > space then left - space else 0);
          ctx = ctx\<lparr>lz_output_code := code, lz_output_left := left\<rparr>
      in do {
        code \<leftarrow> lzw_skip (lz_table ctx) left code;
        vals \<leftarrow> lzw_collect (lz_table ctx) count code [];
        Some (ctx, vals)
      })"

definition lzw__write_fn :: "lzw_ctx \<Rightarrow> u8 list \<Rightarrow> nat \<Rightarrow> nat \<Rightarrow> nat \<Rightarrow> (lzw_ctx \<times> u8 list \<times> nat) option" where
  "lzw__write_fn ctx outbuf used code left = do {
     (ctx, vals) \<leftarrow> lzw_values ctx (length outbuf - used) code left;
     outbuf \<leftarrow> mem_write used vals outbuf;
     Some (ctx, outbuf, length vals)
   }"

definition lzw_pixel :: "lzw_ctx \<Rightarrow> u32 \<Rightarrow> u8 \<Rightarrow> u32 option" where
  "lzw_pixel ctx old v =
     (if lz_has_transparency ctx \<and> v = lz_transparency_idx ctx then Some old
      else do {
        colours \<leftarrow> lz_colour_map ctx;
        if unat v < length colours then Some (colours ! unat v) else None
      })"

definition lzw__map_write_fn ::
  "lzw_ctx \<Rightarrow> u32 list \<Rightarrow> nat \<Rightarrow> nat \<Rightarrow> nat \<Rightarrow> (lzw_ctx \<times> u32 list \<times> nat) option" where
  "lzw__map_write_fn ctx outbuf used code left = do {
     (ctx, vals) \<leftarrow> lzw_values ctx (length outbuf - used) code left;
     olds \<leftarrow> mem_read used (length vals) outbuf;
     pixels \<leftarrow> those (map2 (lzw_pixel ctx) olds vals);
     outbuf \<leftarrow> mem_write used pixels outbuf;
     Some (ctx, outbuf, length vals)
   }"

section \<open>Decoding\<close>

definition lzw_grow :: "lzw_ctx \<Rightarrow> nat \<Rightarrow> lzw_ctx option" where
  "lzw_grow ctx code =
     (let size = lz_table_size ctx in do {
        first \<leftarrow> (if code < size then map_option le_first (lzw_entry (lz_table ctx) code)
                   else Some (lz_prev_code_first ctx));
        ctx \<leftarrow> lzw__table_add_entry ctx first;
        Some (if size = lz_code_max ctx \<and> lz_code_size ctx < LZW_CODE_MAX
              then ctx\<lparr>lz_code_size := lz_code_size ctx + 1, lz_code_max := 2 ^ (lz_code_size ctx + 1) - 1\<rparr>
              else ctx)
      })"

text \<open>What a new code does to the table; a clear code is replaced by the code after it.\<close>

definition lzw_update_table :: "lzw_ctx \<Rightarrow> nat \<Rightarrow> (lzw_result \<times> lzw_ctx \<times> nat) option" where
  "lzw_update_table ctx code =
     (if code = lz_clear_code ctx then lzw__handle_clear ctx
      else if lz_table_size ctx < LZW_TABLE_ENTRY_MAX
      then map_option (\<lambda>ctx. (LZW_OK, ctx, code)) (lzw_grow ctx code)
      else Some (LZW_OK, ctx, code))"

definition lzw__decode ::
  "(lzw_ctx \<Rightarrow> 'o list \<Rightarrow> nat \<Rightarrow> nat \<Rightarrow> nat \<Rightarrow> (lzw_ctx \<times> 'o list \<times> nat) option) \<Rightarrow>
   lzw_ctx \<Rightarrow> 'o list \<Rightarrow> nat \<Rightarrow> (lzw_result \<times> lzw_ctx \<times> 'o list \<times> nat) option" where
  "lzw__decode write_fn ctx outbuf written = do {
     (res, input, code) \<leftarrow> lzw__read_code (lz_input ctx) (lz_code_size ctx);
     (let ctx = ctx\<lparr>lz_input := input\<rparr> in
      if res \<noteq> LZW_OK then Some (res, ctx, outbuf, written)
      else if code = lz_eoi_code ctx then Some (LZW_EOI_CODE, ctx, outbuf, written)
      else if code > lz_table_size ctx then Some (LZW_BAD_CODE, ctx, outbuf, written)
      else do {
        (res, ctx, code) \<leftarrow> lzw_update_table ctx code;
        if res \<noteq> LZW_OK then Some (res, ctx, outbuf, written)
        else do {
          entry \<leftarrow> lzw_entry (lz_table ctx) code;
          (ctx, outbuf, n) \<leftarrow> write_fn ctx outbuf written code (le_count entry);
          Some (LZW_OK, ctx\<lparr>lz_prev_code_first := le_first entry, lz_prev_code_count := le_count entry,
                  lz_prev_code := code\<rparr>, outbuf, written + n)
        }
      })
   }"

fun lzw_decode_loop ::
  "nat \<Rightarrow> (lzw_ctx \<Rightarrow> 'o list \<Rightarrow> nat \<Rightarrow> nat \<Rightarrow> nat \<Rightarrow> (lzw_ctx \<times> 'o list \<times> nat) option) \<Rightarrow>
   lzw_ctx \<Rightarrow> 'o list \<Rightarrow> nat \<Rightarrow> (lzw_result \<times> lzw_ctx \<times> 'o list \<times> nat) option" where
  "lzw_decode_loop fuel write_fn ctx outbuf written =
     (if written = length outbuf then Some (LZW_OK, ctx, outbuf, written)
      else (case fuel of
              0 \<Rightarrow> None
            | Suc fuel \<Rightarrow> do {
                (res, ctx, outbuf, written) \<leftarrow> lzw__decode write_fn ctx outbuf written;
                if res \<noteq> LZW_OK then Some (res, ctx, outbuf, written)
                else lzw_decode_loop fuel write_fn ctx outbuf written
              }))"

definition lzw_decode_with ::
  "(lzw_ctx \<Rightarrow> 'o list \<Rightarrow> nat \<Rightarrow> nat \<Rightarrow> nat \<Rightarrow> (lzw_ctx \<times> 'o list \<times> nat) option) \<Rightarrow>
   lzw_ctx \<Rightarrow> 'o list \<Rightarrow> (lzw_result \<times> lzw_ctx \<times> 'o list \<times> nat) option" where
  "lzw_decode_with write_fn ctx outbuf = do {
     (ctx, outbuf, written) \<leftarrow>
       (if lz_output_left ctx \<noteq> 0 then write_fn ctx outbuf 0 (lz_output_code ctx) (lz_output_left ctx)
        else Some (ctx, outbuf, 0));
     lzw_decode_loop (length outbuf) write_fn ctx outbuf written
   }"

text \<open>\<open>stack_base\<close> is the context's outbuf array of 4096 bytes.\<close>

definition lzw_decode :: "lzw_ctx \<Rightarrow> u8 list \<Rightarrow> (lzw_result \<times> lzw_ctx \<times> u8 list \<times> nat) option" where
  "lzw_decode ctx stack_base = lzw_decode_with lzw__write_fn ctx stack_base"

definition lzw_decode_map :: "lzw_ctx \<Rightarrow> u32 list \<Rightarrow> (lzw_result \<times> lzw_ctx \<times> u32 list \<times> nat) option" where
  "lzw_decode_map ctx outbuf =
     (if lz_colour_map ctx = None then Some (LZW_NO_COLOUR, ctx, outbuf, 0)
      else lzw_decode_with lzw__map_write_fn ctx outbuf)"

section \<open>Reading codes is safe\<close>

text \<open>The current sub-block lies in the input, and the bit position in the sub-block.\<close>

definition lzw_read_inv :: "lzw_read_ctx \<Rightarrow> bool" where
  "lzw_read_inv ctx \<longleftrightarrow> lr_sb_bit ctx \<le> lr_sb_bit_count ctx \<and> lr_sb_bit_count ctx mod 8 = 0 \<and>
     (0 < lr_sb_bit_count ctx \<longrightarrow> lr_sb_data ctx + lr_sb_bit_count ctx div 8 \<le> lr_data_sb_next ctx \<and>
        lr_data_sb_next ctx \<le> length (lr_data ctx))"

text \<open>The bits not read yet, those of later sub-blocks counted generously.\<close>

definition lzw_bits_left :: "lzw_read_ctx \<Rightarrow> nat" where
  "lzw_bits_left ctx = (lr_sb_bit_count ctx - lr_sb_bit ctx) + 8 * (length (lr_data ctx) - lr_data_sb_next ctx)"

lemma block_advance_ok:
  assumes "lzw__block_advance ctx = (res, ctx')" and "lzw_read_inv ctx"
  shows "lzw_read_inv ctx'" and "lr_data ctx' = lr_data ctx"
    and "res = LZW_OK \<Longrightarrow> lr_sb_bit ctx' = 0 \<and> 8 \<le> lr_sb_bit_count ctx' \<and> lzw_bits_left ctx' < lzw_bits_left ctx"
  using assms
  by (auto simp: lzw__block_advance_def Let_def lzw_read_inv_def lzw_bits_left_def split: if_splits)

lemma read_byte_ok:
  assumes "lzw_read_inv ctx" and "8 * i < lr_sb_bit_count ctx"
  shows "\<exists>b. read_byte ctx i = Some b"
proof -
  have "i < lr_sb_bit_count ctx div 8" using assms by (auto simp: lzw_read_inv_def)
  then show ?thesis using assms by (auto simp: read_byte_def Let_def lzw_read_inv_def)
qed

declare lzw_sb_loop.simps [simp del] lzw_decode_loop.simps [simp del]

text \<open>How the bits of a code spread over its bytes: every byte but the last is used to its end, so
  that the bit position is a byte boundary from the second byte on.\<close>

definition bits_spread :: "nat \<Rightarrow> nat \<Rightarrow> nat list \<Rightarrow> bool" where
  "bits_spread cb adv bits \<longleftrightarrow> adv < length bits \<and> 0 < bits ! 0 \<and> cb < 8 \<and>
     (\<forall>k \<le> adv. (if k = 0 then cb else 0) + bits ! k \<le> 8 \<and> (k < adv \<longrightarrow> (if k = 0 then cb else 0) + bits ! k = 8))"

definition bit_aligned :: "nat \<Rightarrow> nat \<Rightarrow> lzw_read_ctx \<Rightarrow> bool" where
  "bit_aligned cb byte ctx \<longleftrightarrow> lr_sb_bit ctx mod 8 = (if byte = 0 then cb else 0)"

lemma add_within_byte:
  assumes "(a::nat) < n" and "n mod 8 = 0" and "a mod 8 + b \<le> 8"
  shows "a + b \<le> n"
proof -
  have "a div 8 < n div 8" using assms(1,2) by (metis less_mult_imp_div_less mod_0_imp_dvd dvd_div_mult_self)
  moreover have "a = 8 * (a div 8) + a mod 8" "n = 8 * (n div 8)"
    using assms(2) mult_div_mod_eq [of 8 n] mult_div_mod_eq [of 8 a] by simp_all
  ultimately show ?thesis using assms(3) by linarith
qed

lemma next_byte: "(a::nat) mod 8 + b = 8 \<Longrightarrow> (a + b) mod 8 = 0"
  by (metis mod_add_left_eq mod_self)

lemma sb_loop_ok:
  assumes "bits_spread cb adv bits" and "lzw_read_inv ctx"
    and "byte \<le> adv \<longrightarrow> bit_aligned cb byte ctx \<or> lr_sb_bit ctx = lr_sb_bit_count ctx" and "byte \<le> adv + 1"
  shows "\<exists>ctx' code' byte'. lzw_sb_loop ctx code byte adv bits = Some (ctx', code', byte') \<and> lzw_read_inv ctx' \<and>
    lr_data ctx' = lr_data ctx \<and> byte \<le> byte' \<and> byte' \<le> adv + 1 \<and> lzw_bits_left ctx' \<le> lzw_bits_left ctx \<and>
    (byte' \<le> adv \<longrightarrow> lr_sb_bit ctx' = lr_sb_bit_count ctx') \<and>
    (byte \<le> adv \<and> lr_sb_bit ctx < lr_sb_bit_count ctx \<longrightarrow>
       byte < byte' \<and> (byte = 0 \<longrightarrow> lzw_bits_left ctx' < lzw_bits_left ctx))"
  using assms(2-4)
proof (induction "adv + 1 - byte" arbitrary: ctx code byte rule: less_induct)
  case less
  show ?case
  proof (cases "byte \<le> adv \<and> lr_sb_bit ctx < lr_sb_bit_count ctx")
    case False
    with less.prems show ?thesis
      by (subst lzw_sb_loop.simps) (auto simp: lzw_read_inv_def)
  next
    case True
    have al: "bit_aligned cb byte ctx" using less.prems(2) True by auto
    have bits: "byte < length bits" "(if byte = 0 then cb else 0) + bits ! byte \<le> 8"
      "byte < adv \<longrightarrow> (if byte = 0 then cb else 0) + bits ! byte = 8" "byte = 0 \<longrightarrow> 0 < bits ! byte"
      using assms(1) True by (auto simp: bits_spread_def)
    have m: "lr_sb_bit ctx mod 8 + bits ! byte \<le> 8" using al bits(2) by (simp add: bit_aligned_def)
    have "8 * (lr_sb_bit ctx div 8) < lr_sb_bit_count ctx" using True by linarith
    then obtain b where b: "read_byte ctx (lr_sb_bit ctx div 8) = Some b"
      using read_byte_ok [OF less.prems(1)] by blast
    define c1 where "c1 = ctx\<lparr>lr_sb_bit := lr_sb_bit ctx + bits ! byte\<rparr>"
    have le: "lr_sb_bit ctx + bits ! byte \<le> lr_sb_bit_count ctx"
    proof (rule add_within_byte [OF _ _ m])
      show "lr_sb_bit ctx < lr_sb_bit_count ctx" using True by simp
      show "lr_sb_bit_count ctx mod 8 = 0" using less.prems(1) by (simp add: lzw_read_inv_def)
    qed
    then have c1: "lzw_read_inv c1" "lr_data c1 = lr_data ctx" "lr_sb_bit_count c1 = lr_sb_bit_count ctx"
      using less.prems(1) by (simp_all add: lzw_read_inv_def c1_def)
    have "byte + 1 \<le> adv \<longrightarrow> bit_aligned cb (byte + 1) c1"
    proof
      assume "byte + 1 \<le> adv"
      then have "lr_sb_bit ctx mod 8 + bits ! byte = 8" using al bits(3) by (simp add: bit_aligned_def)
      then have "(lr_sb_bit ctx + bits ! byte) mod 8 = 0" by (rule next_byte)
      then show "bit_aligned cb (byte + 1) c1" by (simp add: bit_aligned_def c1_def)
    qed
    moreover have dec: "adv + 1 - (byte + 1) < adv + 1 - byte" using True by (simp add: Suc_diff_le)
    ultimately obtain ctx' code' byte' where
      r: "lzw_sb_loop c1 (code OR push_bit (8 * byte) b) (byte + 1) adv bits = Some (ctx', code', byte')"
        "lzw_read_inv ctx'" "lr_data ctx' = lr_data c1" "byte + 1 \<le> byte'" "byte' \<le> adv + 1"
        "lzw_bits_left ctx' \<le> lzw_bits_left c1" "byte' \<le> adv \<longrightarrow> lr_sb_bit ctx' = lr_sb_bit_count ctx'"
      using less.hyps [OF dec c1(1), of "code OR push_bit (8 * byte) b"] True by auto
    have eq: "lzw_sb_loop ctx code byte adv bits = Some (ctx', code', byte')"
      using True bits(1) b r(1) by (subst lzw_sb_loop.simps) (simp add: c1_def)
    have "lzw_bits_left c1 \<le> lzw_bits_left ctx" "byte = 0 \<longrightarrow> lzw_bits_left c1 < lzw_bits_left ctx"
      using le bits(4) by (auto simp: lzw_bits_left_def c1_def)
    with eq r c1(2) show ?thesis by auto
  qed
qed

lemma slow_loop_ok:
  assumes "bits_spread cb adv bits" and "lzw_read_inv ctx"
    and "bit_aligned cb byte ctx \<or> lr_sb_bit ctx = lr_sb_bit_count ctx" and "byte \<le> adv"
    and "byte = 0 \<longrightarrow> cb = 0 \<or> lr_sb_bit ctx < lr_sb_bit_count ctx"
    and "adv + 1 - byte + (if lr_sb_bit ctx < lr_sb_bit_count ctx then 0 else 1) \<le> fuel"
  shows "\<exists>res ctx' code'. lzw_slow_loop fuel ctx code byte adv bits = Some (res, ctx', code') \<and> lzw_read_inv ctx' \<and>
    lr_data ctx' = lr_data ctx \<and>
    (res = LZW_OK \<longrightarrow> lzw_bits_left ctx' \<le> lzw_bits_left ctx \<and> (byte = 0 \<longrightarrow> lzw_bits_left ctx' < lzw_bits_left ctx))"
  using assms(2-6)
proof (induction fuel arbitrary: ctx code byte)
  case 0
  then show ?case by (auto split: if_splits)
next
  case (Suc fuel)
  from sb_loop_ok [OF assms(1) Suc.prems(1), of byte code] Suc.prems(2,3) obtain c1 code1 byte1 where
    s: "lzw_sb_loop ctx code byte adv bits = Some (c1, code1, byte1)" "lzw_read_inv c1" "lr_data c1 = lr_data ctx"
      "byte \<le> byte1" "byte1 \<le> adv + 1" "lzw_bits_left c1 \<le> lzw_bits_left ctx"
      "byte1 \<le> adv \<longrightarrow> lr_sb_bit c1 = lr_sb_bit_count c1"
      "lr_sb_bit ctx < lr_sb_bit_count ctx \<longrightarrow> byte < byte1 \<and> (byte = 0 \<longrightarrow> lzw_bits_left c1 < lzw_bits_left ctx)"
    by auto
  have idle: "\<not> lr_sb_bit ctx < lr_sb_bit_count ctx \<Longrightarrow> byte1 = byte \<and> c1 = ctx"
    using s(1) by (subst (asm) lzw_sb_loop.simps) auto
  show ?case
  proof (cases "byte1 > adv")
    case True
    then have "lr_sb_bit ctx < lr_sb_bit_count ctx" using idle Suc.prems(3) by auto
    with True s show ?thesis by auto
  next
    case False
    obtain res c2 where a: "lzw__block_advance c1 = (res, c2)" by fastforce
    note ad = block_advance_ok [OF a s(2)]
    show ?thesis
    proof (cases "res = LZW_OK")
      case e: False
      have "lzw_slow_loop (Suc fuel) ctx code byte adv bits = Some (res, c2, code1)"
        using s(1) False a e by (cases res) simp_all
      with ad s(3) e show ?thesis by auto
    next
      case True
      note ad3 = ad(3) [OF True]
      have z: "byte1 = 0 \<longrightarrow> cb = 0" using idle Suc.prems(4) s(8) by (cases "byte = 0") auto
      have "adv + 1 - byte1 \<le> fuel"
        using Suc.prems(3,5) s(4,8) False idle by (cases "lr_sb_bit ctx < lr_sb_bit_count ctx") auto
      moreover have "bit_aligned cb byte1 c2" using ad3 z by (simp add: bit_aligned_def)
      ultimately obtain res' c3 code3 where
        r: "lzw_slow_loop fuel c2 code1 byte1 adv bits = Some (res', c3, code3)" "lzw_read_inv c3"
          "lr_data c3 = lr_data c2" "res' = LZW_OK \<longrightarrow> lzw_bits_left c3 \<le> lzw_bits_left c2"
        using Suc.IH [OF ad(1), of byte1 code1] False z ad3 by auto
      have "lzw_slow_loop (Suc fuel) ctx code byte adv bits = Some (res', c3, code3)"
        using s(1) False a True r(1) by simp
      with r ad s(3,6) ad3 show ?thesis by auto
    qed
  qed
qed

lemma code_spread:
  fixes cb code_size :: nat
  assumes "cb < 8" and "0 < code_size" and "code_size \<le> 12"
  shows "bits_spread cb ((cb + code_size) div 8)
    [if code_size < 8 - cb then code_size else 8 - cb,
     if code_size - (if code_size < 8 - cb then code_size else 8 - cb) < 8
     then code_size - (if code_size < 8 - cb then code_size else 8 - cb) else 8,
     (code_size - (if code_size < 8 - cb then code_size else 8 - cb) + 256 - 8) mod 256]"
proof (cases "cb + code_size < 8")
  case True
  then have "(cb + code_size) div 8 = 0" by simp
  with assms True show ?thesis by (simp add: bits_spread_def)
next
  case False
  show ?thesis
  proof (cases "cb + code_size < 16")
    case True
    with False have "(cb + code_size) div 8 = 1" by simp
    with assms True False show ?thesis by (auto simp: bits_spread_def le_Suc_eq)
  next
    case ge: False
    have "(cb + code_size) div 8 = 2" using assms ge by simp
    moreover have "(240 + (code_size + cb)) mod 256 = code_size + cb - 16"
      using assms ge by (simp add: le_mod_geq)
    ultimately show ?thesis using assms ge by (auto simp: bits_spread_def le_Suc_eq numeral_2_eq_2)
  qed
qed

lemma read_code_ok:
  assumes "lzw_read_inv ctx" and "0 < code_size" and "code_size \<le> 12"
  shows "\<exists>res ctx' code. lzw__read_code ctx code_size = Some (res, ctx', code) \<and> lzw_read_inv ctx' \<and>
    lr_data ctx' = lr_data ctx \<and> code < 2 ^ code_size \<and>
    (res = LZW_OK \<longrightarrow> lzw_bits_left ctx' < lzw_bits_left ctx)"
proof -
  define cb where "cb = lr_sb_bit ctx mod 8"
  have cb: "cb < 8" by (simp add: cb_def)
  have fin: "unat (drop_bit cb code AND (push_bit code_size 1 - 1) :: u32) < 2 ^ code_size" for code
  proof -
    have "push_bit code_size 1 - 1 = (mask code_size :: u32)" by (simp add: mask_eq_exp_minus_1 push_bit_eq_mult)
    moreover have "unat (x AND mask code_size :: u32) < 2 ^ code_size" for x
      using assms(3) by (simp flip: take_bit_eq_mask add: unsigned_take_bit_eq)
    ultimately show ?thesis by metis
  qed
  show ?thesis
  proof (cases "lr_sb_bit ctx + 24 \<le> lr_sb_bit_count ctx")
    case True
    have "8 * (lr_sb_bit ctx div 8) + 16 < lr_sb_bit_count ctx" using True by linarith
    then obtain b0 b1 b2 where "read_byte ctx (lr_sb_bit ctx div 8) = Some b0"
      "read_byte ctx (lr_sb_bit ctx div 8 + 1) = Some b1" "read_byte ctx (lr_sb_bit ctx div 8 + 2) = Some b2"
      using read_byte_ok [OF assms(1), of "lr_sb_bit ctx div 8"] read_byte_ok [OF assms(1), of "lr_sb_bit ctx div 8 + 1"]
        read_byte_ok [OF assms(1), of "lr_sb_bit ctx div 8 + 2"] by auto
    with True have "lzw__read_code ctx code_size = Some (LZW_OK, ctx\<lparr>lr_sb_bit := lr_sb_bit ctx + code_size\<rparr>,
        unat (drop_bit cb (b0 OR push_bit 8 b1 OR push_bit 16 b2) AND (push_bit code_size 1 - 1)))"
      by (simp add: lzw__read_code_def Let_def cb_def)
    moreover have "lzw_read_inv (ctx\<lparr>lr_sb_bit := lr_sb_bit ctx + code_size\<rparr>)"
      "lzw_bits_left (ctx\<lparr>lr_sb_bit := lr_sb_bit ctx + code_size\<rparr>) < lzw_bits_left ctx"
      using True assms by (auto simp: lzw_read_inv_def lzw_bits_left_def)
    moreover have "lr_data (ctx\<lparr>lr_sb_bit := lr_sb_bit ctx + code_size\<rparr>) = lr_data ctx" by simp
    ultimately show ?thesis using fin by blast
  next
    case False
    define adv where "adv = (cb + code_size) div 8"
    define bits0 where "bits0 = (if code_size < 8 - cb then code_size else 8 - cb)"
    define bits1 where "bits1 = code_size - bits0"
    define bits where "bits = [bits0, if bits1 < 8 then bits1 else 8, (bits1 + 256 - 8) mod 256]"
    have adv: "adv \<le> 2" using cb assms(3) by (auto simp: adv_def)
    have "bits_spread cb adv bits" 
      unfolding adv_def bits_def bits1_def bits0_def by (rule code_spread [OF cb assms(2,3)])
    moreover have "bit_aligned cb 0 ctx" by (simp add: bit_aligned_def cb_def)
    moreover have "cb = 0 \<or> lr_sb_bit ctx < lr_sb_bit_count ctx"
      using assms(1) by (auto simp: lzw_read_inv_def cb_def le_less)
    moreover have four: "adv + (if lr_sb_bit ctx < lr_sb_bit_count ctx then 0 else 1) \<le> 3" using adv by simp
    ultimately obtain res ctx' code' where
      r: "lzw_slow_loop 4 ctx 0 0 adv bits = Some (res, ctx', code')" "lzw_read_inv ctx'" "lr_data ctx' = lr_data ctx"
        "res = LZW_OK \<longrightarrow> lzw_bits_left ctx' < lzw_bits_left ctx"
      using slow_loop_ok [of cb adv bits ctx 0 4 0] assms(1) adv four by auto
    have "lzw__read_code ctx code_size = Some (res, ctx', unat (drop_bit cb code' AND (push_bit code_size 1 - 1)))"
      unfolding lzw__read_code_def Let_def cb_def [symmetric] adv_def [symmetric] bits0_def [symmetric]
        bits1_def [symmetric] bits_def [symmetric]
      using False r(1) adv by simp
    with r fin show ?thesis by blast
  qed
qed

section \<open>The table as a dictionary of strings\<close>

function lzw_string :: "(nat \<Rightarrow> lzw_table_entry) \<Rightarrow> nat \<Rightarrow> nat \<Rightarrow> u8 list" where
  "lzw_string table clear code =
     (if code < clear \<or> code \<le> le_extends (table code) then [le_value (table code)]
      else lzw_string table clear (le_extends (table code)) @ [le_value (table code)])"
  by pat_completeness auto
termination
  by (relation "measure (\<lambda>(table, clear, code). code)") auto

declare lzw_string.simps [simp del]

lemma lzw_string_nonempty [simp]: "lzw_string table clear code \<noteq> []"
  by (subst lzw_string.simps) simp

lemma lzw_string_length: "length (lzw_string table clear code) \<le> code + 1"
proof (induction code rule: less_induct)
  case (less code)
  show ?case
  proof (cases "code < clear \<or> code \<le> le_extends (table code)")
    case True
    then show ?thesis by (subst lzw_string.simps) simp
  next
    case False
    then have "length (lzw_string table clear (le_extends (table code))) \<le> le_extends (table code) + 1"
      by (intro less) simp
    with False show ?thesis by (subst lzw_string.simps) simp
  qed
qed

lemma lzw_string_upd: "code < i \<Longrightarrow> lzw_string (table(i := e)) clear code = lzw_string table clear code"
proof (induction code rule: less_induct)
  case (less code)
  have same: "(table(i := e)) code = table code" using less.prems by simp
  have "lzw_string (table(i := e)) clear (le_extends (table code)) = lzw_string table clear (le_extends (table code))"
    if "le_extends (table code) < code" using that less.prems by (intro less.IH) auto
  then show ?case unfolding lzw_string.simps [of "table(i := e)" clear code] lzw_string.simps [of table clear code] same
    by (simp del: fun_upd_apply)
qed

text \<open>The codes that stand for strings.\<close>

definition lzw_code_ok :: "lzw_ctx \<Rightarrow> nat \<Rightarrow> bool" where
  "lzw_code_ok ctx code \<longleftrightarrow> code < lz_table_size ctx \<and> code \<noteq> lz_clear_code ctx \<and> code \<noteq> lz_eoi_code ctx"

definition lzw_str :: "lzw_ctx \<Rightarrow> nat \<Rightarrow> u8 list" where
  "lzw_str ctx code = lzw_string (lz_table ctx) (lz_clear_code ctx) code"

lemma lzw_str_nonempty [simp]: "lzw_str ctx code \<noteq> []"
  by (simp add: lzw_str_def)

definition lzw_entry_ok :: "lzw_ctx \<Rightarrow> nat \<Rightarrow> bool" where
  "lzw_entry_ok ctx i \<longleftrightarrow> le_first (lz_table ctx i) = hd (lzw_str ctx i) \<and>
     le_count (lz_table ctx i) = length (lzw_str ctx i) \<and>
     (i < lz_clear_code ctx \<longrightarrow> le_value (lz_table ctx i) = of_nat i) \<and>
     (\<not> i < lz_clear_code ctx \<longrightarrow> le_extends (lz_table ctx i) < i \<and> lzw_code_ok ctx (le_extends (lz_table ctx i)))"

definition lzw_table_inv :: "lzw_ctx \<Rightarrow> bool" where
  "lzw_table_inv ctx \<longleftrightarrow> 0 < lz_initial_code_size ctx \<and> lz_initial_code_size ctx \<le> 12 \<and>
     0 < lz_code_size ctx \<and> lz_code_size ctx \<le> 12 \<and>
     lz_clear_code ctx = 2 ^ (lz_initial_code_size ctx - 1) \<and> lz_eoi_code ctx = lz_clear_code ctx + 1 \<and>
     lz_eoi_code ctx < lz_table_size ctx \<and> lz_table_size ctx \<le> 4096 \<and>
     (\<forall>i. lzw_code_ok ctx i \<longrightarrow> lzw_entry_ok ctx i)"

definition lzw_inv :: "lzw_ctx \<Rightarrow> bool" where
  "lzw_inv ctx \<longleftrightarrow> lzw_read_inv (lz_input ctx) \<and> lzw_table_inv ctx \<and>
     lzw_code_ok ctx (lz_prev_code ctx) \<and>
     lz_prev_code_first ctx = hd (lzw_str ctx (lz_prev_code ctx)) \<and>
     lz_prev_code_count ctx = length (lzw_str ctx (lz_prev_code ctx)) \<and>
     (lz_output_left ctx \<noteq> 0 \<longrightarrow> lzw_code_ok ctx (lz_output_code ctx) \<and>
        lz_output_left ctx \<le> length (lzw_str ctx (lz_output_code ctx)))"

text \<open>The table invariant reads the table and the code parameters only.\<close>

lemma table_only [simp]:
  "lzw_str (ctx\<lparr>lz_input := a\<rparr>) = lzw_str ctx" "lzw_code_ok (ctx\<lparr>lz_input := a\<rparr>) = lzw_code_ok ctx"
  "lzw_table_inv (ctx\<lparr>lz_input := a\<rparr>) = lzw_table_inv ctx"
  "lzw_str (ctx\<lparr>lz_output_left := n\<rparr>) = lzw_str ctx" "lzw_code_ok (ctx\<lparr>lz_output_left := n\<rparr>) = lzw_code_ok ctx"
  "lzw_table_inv (ctx\<lparr>lz_output_left := n\<rparr>) = lzw_table_inv ctx"
  "lzw_str (ctx\<lparr>lz_output_code := n\<rparr>) = lzw_str ctx" "lzw_code_ok (ctx\<lparr>lz_output_code := n\<rparr>) = lzw_code_ok ctx"
  "lzw_table_inv (ctx\<lparr>lz_output_code := n\<rparr>) = lzw_table_inv ctx"
  "lzw_str (ctx\<lparr>lz_prev_code := n\<rparr>) = lzw_str ctx" "lzw_code_ok (ctx\<lparr>lz_prev_code := n\<rparr>) = lzw_code_ok ctx"
  "lzw_table_inv (ctx\<lparr>lz_prev_code := n\<rparr>) = lzw_table_inv ctx"
  "lzw_str (ctx\<lparr>lz_prev_code_first := b\<rparr>) = lzw_str ctx" "lzw_code_ok (ctx\<lparr>lz_prev_code_first := b\<rparr>) = lzw_code_ok ctx"
  "lzw_table_inv (ctx\<lparr>lz_prev_code_first := b\<rparr>) = lzw_table_inv ctx"
  "lzw_str (ctx\<lparr>lz_prev_code_count := n\<rparr>) = lzw_str ctx" "lzw_code_ok (ctx\<lparr>lz_prev_code_count := n\<rparr>) = lzw_code_ok ctx"
  "lzw_table_inv (ctx\<lparr>lz_prev_code_count := n\<rparr>) = lzw_table_inv ctx"
  by (simp_all add: lzw_str_def lzw_code_ok_def lzw_table_inv_def lzw_entry_ok_def fun_eq_iff)

text \<open>What a decoder still owes its caller of the last code.\<close>

definition lzw_pending :: "lzw_ctx \<Rightarrow> u8 list" where
  "lzw_pending ctx =
     (if lz_output_left ctx = 0 then []
      else drop (length (lzw_str ctx (lz_output_code ctx)) - lz_output_left ctx) (lzw_str ctx (lz_output_code ctx)))"

lemma lzw_str_step:
  assumes "lzw_table_inv ctx" and "lzw_code_ok ctx code" and "\<not> code < lz_clear_code ctx"
  shows "lzw_str ctx code = lzw_str ctx (le_extends (lz_table ctx code)) @ [le_value (lz_table ctx code)]"
proof -
  have "le_extends (lz_table ctx code) < code"
    using assms by (auto simp: lzw_table_inv_def lzw_entry_ok_def)
  with assms(3) show ?thesis unfolding lzw_str_def by (subst lzw_string.simps) simp
qed

lemma lzw_str_single: "code < lz_clear_code ctx \<Longrightarrow> lzw_str ctx code = [le_value (lz_table ctx code)]"
  unfolding lzw_str_def by (subst lzw_string.simps) simp

lemma code_ok_entry:
  assumes "lzw_table_inv ctx" and "lzw_code_ok ctx code"
  shows "lzw_entry (lz_table ctx) code = Some (lz_table ctx code)" and "lzw_entry_ok ctx code"
  using assms by (auto simp: lzw_table_inv_def lzw_code_ok_def lzw_entry_def)

lemma skip_ok:
  assumes "lzw_table_inv ctx"
  shows "lzw_code_ok ctx code \<Longrightarrow> n \<le> length (lzw_str ctx code) \<Longrightarrow>
    \<exists>c. lzw_skip (lz_table ctx) n code = Some c \<and>
      (n < length (lzw_str ctx code) \<longrightarrow> lzw_code_ok ctx c \<and> lzw_str ctx c = take (length (lzw_str ctx code) - n) (lzw_str ctx code))"
proof (induction n arbitrary: code)
  case 0
  then show ?case by simp
next
  case (Suc n)
  note e = code_ok_entry [OF assms Suc.prems(1)]
  show ?case
  proof (cases "code < lz_clear_code ctx")
    case True
    then have "n = 0" using Suc.prems(2) lzw_str_single [OF True] by simp
    with e(1) lzw_str_single [OF True] show ?thesis by simp
  next
    case False
    note st = lzw_str_step [OF assms Suc.prems(1) False]
    have "lzw_code_ok ctx (le_extends (lz_table ctx code))" using e(2) False by (simp add: lzw_entry_ok_def)
    from Suc.IH [OF this] Suc.prems(2) st e(1) show ?thesis by auto
  qed
qed

lemma collect_ok:
  assumes "lzw_table_inv ctx"
  shows "lzw_code_ok ctx code \<or> n = 0 \<Longrightarrow> n \<le> length (lzw_str ctx code) \<Longrightarrow>
    lzw_collect (lz_table ctx) n code acc = Some (drop (length (lzw_str ctx code) - n) (lzw_str ctx code) @ acc)"
proof (induction n arbitrary: code acc)
  case 0
  then show ?case by simp
next
  case (Suc n)
  then have ok: "lzw_code_ok ctx code" by simp
  note e = code_ok_entry [OF assms ok]
  show ?case
  proof (cases "code < lz_clear_code ctx")
    case True
    then have "n = 0" using Suc.prems(2) lzw_str_single [OF True] by simp
    with e(1) lzw_str_single [OF True] show ?thesis by simp
  next
    case False
    note st = lzw_str_step [OF assms ok False]
    have "lzw_code_ok ctx (le_extends (lz_table ctx code))" using e(2) False by (simp add: lzw_entry_ok_def)
    with Suc.IH [of "le_extends (lz_table ctx code)"] Suc.prems(2) st e(1) show ?thesis by simp
  qed
qed

lemma values_ok:
  assumes "lzw_table_inv ctx" and "lzw_code_ok ctx code" and "left \<le> length (lzw_str ctx code)"
  shows "lzw_values ctx space code left =
    Some (ctx\<lparr>lz_output_code := code, lz_output_left := left - space\<rparr>,
      take space (drop (length (lzw_str ctx code) - left) (lzw_str ctx code)))"
proof -
  let ?S = "lzw_str ctx code" and ?rest = "left - space" and ?n = "min left space"
  have "?rest \<le> length ?S" using assms(3) by simp
  from skip_ok [OF assms(1,2) this] obtain c where
    c: "lzw_skip (lz_table ctx) ?rest code = Some c"
      "?rest < length ?S \<longrightarrow> lzw_code_ok ctx c \<and> lzw_str ctx c = take (length ?S - ?rest) ?S" by blast
  have "lzw_collect (lz_table ctx) ?n c [] = Some (take space (drop (length ?S - left) ?S))"
  proof (cases "left \<le> space")
    case True
    then have "c = code" using c(1) by simp
    with True collect_ok [OF assms(1), of code left "[]"] assms(2,3) show ?thesis by (simp add: min_def)
  next
    case False
    show ?thesis
    proof (cases "space = 0")
      case True
      then show ?thesis by simp
    next
      case pos: False
      with False assms(3) have r: "?rest < length ?S" "length ?S - ?rest = (length ?S - left) + space" by auto
      with c(2) have sc: "lzw_str ctx c = take ((length ?S - left) + space) ?S" "lzw_code_ok ctx c" by auto
      then have len: "length (lzw_str ctx c) = (length ?S - left) + space" using assms(3) False by simp
      with collect_ok [OF assms(1), of c space "[]"] sc have
        "lzw_collect (lz_table ctx) space c [] = Some (drop (length ?S - left) (lzw_str ctx c))" by simp
      with False sc(1) show ?thesis by (simp add: min_def drop_take)
    qed
  qed
  with c(1) show ?thesis by (auto simp: lzw_values_def Let_def min_def split: if_splits)
qed

section \<open>Clear codes and new entries\<close>

lemma bits_left_bound: "lzw_read_inv ctx \<Longrightarrow> lzw_bits_left ctx \<le> 8 * length (lr_data ctx)"
proof -
  assume i: "lzw_read_inv ctx"
  then have "lr_sb_bit_count ctx = 8 * (lr_sb_bit_count ctx div 8)"
    using mult_div_mod_eq [of 8 "lr_sb_bit_count ctx"] by (simp add: lzw_read_inv_def)
  with i show ?thesis by (cases "lr_sb_bit_count ctx = 0") (auto simp: lzw_read_inv_def lzw_bits_left_def)
qed

lemma clear_loop_ok:
  assumes "lzw_read_inv (lz_input ctx)" and "0 < lz_code_size ctx" and "lz_code_size ctx \<le> 12"
    and "lzw_bits_left (lz_input ctx) < fuel"
  shows "\<exists>res input code. lzw_clear_loop fuel ctx = Some (res, ctx\<lparr>lz_input := input\<rparr>, code) \<and> lzw_read_inv input \<and>
    (res = LZW_OK \<longrightarrow> code \<noteq> lz_clear_code ctx)"
  using assms
proof (induction fuel arbitrary: ctx)
  case 0
  then show ?case by simp
next
  case (Suc fuel)
  from read_code_ok [OF Suc.prems(1-3)] obtain res input code where
    r: "lzw__read_code (lz_input ctx) (lz_code_size ctx) = Some (res, input, code)" "lzw_read_inv input"
      "res = LZW_OK \<longrightarrow> lzw_bits_left input < lzw_bits_left (lz_input ctx)" by blast
  show ?case
  proof (cases "res = LZW_OK \<and> code = lz_clear_code ctx")
    case False
    with r show ?thesis by (auto simp: Let_def)
  next
    case True
    with r Suc.prems Suc.IH [of "ctx\<lparr>lz_input := input\<rparr>"] show ?thesis by (auto simp: Let_def)
  qed
qed

text \<open>The part of the invariant that survives a clear code.\<close>

definition lzw_base :: "lzw_ctx \<Rightarrow> bool" where
  "lzw_base ctx \<longleftrightarrow> 0 < lz_initial_code_size ctx \<and> lz_initial_code_size ctx \<le> 12 \<and>
     lz_clear_code ctx = 2 ^ (lz_initial_code_size ctx - 1) \<and> lz_eoi_code ctx = lz_clear_code ctx + 1 \<and>
     (\<forall>i < lz_clear_code ctx. le_value (lz_table ctx i) = of_nat i \<and> le_first (lz_table ctx i) = of_nat i \<and>
        le_count (lz_table ctx i) = 1)"

lemma table_inv_base: "lzw_table_inv ctx \<Longrightarrow> lzw_base ctx"
  using lzw_str_single by (fastforce simp: lzw_table_inv_def lzw_base_def lzw_entry_ok_def lzw_code_ok_def)

lemma clear_bound: "lzw_base ctx \<Longrightarrow> lz_clear_code ctx \<le> 2048"
proof -
  assume b: "lzw_base ctx"
  then have "(2::nat) ^ (lz_initial_code_size ctx - 1) \<le> 2 ^ 11"
    by (intro power_increasing) (auto simp: lzw_base_def)
  with b show ?thesis by (simp add: lzw_base_def)
qed

lemma base_table_inv:
  assumes "lzw_base ctx" and "lz_table_size ctx = lz_eoi_code ctx + 1" and "0 < lz_code_size ctx" and "lz_code_size ctx \<le> 12"
  shows "lzw_table_inv ctx"
proof -
  have "lzw_entry_ok ctx i" if "lzw_code_ok ctx i" for i
    using that assms(1,2) lzw_str_single [of i ctx]
    by (auto simp: lzw_entry_ok_def lzw_code_ok_def lzw_base_def)
  with assms clear_bound [OF assms(1)] show ?thesis by (simp add: lzw_table_inv_def lzw_base_def)
qed

lemma handle_clear_ok:
  assumes "lzw_base ctx" and "lzw_read_inv (lz_input ctx)"
  shows "\<exists>res ctx' code. lzw__handle_clear ctx = Some (res, ctx', code) \<and> lzw_read_inv (lz_input ctx') \<and>
    lzw_table_inv ctx' \<and> lz_table ctx' = lz_table ctx \<and> lz_clear_code ctx' = lz_clear_code ctx \<and>
    lz_output_left ctx' = lz_output_left ctx \<and> lz_colour_map ctx' = lz_colour_map ctx \<and>
    lz_table_size ctx' = lz_eoi_code ctx + 1 \<and> lz_eoi_code ctx' = lz_eoi_code ctx \<and>
    (res = LZW_OK \<longrightarrow> code < lz_clear_code ctx)"
proof -
  define c0 where "c0 = ctx\<lparr>lz_code_size := lz_initial_code_size ctx, lz_code_max := 2 ^ lz_initial_code_size ctx - 1,
    lz_table_size := (lz_eoi_code ctx + 1) mod 2 ^ 16\<rparr>"
  have small: "lz_eoi_code ctx + 1 < 2 ^ 16" using clear_bound [OF assms(1)] assms(1) by (simp add: lzw_base_def)
  have fuel: "lzw_bits_left (lz_input c0) < 8 * length (lr_data (lz_input c0)) + 1"
    using bits_left_bound [OF assms(2)] by (simp add: c0_def)
  from clear_loop_ok [OF _ _ _ fuel] assms obtain res input code where
    l: "lzw_clear_loop (8 * length (lr_data (lz_input c0)) + 1) c0 = Some (res, c0\<lparr>lz_input := input\<rparr>, code)"
      "lzw_read_inv input" "res = LZW_OK \<longrightarrow> code \<noteq> lz_clear_code c0" by (auto simp: c0_def lzw_base_def)
  have t: "lzw_table_inv (c0\<lparr>lz_input := input\<rparr>)"
    using assms(1) small by (intro base_table_inv) (simp_all add: c0_def lzw_base_def)
  have cl: "lz_clear_code c0 = lz_clear_code ctx" by (simp add: c0_def)
  have "\<exists>res'. lzw__handle_clear ctx = Some (res', c0\<lparr>lz_input := input\<rparr>, code) \<and>
      (res' = LZW_OK \<longrightarrow> code < lz_clear_code ctx)"
    unfolding lzw__handle_clear_def Let_def c0_def [symmetric] l(1) using l(3) cl by auto
  then show ?thesis using l(2) t small by (auto simp: c0_def)
qed

text \<open>A new entry is the previous string extended by one value; the others keep their strings.\<close>

lemma grow_ok:
  assumes "lzw_inv ctx" and "lz_table_size ctx < 4096" and "lzw_code_ok ctx code \<or> code = lz_table_size ctx"
  defines "first \<equiv> (if code < lz_table_size ctx then hd (lzw_str ctx code) else hd (lzw_str ctx (lz_prev_code ctx)))"
  shows "\<exists>ctx'. lzw_grow ctx code = Some ctx' \<and> lzw_table_inv ctx' \<and> lz_input ctx' = lz_input ctx \<and>
    lz_table_size ctx' = lz_table_size ctx + 1 \<and> lz_clear_code ctx' = lz_clear_code ctx \<and>
    lz_eoi_code ctx' = lz_eoi_code ctx \<and> lz_output_left ctx' = lz_output_left ctx \<and>
    lz_colour_map ctx' = lz_colour_map ctx \<and>
    (\<forall>i < lz_table_size ctx. lzw_str ctx' i = lzw_str ctx i) \<and>
    lzw_str ctx' (lz_table_size ctx) = lzw_str ctx (lz_prev_code ctx) @ [first]"
proof -
  have t: "lzw_table_inv ctx" and p: "lzw_code_ok ctx (lz_prev_code ctx)"
    "lz_prev_code_first ctx = hd (lzw_str ctx (lz_prev_code ctx))"
    "lz_prev_code_count ctx = length (lzw_str ctx (lz_prev_code ctx))" using assms(1) by (simp_all add: lzw_inv_def)
  let ?n = "lz_table_size ctx"
  have ti: "lz_eoi_code ctx < ?n" "lz_clear_code ctx < ?n" using t by (auto simp: lzw_table_inv_def)
  have pc: "lz_prev_code ctx < ?n" using p(1) by (simp add: lzw_code_ok_def)
  have cnt: "lz_prev_code_count ctx + 1 < 2 ^ 16"
    using lzw_string_length [of "lz_table ctx" "lz_clear_code ctx" "lz_prev_code ctx"] pc assms(2)
    by (simp add: p(3) lzw_str_def)
  have fst: "(if code < ?n then map_option le_first (lzw_entry (lz_table ctx) code) else Some (lz_prev_code_first ctx)) = Some first"
    using assms(3) code_ok_entry [OF t] p(2) by (auto simp: first_def lzw_entry_ok_def)
  define e where "e = \<lparr>le_value = first, le_first = lz_prev_code_first ctx,
    le_count = lz_prev_code_count ctx + 1, le_extends = lz_prev_code ctx\<rparr>"
  define c1 where "c1 = ctx\<lparr>lz_table := (lz_table ctx)(?n := e), lz_table_size := ?n + 1\<rparr>"
  have add: "lzw__table_add_entry ctx first = Some c1"
    using assms(2) cnt by (simp add: lzw__table_add_entry_def Let_def c1_def e_def)
  have old: "lzw_str c1 i = lzw_str ctx i" if "i < ?n" for i
    using lzw_string_upd [OF that] by (simp add: lzw_str_def c1_def)
  have new: "lzw_str c1 ?n = lzw_str ctx (lz_prev_code ctx) @ [first]"
    using old [OF pc] pc ti(2) unfolding lzw_str_def c1_def
    by (subst lzw_string.simps) (simp add: e_def)
  have "lzw_entry_ok c1 i" if "lzw_code_ok c1 i" for i
  proof (cases "i = ?n")
    case True
    with new p pc ti show ?thesis by (simp add: lzw_entry_ok_def c1_def e_def lzw_code_ok_def)
  next
    case False
    with that have i: "lzw_code_ok ctx i" "i < ?n" by (auto simp: lzw_code_ok_def c1_def)
    then have "lzw_entry_ok ctx i" by (intro code_ok_entry [OF t])
    with i old [OF i(2)] show ?thesis by (auto simp: lzw_entry_ok_def c1_def lzw_code_ok_def)
  qed
  then have inv1: "lzw_table_inv c1" using t assms(2) by (simp add: lzw_table_inv_def c1_def)
  define c2 where "c2 = (if ?n = lz_code_max c1 \<and> lz_code_size c1 < 12
    then c1\<lparr>lz_code_size := lz_code_size c1 + 1, lz_code_max := 2 ^ (lz_code_size c1 + 1) - 1\<rparr> else c1)"
  have "lzw_grow ctx code = Some c2" using fst add by (simp add: lzw_grow_def Let_def c2_def)
  moreover have "lzw_table_inv c2 \<and> lzw_str c2 = lzw_str c1"
    using inv1 by (auto simp: c2_def lzw_table_inv_def lzw_entry_ok_def lzw_code_ok_def lzw_str_def fun_eq_iff)
  moreover have "lz_input c2 = lz_input ctx" "lz_table_size c2 = ?n + 1" "lz_clear_code c2 = lz_clear_code ctx"
    "lz_eoi_code c2 = lz_eoi_code ctx" "lz_output_left c2 = lz_output_left ctx" "lz_colour_map c2 = lz_colour_map ctx"
    by (simp_all add: c2_def c1_def)
  ultimately show ?thesis using old new by auto
qed

text \<open>The textbook step: the string of the code, and the dictionary after it. A code of the
  dictionary stands for its string, the first free code for the previous string and its first
  value again; the dictionary grows, while there is room, by the previous string and the first value
  of the current one.\<close>

definition lzw_current :: "lzw_ctx \<Rightarrow> nat \<Rightarrow> u8 list" where
  "lzw_current ctx code =
     (let prev = lzw_str ctx (lz_prev_code ctx)
      in if code < lz_table_size ctx then lzw_str ctx code else prev @ [hd prev])"

definition lzw_dict_step :: "lzw_ctx \<Rightarrow> nat \<Rightarrow> lzw_ctx \<Rightarrow> bool" where
  "lzw_dict_step ctx code ctx' \<longleftrightarrow>
     (\<forall>i < lz_table_size ctx. lzw_str ctx' i = lzw_str ctx i) \<and>
     (if lz_table_size ctx < 4096
      then lz_table_size ctx' = lz_table_size ctx + 1 \<and>
        lzw_str ctx' (lz_table_size ctx) = lzw_str ctx (lz_prev_code ctx) @ [hd (lzw_current ctx code)]
      else lz_table_size ctx' = lz_table_size ctx)"

lemma update_table_ok:
  assumes "lzw_inv ctx" and "code < 4096" and "code \<noteq> lz_eoi_code ctx" and "code \<le> lz_table_size ctx"
  shows "\<exists>res ctx' code'. lzw_update_table ctx code = Some (res, ctx', code') \<and> lzw_read_inv (lz_input ctx') \<and>
    lzw_table_inv ctx' \<and> lz_colour_map ctx' = lz_colour_map ctx \<and> lz_output_left ctx' = lz_output_left ctx \<and>
    (res = LZW_OK \<longrightarrow> lzw_code_ok ctx' code' \<and>
       (if code = lz_clear_code ctx
        then code' < lz_clear_code ctx \<and> lz_table_size ctx' = lz_eoi_code ctx + 1 \<and> lzw_str ctx' code' = [of_nat code']
        else code' = code \<and> lzw_dict_step ctx code ctx' \<and> lzw_str ctx' code' = lzw_current ctx code))"
proof -
  have t: "lzw_table_inv ctx" and ri: "lzw_read_inv (lz_input ctx)" using assms(1) by (simp_all add: lzw_inv_def)
  have eoi: "lz_eoi_code ctx = lz_clear_code ctx + 1" using t by (simp add: lzw_table_inv_def)
  consider "code = lz_clear_code ctx" | "code \<noteq> lz_clear_code ctx" "lz_table_size ctx < 4096"
    | "code \<noteq> lz_clear_code ctx" "lz_table_size ctx = 4096" using t by (force simp: lzw_table_inv_def)
  then show ?thesis
  proof cases
    case 1
    from handle_clear_ok [OF table_inv_base [OF t] ri] obtain res ctx' code' where
      h: "lzw__handle_clear ctx = Some (res, ctx', code')" "lzw_read_inv (lz_input ctx')" "lzw_table_inv ctx'"
        "lz_clear_code ctx' = lz_clear_code ctx" "lz_output_left ctx' = lz_output_left ctx"
        "lz_colour_map ctx' = lz_colour_map ctx" "lz_table_size ctx' = lz_eoi_code ctx + 1"
        "lz_eoi_code ctx' = lz_eoi_code ctx" "res = LZW_OK \<longrightarrow> code' < lz_clear_code ctx" by blast
    have "lzw_str ctx' code' = [of_nat code']" if "code' < lz_clear_code ctx"
      using that lzw_str_single [of code' ctx'] table_inv_base [OF h(3)] h(4) by (simp add: lzw_base_def)
    with 1 h eoi show ?thesis by (auto simp: lzw_update_table_def lzw_code_ok_def)
  next
    case 2
    then have ok: "lzw_code_ok ctx code \<or> code = lz_table_size ctx" using assms(3,4) by (auto simp: lzw_code_ok_def)
    have hd: "hd (lzw_current ctx code) =
        (if code < lz_table_size ctx then hd (lzw_str ctx code) else hd (lzw_str ctx (lz_prev_code ctx)))"
      by (simp add: lzw_current_def Let_def)
    from grow_ok [OF assms(1) 2(2) ok] obtain c1 where
      g: "lzw_grow ctx code = Some c1" "lzw_table_inv c1" "lz_input c1 = lz_input ctx"
        "lz_table_size c1 = lz_table_size ctx + 1" "lz_clear_code c1 = lz_clear_code ctx"
        "lz_eoi_code c1 = lz_eoi_code ctx" "lz_output_left c1 = lz_output_left ctx" "lz_colour_map c1 = lz_colour_map ctx"
        "\<forall>i < lz_table_size ctx. lzw_str c1 i = lzw_str ctx i"
        "lzw_str c1 (lz_table_size ctx) = lzw_str ctx (lz_prev_code ctx) @ [hd (lzw_current ctx code)]"
      unfolding hd by blast
    have "lzw_str c1 code = lzw_current ctx code"
      using ok g(9,10) hd by (auto simp: lzw_code_ok_def lzw_current_def Let_def)
    moreover have "lzw_code_ok c1 code" using ok g(4-6) 2 assms(3) by (auto simp: lzw_code_ok_def)
    ultimately show ?thesis using 2 g ri by (auto simp: lzw_update_table_def lzw_dict_step_def)
  next
    case 3
    then have "lzw_code_ok ctx code" "code < lz_table_size ctx" using assms(2,3) by (auto simp: lzw_code_ok_def)
    with 3 t ri show ?thesis by (auto simp: lzw_update_table_def lzw_dict_step_def lzw_current_def)
  qed
qed

text \<open>The part of \<open>lzw__decode\<close> up to the outbuf: the code read and the table updated for it.\<close>

definition lzw_next_code :: "lzw_ctx \<Rightarrow> (lzw_result \<times> lzw_ctx \<times> nat) option" where
  "lzw_next_code ctx = do {
     (res, input, code) \<leftarrow> lzw__read_code (lz_input ctx) (lz_code_size ctx);
     (let ctx = ctx\<lparr>lz_input := input\<rparr> in
      if res \<noteq> LZW_OK then Some (res, ctx, code)
      else if code = lz_eoi_code ctx then Some (LZW_EOI_CODE, ctx, code)
      else if code > lz_table_size ctx then Some (LZW_BAD_CODE, ctx, code)
      else lzw_update_table ctx code)
   }"

lemma decode_next:
  "lzw__decode write_fn ctx outbuf written = do {
     (res, ctx, code) \<leftarrow> lzw_next_code ctx;
     if res \<noteq> LZW_OK then Some (res, ctx, outbuf, written)
     else do {
       entry \<leftarrow> lzw_entry (lz_table ctx) code;
       (ctx, outbuf, n) \<leftarrow> write_fn ctx outbuf written code (le_count entry);
       Some (LZW_OK, ctx\<lparr>lz_prev_code_first := le_first entry, lz_prev_code_count := le_count entry,
               lz_prev_code := code\<rparr>, outbuf, written + n)
     } }"
  by (auto simp: lzw__decode_def lzw_next_code_def Let_def split: Option.bind_splits)

lemma inv_input: "lzw_inv ctx \<Longrightarrow> lzw_read_inv input \<Longrightarrow> lzw_inv (ctx\<lparr>lz_input := input\<rparr>)"
  by (simp add: lzw_inv_def)

lemma next_code_ok:
  assumes "lzw_inv ctx"
  shows "\<exists>res ctx' code. lzw_next_code ctx = Some (res, ctx', code) \<and>
    lz_colour_map ctx' = lz_colour_map ctx \<and>
    (res = LZW_OK \<longrightarrow> lzw_read_inv (lz_input ctx') \<and> lzw_table_inv ctx' \<and> lz_output_left ctx' = lz_output_left ctx \<and>
       lzw_code_ok ctx' code)"
proof -
  have t: "lzw_table_inv ctx" and ri: "lzw_read_inv (lz_input ctx)" using assms(1) by (simp_all add: lzw_inv_def)
  have cs: "0 < lz_code_size ctx" "lz_code_size ctx \<le> 12" using t by (simp_all add: lzw_table_inv_def)
  from read_code_ok [OF ri cs] obtain res input code where
    r: "lzw__read_code (lz_input ctx) (lz_code_size ctx) = Some (res, input, code)" "lzw_read_inv input"
      "code < 2 ^ lz_code_size ctx" by blast
  define c0 where "c0 = ctx\<lparr>lz_input := input\<rparr>"
  have inv0: "lzw_inv c0" unfolding c0_def by (rule inv_input [OF assms r(2)])
  have same: "lz_colour_map c0 = lz_colour_map ctx" "lz_output_left c0 = lz_output_left ctx" by (simp_all add: c0_def)
  have "(2::nat) ^ lz_code_size ctx \<le> 2 ^ 12" using cs by (intro power_increasing) auto
  with r(3) have code: "code < 4096" by simp
  have eq: "lzw_next_code ctx = (if res \<noteq> LZW_OK then Some (res, c0, code)
      else if code = lz_eoi_code c0 then Some (LZW_EOI_CODE, c0, code)
      else if code > lz_table_size c0 then Some (LZW_BAD_CODE, c0, code) else lzw_update_table c0 code)"
    using r(1) by (simp add: lzw_next_code_def Let_def c0_def)
  show ?thesis
  proof (cases "res \<noteq> LZW_OK \<or> code = lz_eoi_code c0 \<or> code > lz_table_size c0")
    case True
    then show ?thesis using eq same by auto
  next
    case False
    then have "code \<noteq> lz_eoi_code c0" "code \<le> lz_table_size c0" by auto
    from update_table_ok [OF inv0 code this] False eq same show ?thesis by auto
  qed
qed

section \<open>Both writers\<close>

text \<open>What the decoder needs of a writer: given a string of the table and how many of its last values
  are owed, it writes as many of them as fit and remembers the rest. \<open>ready\<close> says which colour maps
  the writer can work with, \<open>emit\<close> what it does to the outbuf.\<close>

definition lzw_owed :: "lzw_ctx \<Rightarrow> nat \<Rightarrow> nat \<Rightarrow> u8 list" where
  "lzw_owed ctx code left = drop (length (lzw_str ctx code) - left) (lzw_str ctx code)"

locale lzw_writer =
  fixes write_fn :: "lzw_ctx \<Rightarrow> 'o list \<Rightarrow> nat \<Rightarrow> nat \<Rightarrow> nat \<Rightarrow> (lzw_ctx \<times> 'o list \<times> nat) option"
    and ready :: "u32 list option \<Rightarrow> bool"
    and emit :: "lzw_ctx \<Rightarrow> 'o list \<Rightarrow> nat \<Rightarrow> u8 list \<Rightarrow> 'o list"
  assumes write_law: "lzw_table_inv ctx \<Longrightarrow> lzw_code_ok ctx code \<Longrightarrow> left \<le> length (lzw_str ctx code) \<Longrightarrow>
      used \<le> length outbuf \<Longrightarrow> ready (lz_colour_map ctx) \<Longrightarrow>
      write_fn ctx outbuf used code left =
        Some (ctx\<lparr>lz_output_code := code, lz_output_left := left - (length outbuf - used)\<rparr>,
          emit ctx outbuf used (take (length outbuf - used) (lzw_owed ctx code left)),
          min left (length outbuf - used))"
    and emit_length: "used + length vals \<le> length outbuf \<Longrightarrow> ready (lz_colour_map ctx) \<Longrightarrow>
      length (emit ctx outbuf used vals) = length outbuf"
begin

lemma decode_step:
  assumes "lzw_inv ctx" and "lz_output_left ctx = 0" and "written < length outbuf" and "ready (lz_colour_map ctx)"
  shows "\<exists>res ctx' outbuf' written'. lzw__decode write_fn ctx outbuf written = Some (res, ctx', outbuf', written') \<and>
    length outbuf' = length outbuf \<and> lz_colour_map ctx' = lz_colour_map ctx \<and> written \<le> written' \<and> written' \<le> length outbuf \<and>
    (res = LZW_OK \<longrightarrow> lzw_inv ctx' \<and> written < written' \<and> (written' < length outbuf \<longrightarrow> lz_output_left ctx' = 0))"
proof -
  from next_code_ok [OF assms(1)] obtain res c1 code where
    n: "lzw_next_code ctx = Some (res, c1, code)" "lz_colour_map c1 = lz_colour_map ctx"
      "res = LZW_OK \<longrightarrow> lzw_read_inv (lz_input c1) \<and> lzw_table_inv c1 \<and> lzw_code_ok c1 code" by blast
  show ?thesis
  proof (cases "res = LZW_OK")
    case False
    with n assms(3) show ?thesis by (auto simp: decode_next)
  next
    case True
    with n(3) have ok: "lzw_read_inv (lz_input c1)" "lzw_table_inv c1" "lzw_code_ok c1 code" by auto
    note en = code_ok_entry [OF ok(2,3)]
    let ?S = "lzw_str c1 code" and ?space = "length outbuf - written"
    have cnt: "le_count (lz_table c1 code) = length ?S" "le_first (lz_table c1 code) = hd ?S"
      using en(2) by (simp_all add: lzw_entry_ok_def)
    define out' where "out' = emit c1 outbuf written (take ?space (lzw_owed c1 code (length ?S)))"
    define c2 where "c2 = c1\<lparr>lz_output_code := code, lz_output_left := length ?S - ?space,
      lz_prev_code_first := hd ?S, lz_prev_code_count := length ?S, lz_prev_code := code\<rparr>"
    have wr: "lzw__decode write_fn ctx outbuf written = Some (LZW_OK, c2, out', written + min (length ?S) ?space)"
      using n(1,2) True en(1) cnt write_law [OF ok(2,3), of "length ?S" written outbuf] assms(3,4)
      by (simp add: decode_next out'_def c2_def)
    have "length out' = length outbuf" unfolding out'_def
      using assms(3,4) n(2) by (intro emit_length) (auto simp: lzw_owed_def)
    moreover have "lzw_inv c2"
      using ok by (simp add: c2_def lzw_inv_def)
    moreover have "0 < length ?S" by simp
    ultimately show ?thesis using wr n(2) assms(3) by (auto simp: c2_def min_def)
  qed
qed

lemma lzw_loop_total:
  assumes "lzw_inv ctx" and "written < length outbuf \<longrightarrow> lz_output_left ctx = 0" and "written \<le> length outbuf"
    and "ready (lz_colour_map ctx)" and "length outbuf - written \<le> fuel"
  shows "\<exists>res ctx' outbuf' written'. lzw_decode_loop fuel write_fn ctx outbuf written = Some (res, ctx', outbuf', written') \<and>
    length outbuf' = length outbuf \<and> written' \<le> length outbuf \<and>
    (res = LZW_OK \<longrightarrow> lzw_inv ctx' \<and> written' = length outbuf)"
  using assms
proof (induction fuel arbitrary: ctx outbuf written)
  case 0
  then show ?case by (subst lzw_decode_loop.simps) auto
next
  case (Suc fuel)
  show ?case
  proof (cases "written = length outbuf")
    case True
    with Suc.prems show ?thesis by (subst lzw_decode_loop.simps) auto
  next
    case False
    with Suc.prems have lt: "written < length outbuf" "lz_output_left ctx = 0" by auto
    from decode_step [OF Suc.prems(1) lt(2,1) Suc.prems(4)] obtain res c1 out1 wr1 where
      d: "lzw__decode write_fn ctx outbuf written = Some (res, c1, out1, wr1)" "length out1 = length outbuf"
        "lz_colour_map c1 = lz_colour_map ctx" "wr1 \<le> length outbuf"
        "res = LZW_OK \<longrightarrow> lzw_inv c1 \<and> written < wr1 \<and> (wr1 < length outbuf \<longrightarrow> lz_output_left c1 = 0)" by blast
    show ?thesis
    proof (cases "res = LZW_OK")
      case e: False
      with d False show ?thesis by (subst lzw_decode_loop.simps) auto
    next
      case True
      with d Suc.prems(4,5) Suc.IH [of c1 wr1 out1] False show ?thesis
        by (subst lzw_decode_loop.simps) auto
    qed
  qed
qed

lemma decode_with_total:
  assumes "lzw_inv ctx" and "ready (lz_colour_map ctx)"
  shows "\<exists>res ctx' outbuf' written. lzw_decode_with write_fn ctx outbuf = Some (res, ctx', outbuf', written) \<and>
    length outbuf' = length outbuf \<and> written \<le> length outbuf \<and>
    (res = LZW_OK \<longrightarrow> lzw_inv ctx' \<and> written = length outbuf)"
proof (cases "lz_output_left ctx = 0")
  case True
  with lzw_loop_total [OF assms(1), of 0 outbuf "length outbuf"] assms(2) show ?thesis
    by (simp add: lzw_decode_with_def)
next
  case False
  let ?code = "lz_output_code ctx" and ?left = "lz_output_left ctx"
  have t: "lzw_table_inv ctx" and o: "lzw_code_ok ctx ?code" "?left \<le> length (lzw_str ctx ?code)"
    using assms(1) False by (auto simp: lzw_inv_def)
  define c1 where "c1 = ctx\<lparr>lz_output_left := ?left - length outbuf\<rparr>"
  define out1 where "out1 = emit ctx outbuf 0 (take (length outbuf) (lzw_owed ctx ?code ?left))"
  have w: "write_fn ctx outbuf 0 ?code ?left = Some (c1, out1, min ?left (length outbuf))"
    using write_law [OF t o, of 0 outbuf] assms(2) by (simp add: c1_def out1_def)
  have len: "length out1 = length outbuf" unfolding out1_def using assms(2) by (intro emit_length) auto
  have inv1: "lzw_inv c1" "lz_colour_map c1 = lz_colour_map ctx"
    using assms(1) False by (auto simp: c1_def lzw_inv_def)
  have left: "min ?left (length outbuf) < length outbuf \<longrightarrow> lz_output_left c1 = 0" by (auto simp: c1_def)
  from lzw_loop_total [OF inv1(1), of "min ?left (length outbuf)" out1 "length outbuf"] inv1(2) assms(2) len left
  show ?thesis using False w by (simp add: lzw_decode_with_def)
qed

end

interpretation lzwb: lzw_writer lzw__write_fn "\<lambda>_. True"
  "\<lambda>ctx outbuf used vals. take used outbuf @ vals @ drop (used + length vals) outbuf"
proof unfold_locales
  fix ctx code left used and outbuf :: "u8 list"
  assume a: "lzw_table_inv ctx" "lzw_code_ok ctx code" "left \<le> length (lzw_str ctx code)" "used \<le> length outbuf"
  let ?v = "take (length outbuf - used) (lzw_owed ctx code left)"
  have "lzw_values ctx (length outbuf - used) code left =
      Some (ctx\<lparr>lz_output_code := code, lz_output_left := left - (length outbuf - used)\<rparr>, ?v)"
    using values_ok [OF a(1-3)] by (simp add: lzw_owed_def)
  moreover have "length ?v = min left (length outbuf - used)" using a(3) by (simp add: lzw_owed_def min.commute)
  moreover have "mem_write used ?v outbuf = Some (take used outbuf @ ?v @ drop (used + length ?v) outbuf)"
    using a(4) by (intro mem_write_ok) simp
  ultimately show "lzw__write_fn ctx outbuf used code left =
      Some (ctx\<lparr>lz_output_code := code, lz_output_left := left - (length outbuf - used)\<rparr>,
        take used outbuf @ ?v @ drop (used + length ?v) outbuf, min left (length outbuf - used))"
    by (simp add: lzw__write_fn_def)
qed simp

lemma those_all: "(\<And>x. x \<in> set xs \<Longrightarrow> x \<noteq> None) \<Longrightarrow> those xs = Some (map the xs)"
proof (induction xs)
  case (Cons x xs)
  then show ?case by (cases x) auto
qed simp

definition lzw_emit_pixels :: "lzw_ctx \<Rightarrow> u32 list \<Rightarrow> nat \<Rightarrow> u8 list \<Rightarrow> u32 list" where
  "lzw_emit_pixels ctx outbuf used vals =
     take used outbuf @ map the (map2 (lzw_pixel ctx) (take (length vals) (drop used outbuf)) vals) @
     drop (used + length vals) outbuf"

interpretation lzwm: lzw_writer lzw__map_write_fn "\<lambda>m. \<exists>c. m = Some c \<and> length c = 256" lzw_emit_pixels
proof unfold_locales
  fix ctx code left used and outbuf :: "u32 list"
  assume a: "lzw_table_inv ctx" "lzw_code_ok ctx code" "left \<le> length (lzw_str ctx code)" "used \<le> length outbuf"
    and m: "\<exists>c. lz_colour_map ctx = Some c \<and> length c = 256"
  let ?v = "take (length outbuf - used) (lzw_owed ctx code left)"
  let ?c = "ctx\<lparr>lz_output_code := code, lz_output_left := left - (length outbuf - used)\<rparr>"
  have v: "lzw_values ctx (length outbuf - used) code left = Some (?c, ?v)"
    using values_ok [OF a(1-3)] by (simp add: lzw_owed_def)
  have len: "length ?v = min left (length outbuf - used)" using a(3) by (simp add: lzw_owed_def min.commute)
  then have rd: "mem_read used (length ?v) outbuf = Some (take (length ?v) (drop used outbuf))"
    using a(4) by (simp add: mem_read_def)
  have px: "lzw_pixel ?c = lzw_pixel ctx" by (simp add: lzw_pixel_def fun_eq_iff)
  have "lzw_pixel ctx old x \<noteq> None" for old x
    using m unsigned_less [of x] by (auto simp: lzw_pixel_def)
  then have th: "those (map2 (lzw_pixel ctx) (take (length ?v) (drop used outbuf)) ?v) =
      Some (map the (map2 (lzw_pixel ctx) (take (length ?v) (drop used outbuf)) ?v))"
    by (intro those_all) auto
  have "mem_write used (map the (map2 (lzw_pixel ctx) (take (length ?v) (drop used outbuf)) ?v)) outbuf =
      Some (lzw_emit_pixels ctx outbuf used ?v)"
    using a(4) len by (simp add: mem_write_def lzw_emit_pixels_def)
  then show "lzw__map_write_fn ctx outbuf used code left =
      Some (?c, lzw_emit_pixels ctx outbuf used ?v, min left (length outbuf - used))"
    using v rd th len px by (simp add: lzw__map_write_fn_def del: length_take)
qed (simp add: lzw_emit_pixels_def)

section \<open>Starting a session\<close>

lemma init_table_entry:
  "lzw_init_table is table i = (if i \<in> set is
     then (table i)\<lparr>le_first := of_nat i, le_value := of_nat i, le_count := 1\<rparr> else table i)"
  by (induction "is" arbitrary: table) auto

lemma decode_init_ok:
  "\<exists>res ctx'. lzw_decode_init ctx minimum_code_size data pos = Some (res, ctx') \<and>
     (res = LZW_OK \<longrightarrow> lzw_inv ctx' \<and> (\<exists>code. lzw_pending ctx' = [of_nat code] \<and> code < 2 ^ minimum_code_size))"
proof (cases "12 \<le> minimum_code_size")
  case True
  then show ?thesis by (simp add: lzw_decode_init_def)
next
  case False
  define c0 where "c0 = ctx\<lparr>lz_input := (lz_input ctx)\<lparr>lr_data := data, lr_data_sb_next := pos,
      lr_sb_bit := 0, lr_sb_bit_count := 0\<rparr>, lz_initial_code_size := minimum_code_size + 1,
    lz_clear_code := 2 ^ minimum_code_size, lz_eoi_code := 2 ^ minimum_code_size + 1, lz_output_left := 0,
    lz_table := lzw_init_table [0..<2 ^ minimum_code_size] (lz_table ctx)\<rparr>"
  have "lzw_base c0" using False by (auto simp: lzw_base_def c0_def init_table_entry)
  moreover have "lzw_read_inv (lz_input c0)" by (simp add: lzw_read_inv_def c0_def)
  ultimately obtain res c1 code where
    h: "lzw__handle_clear c0 = Some (res, c1, code)" "lzw_read_inv (lz_input c1)" "lzw_table_inv c1"
      "lz_clear_code c1 = lz_clear_code c0" "lz_table_size c1 = lz_eoi_code c0 + 1" "lz_eoi_code c1 = lz_eoi_code c0"
      "res = LZW_OK \<longrightarrow> code < lz_clear_code c0" using handle_clear_ok by blast
  have init: "lzw_decode_init ctx minimum_code_size data pos = do {
      (res, ctx, code) \<leftarrow> Some (res, c1, code);
      if res \<noteq> LZW_OK then Some (res, ctx)
      else do { entry \<leftarrow> lzw_entry (lz_table ctx) code;
        Some (LZW_OK, ctx\<lparr>lz_prev_code_first := le_first entry, lz_prev_code_count := le_count entry,
          lz_prev_code := code, lz_output_code := code, lz_output_left := 1,
          lz_has_transparency := False, lz_transparency_idx := 0, lz_colour_map := None\<rparr>) } }"
    unfolding h(1) [symmetric] c0_def using False by (simp add: lzw_decode_init_def Let_def)
  show ?thesis
  proof (cases "res = LZW_OK")
    case e: False
    with init show ?thesis by simp
  next
    case True
    then have lt: "code < lz_clear_code c1" using h(4,7) by simp
    then have ok: "lzw_code_ok c1 code" using h(4-6) by (simp add: lzw_code_ok_def c0_def)
    note en = code_ok_entry [OF h(3) ok]
    have str: "lzw_str c1 code = [of_nat code]"
      using lzw_str_single [OF lt] en(2) lt by (simp add: lzw_entry_ok_def)
    define c2 where "c2 = c1\<lparr>lz_prev_code_first := le_first (lz_table c1 code),
      lz_prev_code_count := le_count (lz_table c1 code),
      lz_prev_code := code, lz_output_code := code, lz_output_left := 1,
      lz_has_transparency := False, lz_transparency_idx := 0, lz_colour_map := None\<rparr>"
    have rest: "lzw_table_inv c2 = lzw_table_inv c1" "lzw_str c2 = lzw_str c1" "lzw_code_ok c2 = lzw_code_ok c1"
      by (simp_all add: c2_def lzw_str_def lzw_code_ok_def lzw_table_inv_def lzw_entry_ok_def fun_eq_iff)
    have "lzw_inv c2" using h(2,3) ok en(2) str rest
      by (simp add: lzw_inv_def) (simp add: c2_def lzw_entry_ok_def)
    moreover have "lzw_pending c2 = [of_nat code]" using rest str by (simp add: lzw_pending_def) (simp add: c2_def)
    moreover have "code < 2 ^ minimum_code_size" using lt h(4) by (simp add: c0_def)
    ultimately show ?thesis using init True en(1) by (auto simp: c2_def)
  qed
qed

section \<open>The textbook step\<close>

lemma update_table_plain:
  assumes "lzw_inv ctx" and "code < 4096" and "code \<noteq> lz_clear_code ctx" and "code \<noteq> lz_eoi_code ctx"
    and "code \<le> lz_table_size ctx"
  obtains ctx' where "lzw_update_table ctx code = Some (LZW_OK, ctx', code)" and "lzw_table_inv ctx'"
    and "lzw_code_ok ctx' code" and "lzw_dict_step ctx code ctx'" and "lzw_str ctx' code = lzw_current ctx code"
proof -
  from update_table_ok [OF assms(1,2,4,5)] assms(3) obtain res ctx' code' where
    u: "lzw_update_table ctx code = Some (res, ctx', code')" "lzw_table_inv ctx'"
      "res = LZW_OK \<longrightarrow> lzw_code_ok ctx' code' \<and> code' = code \<and> lzw_dict_step ctx code ctx' \<and>
        lzw_str ctx' code' = lzw_current ctx code" by auto
  moreover have "res = LZW_OK" using u(1) assms(3) by (auto simp: lzw_update_table_def split: if_splits)
  ultimately show thesis using that by auto
qed

lemma dict_step_input [simp]:
  "lzw_current (ctx\<lparr>lz_input := input\<rparr>) = lzw_current ctx"
  "lzw_dict_step (ctx\<lparr>lz_input := input\<rparr>) = lzw_dict_step ctx"
  by (simp_all add: lzw_current_def lzw_dict_step_def Let_def fun_eq_iff)

lemma dict_step_after [simp]:
  "lzw_dict_step ctx code (ctx'\<lparr>lz_output_left := n\<rparr>) = lzw_dict_step ctx code ctx'"
  "lzw_dict_step ctx code (ctx'\<lparr>lz_output_code := n\<rparr>) = lzw_dict_step ctx code ctx'"
  "lzw_dict_step ctx code (ctx'\<lparr>lz_prev_code := n\<rparr>) = lzw_dict_step ctx code ctx'"
  "lzw_dict_step ctx code (ctx'\<lparr>lz_prev_code_first := b\<rparr>) = lzw_dict_step ctx code ctx'"
  "lzw_dict_step ctx code (ctx'\<lparr>lz_prev_code_count := n\<rparr>) = lzw_dict_step ctx code ctx'"
  by (simp_all add: lzw_dict_step_def)

text \<open>One new code that is neither the clear nor the end code.\<close>

lemma decode_textbook_step:
  assumes "lzw_inv ctx" and "written < length outbuf"
    and "lzw__read_code (lz_input ctx) (lz_code_size ctx) = Some (LZW_OK, input, code)"
    and "code \<noteq> lz_clear_code ctx" and "code \<noteq> lz_eoi_code ctx" and "code \<le> lz_table_size ctx"
    and "S = lzw_current ctx code" and "room = length outbuf - written"
  shows "\<exists>ctx'. lzw__decode lzw__write_fn ctx outbuf written =
      Some (LZW_OK, ctx', take written outbuf @ take room S @ drop (written + length S) outbuf,
        written + min (length S) room) \<and>
    lzw_dict_step ctx code ctx' \<and> lz_prev_code ctx' = code \<and> lzw_str ctx' code = S \<and> lzw_pending ctx' = drop room S"
proof -
  have cs: "lzw_read_inv (lz_input ctx)" "0 < lz_code_size ctx" "lz_code_size ctx \<le> 12"
    using assms(1) by (simp_all add: lzw_inv_def lzw_table_inv_def)
  from read_code_ok [OF this] assms(3) have r: "lzw_read_inv input" "code < 2 ^ lz_code_size ctx" by auto
  have "(2::nat) ^ lz_code_size ctx \<le> 2 ^ 12" using cs by (intro power_increasing) auto
  with r(2) have code: "code < 4096" by simp
  define c0 where "c0 = ctx\<lparr>lz_input := input\<rparr>"
  have inv0: "lzw_inv c0" unfolding c0_def by (rule inv_input [OF assms(1) r(1)])
  obtain c1 where u: "lzw_update_table c0 code = Some (LZW_OK, c1, code)" "lzw_table_inv c1" "lzw_code_ok c1 code"
      "lzw_dict_step c0 code c1" "lzw_str c1 code = lzw_current c0 code"
    using update_table_plain [OF inv0 code] assms(4-6) by (auto simp: c0_def)
  have S: "lzw_str c1 code = S" "lzw_dict_step ctx code c1" using u(4,5) assms(7) by (simp_all add: c0_def)
  note en = code_ok_entry [OF u(2,3)]
  have cnt: "le_count (lz_table c1 code) = length S" using en(2) S(1) by (simp add: lzw_entry_ok_def)
  have n: "lzw_next_code ctx = Some (LZW_OK, c1, code)"
    using assms(3-6) u(1) by (simp add: lzw_next_code_def Let_def c0_def)
  have w: "lzw__write_fn c1 outbuf written code (length S) =
      Some (c1\<lparr>lz_output_code := code, lz_output_left := length S - room\<rparr>,
        take written outbuf @ take room S @ drop (written + min (length S) room) outbuf, min (length S) room)"
    using lzwb.write_law [OF u(2,3), of "length S" written outbuf] S(1) assms(2,8) by (simp add: lzw_owed_def min.commute)
  have rest: "drop (written + min (length S) room) outbuf = drop (written + length S) outbuf"
    using assms(8) by (simp add: min_def)
  define c2 where "c2 = c1\<lparr>lz_output_code := code, lz_output_left := length S - room,
    lz_prev_code_first := le_first (lz_table c1 code), lz_prev_code_count := length S, lz_prev_code := code\<rparr>"
  have "lzw__decode lzw__write_fn ctx outbuf written =
      Some (LZW_OK, c2, take written outbuf @ take room S @ drop (written + length S) outbuf,
        written + min (length S) room)"
    using n en(1) cnt w rest by (simp add: decode_next c2_def)
  moreover have "lzw_dict_step ctx code c2 \<and> lz_prev_code c2 = code \<and> lzw_str c2 code = S" using S by (simp add: c2_def)
  moreover have "lzw_pending c2 = drop room S" using S(1) by (auto simp: lzw_pending_def c2_def min_def)
  ultimately show ?thesis by blast
qed

section \<open>Properties\<close>


text \<open>A context of an image of four colours: the codes clear and 0 of the sub-block 84 01 are read, the
  next code is 6, the first free one.\<close>

definition lzw_started :: lzw_ctx where
  "lzw_started = \<lparr>lz_input = \<lparr>lr_data = [2, 0x84, 0x01, 0], lr_data_sb_next = 3, lr_sb_data = 1, lr_sb_bit = 6,
       lr_sb_bit_count = 16\<rparr>,
     lz_prev_code = 0, lz_prev_code_first = 0, lz_prev_code_count = 1, lz_initial_code_size = 3, lz_code_size = 3,
     lz_code_max = 7, lz_clear_code = 4, lz_eoi_code = 5, lz_table_size = 6, lz_output_code = 0, lz_output_left = 0,
     lz_has_transparency = False, lz_transparency_idx = 0, lz_colour_map = None,
     lz_table = (\<lambda>i. \<lparr>le_value = of_nat i, le_first = of_nat i, le_count = 1, le_extends = 0\<rparr>)\<rparr>"

lemma started_inv: "lzw_inv lzw_started"
proof -
  have str: "lzw_str lzw_started 0 = [0]" by (subst lzw_str_single) (simp_all add: lzw_started_def)
  have "lzw_base lzw_started" by (simp add: lzw_base_def lzw_started_def)
  then have "lzw_table_inv lzw_started" by (rule base_table_inv) (simp_all add: lzw_started_def)
  moreover have "lzw_read_inv (lz_input lzw_started)" by (simp add: lzw_read_inv_def lzw_started_def)
  ultimately show ?thesis using str by (simp add: lzw_inv_def lzw_code_ok_def) (simp add: lzw_started_def)
qed

lemma started_code:
  "lzw__read_code (lz_input lzw_started) (lz_code_size lzw_started) =
     Some (LZW_OK, (lz_input lzw_started)\<lparr>lr_sb_bit := 9\<rparr>, 6)"
proof -
  let ?i = "lz_input lzw_started"
  have i: "?i = \<lparr>lr_data = [2, 0x84, 0x01, 0], lr_data_sb_next = 3, lr_sb_data = 1, lr_sb_bit = 6, lr_sb_bit_count = 16\<rparr>"
    "lz_code_size lzw_started = 3" by (simp_all add: lzw_started_def)
  have l: "lzw_sb_loop ?i 0 0 1 [2, 1, 249] = Some (?i\<lparr>lr_sb_bit := 9\<rparr>, 0x184, 2)"
    unfolding i by (simp add: lzw_sb_loop.simps read_byte_def)
  have "lzw_slow_loop (Suc 3) ?i 0 0 1 [2, 1, 249] = Some (LZW_OK, ?i\<lparr>lr_sb_bit := 9\<rparr>, 0x184)"
    unfolding lzw_slow_loop.simps(2) l by simp
  then show ?thesis by (simp add: lzw__read_code_def i Let_def)
qed


text \<open>Starting a session is safe on any input: whatever the code size, the data, the position in it
  and the garbage in the freshly allocated context, lzw_decode_init returns without leaving its arrays;
  on success the context is well formed and owes the caller exactly the first code's single value,
  which is a colour index of the image.\<close>

theorem lzw_init_safe:
  "\<exists>res ctx'. lzw_decode_init ctx minimum_code_size data pos = Some (res, ctx') \<and>
     (res = LZW_OK \<longrightarrow> lzw_inv ctx' \<and> (\<exists>code. lzw_pending ctx' = [of_nat code] \<and> code < 2 ^ minimum_code_size))"
  by (rule decode_init_ok)

definition lzw_junk :: lzw_ctx where
  "lzw_junk = \<lparr>lz_input = \<lparr>lr_data = [], lr_data_sb_next = 0, lr_sb_data = 0, lr_sb_bit = 0, lr_sb_bit_count = 0\<rparr>,
     lz_prev_code = 0, lz_prev_code_first = 0, lz_prev_code_count = 0, lz_initial_code_size = 0, lz_code_size = 0,
     lz_code_max = 0, lz_clear_code = 0, lz_eoi_code = 0, lz_table_size = 0, lz_output_code = 0, lz_output_left = 0,
     lz_has_transparency = False, lz_transparency_idx = 0, lz_colour_map = None,
     lz_table = (\<lambda>_. \<lparr>le_value = 0, le_first = 0, le_count = 0, le_extends = 65535\<rparr>)\<rparr>"

text \<open>A session on the sub-block 44 01: the 3-bit codes clear, 0, 5, so the image 0 0 0.\<close>

definition lzw_example :: "bytes" where
  "lzw_example = [2, 0x44, 0x01, 0]"

theorem lzw_init_safe_witness:
  "\<exists>res ctx'. lzw_decode_init lzw_junk 2 lzw_example 0 = Some (res, ctx') \<and>
     (res = LZW_OK \<longrightarrow> lzw_inv ctx' \<and> (\<exists>code. lzw_pending ctx' = [of_nat code] \<and> code < 2 ^ 2))"
  by (rule lzw_init_safe)

text \<open>C26: Decoding never leaves its arrays and always ends: from any well-formed context and for every
  output buffer, lzw_decode returns, has written at most the buffer, and when it reports success
  the buffer is full and the context well formed for the next call.\<close>

theorem lzw_decode_safe:
  assumes "lzw_inv ctx"
  shows "\<exists>res ctx' outbuf' written. lzw_decode ctx outbuf = Some (res, ctx', outbuf', written) \<and>
    length outbuf' = length outbuf \<and> written \<le> length outbuf \<and>
    (res = LZW_OK \<longrightarrow> lzw_inv ctx' \<and> written = length outbuf)"
  unfolding lzw_decode_def by (rule lzwb.decode_with_total [OF assms]) simp

theorem lzw_decode_safe_witness:
  "\<exists>res ctx' outbuf' written. lzw_decode lzw_started (replicate 3 0) = Some (res, ctx', outbuf', written) \<and>
     length outbuf' = length (replicate 3 0 :: u8 list) \<and> written \<le> length (replicate 3 0 :: u8 list) \<and>
     (res = LZW_OK \<longrightarrow> lzw_inv ctx' \<and> written = length (replicate 3 0 :: u8 list))"
  by (rule lzw_decode_safe [OF started_inv])

text \<open>The same holds for decoding straight to pixels: with a colour map of 256 entries
  lzw_decode_map never leaves the map or the frame, and without one it reports so and writes
  nothing.\<close>

theorem lzw_decode_map_safe:
  assumes "lzw_inv ctx" and "\<forall>c. lz_colour_map ctx = Some c \<longrightarrow> length c = 256"
  shows "\<exists>res ctx' outbuf' written. lzw_decode_map ctx outbuf = Some (res, ctx', outbuf', written) \<and>
    length outbuf' = length outbuf \<and> written \<le> length outbuf \<and>
    (res = LZW_OK \<longrightarrow> lzw_inv ctx' \<and> written = length outbuf) \<and>
    (lz_colour_map ctx = None \<longrightarrow> res = LZW_NO_COLOUR \<and> outbuf' = outbuf)"
proof (cases "lz_colour_map ctx")
  case None
  then show ?thesis by (simp add: lzw_decode_map_def)
next
  case (Some c)
  with assms have "\<exists>c. lz_colour_map ctx = Some c \<and> length c = 256" by simp
  from lzwm.decode_with_total [OF assms(1) this, of outbuf] Some show ?thesis by (simp add: lzw_decode_map_def)
qed

theorem lzw_decode_map_safe_witness:
  "\<exists>res ctx' outbuf' written. lzw_decode_map lzw_started [7] = Some (res, ctx', outbuf', written) \<and>
     length outbuf' = length [7 :: u32] \<and> written \<le> length [7 :: u32] \<and>
     (res = LZW_OK \<longrightarrow> lzw_inv ctx' \<and> written = length [7 :: u32]) \<and>
     (lz_colour_map lzw_started = None \<longrightarrow> res = LZW_NO_COLOUR \<and> outbuf' = [7])"
  by (rule lzw_decode_map_safe [OF started_inv]) (simp add: lzw_started_def)

text \<open>A code that ends exactly at the end of the last sub-block is lost: byte_advance counts
  one byte more than such a code has, so lzw__read_code goes on to the next sub-block and reports the
  end of the data, although all eight bits of the code 5 were there.\<close>

theorem lzw_aligned_last_code_lost:
  "\<exists>ctx. lzw__read_code \<lparr>lr_data = [1, 5, 0], lr_data_sb_next = 2, lr_sb_data = 1, lr_sb_bit = 0, lr_sb_bit_count = 8\<rparr> 8
     = Some (LZW_OK_EOD, ctx, 5)"
proof -
  let ?i = "\<lparr>lr_data = [1, 5, 0], lr_data_sb_next = 2, lr_sb_data = 1, lr_sb_bit = 0, lr_sb_bit_count = 8\<rparr> :: lzw_read_ctx"
  have l: "lzw_sb_loop ?i 0 0 1 [8, 0, 248] = Some (?i\<lparr>lr_sb_bit := 8\<rparr>, 5, 1)"
    by (simp add: lzw_sb_loop.simps read_byte_def)
  have "lzw_slow_loop (Suc 3) ?i 0 0 1 [8, 0, 248] =
      Some (LZW_OK_EOD, ?i\<lparr>lr_sb_bit := 0, lr_sb_bit_count := 0, lr_data_sb_next := 3\<rparr>, 5)"
    unfolding lzw_slow_loop.simps(2) l by (simp add: lzw__block_advance_def)
  then show ?thesis by (simp add: lzw__read_code_def Let_def)
qed

end
