(* ===== verification/Linked_Rings.thy ===== *)
theory Linked_Rings
  imports Prelude
begin

text \<open>
  Doubly linked lists that close on a head, the shape of both lists of the DOM: the children of a
  node (the head being the parent, with first_child and last_child for links) and the nodes of
  a document that wait for deletion. \<open>ring nx pv h xs\<close> says that following \<open>nx\<close> from \<open>h\<close> visits
  \<open>xs\<close> and returns to \<open>h\<close>, and that \<open>pv\<close> leads back the same way. Splicing a linked segment in
  and cutting one out are proved once, for any order of the pointer writes, and used for both.

  The second part is \<^verbatim>\<open>libdom/src/utils/list.h\<close>, the circular list itself.
\<close>

section \<open>Linked segments and rings\<close>

fun linked :: "('a \<Rightarrow> 'a) \<Rightarrow> 'a list \<Rightarrow> bool" where
  "linked nx (x # y # zs) \<longleftrightarrow> nx x = y \<and> linked nx (y # zs)"
| "linked nx _ \<longleftrightarrow> True"

fun blinked :: "('a \<Rightarrow> 'a) \<Rightarrow> 'a list \<Rightarrow> bool" where
  "blinked pv (x # y # zs) \<longleftrightarrow> pv y = x \<and> blinked pv (y # zs)"
| "blinked pv _ \<longleftrightarrow> True"

definition ring :: "('a \<Rightarrow> 'a) \<Rightarrow> ('a \<Rightarrow> 'a) \<Rightarrow> 'a \<Rightarrow> 'a list \<Rightarrow> bool" where
  "ring nx pv h xs \<longleftrightarrow> distinct (h # xs) \<and> linked nx (h # xs @ [h]) \<and> blinked pv (h # xs @ [h])"

lemma linked_append:
  "linked nx (xs @ ys) \<longleftrightarrow> linked nx xs \<and> linked nx ys \<and> (xs \<noteq> [] \<and> ys \<noteq> [] \<longrightarrow> nx (last xs) = hd ys)"
proof (induction xs)
  case (Cons x xs)
  then show ?case by (cases xs; cases ys) auto
qed simp

lemma blinked_append:
  "blinked pv (xs @ ys) \<longleftrightarrow> blinked pv xs \<and> blinked pv ys \<and> (xs \<noteq> [] \<and> ys \<noteq> [] \<longrightarrow> pv (hd ys) = last xs)"
proof (induction xs)
  case (Cons x xs)
  then show ?case by (cases xs; cases ys) auto
qed simp

lemma linked_cong: "(\<And>x. x \<in> set (butlast xs) \<Longrightarrow> nx' x = nx x) \<Longrightarrow> linked nx' xs = linked nx xs"
  by (induction nx xs rule: linked.induct) auto

lemma blinked_cong: "(\<And>x. x \<in> set (tl xs) \<Longrightarrow> pv' x = pv x) \<Longrightarrow> blinked pv' xs = blinked pv xs"
proof (induction pv xs rule: blinked.induct)
  case (1 pv x y zs)
  have "set zs \<subseteq> set (y # zs)" by auto
  with 1 show ?case by simp
qed auto

lemma ring_cong:
  assumes "\<And>x. x \<in> set (h # xs) \<Longrightarrow> nx' x = nx x" and "\<And>x. x \<in> set (h # xs) \<Longrightarrow> pv' x = pv x"
  shows "ring nx' pv' h xs = ring nx pv h xs"
proof -
  have "linked nx' (h # xs @ [h]) = linked nx (h # xs @ [h])"
    using assms(1) by (intro linked_cong) auto
  moreover have "blinked pv' (h # xs @ [h]) = blinked pv (h # xs @ [h])"
    using assms(2) by (intro blinked_cong) auto
  ultimately show ?thesis by (simp add: ring_def)
qed

lemma ring_Nil [simp]: "ring nx pv h [] \<longleftrightarrow> nx h = h \<and> pv h = h"
  by (simp add: ring_def)

lemma ring_ends:
  assumes "ring nx pv h xs"
  shows "nx h = hd (xs @ [h])" and "pv h = last (h # xs)"
  using assms linked_append [of nx "[h]" "xs @ [h]"] blinked_append [of pv "h # xs" "[h]"]
  by (simp_all add: ring_def)

lemma ring_mid:
  assumes "ring nx pv h (xs @ x # ys)"
  shows "nx x = hd (ys @ [h])" and "pv x = last (h # xs)"
  using assms linked_append [of nx "h # xs @ [x]" "ys @ [h]"] blinked_append [of pv "h # xs" "x # ys @ [h]"]
  by (simp_all add: ring_def)

lemma distinct_last_butlast: "distinct xs \<Longrightarrow> xs \<noteq> [] \<Longrightarrow> last xs \<notin> set (butlast xs)"
  by (metis append_butlast_last_id distinct_append disjoint_insert(1) empty_set list.simps(15))

lemma distinct_hd_tl: "distinct xs \<Longrightarrow> xs \<noteq> [] \<Longrightarrow> hd xs \<notin> set (tl xs)"
  by (cases xs) auto

lemma hd_snoc_in [simp]: "hd (ys @ [h]) \<in> set (ys @ [h])"
  by (cases ys) auto

text \<open>Splicing the linked segment \<open>zs\<close> in between \<open>xs\<close> and \<open>ys\<close>: the four links at its ends are set, every
  other link of the ring and of the segment is as it was.\<close>

lemma ring_splice:
  assumes r: "ring nx pv h (xs @ ys)" and z: "zs \<noteq> []" "distinct zs" "set zs \<inter> set (h # xs @ ys) = {}"
    and zl: "linked nx zs" "blinked pv zs"
    and n: "nx' (last (h # xs)) = hd zs" "nx' (last zs) = hd (ys @ [h])"
      "\<And>u. u \<in> set (h # xs @ zs @ ys) \<Longrightarrow> u \<noteq> last (h # xs) \<Longrightarrow> u \<noteq> last zs \<Longrightarrow> nx' u = nx u"
    and p: "pv' (hd (ys @ [h])) = last zs" "pv' (hd zs) = last (h # xs)"
      "\<And>u. u \<in> set (h # xs @ zs @ ys) \<Longrightarrow> u \<noteq> hd (ys @ [h]) \<Longrightarrow> u \<noteq> hd zs \<Longrightarrow> pv' u = pv u"
  shows "ring nx' pv' h (xs @ zs @ ys)"
proof -
  have d: "distinct (h # xs @ ys)" and l: "linked nx (h # xs)" "linked nx (ys @ [h])"
    "blinked pv (h # xs)" "blinked pv (ys @ [h])"
    using r linked_append [of nx "h # xs" "ys @ [h]"] blinked_append [of pv "h # xs" "ys @ [h]"]
    by (simp_all add: ring_def)
  have ends: "last (h # xs) \<in> set (h # xs)" "last zs \<in> set zs" "hd zs \<in> set zs" "hd (ys @ [h]) \<in> set (ys @ [h])"
    using z(1) hd_snoc_in [of ys h] by (auto simp del: hd_snoc_in)
  have a: "linked nx' (h # xs) = linked nx (h # xs)"
  proof (rule linked_cong)
    fix u assume u: "u \<in> set (butlast (h # xs))"
    then have "u \<in> set (h # xs)" by (rule in_set_butlastD)
    moreover have "u \<noteq> last (h # xs)" using u distinct_last_butlast [of "h # xs"] d by auto
    ultimately show "nx' u = nx u" using z(3) ends by (intro n(3)) auto
  qed
  have b: "linked nx' zs = linked nx zs"
  proof (rule linked_cong)
    fix u assume u: "u \<in> set (butlast zs)"
    then have "u \<in> set zs" by (rule in_set_butlastD)
    moreover have "u \<noteq> last zs" using u distinct_last_butlast [OF z(2,1)] by auto
    ultimately show "nx' u = nx u" using z(3) ends by (intro n(3)) auto
  qed
  have c: "linked nx' (ys @ [h]) = linked nx (ys @ [h])"
  proof (rule linked_cong)
    fix u assume "u \<in> set (butlast (ys @ [h]))"
    then have u: "u \<in> set ys" by simp
    then have "u \<noteq> last (h # xs)" "u \<noteq> last zs" using d z(3) ends by fastforce+
    then show "nx' u = nx u" using u by (intro n(3)) auto
  qed
  have e: "blinked pv' (h # xs) = blinked pv (h # xs)"
  proof (rule blinked_cong)
    fix u assume "u \<in> set (tl (h # xs))"
    then have u: "u \<in> set xs" by simp
    then have "u \<noteq> hd (ys @ [h])" "u \<noteq> hd zs" using d z(3) ends by fastforce+
    then show "pv' u = pv u" using u by (intro p(3)) auto
  qed
  have f: "blinked pv' zs = blinked pv zs"
  proof (rule blinked_cong)
    fix u assume u: "u \<in> set (tl zs)"
    then have "u \<in> set zs" by (rule list.set_sel(2) [OF z(1)])
    moreover have "u \<noteq> hd zs" using u distinct_hd_tl [OF z(2,1)] by auto
    ultimately show "pv' u = pv u" using z(3) ends by (intro p(3)) auto
  qed
  have g: "blinked pv' (ys @ [h]) = blinked pv (ys @ [h])"
  proof (rule blinked_cong)
    fix u assume u: "u \<in> set (tl (ys @ [h]))"
    then have m: "u \<in> set (ys @ [h])" by (meson list.set_sel(2) snoc_eq_iff_butlast)
    moreover have "u \<noteq> hd (ys @ [h])" using u distinct_hd_tl [of "ys @ [h]"] d by auto
    ultimately show "pv' u = pv u" using z(3) ends by (intro p(3)) auto
  qed
  have "linked nx' (h # xs @ zs @ ys @ [h])"
    using a b c l zl(1) n(1,2) z(1) linked_append [of nx' "h # xs" "zs @ ys @ [h]"] linked_append [of nx' zs "ys @ [h]"]
    by simp
  moreover have "blinked pv' (h # xs @ zs @ ys @ [h])"
    using e f g l zl(2) p(1,2) z(1) blinked_append [of pv' "h # xs" "zs @ ys @ [h]"] blinked_append [of pv' zs "ys @ [h]"]
    by simp
  moreover have "distinct (h # xs @ zs @ ys)" using d z(2,3) by auto
  ultimately show ?thesis by (simp add: ring_def)
qed

text \<open>Cutting a segment out: its neighbours are linked, the segment keeps its inner links.\<close>

lemma ring_segment:
  assumes "ring nx pv h (xs @ zs @ ys)"
  shows "linked nx zs" and "blinked pv zs" and "distinct zs"
  using assms linked_append [of nx "h # xs" "zs @ ys @ [h]"] linked_append [of nx zs "ys @ [h]"]
    blinked_append [of pv "h # xs" "zs @ ys @ [h]"] blinked_append [of pv zs "ys @ [h]"]
  by (simp_all add: ring_def)

lemma ring_cut:
  assumes r: "ring nx pv h (xs @ zs @ ys)"
    and n: "nx' (last (h # xs)) = hd (ys @ [h])" "\<And>u. u \<in> set (h # xs @ ys) \<Longrightarrow> u \<noteq> last (h # xs) \<Longrightarrow> nx' u = nx u"
    and p: "pv' (hd (ys @ [h])) = last (h # xs)" "\<And>u. u \<in> set (h # xs @ ys) \<Longrightarrow> u \<noteq> hd (ys @ [h]) \<Longrightarrow> pv' u = pv u"
  shows "ring nx' pv' h (xs @ ys)"
proof -
  have d: "distinct (h # xs @ ys)" and l: "linked nx (h # xs)" "linked nx (ys @ [h])"
    "blinked pv (h # xs)" "blinked pv (ys @ [h])"
    using r linked_append [of nx "h # xs" "zs @ ys @ [h]"] linked_append [of nx zs "ys @ [h]"]
      blinked_append [of pv "h # xs" "zs @ ys @ [h]"] blinked_append [of pv zs "ys @ [h]"]
    by (auto simp: ring_def)
  have ends: "last (h # xs) \<in> set (h # xs)" "hd (ys @ [h]) \<in> set (ys @ [h])"
    using hd_snoc_in [of ys h] by (auto simp del: hd_snoc_in)
  have "linked nx' (h # xs)"
  proof (subst linked_cong [where nx = nx])
    fix u assume u: "u \<in> set (butlast (h # xs))"
    then have "u \<in> set (h # xs)" by (rule in_set_butlastD)
    moreover have "u \<noteq> last (h # xs)" using u distinct_last_butlast [of "h # xs"] d by auto
    ultimately show "nx' u = nx u" by (intro n(2)) auto
  qed (rule l(1))
  moreover have "linked nx' (ys @ [h])"
    using l(2) d ends by (subst linked_cong [where nx = nx]) (fastforce intro!: n(2))+
  moreover have "blinked pv' (h # xs)"
    using l(3) d ends by (subst blinked_cong [where pv = pv]) (fastforce intro!: p(2))+
  moreover have "blinked pv' (ys @ [h])"
  proof (subst blinked_cong [where pv = pv])
    fix u assume u: "u \<in> set (tl (ys @ [h]))"
    then have "u \<in> set (ys @ [h])" by (meson list.set_sel(2) snoc_eq_iff_butlast)
    moreover have "u \<noteq> hd (ys @ [h])" using u distinct_hd_tl [of "ys @ [h]"] d by auto
    ultimately show "pv' u = pv u" by (intro p(2)) auto
  qed (rule l(4))
  ultimately show ?thesis
    using d n(1) p(1) linked_append [of nx' "h # xs" "ys @ [h]"] blinked_append [of pv' "h # xs" "ys @ [h]"]
    by (simp add: ring_def)
qed

section \<open>The circular list of list.h\<close>

record 'e list_entry =
  le_prev :: "'e \<Rightarrow> 'e"
  le_next :: "'e \<Rightarrow> 'e"

definition list_init :: "'e \<Rightarrow> 'e list_entry \<Rightarrow> 'e list_entry" where
  "list_init ent L = L\<lparr>le_prev := (le_prev L)(ent := ent), le_next := (le_next L)(ent := ent)\<rparr>"

definition list_append :: "'e \<Rightarrow> 'e \<Rightarrow> 'e list_entry \<Rightarrow> 'e list_entry" where
  "list_append head new L =
     (let L = L\<lparr>le_next := (le_next L)(new := head)\<rparr>;
          L = L\<lparr>le_prev := (le_prev L)(new := le_prev L head)\<rparr>;
          L = L\<lparr>le_next := (le_next L)(le_prev L head := new)\<rparr>
      in L\<lparr>le_prev := (le_prev L)(head := new)\<rparr>)"

definition list_del :: "'e \<Rightarrow> 'e list_entry \<Rightarrow> 'e list_entry" where
  "list_del ent L =
     (let L = L\<lparr>le_next := (le_next L)(le_prev L ent := le_next L ent)\<rparr>;
          L = L\<lparr>le_prev := (le_prev L)(le_next L ent := le_prev L ent)\<rparr>;
          L = L\<lparr>le_prev := (le_prev L)(ent := ent)\<rparr>
      in L\<lparr>le_next := (le_next L)(ent := ent)\<rparr>)"

text \<open>An entry is in no list when it is linked to itself; this is what the assertions test.\<close>

definition list_single :: "'e \<Rightarrow> 'e list_entry \<Rightarrow> bool" where
  "list_single e L \<longleftrightarrow> le_prev L e = e \<and> le_next L e = e"

definition list_members :: "'e list_entry \<Rightarrow> 'e \<Rightarrow> 'e list \<Rightarrow> bool" where
  "list_members L h xs \<longleftrightarrow> ring (le_next L) (le_prev L) h xs"

lemma list_init_members: "list_members (list_init h L) h []"
  by (simp add: list_members_def list_init_def)

lemma list_append_members:
  assumes "list_members L h xs" and "new \<notin> set (h # xs)"
  shows "list_members (list_append h new L) h (xs @ [new])"
proof -
  have r: "ring (le_next L) (le_prev L) h (xs @ [])" using assms(1) by (simp add: list_members_def)
  have e: "le_prev L h = last (h # xs)" using ring_ends(2) [OF r] by simp
  have l: "last (h # xs) \<in> set (h # xs)" by simp
  have "ring (le_next (list_append h new L)) (le_prev (list_append h new L)) h (xs @ [new] @ [])"
    by (rule ring_splice [OF r]) (use assms(2) e l in \<open>auto simp: list_append_def Let_def\<close>)
  then show ?thesis by (simp add: list_members_def)
qed

lemma list_del_members:
  assumes "list_members L h (xs @ e # ys)"
  shows "list_members (list_del e L) h (xs @ ys)" and "list_single e (list_del e L)"
proof -
  have r: "ring (le_next L) (le_prev L) h (xs @ [e] @ ys)" using assms by (simp add: list_members_def)
  have m: "le_next L e = hd (ys @ [h])" "le_prev L e = last (h # xs)"
    using ring_mid [OF assms [unfolded list_members_def]] by simp_all
  have d: "e \<noteq> last (h # xs)" "e \<noteq> hd (ys @ [h])" "e \<notin> set (h # xs @ ys)"
    using r hd_snoc_in [of ys h] last_in_set [of "h # xs"] by (auto simp: ring_def simp del: hd_snoc_in)
  show "list_members (list_del e L) h (xs @ ys)" unfolding list_members_def
    by (rule ring_cut [OF r]) (use m d in \<open>auto simp: list_del_def Let_def\<close>)
  show "list_single e (list_del e L)" using d m by (simp add: list_single_def list_del_def Let_def)
qed

text \<open>A list is not affected by what happens to entries outside it.\<close>

lemma list_append_other:
  assumes "list_members L h xs" and "list_members L k ys" and "set (h # xs) \<inter> set (k # ys) = {}" and "new \<notin> set (k # ys)"
  shows "list_members (list_append h new L) k ys"
proof -
  have "le_prev L h = last (h # xs)" using ring_ends(2) [OF assms(1) [unfolded list_members_def]] .
  then have "le_prev L h \<notin> set (k # ys)" using assms(3) last_in_set [of "h # xs"] by (auto simp del: last.simps)
  then show ?thesis using assms unfolding list_members_def
    by (subst ring_cong) (auto simp: list_append_def Let_def)
qed

lemma list_del_other:
  assumes "list_members L h (xs @ e # zs)" and "list_members L k ys" and "set (h # xs @ e # zs) \<inter> set (k # ys) = {}"
  shows "list_members (list_del e L) k ys"
proof -
  have "le_next L e = hd (zs @ [h])" "le_prev L e = last (h # xs)" "e \<noteq> last (h # xs)"
    using ring_mid [OF assms(1) [unfolded list_members_def]] assms(1) last_in_set [of "h # xs"]
    by (auto simp: list_members_def ring_def simp del: last.simps)
  moreover have "last (h # xs) \<notin> set (k # ys)" using assms(3) last_in_set [of "h # xs"] by (auto simp del: last.simps)
  moreover have "hd (zs @ [h]) \<notin> set (k # ys)" using assms(3) hd_snoc_in [of zs h] by (auto simp del: hd_snoc_in)
  moreover have "e \<notin> set (k # ys)" using assms(3) by auto
  ultimately show ?thesis using assms(2) unfolding list_members_def
    by (subst ring_cong) (auto simp: list_del_def Let_def)
qed

lemma list_single_append_other:
  assumes "list_members L h xs" and "e \<notin> set (h # xs)" and "e \<noteq> new" and "list_single e L"
  shows "list_single e (list_append h new L)"
proof -
  have "le_prev L h = last (h # xs)" using ring_ends(2) [OF assms(1) [unfolded list_members_def]] .
  then have "le_prev L h \<noteq> e" using assms(2) last_in_set [of "h # xs"] by (auto simp del: last.simps)
  with assms show ?thesis by (auto simp: list_single_def list_append_def Let_def)
qed

lemma list_single_del_other:
  assumes "list_members L h (xs @ e # ys)" and "u \<notin> set (h # xs @ e # ys)" and "list_single u L"
  shows "list_single u (list_del e L)"
proof -
  have "le_next L e = hd (ys @ [h])" "le_prev L e = last (h # xs)" "e \<noteq> last (h # xs)"
    using ring_mid [OF assms(1) [unfolded list_members_def]] assms(1) last_in_set [of "h # xs"]
    by (auto simp: list_members_def ring_def simp del: last.simps)
  moreover have "last (h # xs) \<noteq> u" using assms(2) last_in_set [of "h # xs"] by (auto simp del: last.simps)
  moreover have "hd (ys @ [h]) \<noteq> u" using assms(2) hd_snoc_in [of ys h] by (auto simp del: hd_snoc_in)
  ultimately show ?thesis using assms by (auto simp: list_single_def list_del_def Let_def)
qed

lemma list_members_not_single:
  assumes "list_members L h xs" and "e \<in> set xs"
  shows "le_prev L e \<noteq> e"
proof -
  obtain ys zs where xs: "xs = ys @ e # zs" using assms(2) by (meson split_list)
  then have "le_prev L e = last (h # ys)" 
    using ring_mid(2) [OF assms(1) [unfolded list_members_def xs]] by simp
  moreover have "e \<notin> set (h # ys)" using assms(1) xs by (auto simp: list_members_def ring_def)
  ultimately show ?thesis using last_in_set [of "h # ys"] by (auto simp del: last.simps)
qed

end
