(* ===== verification/Dom_Node.thy ===== *)
theory Dom_Node
  imports Linked_Rings
begin

text \<open>
  The node tree of the document object model, \<^verbatim>\<open>libdom/src/core/node.c\<close>: nodes in an explicit heap
  with the parent, child and sibling pointers of \<^verbatim>\<open>struct dom_node_internal\<close>, the lists of nodes that
  wait for deletion, and the operations that insert, replace and remove children, with every check
  and every write in the order of the code.

  A dereference of NULL or of a node that is not in the heap and a failed assertion are \<open>None\<close>; so is
  a pointer walk that does not end. Names lose their leading underscore.

  Event listeners are code of the client. Dispatching a mutation event appends it to a log, and the
  parameter \<open>out\<close> says with which exception the dispatch ends. While listeners run the document's
  semaphore dispatching_mutation is raised, which makes every operation below refuse to change the
  tree, so listeners leave the nodes as they are.
\<close>

section \<open>Nodes and documents\<close>

type_synonym dom_ptr = nat

datatype dom_exception =
    DOM_NO_ERR | DOM_INDEX_SIZE_ERR | DOM_DOMSTRING_SIZE_ERR | DOM_HIERARCHY_REQUEST_ERR | DOM_WRONG_DOCUMENT_ERR
  | DOM_INVALID_CHARACTER_ERR | DOM_NO_DATA_ALLOWED_ERR | DOM_NO_MODIFICATION_ALLOWED_ERR | DOM_NOT_FOUND_ERR
  | DOM_NOT_SUPPORTED_ERR | DOM_INUSE_ATTRIBUTE_ERR | DOM_INVALID_STATE_ERR | DOM_SYNTAX_ERR
  | DOM_INVALID_MODIFICATION_ERR | DOM_NAMESPACE_ERR | DOM_INVALID_ACCESS_ERR | DOM_VALIDATION_ERR
  | DOM_TYPE_MISMATCH_ERR | DOM_UNSPECIFIED_EVENT_TYPE_ERR | DOM_DISPATCH_REQUEST_ERR | DOM_NO_MEM_ERR
  | DOM_ATTR_WRONG_TYPE_ERR

datatype dom_node_type =
    DOM_ELEMENT_NODE | DOM_ATTRIBUTE_NODE | DOM_TEXT_NODE | DOM_CDATA_SECTION_NODE | DOM_ENTITY_REFERENCE_NODE
  | DOM_ENTITY_NODE | DOM_PROCESSING_INSTRUCTION_NODE | DOM_COMMENT_NODE | DOM_DOCUMENT_NODE
  | DOM_DOCUMENT_TYPE_NODE | DOM_DOCUMENT_FRAGMENT_NODE | DOM_NOTATION_NODE | DOM_NODE_TYPE_COUNT

text \<open>The read-only flag is that of an Attr node. The owner is the address of a document. Strings are given
  by their bytes.\<close>

record dom_node_internal =
  dn_name :: "bytes option"
  dn_value :: "bytes option"
  dn_type :: dom_node_type
  dn_parent :: "dom_ptr option"
  dn_first_child :: "dom_ptr option"
  dn_last_child :: "dom_ptr option"
  dn_previous :: "dom_ptr option"
  dn_next :: "dom_ptr option"
  dn_owner :: "dom_ptr option"
  dn_namespace :: "bytes option"
  dn_prefix :: "bytes option"
  dn_refcnt :: u32
  dn_read_only :: bool

text \<open>The list entries: the head in a document, pending_nodes, and the one in each node, pending_list.\<close>

datatype pending_entry = PendingHead dom_ptr | PendingOf dom_ptr

datatype dom_mutation_type = DOM_MUTATION_MODIFICATION | DOM_MUTATION_ADDITION | DOM_MUTATION_REMOVAL

datatype dom_mutation =
    NodeChange dom_mutation_type dom_ptr "dom_ptr option"
  | NodeChangeDocument dom_mutation_type dom_ptr
  | SubtreeModified dom_ptr

text \<open>\<open>ds_dispatching\<close> holds the semaphore of every document that exists.\<close>

record dom_state =
  ds_nodes :: "dom_ptr \<Rightarrow> dom_node_internal option"
  ds_dispatching :: "dom_ptr \<Rightarrow> u32 option"
  ds_pending :: "pending_entry list_entry"
  ds_events :: "dom_mutation list"

type_synonym dispatcher = "dom_mutation \<Rightarrow> dom_mutation list \<Rightarrow> dom_exception"

text \<open>A write to a field of the node at an address.\<close>

definition node_set :: "dom_ptr \<Rightarrow> (dom_node_internal \<Rightarrow> dom_node_internal) \<Rightarrow> dom_state \<Rightarrow> dom_state option" where
  "node_set n f s = do { r \<leftarrow> ds_nodes s n; Some (s\<lparr>ds_nodes := (ds_nodes s)(n \<mapsto> f r)\<rparr>) }"

abbreviation set_parent where "set_parent n v \<equiv> node_set n (\<lambda>r. r\<lparr>dn_parent := v\<rparr>)"
abbreviation set_first_child where "set_first_child n v \<equiv> node_set n (\<lambda>r. r\<lparr>dn_first_child := v\<rparr>)"
abbreviation set_last_child where "set_last_child n v \<equiv> node_set n (\<lambda>r. r\<lparr>dn_last_child := v\<rparr>)"
abbreviation set_previous where "set_previous n v \<equiv> node_set n (\<lambda>r. r\<lparr>dn_previous := v\<rparr>)"
abbreviation set_next where "set_next n v \<equiv> node_set n (\<lambda>r. r\<lparr>dn_next := v\<rparr>)"
abbreviation set_owner where "set_owner n v \<equiv> node_set n (\<lambda>r. r\<lparr>dn_owner := v\<rparr>)"

definition dom_node_ref :: "dom_ptr \<Rightarrow> dom_state \<Rightarrow> dom_state option" where
  "dom_node_ref n s = node_set n (\<lambda>r. r\<lparr>dn_refcnt := dn_refcnt r + 1\<rparr>) s"

section \<open>The pending lists\<close>

definition dom_node_mark_pending :: "dom_ptr \<Rightarrow> dom_state \<Rightarrow> dom_state option" where
  "dom_node_mark_pending n s = do {
     r \<leftarrow> ds_nodes s n;
     case dn_owner r of
       None \<Rightarrow> Some s
     | Some doc \<Rightarrow>
         if le_prev (ds_pending s) (PendingOf n) \<noteq> PendingOf n then None
         else do {
           _ \<leftarrow> ds_dispatching s doc;
           Some (s\<lparr>ds_pending := list_append (PendingHead doc) (PendingOf n) (ds_pending s)\<rparr>)
         }
   }"

definition dom_node_remove_pending :: "dom_ptr \<Rightarrow> dom_state \<Rightarrow> dom_state option" where
  "dom_node_remove_pending n s = do {
     r \<leftarrow> ds_nodes s n;
     case dn_owner r of
       None \<Rightarrow> Some s
     | Some doc \<Rightarrow>
         if le_prev (ds_pending s) (PendingOf n) = PendingOf n then None
         else Some (s\<lparr>ds_pending := list_del (PendingOf n) (ds_pending s)\<rparr>)
   }"

text \<open>Initialising the node a constructor has allocated: the links and the pending list.\<close>

definition dom_node_initialise ::
  "dom_ptr \<Rightarrow> dom_ptr option \<Rightarrow> dom_node_type \<Rightarrow> bytes option \<Rightarrow> bytes option \<Rightarrow> bytes option \<Rightarrow> bytes option \<Rightarrow>
   dom_state \<Rightarrow> dom_state option" where
  "dom_node_initialise n doc type name value namespace prefix s =
     (let s = s\<lparr>ds_nodes := (ds_nodes s)(n \<mapsto> \<lparr>dn_name = name, dn_value = value, dn_type = type, dn_parent = None,
                  dn_first_child = None, dn_last_child = None, dn_previous = None, dn_next = None, dn_owner = doc,
                  dn_namespace = namespace, dn_prefix = prefix, dn_refcnt = 1, dn_read_only = False\<rparr>),
                ds_pending := list_init (PendingOf n) (ds_pending s)\<rparr>
      in if type \<noteq> DOM_DOCUMENT_NODE then dom_node_mark_pending n s else Some s)"

text \<open>A new document owns itself. Its name is \<open>#document\<close>.\<close>

definition dom_document_initialise :: "dom_ptr \<Rightarrow> dom_state \<Rightarrow> dom_state option" where
  "dom_document_initialise d s = do {
     s \<leftarrow> dom_node_initialise d (Some d) DOM_DOCUMENT_NODE
            (Some [0x23, 0x64, 0x6F, 0x63, 0x75, 0x6D, 0x65, 0x6E, 0x74]) None None None s;
     Some (s\<lparr>ds_pending := list_init (PendingHead d) (ds_pending s), ds_dispatching := (ds_dispatching s)(d \<mapsto> 0)\<rparr>)
   }"

section \<open>Dispatching mutation events\<close>

definition fire :: "dispatcher \<Rightarrow> dom_mutation \<Rightarrow> dom_state \<Rightarrow> dom_exception \<times> dom_state" where
  "fire out ev s = (out ev (ds_events s), s\<lparr>ds_events := ds_events s @ [ev]\<rparr>)"

definition dispatch_subtree_modified_event ::
  "dispatcher \<Rightarrow> dom_ptr option \<Rightarrow> dom_ptr \<Rightarrow> dom_state \<Rightarrow> (dom_exception \<times> dom_state) option" where
  "dispatch_subtree_modified_event out doc et s = do { doc \<leftarrow> doc; Some (fire out (SubtreeModified et) s) }"

text \<open>Climbing from the last node of a subtree to the node that has a next sibling, or below \<open>node\<close>.\<close>

partial_function (option) climb :: "(dom_ptr \<Rightarrow> dom_node_internal option) \<Rightarrow> dom_ptr \<Rightarrow> dom_ptr \<Rightarrow> dom_ptr option" where
  "climb nodes node target = do {
     r \<leftarrow> nodes target;
     if dn_parent r = Some node then Some target
     else do {
       parent \<leftarrow> dn_parent r;
       p \<leftarrow> nodes parent;
       if dn_last_child p = Some target then climb nodes node parent else Some target
     }
   }"

partial_function (option) change_loop ::
  "dispatcher \<Rightarrow> dom_ptr \<Rightarrow> dom_mutation_type \<Rightarrow> dom_ptr option \<Rightarrow> dom_state \<Rightarrow> (dom_exception \<times> dom_state) option" where
  "change_loop out node change target s =
     (case target of
        None \<Rightarrow> Some (DOM_NO_ERR, s)
      | Some t \<Rightarrow>
          (case fire out (NodeChangeDocument change t) s of (err, s) \<Rightarrow>
             if err \<noteq> DOM_NO_ERR then Some (err, s)
             else do {
               r \<leftarrow> ds_nodes s t;
               if dn_first_child r \<noteq> None then change_loop out node change (dn_first_child r) s
               else if dn_next r \<noteq> None then change_loop out node change (dn_next r) s
               else do {
                 t \<leftarrow> climb (ds_nodes s) node t;
                 r \<leftarrow> ds_nodes s t;
                 change_loop out node change (dn_next r) s
               }
             }))"

definition dom_node_dispatch_node_change_event ::
  "dispatcher \<Rightarrow> dom_ptr option \<Rightarrow> dom_ptr \<Rightarrow> dom_ptr option \<Rightarrow> dom_mutation_type \<Rightarrow> dom_state \<Rightarrow>
   (dom_exception \<times> dom_state) option" where
  "dom_node_dispatch_node_change_event out doc node related change s = do {
     _ \<leftarrow> doc;
     (case fire out (NodeChange change node related) s of (err, s) \<Rightarrow>
        if err \<noteq> DOM_NO_ERR then Some (err, s)
        else do { r \<leftarrow> ds_nodes s node; change_loop out node change (dn_first_child r) s })
   }"

section \<open>Checks\<close>

text \<open>Is there a sibling of this type, from \<open>n\<close> on?\<close>

partial_function (option) sibling_of_type :: "dom_state \<Rightarrow> dom_node_type \<Rightarrow> dom_ptr option \<Rightarrow> bool option" where
  "sibling_of_type s ty n =
     (case n of
        None \<Rightarrow> Some False
      | Some m \<Rightarrow> do {
          r \<leftarrow> ds_nodes s m;
          rest \<leftarrow> sibling_of_type s ty (dn_next r);
          Some (dn_type r = ty \<or> rest)
        })"

text \<open>The types allowed as children, and the restriction on the children of a document.\<close>

definition child_type_ok :: "dom_node_type \<Rightarrow> dom_node_type \<Rightarrow> bool" where
  "child_type_ok parent child =
     (case parent of
        DOM_ATTRIBUTE_NODE \<Rightarrow> child \<in> {DOM_TEXT_NODE, DOM_ENTITY_REFERENCE_NODE}
      | DOM_DOCUMENT_NODE \<Rightarrow> child \<in> {DOM_ELEMENT_NODE, DOM_PROCESSING_INSTRUCTION_NODE, DOM_COMMENT_NODE,
                                DOM_DOCUMENT_TYPE_NODE}
      | _ \<Rightarrow> parent \<in> {DOM_ELEMENT_NODE, DOM_ENTITY_REFERENCE_NODE, DOM_ENTITY_NODE, DOM_DOCUMENT_FRAGMENT_NODE} \<and>
             child \<in> {DOM_ELEMENT_NODE, DOM_TEXT_NODE, DOM_COMMENT_NODE, DOM_PROCESSING_INSTRUCTION_NODE,
               DOM_CDATA_SECTION_NODE, DOM_ENTITY_REFERENCE_NODE})"

definition dom_node_permitted_child :: "dom_state \<Rightarrow> dom_ptr \<Rightarrow> dom_ptr \<Rightarrow> bool option" where
  "dom_node_permitted_child s parent child = do {
     p \<leftarrow> ds_nodes s parent;
     c \<leftarrow> ds_nodes s child;
     (let valid = child_type_ok (dn_type p) (dn_type c) in
      if dn_type p = DOM_DOCUMENT_NODE \<and> dn_type c \<in> {DOM_ELEMENT_NODE, DOM_DOCUMENT_TYPE_NODE}
      then do { there \<leftarrow> sibling_of_type s (dn_type c) (dn_first_child p); Some (valid \<and> \<not> there) }
      else Some valid)
   }"

text \<open>All children of a fragment, from \<open>c\<close> on.\<close>

partial_function (option) all_permitted :: "dom_state \<Rightarrow> dom_ptr \<Rightarrow> dom_ptr option \<Rightarrow> bool option" where
  "all_permitted s node c =
     (case c of
        None \<Rightarrow> Some True
      | Some m \<Rightarrow> do {
          ok \<leftarrow> dom_node_permitted_child s node m;
          if \<not> ok then Some False
          else do { r \<leftarrow> ds_nodes s m; all_permitted s node (dn_next r) }
        })"

definition dom_node_readonly_owner :: "dom_state \<Rightarrow> dom_ptr \<Rightarrow> bool option" where
  "dom_node_readonly_owner s n = do {
     r \<leftarrow> ds_nodes s n;
     case dn_owner r of
       None \<Rightarrow> Some False
     | Some doc \<Rightarrow> do { d \<leftarrow> ds_dispatching s doc; Some (d > 0) }
   }"

partial_function (option) in_entity :: "dom_state \<Rightarrow> dom_ptr option \<Rightarrow> bool option" where
  "in_entity s n =
     (case n of
        None \<Rightarrow> Some False
      | Some m \<Rightarrow> do {
          r \<leftarrow> ds_nodes s m;
          if dn_type r \<in> {DOM_ENTITY_NODE, DOM_ENTITY_REFERENCE_NODE} then Some True
          else in_entity s (dn_parent r)
        })"

definition dom_node_readonly :: "dom_state \<Rightarrow> dom_ptr \<Rightarrow> bool option" where
  "dom_node_readonly s n = do {
     ro \<leftarrow> dom_node_readonly_owner s n;
     if ro then Some True
     else do {
       r \<leftarrow> ds_nodes s n;
       if dn_type r \<in> {DOM_DOCUMENT_TYPE_NODE, DOM_NOTATION_NODE} then Some True
       else if dn_type r = DOM_ATTRIBUTE_NODE then Some (dn_read_only r)
       else in_entity s (Some n)
     }
   }"

text \<open>Is \<open>a\<close> the node \<open>n\<close> or one of its ancestors?\<close>

partial_function (option) has_ancestor :: "dom_state \<Rightarrow> dom_ptr \<Rightarrow> dom_ptr option \<Rightarrow> bool option" where
  "has_ancestor s a n =
     (case n of
        None \<Rightarrow> Some False
      | Some m \<Rightarrow> if m = a then Some True else do { r \<leftarrow> ds_nodes s m; has_ancestor s a (dn_parent r) })"

definition dom_node_contains :: "dom_state \<Rightarrow> dom_ptr \<Rightarrow> dom_ptr \<Rightarrow> bool option" where
  "dom_node_contains s node other = do {
     r \<leftarrow> ds_nodes s node;
     q \<leftarrow> ds_nodes s other;
     if dn_owner r \<noteq> dn_owner q then Some False else has_ancestor s node (Some other)
   }"

section \<open>Attaching and detaching\<close>

text \<open>The link before and the link after a place in a child list, in the parent at the ends.\<close>

definition set_link_before :: "dom_ptr option \<Rightarrow> dom_ptr option \<Rightarrow> dom_ptr option \<Rightarrow> dom_state \<Rightarrow> dom_state option" where
  "set_link_before parent previous v s =
     (case previous of
        Some p \<Rightarrow> set_next p v s
      | None \<Rightarrow> do { p \<leftarrow> parent; set_first_child p v s })"

definition set_link_after :: "dom_ptr option \<Rightarrow> dom_ptr option \<Rightarrow> dom_ptr option \<Rightarrow> dom_state \<Rightarrow> dom_state option" where
  "set_link_after parent next v s =
     (case next of
        Some p \<Rightarrow> set_previous p v s
      | None \<Rightarrow> do { p \<leftarrow> parent; set_last_child p v s })"

definition attach_links ::
  "dom_ptr \<Rightarrow> dom_ptr \<Rightarrow> dom_ptr \<Rightarrow> dom_ptr option \<Rightarrow> dom_ptr option \<Rightarrow> dom_state \<Rightarrow> dom_state option" where
  "attach_links first lst parent previous next s = do {
     s \<leftarrow> set_previous first previous s;
     s \<leftarrow> set_next lst next s;
     s \<leftarrow> set_link_before (Some parent) previous (Some first) s;
     set_link_after (Some parent) next (Some lst) s
   }"

partial_function (option) attach_loop ::
  "dispatcher \<Rightarrow> dom_ptr option \<Rightarrow> dom_ptr \<Rightarrow> dom_ptr \<Rightarrow> dom_state \<Rightarrow> (dom_exception \<times> dom_state) option" where
  "attach_loop out n lst parent s = do {
     l \<leftarrow> ds_nodes s lst;
     if n = dn_next l then Some (DOM_NO_ERR, s)
     else do {
       m \<leftarrow> n;
       s \<leftarrow> set_parent m (Some parent) s;
       p \<leftarrow> ds_nodes s parent;
       (err, s) \<leftarrow> dom_node_dispatch_node_change_event out (dn_owner p) m (Some parent) DOM_MUTATION_ADDITION s;
       if err \<noteq> DOM_NO_ERR then Some (err, s)
       else do { r \<leftarrow> ds_nodes s m; attach_loop out (dn_next r) lst parent s }
     }
   }"

definition dom_node_attach_range ::
  "dispatcher \<Rightarrow> dom_ptr \<Rightarrow> dom_ptr \<Rightarrow> dom_ptr \<Rightarrow> dom_ptr option \<Rightarrow> dom_ptr option \<Rightarrow> dom_state \<Rightarrow>
   (dom_exception \<times> dom_state) option" where
  "dom_node_attach_range out first lst parent previous next s = do {
     s \<leftarrow> attach_links first lst parent previous next s;
     (err, s) \<leftarrow> attach_loop out (Some first) lst parent s;
     if err \<noteq> DOM_NO_ERR then Some (err, s)
     else do { p \<leftarrow> ds_nodes s parent; dispatch_subtree_modified_event out (dn_owner p) parent s }
   }"

definition dom_node_attach ::
  "dispatcher \<Rightarrow> dom_ptr \<Rightarrow> dom_ptr \<Rightarrow> dom_ptr option \<Rightarrow> dom_ptr option \<Rightarrow> dom_state \<Rightarrow> (dom_exception \<times> dom_state) option" where
  "dom_node_attach out node parent previous next s = dom_node_attach_range out node node parent previous next s"

definition detach_links :: "dom_ptr \<Rightarrow> dom_ptr \<Rightarrow> dom_state \<Rightarrow> dom_state option" where
  "detach_links first lst s = do {
     f \<leftarrow> ds_nodes s first;
     l \<leftarrow> ds_nodes s lst;
     s \<leftarrow> set_link_before (dn_parent f) (dn_previous f) (dn_next l) s;
     f \<leftarrow> ds_nodes s first;
     l \<leftarrow> ds_nodes s lst;
     set_link_after (dn_parent l) (dn_next l) (dn_previous f) s
   }"

partial_function (option) detach_loop ::
  "dispatcher \<Rightarrow> dom_exception \<Rightarrow> dom_ptr option \<Rightarrow> dom_ptr \<Rightarrow> dom_state \<Rightarrow> (dom_exception \<times> dom_state) option" where
  "detach_loop out err n lst s = do {
     l \<leftarrow> ds_nodes s lst;
     if n = dn_next l then Some (err, s)
     else do {
       m \<leftarrow> n;
       r \<leftarrow> ds_nodes s m;
       (err, s) \<leftarrow> dom_node_dispatch_node_change_event out (dn_owner r) m (dn_parent r) DOM_MUTATION_REMOVAL s;
       s \<leftarrow> set_parent m None s;
       r \<leftarrow> ds_nodes s m;
       detach_loop out err (dn_next r) lst s
     }
   }"

definition dom_node_detach_range ::
  "dispatcher \<Rightarrow> dom_ptr \<Rightarrow> dom_ptr \<Rightarrow> dom_state \<Rightarrow> (dom_exception \<times> dom_state) option" where
  "dom_node_detach_range out first lst s = do {
     s \<leftarrow> detach_links first lst s;
     f \<leftarrow> ds_nodes s first;
     (let parent = dn_parent f in do {
        (err, s) \<leftarrow> detach_loop out DOM_NO_ERR (Some first) lst s;
        parent \<leftarrow> parent;
        p \<leftarrow> ds_nodes s parent;
        (_, s) \<leftarrow> dispatch_subtree_modified_event out (dn_owner p) parent s;
        s \<leftarrow> set_previous first None s;
        s \<leftarrow> set_next lst None s;
        Some (err, s)
      })
   }"

definition dom_node_detach :: "dispatcher \<Rightarrow> dom_ptr \<Rightarrow> dom_state \<Rightarrow> dom_state option" where
  "dom_node_detach out node s = do {
     s \<leftarrow> dom_node_mark_pending node s;
     (_, s) \<leftarrow> dom_node_detach_range out node node s;
     Some s
   }"

text \<open>Replacing a node by a run of siblings; with nothing to put in its place only the ends of the
  child list are looked after.\<close>

partial_function (option) replace_parent_loop ::
  "dom_ptr option \<Rightarrow> dom_ptr \<Rightarrow> dom_ptr \<Rightarrow> dom_state \<Rightarrow> dom_state option" where
  "replace_parent_loop n lst old s = do {
     l \<leftarrow> ds_nodes s lst;
     if n = None \<or> n = dn_next l then Some s
     else do {
       m \<leftarrow> n;
       o' \<leftarrow> ds_nodes s old;
       s \<leftarrow> set_parent m (dn_parent o') s;
       r \<leftarrow> ds_nodes s m;
       replace_parent_loop (dn_next r) lst old s
     }
   }"

definition replace_unlink :: "dom_ptr \<Rightarrow> dom_state \<Rightarrow> dom_state option" where
  "replace_unlink old s = do {
     s \<leftarrow> set_parent old None s;
     s \<leftarrow> set_next old None s;
     set_previous old None s
   }"

definition replace_by_nothing :: "dom_ptr \<Rightarrow> dom_state \<Rightarrow> dom_state option" where
  "replace_by_nothing old s = do {
     o' \<leftarrow> ds_nodes s old;
     s \<leftarrow> (if dn_previous o' = None then do { p \<leftarrow> dn_parent o'; set_first_child p (dn_next o') s } else Some s);
     o' \<leftarrow> ds_nodes s old;
     s \<leftarrow> (if dn_next o' = None then do { p \<leftarrow> dn_parent o'; set_last_child p (dn_previous o') s } else Some s);
     replace_unlink old s
   }"

definition replace_links :: "dom_ptr \<Rightarrow> dom_ptr \<Rightarrow> dom_ptr \<Rightarrow> dom_state \<Rightarrow> dom_state option" where
  "replace_links old first lst s = do {
     o' \<leftarrow> ds_nodes s old;
     s \<leftarrow> set_previous first (dn_previous o') s;
     o' \<leftarrow> ds_nodes s old;
     s \<leftarrow> set_next lst (dn_next o') s;
     o' \<leftarrow> ds_nodes s old;
     s \<leftarrow> set_link_before (dn_parent o') (dn_previous o') (Some first) s;
     o' \<leftarrow> ds_nodes s old;
     set_link_after (dn_parent o') (dn_next o') (Some lst) s
   }"

definition dom_node_replace :: "dom_ptr \<Rightarrow> dom_ptr \<Rightarrow> dom_state \<Rightarrow> dom_state option" where
  "dom_node_replace old replacement s = do {
     r \<leftarrow> ds_nodes s replacement;
     (first, lst, s) \<leftarrow>
       (if dn_type r = DOM_DOCUMENT_FRAGMENT_NODE
        then do {
          s \<leftarrow> set_last_child replacement None s;
          s \<leftarrow> set_first_child replacement None s;
          Some (dn_first_child r, dn_last_child r, s)
        }
        else Some (Some replacement, Some replacement, s));
     case first of
       None \<Rightarrow> replace_by_nothing old s
     | Some first \<Rightarrow> do {
         lst \<leftarrow> lst;
         s \<leftarrow> replace_links old first lst s;
         s \<leftarrow> replace_parent_loop (Some first) lst old s;
         replace_unlink old s
       }
   }"

section \<open>The operations of the Node interface\<close>

text \<open>The result is the exception, the node stored through the result pointer, and the state.\<close>

type_synonym dom_result = "(dom_exception \<times> dom_ptr option \<times> dom_state) option"

definition dom_ok :: "dom_ptr \<Rightarrow> dom_state \<Rightarrow> dom_result" where
  "dom_ok n s = do { s \<leftarrow> dom_node_ref n s; Some (DOM_NO_ERR, Some n, s) }"

definition dom_fail :: "dom_exception \<Rightarrow> dom_state \<Rightarrow> dom_result" where
  "dom_fail e s = Some (e, None, s)"

text \<open>Taking a node out of the tree it is in and out of the pending list: \<open>Inl\<close> is a refusal.\<close>

definition take_out :: "dispatcher \<Rightarrow> dom_ptr \<Rightarrow> dom_state \<Rightarrow> (dom_exception + dom_state) option" where
  "take_out out new_child s = do {
     c \<leftarrow> ds_nodes s new_child;
     ro \<leftarrow> (case dn_parent c of None \<Rightarrow> Some False | Some p \<Rightarrow> dom_node_readonly s p);
     if ro then Some (Inl DOM_NO_MODIFICATION_ALLOWED_ERR)
     else do {
       s \<leftarrow> (if dn_parent c = None then Some s else dom_node_detach out new_child s);
       s \<leftarrow> dom_node_remove_pending new_child s;
       Some (Inr s)
     }
   }"

text \<open>The second half of insert_before: attaching a fragment's children or the node itself.\<close>

definition insert_attach ::
  "dispatcher \<Rightarrow> dom_ptr \<Rightarrow> dom_ptr \<Rightarrow> dom_ptr option \<Rightarrow> dom_state \<Rightarrow> (dom_exception \<times> dom_state) option" where
  "insert_attach out node new_child ref_child s = do {
     p \<leftarrow> ds_nodes s node;
     c \<leftarrow> ds_nodes s new_child;
     previous \<leftarrow> (case ref_child of None \<Rightarrow> Some (dn_last_child p) | Some r \<Rightarrow> map_option dn_previous (ds_nodes s r));
     if dn_type c = DOM_DOCUMENT_FRAGMENT_NODE
     then do {
       ok \<leftarrow> all_permitted s node (dn_first_child c);
       if \<not> ok then Some (DOM_HIERARCHY_REQUEST_ERR, s)
       else (case dn_first_child c of
           None \<Rightarrow> Some (DOM_NO_ERR, s)
         | Some first \<Rightarrow> do {
             lst \<leftarrow> dn_last_child c;
             (err, s) \<leftarrow> dom_node_attach_range out first lst node previous ref_child s;
             if err \<noteq> DOM_NO_ERR then Some (err, s)
             else do {
               s \<leftarrow> set_first_child new_child None s;
               s \<leftarrow> set_last_child new_child None s;
               Some (DOM_NO_ERR, s)
             }
           })
     }
     else dom_node_attach out new_child node previous ref_child s
   }"

definition dom_node_insert_before ::
  "dispatcher \<Rightarrow> dom_ptr \<Rightarrow> dom_ptr \<Rightarrow> dom_ptr option \<Rightarrow> dom_state \<Rightarrow> dom_result" where
  "dom_node_insert_before out node new_child ref_child s = do {
     p \<leftarrow> ds_nodes s node;
     c \<leftarrow> ds_nodes s new_child;
     if dn_owner c \<noteq> dn_owner p \<and> (dn_type c = DOM_DOCUMENT_TYPE_NODE \<longrightarrow> dn_owner c \<noteq> None)
     then dom_fail DOM_WRONG_DOCUMENT_ERR s
     else do {
       ro \<leftarrow> dom_node_readonly s node;
       if ro then dom_fail DOM_NO_MODIFICATION_ALLOWED_ERR s
       else do {
         ref_ok \<leftarrow> (case ref_child of None \<Rightarrow> Some True
                      | Some r \<Rightarrow> map_option (\<lambda>q. dn_parent q = Some node) (ds_nodes s r));
         if \<not> ref_ok then dom_fail DOM_NOT_FOUND_ERR s
         else do {
           anc \<leftarrow> has_ancestor s new_child (Some node);
           if anc then dom_fail DOM_HIERARCHY_REQUEST_ERR s
           else do {
             ok \<leftarrow> (if dn_type c = DOM_DOCUMENT_FRAGMENT_NODE then Some True
                     else dom_node_permitted_child s node new_child);
             if \<not> ok then dom_fail DOM_HIERARCHY_REQUEST_ERR s
             else if ref_child = Some new_child then dom_ok new_child s
             else do {
               t \<leftarrow> take_out out new_child s;
               case t of
                 Inl err \<Rightarrow> dom_fail err s
               | Inr s \<Rightarrow> do {
                   (err, s) \<leftarrow> insert_attach out node new_child ref_child s;
                   if err \<noteq> DOM_NO_ERR then dom_fail err s
                   else do {
                     s \<leftarrow> (if dn_type p = DOM_DOCUMENT_NODE \<and> dn_type c = DOM_DOCUMENT_TYPE_NODE
                            then set_owner new_child (Some node) s else Some s);
                     dom_ok new_child s
                   }
                 }
             }
           }
         }
       }
     }
   }"

definition dom_node_append_child :: "dispatcher \<Rightarrow> dom_ptr \<Rightarrow> dom_ptr \<Rightarrow> dom_state \<Rightarrow> dom_result" where
  "dom_node_append_child out node new_child s = dom_node_insert_before out node new_child None s"

definition dom_node_replace_child ::
  "dispatcher \<Rightarrow> dom_ptr \<Rightarrow> dom_ptr \<Rightarrow> dom_ptr \<Rightarrow> dom_state \<Rightarrow> dom_result" where
  "dom_node_replace_child out node new_child old_child s = do {
     p \<leftarrow> ds_nodes s node;
     c \<leftarrow> ds_nodes s new_child;
     if dn_type p = DOM_DOCUMENT_NODE \<and> dn_type c \<in> {DOM_DOCUMENT_TYPE_NODE, DOM_ELEMENT_NODE}
     then dom_fail DOM_NOT_SUPPORTED_ERR s
     else if dn_owner c \<noteq> dn_owner p then dom_fail DOM_WRONG_DOCUMENT_ERR s
     else do {
       ro \<leftarrow> dom_node_readonly s node;
       if ro then dom_fail DOM_NO_MODIFICATION_ALLOWED_ERR s
       else do {
         o' \<leftarrow> ds_nodes s old_child;
         if dn_parent o' \<noteq> Some node then dom_fail DOM_NOT_FOUND_ERR s
         else do {
           anc \<leftarrow> has_ancestor s new_child (Some node);
           if anc then dom_fail DOM_HIERARCHY_REQUEST_ERR s
           else do {
             ok \<leftarrow> (if dn_type c = DOM_DOCUMENT_FRAGMENT_NODE then all_permitted s node (dn_first_child c)
                     else dom_node_permitted_child s node new_child);
             if \<not> ok then dom_fail DOM_HIERARCHY_REQUEST_ERR s
             else if new_child = old_child then dom_ok old_child s
             else do {
               t \<leftarrow> take_out out new_child s;
               case t of
                 Inl err \<Rightarrow> dom_fail err s
               | Inr s \<Rightarrow> do {
                   s \<leftarrow> dom_node_replace old_child new_child s;
                   s \<leftarrow> dom_node_ref old_child s;
                   s \<leftarrow> dom_node_mark_pending old_child s;
                   Some (DOM_NO_ERR, Some old_child, s)
                 }
             }
           }
         }
       }
     }
   }"

definition dom_node_remove_child :: "dispatcher \<Rightarrow> dom_ptr \<Rightarrow> dom_ptr \<Rightarrow> dom_state \<Rightarrow> dom_result" where
  "dom_node_remove_child out node old_child s = do {
     p \<leftarrow> ds_nodes s node;
     c \<leftarrow> ds_nodes s old_child;
     if dn_type p = DOM_DOCUMENT_NODE \<and> dn_type c \<in> {DOM_DOCUMENT_TYPE_NODE, DOM_ELEMENT_NODE}
     then dom_fail DOM_NOT_SUPPORTED_ERR s
     else if dn_parent c \<noteq> Some node then dom_fail DOM_NOT_FOUND_ERR s
     else do {
       ro \<leftarrow> dom_node_readonly s node;
       if ro then dom_fail DOM_NO_MODIFICATION_ALLOWED_ERR s
       else do {
         (err, s) \<leftarrow> dom_node_dispatch_node_change_event out (dn_owner p) old_child (Some node)
                        DOM_MUTATION_REMOVAL s;
         if err \<noteq> DOM_NO_ERR then dom_fail err s
         else do {
           s \<leftarrow> dom_node_detach out old_child s;
           s \<leftarrow> dom_node_ref old_child s;
           p \<leftarrow> ds_nodes s node;
           (err, s) \<leftarrow> dispatch_subtree_modified_event out (dn_owner p) node s;
           Some (err, Some old_child, s)
         }
       }
     }
   }"

text \<open>The queries. Each hands out a reference.\<close>

definition dom_get_link ::
  "(dom_node_internal \<Rightarrow> dom_ptr option) \<Rightarrow> dom_ptr \<Rightarrow> dom_state \<Rightarrow> (dom_exception \<times> dom_ptr option \<times> dom_state) option" where
  "dom_get_link field node s = do {
     r \<leftarrow> ds_nodes s node;
     case field r of
       None \<Rightarrow> Some (DOM_NO_ERR, None, s)
     | Some n \<Rightarrow> dom_ok n s
   }"

text \<open>Attr nodes have no parent and no siblings, as far as clients can see.\<close>

definition dom_get_outer_link ::
  "(dom_node_internal \<Rightarrow> dom_ptr option) \<Rightarrow> dom_ptr \<Rightarrow> dom_state \<Rightarrow> (dom_exception \<times> dom_ptr option \<times> dom_state) option" where
  "dom_get_outer_link field node s = do {
     r \<leftarrow> ds_nodes s node;
     if dn_type r = DOM_ATTRIBUTE_NODE then Some (DOM_NO_ERR, None, s) else dom_get_link field node s
   }"

definition dom_node_get_parent_node :: "dom_ptr \<Rightarrow> dom_state \<Rightarrow> dom_result" where
  "dom_node_get_parent_node = dom_get_outer_link dn_parent"

definition dom_node_get_first_child :: "dom_ptr \<Rightarrow> dom_state \<Rightarrow> dom_result" where
  "dom_node_get_first_child = dom_get_link dn_first_child"

definition dom_node_get_last_child :: "dom_ptr \<Rightarrow> dom_state \<Rightarrow> dom_result" where
  "dom_node_get_last_child = dom_get_link dn_last_child"

definition dom_node_get_previous_sibling :: "dom_ptr \<Rightarrow> dom_state \<Rightarrow> dom_result" where
  "dom_node_get_previous_sibling = dom_get_outer_link dn_previous"

definition dom_node_get_next_sibling :: "dom_ptr \<Rightarrow> dom_state \<Rightarrow> dom_result" where
  "dom_node_get_next_sibling = dom_get_outer_link dn_next"

definition dom_node_get_owner_document :: "dom_ptr \<Rightarrow> dom_state \<Rightarrow> dom_result" where
  "dom_node_get_owner_document node s = do {
     r \<leftarrow> ds_nodes s node;
     if dn_type r = DOM_DOCUMENT_NODE then Some (DOM_NO_ERR, None, s) else dom_get_link dn_owner node s
   }"

definition dom_node_has_child_nodes :: "dom_ptr \<Rightarrow> dom_state \<Rightarrow> bool option" where
  "dom_node_has_child_nodes node s = map_option (\<lambda>r. dn_first_child r \<noteq> None) (ds_nodes s node)"

lemmas walk_code = climb.simps change_loop.simps sibling_of_type.simps all_permitted.simps in_entity.simps
  has_ancestor.simps attach_loop.simps detach_loop.simps replace_parent_loop.simps

declare walk_code [code]

end
