(* ===== verification/Dom_Tree.thy ===== *)
theory Dom_Tree
  imports Dom_Node
begin

text \<open>
  The tree the DOM nodes form, and what the operations of \<^verbatim>\<open>Dom_Node\<close> do to it. The abstract state is a
  function \<open>K\<close> from nodes to their lists of children and a function \<open>P\<close> from documents to their
  pending nodes.
\<close>

section \<open>Writes as relinkings\<close>

definition nd :: "dom_state \<Rightarrow> dom_ptr \<Rightarrow> dom_node_internal" where
  "nd s n = the (ds_nodes s n)"

definition alloc :: "dom_state \<Rightarrow> dom_ptr \<Rightarrow> bool" where
  "alloc s n \<longleftrightarrow> ds_nodes s n \<noteq> None"

definition relink :: "(dom_ptr \<Rightarrow> dom_node_internal \<Rightarrow> dom_node_internal) \<Rightarrow> dom_state \<Rightarrow> dom_state" where
  "relink F s = s\<lparr>ds_nodes := (\<lambda>u. map_option (F u) (ds_nodes s u))\<rparr>"

lemma nodes_alloc [simp]: "alloc s n \<Longrightarrow> ds_nodes s n = Some (nd s n)"
  by (auto simp: alloc_def nd_def)

lemma alloc_nodes: "ds_nodes s n = Some r \<Longrightarrow> alloc s n \<and> nd s n = r"
  by (simp add: alloc_def nd_def)

lemma state_simps [simp]:
  "alloc (s\<lparr>ds_events := es\<rparr>) = alloc s" "alloc (s\<lparr>ds_pending := L\<rparr>) = alloc s"
  "nd (s\<lparr>ds_events := es\<rparr>) = nd s" "nd (s\<lparr>ds_pending := L\<rparr>) = nd s"
  by (simp_all add: alloc_def nd_def fun_eq_iff)

lemma relink_simps [simp]:
  "ds_dispatching (relink F s) = ds_dispatching s" "ds_pending (relink F s) = ds_pending s"
  "ds_events (relink F s) = ds_events s"
  "relink F (relink G s) = relink (\<lambda>u r. F u (G u r)) s"
  "relink F (s\<lparr>ds_events := es\<rparr>) = (relink F s)\<lparr>ds_events := es\<rparr>"
  "relink F (s\<lparr>ds_pending := L\<rparr>) = (relink F s)\<lparr>ds_pending := L\<rparr>"
  by (simp_all add: relink_def option.map_comp comp_def del: nodes_alloc)

lemma alloc_relink [simp]: "alloc (relink F s) = alloc s"
  by (auto simp: relink_def alloc_def fun_eq_iff)

lemma nd_relink [simp]: "alloc s n \<Longrightarrow> nd (relink F s) n = F n (nd s n)"
  by (auto simp: alloc_def nd_def relink_def simp del: nodes_alloc)

lemma relink_cong: "(\<And>u. alloc s u \<Longrightarrow> F u (nd s u) = G u (nd s u)) \<Longrightarrow> relink F s = relink G s"
proof -
  assume a: "\<And>u. alloc s u \<Longrightarrow> F u (nd s u) = G u (nd s u)"
  have "(\<lambda>u. map_option (F u) (ds_nodes s u)) = (\<lambda>u. map_option (G u) (ds_nodes s u))"
    using a by (intro ext option.map_cong) (auto dest: alloc_nodes)
  then show ?thesis by (simp add: relink_def)
qed

lemma relink_id: "relink (\<lambda>u r. r) s = s"
  by (simp add: relink_def option.map_ident)

lemma node_set_relink [simp]:
  "alloc s n \<Longrightarrow> node_set n f s = Some (relink (\<lambda>u r. if u = n then f r else r) s)"
proof -
  assume a: "alloc s n"
  then have "(ds_nodes s)(n \<mapsto> f (nd s n)) = (\<lambda>u. map_option (\<lambda>r. if u = n then f r else r) (ds_nodes s u))"
    by (auto simp: fun_eq_iff option.map_id0 [unfolded id_def])
  with a show ?thesis by (simp add: node_set_def relink_def)
qed

section \<open>Trees\<close>

definition sib_nx :: "dom_state \<Rightarrow> dom_ptr \<Rightarrow> dom_ptr option \<Rightarrow> dom_ptr option" where
  "sib_nx s p u = (case u of None \<Rightarrow> dn_first_child (nd s p) | Some n \<Rightarrow> dn_next (nd s n))"

definition sib_pv :: "dom_state \<Rightarrow> dom_ptr \<Rightarrow> dom_ptr option \<Rightarrow> dom_ptr option" where
  "sib_pv s p u = (case u of None \<Rightarrow> dn_last_child (nd s p) | Some n \<Rightarrow> dn_previous (nd s n))"

text \<open>The children of \<open>p\<close> are linked, in this order, between its first and its last child.\<close>

definition kids :: "dom_state \<Rightarrow> dom_ptr \<Rightarrow> dom_ptr list \<Rightarrow> bool" where
  "kids s p xs \<longleftrightarrow> ring (sib_nx s p) (sib_pv s p) None (map Some xs)"

definition parent_rel :: "dom_state \<Rightarrow> (dom_ptr \<times> dom_ptr) set" where
  "parent_rel s = {(p, x). alloc s x \<and> dn_parent (nd s x) = Some p}"

definition tree_inv :: "dom_state \<Rightarrow> (dom_ptr \<Rightarrow> dom_ptr list) \<Rightarrow> bool" where
  "tree_inv s K \<longleftrightarrow> finite {n. alloc s n} \<and> acyclic (parent_rel s) \<and>
     (\<forall>p. \<not> alloc s p \<longrightarrow> K p = []) \<and>
     (\<forall>p. alloc s p \<longrightarrow> kids s p (K p)) \<and>
     (\<forall>p. \<forall>x \<in> set (K p). alloc s x \<and> dn_parent (nd s x) = Some p \<and> child_type_ok (dn_type (nd s p)) (dn_type (nd s x))) \<and>
     (\<forall>x p. alloc s x \<and> dn_parent (nd s x) = Some p \<longrightarrow> alloc s p \<and> (dn_type (nd s x) \<noteq> DOM_ATTRIBUTE_NODE \<longrightarrow> x \<in> set (K p))) \<and>
     (\<forall>x. alloc s x \<and> (\<forall>p. x \<notin> set (K p)) \<longrightarrow> dn_previous (nd s x) = None \<and> dn_next (nd s x) = None)"

lemma tree_invD:
  assumes "tree_inv s K"
  shows "finite {n. alloc s n}" "acyclic (parent_rel s)"
    and "alloc s p \<Longrightarrow> kids s p (K p)" and "x \<in> set (K p) \<Longrightarrow> alloc s x" and "x \<in> set (K p) \<Longrightarrow> alloc s p"
    and "x \<in> set (K p) \<Longrightarrow> dn_parent (nd s x) = Some p"
    and "x \<in> set (K p) \<Longrightarrow> child_type_ok (dn_type (nd s p)) (dn_type (nd s x))"
    and "alloc s x \<Longrightarrow> dn_parent (nd s x) = Some p \<Longrightarrow> alloc s p"
    and "alloc s x \<Longrightarrow> dn_parent (nd s x) = Some p \<Longrightarrow> dn_type (nd s x) \<noteq> DOM_ATTRIBUTE_NODE \<Longrightarrow> x \<in> set (K p)"
    and "alloc s x \<Longrightarrow> dn_parent (nd s x) = None \<Longrightarrow> dn_previous (nd s x) = None \<and> dn_next (nd s x) = None"
proof -
  have c: "finite {n. alloc s n}" "acyclic (parent_rel s)" "\<forall>p. \<not> alloc s p \<longrightarrow> K p = []" "\<forall>p. alloc s p \<longrightarrow> kids s p (K p)"
    "\<forall>p. \<forall>x \<in> set (K p). alloc s x \<and> dn_parent (nd s x) = Some p \<and> child_type_ok (dn_type (nd s p)) (dn_type (nd s x))"
    "\<forall>x p. alloc s x \<and> dn_parent (nd s x) = Some p \<longrightarrow> alloc s p \<and> (dn_type (nd s x) \<noteq> DOM_ATTRIBUTE_NODE \<longrightarrow> x \<in> set (K p))"
    "\<forall>x. alloc s x \<and> (\<forall>p. x \<notin> set (K p)) \<longrightarrow> dn_previous (nd s x) = None \<and> dn_next (nd s x) = None"
    using assms unfolding tree_inv_def by - (elim conjE; assumption)+
  show "finite {n. alloc s n}" "acyclic (parent_rel s)" by (fact c(1,2))+
  show "kids s p (K p)" if "alloc s p" using c(4) that by blast
  show "alloc s x" if "x \<in> set (K p)" using c(5) that by blast
  show "alloc s p" if "x \<in> set (K p)" using c(3) that by fastforce
  show "dn_parent (nd s x) = Some p" if "x \<in> set (K p)" using c(5) that by blast
  show "child_type_ok (dn_type (nd s p)) (dn_type (nd s x))" if "x \<in> set (K p)" using c(5) that by blast
  show "alloc s p" if "alloc s x" "dn_parent (nd s x) = Some p" using c(6) that by blast
  show "x \<in> set (K p)" if "alloc s x" "dn_parent (nd s x) = Some p" "dn_type (nd s x) \<noteq> DOM_ATTRIBUTE_NODE"
    using c(6) that by blast
  show "dn_previous (nd s x) = None \<and> dn_next (nd s x) = None" if "alloc s x" "dn_parent (nd s x) = None"
  proof -
    have "\<forall>p. x \<notin> set (K p)" using c(5) that(2) by fastforce
    with c(7) that(1) show ?thesis by blast
  qed
qed

lemma tree_inv_loose:
  assumes "tree_inv s K" and "alloc s x" and "\<And>p. x \<notin> set (K p)"
  shows "dn_previous (nd s x) = None" and "dn_next (nd s x) = None"
  using assms unfolding tree_inv_def by blast+

lemma tree_inv_dead: "tree_inv s K \<Longrightarrow> \<not> alloc s p \<Longrightarrow> K p = []"
  unfolding tree_inv_def by blast

lemma tree_invI:
  assumes "finite {n. alloc s n}" and "acyclic (parent_rel s)" and "\<And>p. \<not> alloc s p \<Longrightarrow> K p = []"
    and "\<And>p. alloc s p \<Longrightarrow> kids s p (K p)"
    and "\<And>p x. x \<in> set (K p) \<Longrightarrow> alloc s x \<and> dn_parent (nd s x) = Some p \<and> child_type_ok (dn_type (nd s p)) (dn_type (nd s x))"
    and "\<And>x p. alloc s x \<Longrightarrow> dn_parent (nd s x) = Some p \<Longrightarrow>
      alloc s p \<and> (dn_type (nd s x) \<noteq> DOM_ATTRIBUTE_NODE \<longrightarrow> x \<in> set (K p))"
    and "\<And>x. alloc s x \<Longrightarrow> (\<And>p. x \<notin> set (K p)) \<Longrightarrow> dn_previous (nd s x) = None \<and> dn_next (nd s x) = None"
  shows "tree_inv s K"
  unfolding tree_inv_def using assms by blast

lemma child_type_never:
  "child_type_ok p c \<Longrightarrow> c \<noteq> DOM_ATTRIBUTE_NODE \<and> c \<noteq> DOM_DOCUMENT_FRAGMENT_NODE \<and> c \<noteq> DOM_DOCUMENT_NODE"
  by (cases p) (auto simp: child_type_ok_def)

lemma kids_distinct: "kids s p xs \<Longrightarrow> distinct xs"
  by (simp add: kids_def ring_def distinct_map)

lemma kids_ends:
  assumes "kids s p xs"
  shows "dn_first_child (nd s p) = (if xs = [] then None else Some (hd xs))"
    and "dn_last_child (nd s p) = (if xs = [] then None else Some (last xs))"
  using ring_ends [OF assms [unfolded kids_def]] by (auto simp: sib_nx_def sib_pv_def hd_append last_map hd_map split: if_splits)

lemma kids_mid:
  assumes "kids s p (xs @ x # ys)"
  shows "dn_next (nd s x) = (if ys = [] then None else Some (hd ys))"
    and "dn_previous (nd s x) = (if xs = [] then None else Some (last xs))"
  using ring_mid [of "sib_nx s p" "sib_pv s p" None "map Some xs" "Some x" "map Some ys"] assms
  by (auto simp: kids_def sib_nx_def sib_pv_def hd_append last_map hd_map split: if_splits)

lemma kids_cong:
  assumes "dn_first_child (nd s' p) = dn_first_child (nd s p)" and "dn_last_child (nd s' p) = dn_last_child (nd s p)"
    and "\<And>x. x \<in> set xs \<Longrightarrow> dn_next (nd s' x) = dn_next (nd s x) \<and> dn_previous (nd s' x) = dn_previous (nd s x)"
  shows "kids s' p xs = kids s p xs"
  unfolding kids_def by (rule ring_cong) (use assms in \<open>auto simp: sib_nx_def sib_pv_def\<close>)

lemma kids_nodes [simp]: "kids (s\<lparr>ds_events := es\<rparr>) = kids s" "kids (s\<lparr>ds_pending := L\<rparr>) = kids s"
  by (auto simp: kids_def fun_eq_iff sib_nx_def [abs_def] sib_pv_def [abs_def])

section \<open>Walking up\<close>

lemma parent_rel_wf: "tree_inv s K \<Longrightarrow> wf (parent_rel s)" and parent_rel_wf_converse: "tree_inv s K \<Longrightarrow> wf ((parent_rel s)\<inverse>)"
proof -
  assume t: "tree_inv s K"
  have "parent_rel s \<subseteq> {n. alloc s n} \<times> {n. alloc s n}" using tree_invD(8) [OF t] by (auto simp: parent_rel_def)
  then have "finite (parent_rel s)" using tree_invD(1) [OF t] by (meson finite_SigmaI finite_subset)
  then show "wf (parent_rel s)" "wf ((parent_rel s)\<inverse>)"
    using tree_invD(2) [OF t] by (auto intro: finite_acyclic_wf finite_acyclic_wf_converse)
qed

lemma parent_rel_rtrancl:
  "alloc s n \<Longrightarrow> (a, n) \<in> (parent_rel s)\<^sup>* \<longleftrightarrow>
     a = n \<or> (\<exists>p. dn_parent (nd s n) = Some p \<and> (a, p) \<in> (parent_rel s)\<^sup>*)"
proof (rule iffI)
  assume "alloc s n" "(a, n) \<in> (parent_rel s)\<^sup>*"
  then show "a = n \<or> (\<exists>p. dn_parent (nd s n) = Some p \<and> (a, p) \<in> (parent_rel s)\<^sup>*)"
  proof (cases "a = n")
    case False
    then obtain p where "(a, p) \<in> (parent_rel s)\<^sup>*" "(p, n) \<in> parent_rel s"
      using \<open>(a, n) \<in> (parent_rel s)\<^sup>*\<close> by (meson rtranclE)
    then show ?thesis by (simp add: parent_rel_def)
  qed simp
next
  assume n: "alloc s n" and "a = n \<or> (\<exists>p. dn_parent (nd s n) = Some p \<and> (a, p) \<in> (parent_rel s)\<^sup>*)"
  then consider "a = n" | p where "(p, n) \<in> parent_rel s" "(a, p) \<in> (parent_rel s)\<^sup>*" by (auto simp: parent_rel_def)
  then show "(a, n) \<in> (parent_rel s)\<^sup>*"
  proof cases
    case 2
    then show ?thesis by (blast intro: rtrancl_into_rtrancl)
  qed simp
qed

lemma has_ancestor_step:
  "has_ancestor s a None = Some False"
  "alloc s n \<Longrightarrow> has_ancestor s a (Some n) = (if n = a then Some True else has_ancestor s a (dn_parent (nd s n)))"
  by (subst has_ancestor.simps, simp) (subst has_ancestor.simps, auto)

lemma in_entity_step:
  "in_entity s None = Some False"
  "alloc s n \<Longrightarrow> in_entity s (Some n) = (if dn_type (nd s n) \<in> {DOM_ENTITY_NODE, DOM_ENTITY_REFERENCE_NODE} then Some True
     else in_entity s (dn_parent (nd s n)))"
  by (subst in_entity.simps, simp) (subst in_entity.simps, auto)

text \<open>Induction from a node over its parent.\<close>

lemma parent_induct [consumes 2, case_names node]:
  assumes t: "tree_inv s K" and a: "alloc s n"
    and step: "\<And>n. alloc s n \<Longrightarrow> (\<And>p. dn_parent (nd s n) = Some p \<Longrightarrow> alloc s p \<Longrightarrow> Q p) \<Longrightarrow> Q n"
  shows "Q n"
  using parent_rel_wf [OF t] a
proof (induction n rule: wf_induct_rule)
  case (less n)
  show ?case
  proof (rule step [OF less.prems])
    fix p assume "dn_parent (nd s n) = Some p" "alloc s p"
    with less.prems show "Q p" by (intro less.IH) (auto simp: parent_rel_def)
  qed
qed

lemma has_ancestor_correct:
  assumes "tree_inv s K" and "alloc s n"
  shows "has_ancestor s a (Some n) = Some ((a, n) \<in> (parent_rel s)\<^sup>*)"
  using assms
proof (induction n rule: parent_induct)
  case (node n)
  show ?case
  proof (cases "dn_parent (nd s n)")
    case None
    then show ?thesis
      unfolding has_ancestor_step(2) [OF node.hyps] parent_rel_rtrancl [OF node.hyps] by (simp add: has_ancestor_step(1))
  next
    case (Some p)
    have "alloc s p" using tree_invD(8) [OF assms(1) node.hyps Some] .
    with node.IH [OF Some] Some show ?thesis
      unfolding has_ancestor_step(2) [OF node.hyps] parent_rel_rtrancl [OF node.hyps] by auto
  qed
qed

lemma in_entity_total:
  assumes "tree_inv s K" and "alloc s n"
  shows "\<exists>b. in_entity s (Some n) = Some b"
  using assms
proof (induction n rule: parent_induct)
  case (node n)
  show ?case
  proof (cases "dn_parent (nd s n)")
    case None
    then show ?thesis unfolding in_entity_step(2) [OF node.hyps] by (auto simp: in_entity_step(1))
  next
    case (Some p)
    have "alloc s p" using tree_invD(8) [OF assms(1) node.hyps Some] .
    with node.IH [OF Some] Some show ?thesis unfolding in_entity_step(2) [OF node.hyps] by auto
  qed
qed

section \<open>Walking along\<close>

lemma sibling_of_type_correct:
  assumes "kids s p (xs @ ys)" and "\<forall>y \<in> set ys. alloc s y"
  shows "sibling_of_type s ty (if ys = [] then None else Some (hd ys)) = Some (\<exists>y \<in> set ys. dn_type (nd s y) = ty)"
  using assms
proof (induction ys arbitrary: xs)
  case Nil
  then show ?case by (subst sibling_of_type.simps) simp
next
  case (Cons y ys)
  have "dn_next (nd s y) = (if ys = [] then None else Some (hd ys))" using kids_mid(1) [OF Cons.prems(1)] .
  with Cons.IH [of "xs @ [y]"] Cons.prems show ?case
    by (subst sibling_of_type.simps) (auto split: if_splits)
qed

lemma permitted_child_total:
  assumes "tree_inv s K" and "alloc s p" and "alloc s c"
  shows "dom_node_permitted_child s p c = Some (child_type_ok (dn_type (nd s p)) (dn_type (nd s c)) \<and>
    \<not> (dn_type (nd s p) = DOM_DOCUMENT_NODE \<and> dn_type (nd s c) \<in> {DOM_ELEMENT_NODE, DOM_DOCUMENT_TYPE_NODE} \<and>
       (\<exists>x \<in> set (K p). dn_type (nd s x) = dn_type (nd s c))))"
proof -
  have k: "kids s p ([] @ K p)" using tree_invD(3) [OF assms(1,2)] by simp
  have f: "dn_first_child (nd s p) = (if K p = [] then None else Some (hd (K p)))"
    using kids_ends(1) [OF k] by simp
  have sib: "sibling_of_type s ty (dn_first_child (nd s p)) = Some (\<exists>x \<in> set (K p). dn_type (nd s x) = ty)" for ty
    unfolding f by (rule sibling_of_type_correct [OF k]) (use tree_invD(4) [OF assms(1)] in auto)
  show ?thesis using sib [of "dn_type (nd s c)"] assms(2,3) by (auto simp: dom_node_permitted_child_def Let_def)
qed

lemma all_permitted_total:
  assumes "tree_inv s K" and "alloc s node" and "kids s p (xs @ ys)" and "\<forall>y \<in> set ys. alloc s y"
  shows "all_permitted s node (if ys = [] then None else Some (hd ys)) =
    Some (\<forall>y \<in> set ys. dom_node_permitted_child s node y = Some True)"
  using assms(3,4)
proof (induction ys arbitrary: xs)
  case Nil
  then show ?case by (subst all_permitted.simps) simp
next
  case (Cons y ys)
  have nx: "dn_next (nd s y) = (if ys = [] then None else Some (hd ys))" using kids_mid(1) [OF Cons.prems(1)] .
  have IH: "all_permitted s node (if ys = [] then None else Some (hd ys)) =
      Some (\<forall>y \<in> set ys. dom_node_permitted_child s node y = Some True)"
    using Cons.IH [of "xs @ [y]"] Cons.prems by simp
  obtain b where b: "dom_node_permitted_child s node y = Some b"
    using permitted_child_total [OF assms(1,2)] Cons.prems(2) by auto
  have r: "alloc s y" using Cons.prems(2) by auto
  show ?case using IH nx b r by (subst all_permitted.simps) (auto split: if_splits)
qed

section \<open>Document order\<close>

text \<open>A node and its descendants, parents before children, children from first to last.\<close>

inductive doc_order :: "(dom_ptr \<Rightarrow> dom_ptr list) \<Rightarrow> dom_ptr \<Rightarrow> dom_ptr list \<Rightarrow> bool" for K where
  doc_order: "list_all2 (doc_order K) (K n) yss \<Longrightarrow> doc_order K n (n # concat yss)"

inductive_cases doc_orderE: "doc_order K n xs"

lemma doc_order_exists:
  assumes "tree_inv s K" and "alloc s n"
  shows "\<exists>xs. doc_order K n xs \<and> (\<forall>m \<in> set xs. alloc s m \<and> (n, m) \<in> (parent_rel s)\<^sup>*)"
  using parent_rel_wf_converse [OF assms(1)] assms(2)
proof (induction n rule: wf_induct_rule)
  case (less n)
  have "\<forall>c \<in> set (K n). \<exists>xs. doc_order K c xs \<and> (\<forall>m \<in> set xs. alloc s m \<and> (n, m) \<in> (parent_rel s)\<^sup>*)"
  proof
    fix c assume c: "c \<in> set (K n)"
    then have e: "(n, c) \<in> parent_rel s" "alloc s c" using tree_invD(4,6) [OF assms(1)] by (auto simp: parent_rel_def)
    then obtain xs where "doc_order K c xs" "\<forall>m \<in> set xs. alloc s m \<and> (c, m) \<in> (parent_rel s)\<^sup>*"
      using less.IH [of c] by auto
    with e(1) show "\<exists>xs. doc_order K c xs \<and> (\<forall>m \<in> set xs. alloc s m \<and> (n, m) \<in> (parent_rel s)\<^sup>*)"
      by (meson converse_rtrancl_into_rtrancl)
  qed
  then obtain f where f: "\<forall>c \<in> set (K n). doc_order K c (f c) \<and> (\<forall>m \<in> set (f c). alloc s m \<and> (n, m) \<in> (parent_rel s)\<^sup>*)"
    by metis
  then have "list_all2 (doc_order K) (K n) (map f (K n))" by (simp add: list_all2_map2 list_all2_same)
  from doc_order [OF this] f less.prems show ?case by (intro exI [of _ "n # concat (map f (K n))"]) auto
qed

lemma doc_order_unique: "doc_order K n xs \<Longrightarrow> doc_order K n ys \<Longrightarrow> ys = xs"
proof (induction arbitrary: ys rule: doc_order.induct)
  case (doc_order n yss)
  obtain zss where z: "ys = n # concat zss" "list_all2 (doc_order K) (K n) zss" using doc_order.prems by (auto elim: doc_orderE)
  have "zss = yss"
  proof (rule nth_equalityI)
    show "length zss = length yss" using z(2) doc_order.IH by (auto dest!: list_all2_lengthD)
    fix i assume "i < length zss"
    then have "i < length (K n)" using z(2) by (auto dest: list_all2_lengthD)
    then show "zss ! i = yss ! i" using list_all2_nthD [OF z(2)] list_all2_nthD [OF doc_order.IH] by blast
  qed
  with z(1) show ?case by simp
qed

text \<open>The links below a set of nodes: what a walk over a subtree reads.\<close>

definition links_below :: "dom_state \<Rightarrow> (dom_ptr \<Rightarrow> dom_ptr list) \<Rightarrow> dom_ptr set \<Rightarrow> bool" where
  "links_below s K M \<longleftrightarrow> (\<forall>m \<in> M. alloc s m \<and> kids s m (K m) \<and> (\<forall>x \<in> set (K m). alloc s x \<and> dn_parent (nd s x) = Some m))"

lemma links_below_events [simp]: "links_below (s\<lparr>ds_events := es\<rparr>) K M = links_below s K M"
  by (simp add: links_below_def kids_nodes)

lemma links_below_mono: "links_below s K M \<Longrightarrow> N \<subseteq> M \<Longrightarrow> links_below s K N"
  by (auto simp: links_below_def)

lemma climb_step:
  assumes "nodes t = Some r"
  shows "dn_parent r = Some node \<Longrightarrow> climb nodes node t = Some t"
    and "dn_parent r = Some p \<Longrightarrow> p \<noteq> node \<Longrightarrow> nodes p = Some q \<Longrightarrow>
      climb nodes node t = (if dn_last_child q = Some t then climb nodes node p else Some t)"
  by (subst climb.simps; simp add: assms)+

text \<open>Going on after the subtree of \<open>n\<close>.\<close>

definition resume :: "dispatcher \<Rightarrow> dom_ptr \<Rightarrow> dom_mutation_type \<Rightarrow> dom_ptr \<Rightarrow> dom_state \<Rightarrow> (dom_exception \<times> dom_state) option" where
  "resume out node ch n s = do {
     t \<leftarrow> climb (ds_nodes s) node n; r \<leftarrow> ds_nodes s t; change_loop out node ch (dn_next r) s }"

abbreviation logged :: "dom_mutation list \<Rightarrow> dom_state \<Rightarrow> dom_state" where
  "logged evs s \<equiv> s\<lparr>ds_events := ds_events s @ evs\<rparr>"

definition visits :: "dispatcher \<Rightarrow> dom_ptr \<Rightarrow> dom_mutation_type \<Rightarrow> dom_state \<Rightarrow> dom_ptr \<Rightarrow> dom_ptr list \<Rightarrow> bool" where
  "visits out node ch s n xs \<longleftrightarrow>
     (\<forall>es. change_loop out node ch (Some n) (logged es s) =
        resume out node ch n (logged (es @ map (NodeChangeDocument ch) xs) s))"

lemma visits_siblings:
  assumes "list_all2 (visits out node ch s) cs yss" and "cs \<noteq> []" and "kids s p (pre @ cs)" and "\<forall>c \<in> set cs. alloc s c"
    and "\<forall>c \<in> set cs. dn_next (nd s c) \<noteq> None \<longrightarrow> climb (ds_nodes s) node c = Some c"
  shows "change_loop out node ch (Some (hd cs)) (logged es s) =
    resume out node ch (last cs) (logged (es @ map (NodeChangeDocument ch) (concat yss)) s)"
  using assms
proof (induction cs arbitrary: yss pre es)
  case (Cons c cs)
  obtain ys zss where yss: "yss = ys # zss" "visits out node ch s c ys" "list_all2 (visits out node ch s) cs zss"
    using Cons.prems(1) by (auto simp: list_all2_Cons1)
  have v: "change_loop out node ch (Some c) (logged es s) =
      resume out node ch c (logged (es @ map (NodeChangeDocument ch) ys) s)"
    using yss(2) by (simp add: visits_def)
  show ?case
  proof (cases "cs = []")
    case True
    with v yss(1,3) show ?thesis by simp
  next
    case False
    have nx: "dn_next (nd s c) = Some (hd cs)" using kids_mid(1) [OF Cons.prems(3)] False by simp
    then have cl: "climb (ds_nodes s) node c = Some c" using Cons.prems(5) by simp
    have r: "alloc s c" using Cons.prems(4) by auto
    have "resume out node ch c (logged (es @ map (NodeChangeDocument ch) ys) s) =
        change_loop out node ch (Some (hd cs)) (logged (es @ map (NodeChangeDocument ch) ys) s)"
      using nx cl r by (simp add: resume_def)
    with v Cons.IH [OF yss(3) False, of "pre @ [c]" "es @ map (NodeChangeDocument ch) ys"] Cons.prems(3-5) yss(1) False
    show ?thesis by simp
  qed
qed simp

abbreviation all_ok :: "dispatcher \<Rightarrow> bool" where
  "all_ok out \<equiv> (\<forall>ev es. out ev es = DOM_NO_ERR)"

lemma change_loop_step:
  assumes "all_ok out" and "ds_nodes s t = Some r"
  shows "change_loop out node ch (Some t) s =
    (if dn_first_child r \<noteq> None then change_loop out node ch (dn_first_child r) (logged [NodeChangeDocument ch t] s)
     else if dn_next r \<noteq> None then change_loop out node ch (dn_next r) (logged [NodeChangeDocument ch t] s)
     else resume out node ch t (logged [NodeChangeDocument ch t] s))"
  using assms by (subst change_loop.simps) (auto simp: fire_def resume_def)

text \<open>Inside a walk: the walk over the children of \<open>p\<close> can climb from each child exactly when it is the last.\<close>

lemma climb_child:
  assumes "links_below s K {p}" and "c \<in> set (K p)"
  shows "dn_next (nd s c) \<noteq> None \<Longrightarrow> climb (ds_nodes s) node c = Some c"
    and "c = last (K p) \<Longrightarrow> p \<noteq> node \<Longrightarrow> climb (ds_nodes s) node c = climb (ds_nodes s) node p"
    and "p = node \<Longrightarrow> climb (ds_nodes s) node c = Some c"
    and "c = last (K p) \<Longrightarrow> dn_next (nd s c) = None"
proof -
  define rc rp where "rc = nd s c" and "rp = nd s p"
  have r: "ds_nodes s c = Some rc" "ds_nodes s p = Some rp" "dn_parent rc = Some p" "kids s p (K p)"
    using assms by (auto simp: links_below_def rc_def rp_def)
  have lc: "dn_last_child rp = Some (last (K p))" using kids_ends(2) [OF r(4)] assms(2) by (auto simp: rp_def)
  obtain xs ys where K: "K p = xs @ c # ys" using assms(2) by (meson split_list)
  have nx: "dn_next rc = (if ys = [] then None else Some (hd ys))" using kids_mid(1) [of s p xs c ys] r(4) K by (simp add: rc_def)
  have d: "distinct (K p)" using kids_distinct [OF r(4)] .
  show "climb (ds_nodes s) node c = Some c" if n: "dn_next (nd s c) \<noteq> None"
  proof (cases "p = node")
    case True
    with climb_step(1) [of "ds_nodes s" c rc] r(1,3) show ?thesis by simp
  next
    case False
    have "last (K p) \<noteq> c" using n nx K d by (auto simp: rc_def split: if_splits)
    with climb_step(2) [of "ds_nodes s" c rc p node rp] r(1-3) False lc show ?thesis by simp
  qed
  show "climb (ds_nodes s) node c = climb (ds_nodes s) node p" if "c = last (K p)" "p \<noteq> node"
    using climb_step(2) [of "ds_nodes s" c rc p node rp] r(1-3) lc that by simp
  show "climb (ds_nodes s) node c = Some c" if "p = node"
    using climb_step(1) [of "ds_nodes s" c rc] r(1,3) that by simp
  show "dn_next (nd s c) = None" if "c = last (K p)"
  proof -
    have "ys = []"
    proof (rule ccontr)
      assume "ys \<noteq> []"
      then have "last (K p) \<in> set ys" using K by simp
      moreover have "c \<notin> set ys" using d unfolding K by simp
      ultimately show False using that by metis
    qed
    with nx show ?thesis by (simp add: rc_def)
  qed
qed

lemma doc_order_visits:
  assumes "doc_order K n xs" and "all_ok out"
  shows "links_below s K (set xs) \<Longrightarrow> node \<notin> set xs \<Longrightarrow> (dn_next (nd s n) \<noteq> None \<longrightarrow> climb (ds_nodes s) node n = Some n) \<Longrightarrow>
    visits out node ch s n xs"
  using assms(1)
proof (induction rule: doc_order.induct)
  case (doc_order n yss)
  have lb: "links_below s K {n}" and n: "n \<noteq> node" using doc_order.prems by (auto simp: links_below_def)
  define r where "r = nd s n"
  have r: "ds_nodes s n = Some r" "nd s n = r" "kids s n (K n)" using lb by (auto simp: links_below_def r_def)
  show ?case unfolding visits_def
  proof
    fix es
    let ?s = "logged es s" and ?ev = "NodeChangeDocument ch n"
    have r': "ds_nodes ?s n = Some r" using r(1) by simp
    show "change_loop out node ch (Some n) ?s =
        resume out node ch n (logged (es @ map (NodeChangeDocument ch) (n # concat yss)) s)"
    proof (cases "K n = []")
      case True
      then have "yss = []" "dn_first_child r = None" using doc_order.IH kids_ends(1) [OF r(3)] r(2) by auto
      moreover have "resume out node ch n (logged (es @ [?ev]) s) = change_loop out node ch (dn_next r) (logged (es @ [?ev]) s)"
        if "dn_next r \<noteq> None" using doc_order.prems(3) that r(1,2) by (simp add: resume_def)
      ultimately show ?thesis unfolding change_loop_step [OF assms(2) r'] by auto
    next
      case False
      have fc: "dn_first_child r = Some (hd (K n))" using kids_ends(1) [OF r(3)] r(2) False by simp
      have "list_all2 (visits out node ch s) (K n) yss"
      proof (rule list_all2_all_nthI)
        show len: "length (K n) = length yss" using doc_order.IH by (rule list_all2_lengthD)
        fix i assume i: "i < length (K n)"
        have "yss ! i \<in> set yss" using i len by simp
        then have sub: "set (yss ! i) \<subseteq> set (n # concat yss)" by auto
        show "visits out node ch s (K n ! i) (yss ! i)"
          using list_all2_nthD [OF doc_order.IH i] links_below_mono [OF doc_order.prems(1) sub] doc_order.prems(2) sub
            climb_child(1) [OF lb nth_mem [OF i]] by blast
      qed
      moreover have "\<forall>c \<in> set (K n). alloc s c" using lb by (auto simp: links_below_def)
      moreover have "\<forall>c \<in> set (K n). dn_next (nd s c) \<noteq> None \<longrightarrow> climb (ds_nodes s) node c = Some c"
        using climb_child(1) [OF lb] by blast
      moreover have "kids s n ([] @ K n)" using r(3) by simp
      ultimately have "change_loop out node ch (Some (hd (K n))) (logged (es @ [?ev]) s) =
          resume out node ch (last (K n)) (logged ((es @ [?ev]) @ map (NodeChangeDocument ch) (concat yss)) s)"
        using visits_siblings [OF _ False] by blast
      moreover have "climb (ds_nodes s) node (last (K n)) = climb (ds_nodes s) node n"
        using climb_child(2) [OF lb last_in_set [OF False]] n by simp
      ultimately show ?thesis unfolding change_loop_step [OF assms(2) r'] using fc by (simp add: resume_def)
    qed
  qed
qed

text \<open>Dispatching a change: one event for the node and one for every descendant, in document order.\<close>

lemma dispatch_node_change:
  assumes "doc_order K node (node # xs)" and "links_below s K (insert node (set xs))" and "node \<notin> set xs" and "all_ok out"
  shows "dom_node_dispatch_node_change_event out (Some doc) node related ch s =
    Some (DOM_NO_ERR, logged (NodeChange ch node related # map (NodeChangeDocument ch) xs) s)"
proof -
  have lb: "links_below s K {node}" using assms(2) by (auto simp: links_below_def)
  define r where "r = nd s node"
  have r: "ds_nodes s node = Some r" "nd s node = r" "kids s node (K node)" using lb by (auto simp: links_below_def r_def)
  obtain yss where y: "xs = concat yss" "list_all2 (doc_order K) (K node) yss" using assms(1) by (auto elim: doc_orderE)
  let ?ev = "NodeChange ch node related"
  show ?thesis
  proof (cases "K node = []")
    case True
    then have "dn_first_child r = None" "xs = []" using kids_ends(1) [OF r(3)] r(2) y by auto
    then show ?thesis using r(1) assms(4)
      by (simp add: dom_node_dispatch_node_change_event_def fire_def change_loop.simps [of out node ch None])
  next
    case False
    have fc: "dn_first_child r = Some (hd (K node))" using kids_ends(1) [OF r(3)] r(2) False by simp
    have "list_all2 (visits out node ch s) (K node) yss"
    proof (rule list_all2_all_nthI)
      show len: "length (K node) = length yss" using y(2) by (rule list_all2_lengthD)
      fix i assume i: "i < length (K node)"
      have "yss ! i \<in> set yss" using i len by simp
      then have sub: "set (yss ! i) \<subseteq> set xs" using y(1) by auto
      show "visits out node ch s (K node ! i) (yss ! i)"
      proof (rule doc_order_visits [OF list_all2_nthD [OF y(2) i] assms(4)])
        show "links_below s K (set (yss ! i))" using links_below_mono [OF assms(2)] sub by blast
        show "node \<notin> set (yss ! i)" using assms(3) sub by blast
      qed (use climb_child(1) [OF lb nth_mem [OF i]] in blast)
    qed
    moreover have "\<forall>c \<in> set (K node). alloc s c" using lb by (auto simp: links_below_def)
    moreover have "\<forall>c \<in> set (K node). dn_next (nd s c) \<noteq> None \<longrightarrow> climb (ds_nodes s) node c = Some c"
      using climb_child(1) [OF lb] by blast
    moreover have "kids s node ([] @ K node)" using r(3) by simp
    ultimately have loop: "change_loop out node ch (Some (hd (K node))) (logged [?ev] s) =
        resume out node ch (last (K node)) (logged ([?ev] @ map (NodeChangeDocument ch) xs) s)"
      unfolding y(1) using visits_siblings [OF _ False] by blast
    have l: "last (K node) \<in> set (K node)" using False by simp
    have rl: "alloc s (last (K node))" using lb l by (auto simp: links_below_def)
    have "climb (ds_nodes s) node (last (K node)) = Some (last (K node))" "dn_next (nd s (last (K node))) = None"
      using climb_child(3,4) [OF lb l] by simp_all
    with loop rl fc r(1) assms(4) show ?thesis
      by (simp add: dom_node_dispatch_node_change_event_def fire_def resume_def change_loop.simps [of out node ch None])
  qed
qed

text \<open>The events of a node whose subtree is as it was in a well-formed tree, whatever has happened around it.\<close>

lemma dispatch_subtree:
  assumes t: "tree_inv s K" and z: "alloc s z" and ok: "all_ok out" and al: "\<And>u. alloc s u \<Longrightarrow> alloc s' u"
    and top: "\<And>m. (z, m) \<in> (parent_rel s)\<^sup>* \<Longrightarrow>
      dn_first_child (nd s' m) = dn_first_child (nd s m) \<and> dn_last_child (nd s' m) = dn_last_child (nd s m)"
    and low: "\<And>m. (z, m) \<in> (parent_rel s)\<^sup>+ \<Longrightarrow> dn_next (nd s' m) = dn_next (nd s m) \<and>
      dn_previous (nd s' m) = dn_previous (nd s m) \<and> dn_parent (nd s' m) = dn_parent (nd s m)"
  shows "\<exists>xs. doc_order K z (z # xs) \<and> dom_node_dispatch_node_change_event out (Some doc) z related ch s' =
    Some (DOM_NO_ERR, logged (NodeChange ch z related # map (NodeChangeDocument ch) xs) s')"
proof -
  obtain xs where xs: "doc_order K z xs" "\<forall>m \<in> set xs. alloc s m \<and> (z, m) \<in> (parent_rel s)\<^sup>*"
    using doc_order_exists [OF t z] by blast
  then obtain yss where y: "xs = z # concat yss" "list_all2 (doc_order K) (K z) yss" by (auto elim: doc_orderE)
  have edge: "(m, x) \<in> parent_rel s" if "x \<in> set (K m)" for x m
    using that tree_invD(4,6) [OF t] by (auto simp: parent_rel_def)
  have "links_below s' K (set xs)" unfolding links_below_def
  proof (intro ballI conjI)
    fix m assume m: "m \<in> set xs"
    then show "alloc s' m" using xs(2) al by blast
    have zm: "(z, m) \<in> (parent_rel s)\<^sup>*" using m xs(2) by blast
    have zx: "(z, x) \<in> (parent_rel s)\<^sup>+" if "x \<in> set (K m)" for x
      using rtrancl_into_trancl1 [OF zm edge [OF that]] .
    have "kids s m (K m)" using tree_invD(3) [OF t] m xs(2) by blast
    then show "kids s' m (K m)" using top [OF zm] low [OF zx] by (subst kids_cong) auto
    show "alloc s' x" "dn_parent (nd s' x) = Some m" if "x \<in> set (K m)" for x
      using al tree_invD(4,6) [OF t that] low [OF zx [OF that]] by auto
  qed
  moreover have "z \<notin> set (concat yss)"
  proof
    assume "z \<in> set (concat yss)"
    then obtain ys where "ys \<in> set yss" "z \<in> set ys" by auto
    then obtain i where i: "i < length yss" "z \<in> set (yss ! i)" by (metis in_set_conv_nth)
    then have c: "K z ! i \<in> set (K z)" "doc_order K (K z ! i) (yss ! i)"
      using y(2) list_all2_nthD2 [OF y(2)] by (auto simp: list_all2_lengthD)
    obtain ws where "doc_order K (K z ! i) ws" "\<forall>m \<in> set ws. (K z ! i, m) \<in> (parent_rel s)\<^sup>*"
      using doc_order_exists [OF t tree_invD(4) [OF t c(1)]] by blast
    moreover have "ws = yss ! i" using doc_order_unique c(2) calculation(1) by blast
    ultimately have "(z, z) \<in> (parent_rel s)\<^sup>+" using i(2) edge [OF c(1)] by (meson rtrancl_into_trancl2)
    then show False using tree_invD(2) [OF t] by (auto simp: acyclic_def)
  qed
  ultimately show ?thesis using dispatch_node_change [of K z "concat yss" s' out doc related ch] xs(1) y(1) ok by auto
qed

lemma dispatch_elsewhere:
  assumes "tree_inv s K" and "alloc s z" and "all_ok out" and "\<And>u. alloc s u \<Longrightarrow> alloc s' u"
    and "\<And>m. (z, m) \<in> (parent_rel s)\<^sup>* \<Longrightarrow>
      dn_first_child (nd s' m) = dn_first_child (nd s m) \<and> dn_last_child (nd s' m) = dn_last_child (nd s m)"
    and "\<And>m. (z, m) \<in> (parent_rel s)\<^sup>+ \<Longrightarrow> dn_next (nd s' m) = dn_next (nd s m) \<and>
      dn_previous (nd s' m) = dn_previous (nd s m) \<and> dn_parent (nd s' m) = dn_parent (nd s m)"
  shows "\<exists>evs. dom_node_dispatch_node_change_event out (Some doc) z related ch s' = Some (DOM_NO_ERR, logged evs s')"
  using dispatch_subtree [OF assms] by blast

section \<open>Cutting a child out\<close>

definition cut_links :: "dom_ptr \<Rightarrow> dom_ptr \<Rightarrow> dom_ptr option \<Rightarrow> dom_ptr option \<Rightarrow> dom_ptr \<Rightarrow> dom_node_internal \<Rightarrow> dom_node_internal" where
  "cut_links p x previous next u r = r\<lparr>
     dn_parent := (if u = x then None else dn_parent r),
     dn_first_child := (if u = p \<and> previous = None then next else dn_first_child r),
     dn_last_child := (if u = p \<and> next = None then previous else dn_last_child r),
     dn_previous := (if u = x then None else if next = Some u then previous else dn_previous r),
     dn_next := (if u = x then None else if previous = Some u then next else dn_next r)\<rparr>"

text \<open>The neighbours of a child in its list.\<close>

definition prev_of :: "'a list \<Rightarrow> 'a option" where "prev_of xs = (if xs = [] then None else Some (last xs))"
definition next_of :: "'a list \<Rightarrow> 'a option" where "next_of ys = (if ys = [] then None else Some (hd ys))"

lemma last_head [simp]: "last (None # map Some xs) = prev_of xs"
  by (simp add: prev_of_def last_map)

lemma hd_tail [simp]: "hd (map Some ys @ [None]) = next_of ys"
  by (cases ys) (simp_all add: next_of_def)

lemma prev_of_in: "prev_of xs = Some u \<Longrightarrow> u \<in> set xs" and next_of_in: "next_of xs = Some u \<Longrightarrow> u \<in> set xs"
  by (auto simp: prev_of_def next_of_def split: if_splits)

lemma kids_disjoint: "tree_inv s K \<Longrightarrow> x \<in> set (K p) \<Longrightarrow> x \<in> set (K q) \<Longrightarrow> p = q"
  by (metis tree_invD(6) option.inject)

lemma cut_sib:
  assumes "alloc s p" and "\<And>n. u = Some n \<Longrightarrow> alloc s n \<and> n \<noteq> x"
  shows "sib_nx (relink (cut_links p x pv nx) s) p u = (if u = pv then nx else sib_nx s p u)"
    and "sib_pv (relink (cut_links p x pv nx) s) p u = (if u = nx then pv else sib_pv s p u)"
  using assms by (cases u; force simp: sib_nx_def sib_pv_def cut_links_def)+

lemma tree_inv_cut:
  assumes t: "tree_inv s K" and K: "K p = xs @ x # ys"
  shows "tree_inv (relink (cut_links p x (prev_of xs) (next_of ys)) s) (K(p := xs @ ys))"
proof -
  let ?F = "cut_links p x (prev_of xs) (next_of ys)" and ?K = "K(p := xs @ ys)"
  let ?s = "relink ?F s"
  have x: "x \<in> set (K p)" using K by simp
  have p: "alloc s p" using tree_invD(5) [OF t x] .
  have kp: "kids s p (xs @ x # ys)" using tree_invD(3) [OF t p] K by simp
  have d: "distinct (xs @ x # ys)" using kids_distinct [OF kp] .
  have al: "alloc ?s u = alloc s u" for u by simp
  have sub: "parent_rel ?s \<subseteq> parent_rel s" by (auto simp: parent_rel_def cut_links_def split: if_splits)
  have inK: "set (?K q) \<subseteq> set (K q)" for q using K by auto
  have kids: "kids ?s q (?K q)" if q: "alloc s q" for q
  proof (cases "q = p")
    case True
    have u: "alloc s n \<and> n \<noteq> x" if "Some n \<in> set (None # map Some xs @ map Some ys)" for n
      using that tree_invD(4) [OF t, of n p] K d by auto
    have ends: "prev_of xs \<in> set (None # map Some xs @ map Some ys)" "next_of ys \<in> set (None # map Some xs @ map Some ys)"
      by (auto simp: prev_of_def next_of_def)
    have sib: "sib_nx ?s p v = (if v = prev_of xs then next_of ys else sib_nx s p v)"
      "sib_pv ?s p v = (if v = next_of ys then prev_of xs else sib_pv s p v)"
      if "v \<in> set (None # map Some xs @ map Some ys)" for v
      by (rule cut_sib [OF p]; use u that in blast)+
    have "ring (sib_nx ?s p) (sib_pv ?s p) None (map Some xs @ map Some ys)"
    proof (rule ring_cut)
      show "ring (sib_nx s p) (sib_pv s p) None (map Some xs @ map Some [x] @ map Some ys)" using kp by (simp add: kids_def)
    qed (use sib ends in \<open>simp_all only: last_head hd_tail if_True if_False simp_thms\<close>)
    with True show ?thesis by (simp add: kids_def)
  next
    case False
    have "kids s q (K q)" using tree_invD(3) [OF t q] .
    moreover have "u \<notin> set (K p)" if "u \<in> set (K q)" for u using kids_disjoint [OF t that] False by blast
    ultimately show ?thesis using False q K tree_invD(4) [OF t, of _ q]
      by (subst kids_cong [where s = s]) (auto simp: cut_links_def dest!: prev_of_in next_of_in)
  qed
  show ?thesis
  proof (rule tree_invI)
    show "finite {n. alloc ?s n}" using tree_invD(1) [OF t] by simp
    show "acyclic (parent_rel ?s)" by (rule acyclic_subset [OF tree_invD(2) [OF t] sub])
    show "?K q = []" if "\<not> alloc ?s q" for q using tree_inv_dead [OF t] that p by auto
    show "kids ?s q (?K q)" if "alloc ?s q" for q using kids that by simp
    show "alloc ?s u \<and> dn_parent (nd ?s u) = Some q \<and> child_type_ok (dn_type (nd ?s q)) (dn_type (nd ?s u))"
      if u: "u \<in> set (?K q)" for q u
    proof -
      have uK: "u \<in> set (K q)" using u inK by blast
      have "u \<noteq> x" using u uK x d kids_disjoint [OF t uK, of p] by (auto split: if_splits)
      then show ?thesis using tree_invD(4-7) [OF t uK] by (simp add: cut_links_def)
    qed
    show "alloc ?s q \<and> (dn_type (nd ?s u) \<noteq> DOM_ATTRIBUTE_NODE \<longrightarrow> u \<in> set (?K q))"
      if u: "alloc ?s u" "dn_parent (nd ?s u) = Some q" for u q
    proof -
      have n: "u \<noteq> x" "alloc s u" "dn_parent (nd s u) = Some q" using u by (auto simp: cut_links_def split: if_splits)
      have "u \<in> set (K q) \<Longrightarrow> u \<in> set (?K q)" using n(1) K by auto
      then show ?thesis using tree_invD(8,9) [OF t n(2,3)] n(2) by (auto simp: cut_links_def simp del: fun_upd_apply)
    qed
    show "dn_previous (nd ?s u) = None \<and> dn_next (nd ?s u) = None" if u: "alloc ?s u" "\<And>q. u \<notin> set (?K q)" for u
    proof (cases "u = x")
      case True
      with u show ?thesis by (simp add: cut_links_def)
    next
      case False
      have "u \<notin> set xs" "u \<notin> set ys" using u(2) [of p] by auto
      moreover from this have "u \<notin> set (K q)" for q using u(2) [of q] K False by (cases "q = p") auto
      ultimately show ?thesis using tree_inv_loose [OF t, of u] u(1) False
        by (auto simp: cut_links_def dest!: prev_of_in next_of_in)
    qed
  qed
qed

section \<open>Splicing nodes in\<close>

text \<open>The run \<open>zs\<close> becomes part of the children of \<open>p\<close>; it comes out of the fragment \<open>fr\<close>, if there is one.\<close>

definition splice_links ::
  "dom_ptr \<Rightarrow> dom_ptr option \<Rightarrow> dom_ptr option \<Rightarrow> dom_ptr list \<Rightarrow> dom_ptr option \<Rightarrow> dom_ptr \<Rightarrow> dom_node_internal \<Rightarrow> dom_node_internal" where
  "splice_links p previous next zs fr u r = r\<lparr>
     dn_parent := (if u \<in> set zs then Some p else dn_parent r),
     dn_first_child := (if u = p \<and> previous = None then Some (hd zs) else if fr = Some u then None else dn_first_child r),
     dn_last_child := (if u = p \<and> next = None then Some (last zs) else if fr = Some u then None else dn_last_child r),
     dn_previous := (if next = Some u then Some (last zs) else if u = hd zs then previous else dn_previous r),
     dn_next := (if previous = Some u then Some (hd zs) else if u = last zs then next else dn_next r)\<rparr>"

text \<open>Where the run comes from: it is a single node outside every tree, or all children of a node.\<close>

definition splice_source :: "dom_state \<Rightarrow> (dom_ptr \<Rightarrow> dom_ptr list) \<Rightarrow> dom_ptr \<Rightarrow> dom_ptr list \<Rightarrow> dom_ptr option \<Rightarrow> bool" where
  "splice_source s K p zs fr \<longleftrightarrow>
     (case fr of
        None \<Rightarrow> \<exists>z. zs = [z] \<and> alloc s z \<and> dn_parent (nd s z) = None
      | Some f \<Rightarrow> zs \<noteq> [] \<and> zs = K f \<and> f \<noteq> p)"

lemma splice_sib:
  assumes "alloc s p" and "\<And>n. u = Some n \<Longrightarrow> alloc s n" and "fr \<noteq> Some p"
  shows "sib_nx (relink (splice_links p pv nx zs fr) s) p u =
      (if u = pv then Some (hd zs) else if u = Some (last zs) then nx else sib_nx s p u)"
    and "sib_pv (relink (splice_links p pv nx zs fr) s) p u =
      (if u = nx then Some (last zs) else if u = Some (hd zs) then pv else sib_pv s p u)"
  using assms by (cases u; force simp: sib_nx_def sib_pv_def splice_links_def)+

lemma source_facts:
  assumes t: "tree_inv s K" and src: "splice_source s K p zs fr"
  shows "zs \<noteq> []" and "distinct zs" and "fr \<noteq> Some p" and "\<And>z. z \<in> set zs \<Longrightarrow> alloc s z"
    and "\<And>z q. z \<in> set zs \<Longrightarrow> z \<in> set (K q) \<Longrightarrow> fr = Some q"
    and "linked (sib_nx s p) (map Some zs)" and "blinked (sib_pv s p) (map Some zs)"
proof -
  show "zs \<noteq> []" "fr \<noteq> Some p" using src by (auto simp: splice_source_def split: option.splits)
  show al: "alloc s z" if "z \<in> set zs" for z
    using that src tree_invD(4) [OF t] by (auto simp: splice_source_def split: option.splits)
  show "fr = Some q" if "z \<in> set zs" "z \<in> set (K q)" for z q
  proof (cases fr)
    case None
    with src that(1) have "dn_parent (nd s z) = None" by (auto simp: splice_source_def)
    with tree_invD(6) [OF t that(2)] show ?thesis by simp
  next
    case (Some f)
    with src that(1) have "z \<in> set (K f)" by (simp add: splice_source_def)
    with kids_disjoint [OF t that(2)] Some show ?thesis by blast
  qed
  have "distinct zs \<and> linked (sib_nx s p) (map Some zs) \<and> blinked (sib_pv s p) (map Some zs)"
  proof (cases fr)
    case None
    with src show ?thesis by (auto simp: splice_source_def)
  next
    case (Some f)
    with src have f: "zs = K f" "zs \<noteq> []" by (auto simp: splice_source_def)
    then have "alloc s f" using tree_invD(5) [OF t, of "hd zs" f] by simp
    then have k: "kids s f zs" using tree_invD(3) [OF t] f by simp
    then have "ring (sib_nx s f) (sib_pv s f) None ([] @ map Some zs @ [])" by (simp add: kids_def)
    note seg = ring_segment [OF this]
    have "linked (sib_nx s p) (map Some zs) = linked (sib_nx s f) (map Some zs)"
      by (rule linked_cong) (auto simp: sib_nx_def dest!: in_set_butlastD)
    moreover have "blinked (sib_pv s p) (map Some zs) = blinked (sib_pv s f) (map Some zs)"
      by (rule blinked_cong) (cases zs; auto simp: sib_pv_def)
    ultimately show ?thesis using seg kids_distinct [OF k] by simp
  qed
  then show "distinct zs" "linked (sib_nx s p) (map Some zs)" "blinked (sib_pv s p) (map Some zs)" by auto
qed

lemma acyclic_adopt:
  assumes "acyclic R" and "finite Z" and "\<forall>z \<in> Z. (z, p) \<notin> R\<^sup>*"
  shows "acyclic (R \<union> {p} \<times> Z) \<and> (\<forall>z \<in> Z. (z, p) \<notin> (R \<union> {p} \<times> Z)\<^sup>*)"
proof -
  have "acyclic (R \<union> {p} \<times> Y) \<and> (\<forall>z \<in> Z. (z, p) \<notin> (R \<union> {p} \<times> Y)\<^sup>*)" if "finite Y" "Y \<subseteq> Z" for Y
    using that
  proof (induction rule: finite_induct)
    case empty
    then show ?case using assms(1,3) by simp
  next
    case (insert y Y)
    let ?R = "R \<union> {p} \<times> Y"
    have IH: "acyclic ?R" "\<forall>z \<in> Z. (z, p) \<notin> ?R\<^sup>*" using insert by auto
    have eq: "R \<union> {p} \<times> insert y Y = Set.insert (p, y) ?R" by auto
    have "(y, p) \<notin> ?R\<^sup>*" using IH(2) insert.prems by auto
    then show ?case unfolding eq using IH by (auto simp: acyclic_insert rtrancl_insert)
  qed
  from this [OF assms(2)] show ?thesis by simp
qed

definition splice_kids :: "(dom_ptr \<Rightarrow> dom_ptr list) \<Rightarrow> dom_ptr \<Rightarrow> dom_ptr list \<Rightarrow> dom_ptr option \<Rightarrow> dom_ptr \<Rightarrow> dom_ptr list" where
  "splice_kids K p cs fr q = (if q = p then cs else if fr = Some q then [] else K q)"

lemma tree_inv_splice:
  assumes t: "tree_inv s K" and p: "alloc s p" and K: "K p = xs @ ys" and src: "splice_source s K p zs fr"
    and up: "\<forall>z \<in> set zs. (z, p) \<notin> (parent_rel s)\<^sup>*"
    and ty: "\<forall>z \<in> set zs. child_type_ok (dn_type (nd s p)) (dn_type (nd s z))"
  shows "tree_inv (relink (splice_links p (prev_of xs) (next_of ys) zs fr) s) (splice_kids K p (xs @ zs @ ys) fr)"
proof -
  let ?F = "splice_links p (prev_of xs) (next_of ys) zs fr" and ?K = "splice_kids K p (xs @ zs @ ys) fr"
  let ?s = "relink ?F s"
  note z = source_facts [OF t src]
  have kp: "kids s p (xs @ ys)" using tree_invD(3) [OF t p] K by simp
  have hz: "hd zs \<in> set zs" "last zs \<in> set zs" using z(1) by auto
  have dis: "set zs \<inter> set (K p) = {}" using z(3,5) by blast
  have neigh: "prev_of xs = Some u \<Longrightarrow> u \<in> set (K p)" "next_of ys = Some u \<Longrightarrow> u \<in> set (K p)" for u
    using prev_of_in next_of_in K by force+
  have kids: "kids ?s q (?K q)" if q: "alloc s q" for q
  proof (cases "q = p")
    case True
    let ?U = "set (None # map Some xs @ map Some zs @ map Some ys)"
    have u: "alloc s n" if "Some n \<in> ?U" for n using that tree_invD(4) [OF t, of n p] K z(4) by auto
    have ends: "prev_of xs \<in> ?U" "next_of ys \<in> ?U" "Some (hd zs) \<in> ?U" "Some (last zs) \<in> ?U"
      using hz by (auto simp: prev_of_def next_of_def)
    have ne: "prev_of xs \<noteq> Some (last zs)" "next_of ys \<noteq> Some (hd zs)"
      using neigh hz dis by blast+
    have sib: "sib_nx ?s p v = (if v = prev_of xs then Some (hd zs) else if v = Some (last zs) then next_of ys else sib_nx s p v)"
      "sib_pv ?s p v = (if v = next_of ys then Some (last zs) else if v = Some (hd zs) then prev_of xs else sib_pv s p v)"
      if "v \<in> ?U" for v by (rule splice_sib [OF p _ z(3)]; use u that in blast)+
    have hl: "hd (map Some zs) = Some (hd zs)" "last (map Some zs) = Some (last zs)" using z(1) by (simp_all add: hd_map last_map)
    have "ring (sib_nx ?s p) (sib_pv ?s p) None (map Some xs @ map Some zs @ map Some ys)"
    proof (rule ring_splice [OF _ _ _ _ z(6,7)])
      show "ring (sib_nx s p) (sib_pv s p) None (map Some xs @ map Some ys)" using kp by (simp add: kids_def)
      show "map Some zs \<noteq> []" "distinct (map Some zs)" using z(1,2) by (auto simp: distinct_map)
      show "set (map Some zs) \<inter> set (None # map Some xs @ map Some ys) = {}" using dis K by auto
      show "sib_nx ?s p (last (None # map Some xs)) = hd (map Some zs)" unfolding last_head hl using sib(1) [OF ends(1)] by simp
      show "sib_nx ?s p (last (map Some zs)) = hd (map Some ys @ [None])" unfolding hd_tail hl using sib(1) [OF ends(4)] ne by simp
      show "sib_pv ?s p (hd (map Some ys @ [None])) = last (map Some zs)" unfolding hd_tail hl using sib(2) [OF ends(2)] by simp
      show "sib_pv ?s p (hd (map Some zs)) = last (None # map Some xs)" unfolding last_head hl using sib(2) [OF ends(3)] ne by simp
    qed (unfold last_head hd_tail hl, use sib in \<open>simp_all only: if_True if_False simp_thms\<close>)
    with True show ?thesis by (simp add: kids_def splice_kids_def)
  next
    case False
    show ?thesis
    proof (cases "fr = Some q")
      case True
      with False q show ?thesis by (simp add: splice_kids_def kids_def sib_nx_def sib_pv_def splice_links_def)
    next
      case fr: False
      have kq: "kids s q (K q)" using tree_invD(3) [OF t q] .
      have n: "u \<notin> set (K p)" "u \<notin> set zs" if "u \<in> set (K q)" for u
        using kids_disjoint [OF t that] False z(5) [OF _ that] fr by blast+
      have "dn_next (nd ?s u) = dn_next (nd s u) \<and> dn_previous (nd ?s u) = dn_previous (nd s u)" if u: "u \<in> set (K q)" for u
        using n [OF u] neigh [of u] hz tree_invD(4) [OF t u] by (auto simp: splice_links_def)
      then have "kids ?s q (K q)" using False fr q kq by (subst kids_cong [where s = s]) (auto simp: splice_links_def)
      with False fr show ?thesis by (simp add: splice_kids_def)
    qed
  qed
  show ?thesis
  proof (rule tree_invI)
    show "finite {n. alloc ?s n}" using tree_invD(1) [OF t] by simp
    have "parent_rel ?s \<subseteq> parent_rel s \<union> {p} \<times> set zs"
      by (auto simp: parent_rel_def splice_links_def split: if_splits)
    then show "acyclic (parent_rel ?s)"
      using acyclic_adopt [OF tree_invD(2) [OF t] finite_set up] acyclic_subset by blast
    show "?K q = []" if "\<not> alloc ?s q" for q using tree_inv_dead [OF t] that p by (auto simp: splice_kids_def)
    show "kids ?s q (?K q)" if "alloc ?s q" for q using kids that by simp
    show "alloc ?s u \<and> dn_parent (nd ?s u) = Some q \<and> child_type_ok (dn_type (nd ?s q)) (dn_type (nd ?s u))"
      if u: "u \<in> set (?K q)" for q u
    proof -
      consider "q = p" "u \<in> set zs" | "u \<in> set (K q)" "u \<notin> set zs"
        using u K z(5) [of u q] by (auto simp: splice_kids_def split: if_splits)
      then show ?thesis
      proof cases
        case 1
        then show ?thesis using z(4) ty p by (simp add: splice_links_def)
      next
        case 2
        then show ?thesis using tree_invD(4-7) [OF t 2(1)] by (simp add: splice_links_def)
      qed
    qed
    show "alloc ?s q \<and> (dn_type (nd ?s u) \<noteq> DOM_ATTRIBUTE_NODE \<longrightarrow> u \<in> set (?K q))"
      if u: "alloc ?s u" "dn_parent (nd ?s u) = Some q" for u q
    proof (cases "u \<in> set zs")
      case True
      with u p show ?thesis by (auto simp: splice_links_def splice_kids_def)
    next
      case False
      with u have n: "alloc s u" "dn_parent (nd s u) = Some q" by (auto simp: splice_links_def)
      have "u \<in> set (K q) \<Longrightarrow> u \<in> set (?K q)" using K src False by (auto simp: splice_kids_def splice_source_def)
      then show ?thesis using tree_invD(8,9) [OF t n] n(1) by (auto simp: splice_links_def)
    qed
    show "dn_previous (nd ?s u) = None \<and> dn_next (nd ?s u) = None" if u: "alloc ?s u" "\<And>q. u \<notin> set (?K q)" for u
    proof -
      have n: "u \<notin> set zs" "u \<notin> set (K p)" using u(2) [of p] K by (auto simp: splice_kids_def)
      have "u \<notin> set (K q)" for q using u(2) [of q] n src by (auto simp: splice_kids_def splice_source_def split: if_splits)
      then show ?thesis using tree_inv_loose [OF t, of u] u(1) n neigh [of u] hz by (auto simp: splice_links_def)
    qed
  qed
qed

section \<open>The operations on links\<close>

lemma attach_links_ok:
  assumes "alloc s first" "alloc s lst" "alloc s p" "\<And>u. previous = Some u \<Longrightarrow> alloc s u" "\<And>u. next = Some u \<Longrightarrow> alloc s u"
  shows "attach_links first lst p previous next s = Some (relink (\<lambda>u r. r\<lparr>
     dn_first_child := (if u = p \<and> previous = None then Some first else dn_first_child r),
     dn_last_child := (if u = p \<and> next = None then Some lst else dn_last_child r),
     dn_previous := (if next = Some u then Some lst else if u = first then previous else dn_previous r),
     dn_next := (if previous = Some u then Some first else if u = lst then next else dn_next r)\<rparr>) s)"
  using assms unfolding attach_links_def
  by (cases previous; cases "next") (auto simp: set_link_before_def set_link_after_def intro!: relink_cong)

text \<open>Walking the attached run, setting the parents and dispatching the events.\<close>

lemma attach_loop_ok:
  assumes t: "tree_inv s0 K" and ok: "all_ok out"
    and Z: "\<And>z z'. z \<in> Z \<Longrightarrow> z' \<in> Z \<Longrightarrow> (z, z') \<notin> (parent_rel s0)\<^sup>+"
    and zs: "set zs \<subseteq> Z" "lst \<in> Z" "\<And>z. z \<in> Z \<Longrightarrow> alloc s0 z" and al: "alloc s = alloc s0"
    and top: "\<And>z m. z \<in> Z \<Longrightarrow> (z, m) \<in> (parent_rel s0)\<^sup>* \<Longrightarrow>
      dn_first_child (nd s m) = dn_first_child (nd s0 m) \<and> dn_last_child (nd s m) = dn_last_child (nd s0 m)"
    and low: "\<And>z m. z \<in> Z \<Longrightarrow> (z, m) \<in> (parent_rel s0)\<^sup>+ \<Longrightarrow> dn_next (nd s m) = dn_next (nd s0 m) \<and>
      dn_previous (nd s m) = dn_previous (nd s0 m) \<and> dn_parent (nd s m) = dn_parent (nd s0 m)"
    and p: "alloc s p" "dn_owner (nd s p) = Some doc"
    and lk: "linked (sib_nx s p) (map Some zs @ [nxt])" and n: "dn_next (nd s lst) = nxt" "nxt \<notin> Some ` set zs"
  shows "\<exists>evs. attach_loop out (hd (map Some zs @ [nxt])) lst p s =
    Some (DOM_NO_ERR, logged evs (relink (\<lambda>u r. r\<lparr>dn_parent := if u \<in> set zs then Some p else dn_parent r\<rparr>) s))"
  using zs(1) al top low p lk n
proof (induction zs arbitrary: s)
  case Nil
  have l: "alloc s lst" using zs(2,3) Nil.prems(2) by simp
  have "attach_loop out nxt lst p s = Some (DOM_NO_ERR, logged [] (relink (\<lambda>u r. r\<lparr>dn_parent := dn_parent r\<rparr>) s))"
    using l Nil.prems(8) by (subst attach_loop.simps) (simp add: relink_id)
  then show ?case by (intro exI [of _ "[]"]) simp
next
  case (Cons z zs)
  let ?G = "\<lambda>u r :: dom_node_internal. if u = z then r\<lparr>dn_parent := Some p\<rparr> else r"
  let ?s1 = "relink ?G s"
  have z: "z \<in> Z" "alloc s z" "alloc s0 z" using Cons.prems(1,2) zs(3) by auto
  have l: "alloc s lst" using zs(2,3) Cons.prems(2) by simp
  have out_z: "m \<noteq> z" if "z' \<in> Z" "(z', m) \<in> (parent_rel s0)\<^sup>+" for z' m using Z [OF that(1) z(1)] that(2) by blast
  have st: "alloc s0 m" if "z' \<in> Z" "(z', m) \<in> (parent_rel s0)\<^sup>*" for z' m
    using that(2) zs(3) [OF that(1)] by (induction rule: rtrancl_induct) (auto simp: parent_rel_def)
  have top1: "dn_first_child (nd ?s1 m) = dn_first_child (nd s0 m) \<and> dn_last_child (nd ?s1 m) = dn_last_child (nd s0 m)"
    if "z' \<in> Z" "(z', m) \<in> (parent_rel s0)\<^sup>*" for z' m
    using Cons.prems(3) [OF that] st [OF that] Cons.prems(2) by auto
  have low1: "dn_next (nd ?s1 m) = dn_next (nd s0 m) \<and> dn_previous (nd ?s1 m) = dn_previous (nd s0 m) \<and>
      dn_parent (nd ?s1 m) = dn_parent (nd s0 m)" if "z' \<in> Z" "(z', m) \<in> (parent_rel s0)\<^sup>+" for z' m
    using Cons.prems(4) [OF that] st [OF that(1) trancl_into_rtrancl [OF that(2)]] Cons.prems(2) out_z [OF that] by simp
  have "\<exists>evs. dom_node_dispatch_node_change_event out (Some doc) z (Some p) DOM_MUTATION_ADDITION ?s1 =
      Some (DOM_NO_ERR, logged evs ?s1)"
    by (rule dispatch_elsewhere [OF t z(3) ok _ top1 [OF z(1)] low1 [OF z(1)]]) (use Cons.prems(2) in simp)
  then obtain evs where d: "dom_node_dispatch_node_change_event out (Some doc) z (Some p) DOM_MUTATION_ADDITION ?s1 =
      Some (DOM_NO_ERR, logged evs ?s1)" by blast
  let ?s2 = "logged evs ?s1"
  have nx: "dn_next (nd s z) = hd (map Some zs @ [nxt])" and lk2: "linked (sib_nx s p) (map Some zs @ [nxt])"
    using linked_append [of "sib_nx s p" "[Some z]" "map Some zs @ [nxt]"] Cons.prems(7)
    by (simp_all add: sib_nx_def [of s p "Some z"])
  have lk3: "linked (sib_nx ?s2 p) (map Some zs @ [nxt]) = linked (sib_nx s p) (map Some zs @ [nxt])"
    by (rule linked_cong) (use Cons.prems(1,2) zs(3) in \<open>auto simp: sib_nx_def\<close>)
  have "\<exists>evs'. attach_loop out (hd (map Some zs @ [nxt])) lst p ?s2 =
      Some (DOM_NO_ERR, logged evs' (relink (\<lambda>u r. r\<lparr>dn_parent := if u \<in> set zs then Some p else dn_parent r\<rparr>) ?s2))"
  proof (rule Cons.IH)
    show "linked (sib_nx ?s2 p) (map Some zs @ [nxt])" unfolding lk3 by (rule lk2)
    show "dn_next (nd ?s2 lst) = nxt" using l Cons.prems(8) by auto
    show "dn_owner (nd ?s2 p) = Some doc" using Cons.prems(5,6) by auto
  qed (use Cons.prems(1,2,5,9) in simp, use Cons.prems(1,2,5,9) in simp, unfold state_simps, rule top1, assumption, assumption,
    rule low1, assumption, assumption, use Cons.prems(1,2,5,9) in simp, use Cons.prems(9) in simp)
  then obtain evs' where r: "attach_loop out (hd (map Some zs @ [nxt])) lst p ?s2 =
      Some (DOM_NO_ERR, logged evs' (relink (\<lambda>u r. r\<lparr>dn_parent := if u \<in> set zs then Some p else dn_parent r\<rparr>) ?s2))"
    by blast
  have "Some z \<noteq> dn_next (nd s lst)" using Cons.prems(8,9) by auto
  then have step: "attach_loop out (Some z) lst p s = attach_loop out (hd (map Some zs @ [nxt])) lst p ?s2"
    using l z(2) d nx Cons.prems(5,6) by (subst attach_loop.simps) (cases "p = z"; auto)
  have "relink (\<lambda>u r. r\<lparr>dn_parent := if u \<in> set zs then Some p else dn_parent r\<rparr>) ?s1 =
      relink (\<lambda>u r. r\<lparr>dn_parent := if u \<in> set (z # zs) then Some p else dn_parent r\<rparr>) s"
    by (auto intro!: relink_cong)
  with step r show ?case by (intro exI [of _ "evs @ evs'"]) simp
qed

end
