(* ===== verification/Dom_Ops.thy ===== *)
theory Dom_Ops
  imports Dom_Tree
begin

text \<open>
  What the operations of the Node interface do to the tree and to the pending lists: each succeeds or
  refuses without touching the tree, never trips over an assertion or a NULL, and on success
  changes the lists of children as the DOM says. The assumption \<open>all_ok out\<close> is that no dispatch fails.
\<close>

lemma tree_inv_state [simp]:
  "parent_rel (s\<lparr>ds_events := es\<rparr>) = parent_rel s" "parent_rel (s\<lparr>ds_pending := L\<rparr>) = parent_rel s"
  "tree_inv (s\<lparr>ds_events := es\<rparr>) K = tree_inv s K" "tree_inv (s\<lparr>ds_pending := L\<rparr>) K = tree_inv s K"
proof -
  show pr: "parent_rel (s\<lparr>ds_events := es\<rparr>) = parent_rel s" "parent_rel (s\<lparr>ds_pending := L\<rparr>) = parent_rel s"
    by (simp_all add: parent_rel_def)
  show "tree_inv (s\<lparr>ds_events := es\<rparr>) K = tree_inv s K" "tree_inv (s\<lparr>ds_pending := L\<rparr>) K = tree_inv s K"
    by (simp_all only: tree_inv_def state_simps kids_nodes pr)
qed

section \<open>Attaching a run of nodes\<close>

lemma siblings_apart:
  assumes t: "tree_inv s K" and src: "splice_source s K p zs fr" and z: "z \<in> set zs" "z' \<in> set zs"
  shows "(z, z') \<notin> (parent_rel s)\<^sup>+"
proof
  assume "(z, z') \<in> (parent_rel s)\<^sup>+"
  then obtain q where q: "(z, q) \<in> (parent_rel s)\<^sup>*" "(q, z') \<in> parent_rel s" by (meson tranclD2)
  then have pz: "dn_parent (nd s z') = Some q" by (simp add: parent_rel_def)
  show False
  proof (cases fr)
    case None
    with src z(2) pz show False by (auto simp: splice_source_def)
  next
    case (Some f)
    with src have "z \<in> set (K f)" "z' \<in> set (K f)" using z by (auto simp: splice_source_def)
    then have "(f, z) \<in> parent_rel s" "q = f" using tree_invD(4,6) [OF t] pz by (auto simp: parent_rel_def)
    with q(1) have "(f, f) \<in> (parent_rel s)\<^sup>+" by (meson rtrancl_into_trancl2)
    then show False using tree_invD(2) [OF t] by (auto simp: acyclic_def)
  qed
qed

lemma attach_range_ok:
  assumes t: "tree_inv s K" and ok: "all_ok out" and p: "alloc s p" "dn_owner (nd s p) = Some doc" and K: "K p = xs @ ys"
    and src: "splice_source s K p zs fr" and up: "\<forall>z \<in> set zs. (z, p) \<notin> (parent_rel s)\<^sup>*"
  shows "\<exists>evs. dom_node_attach_range out (hd zs) (last zs) p (prev_of xs) (next_of ys) s =
    Some (DOM_NO_ERR, logged evs (relink (splice_links p (prev_of xs) (next_of ys) zs None) s))"
proof -
  note z = source_facts [OF t src]
  have hz: "hd zs \<in> set zs" "last zs \<in> set zs" using z(1) by auto
  have neigh: "u \<in> set (K p)" "alloc s u" if "prev_of xs = Some u \<or> next_of ys = Some u" for u
    using that prev_of_in next_of_in K tree_invD(4) [OF t, of u p] by force+
  have dis: "set zs \<inter> set (K p) = {}" using z(3,5) by blast
  let ?W = "\<lambda>u r. r\<lparr>
     dn_first_child := (if u = p \<and> prev_of xs = None then Some (hd zs) else dn_first_child r),
     dn_last_child := (if u = p \<and> next_of ys = None then Some (last zs) else dn_last_child r),
     dn_previous := (if next_of ys = Some u then Some (last zs) else if u = hd zs then prev_of xs else dn_previous r),
     dn_next := (if prev_of xs = Some u then Some (hd zs) else if u = last zs then next_of ys else dn_next r)\<rparr>"
  let ?s1 = "relink ?W s"
  have links: "attach_links (hd zs) (last zs) p (prev_of xs) (next_of ys) s = Some ?s1"
    using z(4) hz p(1) neigh by (intro attach_links_ok) auto
  have st: "alloc s m" if "u \<in> set zs" "(u, m) \<in> (parent_rel s)\<^sup>*" for u m
    using that(2) z(4) [OF that(1)] by (induction rule: rtrancl_induct) (auto simp: parent_rel_def)
  have "\<exists>evs. attach_loop out (hd (map Some zs @ [next_of ys])) (last zs) p ?s1 =
    Some (DOM_NO_ERR, logged evs (relink (\<lambda>u r. r\<lparr>dn_parent := if u \<in> set zs then Some p else dn_parent r\<rparr>) ?s1))"
  proof (rule attach_loop_ok [OF t ok, where Z = "set zs" and doc = doc])
    show "(u, v) \<notin> (parent_rel s)\<^sup>+" if "u \<in> set zs" "v \<in> set zs" for u v using siblings_apart [OF t src that] .
    show "dn_first_child (nd ?s1 m) = dn_first_child (nd s m) \<and> dn_last_child (nd ?s1 m) = dn_last_child (nd s m)"
      if "u \<in> set zs" "(u, m) \<in> (parent_rel s)\<^sup>*" for u m
    proof -
      have "m \<noteq> p" using up that by blast
      with st [OF that] show ?thesis by simp
    qed
    show "dn_next (nd ?s1 m) = dn_next (nd s m) \<and> dn_previous (nd ?s1 m) = dn_previous (nd s m) \<and>
        dn_parent (nd ?s1 m) = dn_parent (nd s m)" if u: "u \<in> set zs" "(u, m) \<in> (parent_rel s)\<^sup>+" for u m
    proof -
      have "m \<notin> set zs" using siblings_apart [OF t src u(1)] u(2) by blast
      moreover have "m \<notin> set (K p)"
      proof
        assume "m \<in> set (K p)"
        then have "dn_parent (nd s m) = Some p" using tree_invD(6) [OF t] by blast
        moreover obtain q where "(u, q) \<in> (parent_rel s)\<^sup>*" "(q, m) \<in> parent_rel s" using u(2) by (meson tranclD2)
        ultimately show False using up u(1) by (auto simp: parent_rel_def)
      qed
      moreover have "m \<noteq> hd zs" "m \<noteq> last zs" using calculation(1) hz by auto
      ultimately show ?thesis using st [OF u(1) trancl_into_rtrancl [OF u(2)]] neigh(1) [of m] by auto
    qed
    have "linked (sib_nx ?s1 p) (map Some zs) = linked (sib_nx s p) (map Some zs)"
    proof (rule linked_cong)
      fix v assume "v \<in> set (butlast (map Some zs))"
      then obtain u where u: "v = Some u" "u \<in> set (butlast zs)" by (auto simp: map_butlast [symmetric])
      then have "u \<in> set zs" "u \<noteq> last zs" using in_set_butlastD distinct_last_butlast [OF z(2,1)] by fastforce+
      moreover have "prev_of xs \<noteq> Some u" using neigh(1) dis calculation(1) by blast
      ultimately show "sib_nx ?s1 p v = sib_nx s p v" using u(1) z(4) by (simp add: sib_nx_def)
    qed
    moreover have "sib_nx ?s1 p (Some (last zs)) = next_of ys"
      using z(4) [OF hz(2)] neigh(1) [of "last zs"] dis hz(2) by (auto simp: sib_nx_def)
    ultimately show "linked (sib_nx ?s1 p) (map Some zs @ [next_of ys])"
      using z(1,6) by (simp add: linked_append last_map)
    show "dn_next (nd ?s1 (last zs)) = next_of ys"
      using z(4) [OF hz(2)] neigh(1) [of "last zs"] dis hz(2) by auto
    show "next_of ys \<notin> Some ` set zs" using neigh(1) dis by (metis disjoint_iff imageE)
  qed (use z(4) hz p in \<open>auto\<close>)
  moreover have "hd (map Some zs @ [next_of ys]) = Some (hd zs)" using z(1) by (simp add: hd_append hd_map)
  moreover have "relink (\<lambda>u r. r\<lparr>dn_parent := if u \<in> set zs then Some p else dn_parent r\<rparr>) ?s1 =
      relink (splice_links p (prev_of xs) (next_of ys) zs None) s"
    by (auto simp: splice_links_def intro!: relink_cong)
  ultimately obtain evs where "attach_loop out (Some (hd zs)) (last zs) p ?s1 =
      Some (DOM_NO_ERR, logged evs (relink (splice_links p (prev_of xs) (next_of ys) zs None) s))" by auto
  then show ?thesis using links p ok
    by (intro exI [of _ "evs @ [SubtreeModified p]"])
       (simp add: dom_node_attach_range_def dispatch_subtree_modified_event_def fire_def splice_links_def)
qed

section \<open>Detaching a node\<close>

lemma detach_range_ok:
  assumes t: "tree_inv s K" and ok: "all_ok out" and K: "K p = xs @ x # ys"
    and ow: "dn_owner (nd s p) = Some doc" "dn_owner (nd s x) = Some doc'"
  shows "\<exists>evs. dom_node_detach_range out x x s = Some (DOM_NO_ERR, logged evs (relink (cut_links p x (prev_of xs) (next_of ys)) s))"
proof -
  have x: "x \<in> set (K p)" using K by simp
  note xp = tree_invD(4,5,6) [OF t x]
  have kp: "kids s p (xs @ x # ys)" using tree_invD(3) [OF t xp(2)] K by simp
  have nb: "dn_next (nd s x) = next_of ys" "dn_previous (nd s x) = prev_of xs"
    using kids_mid [OF kp] by (simp_all add: next_of_def prev_of_def)
  have px: "p \<noteq> x" using tree_invD(2) [OF t] xp by (auto simp: acyclic_def parent_rel_def)
  have d: "distinct (xs @ x # ys)" using kids_distinct [OF kp] .
  have neigh: "u \<in> set (K p)" "alloc s u" "u \<noteq> x" if "prev_of xs = Some u \<or> next_of ys = Some u" for u
    using that prev_of_in next_of_in K tree_invD(4) [OF t, of u p] d by force+
  let ?W = "\<lambda>u r :: dom_node_internal. r\<lparr>
     dn_first_child := (if u = p \<and> prev_of xs = None then next_of ys else dn_first_child r),
     dn_last_child := (if u = p \<and> next_of ys = None then prev_of xs else dn_last_child r),
     dn_previous := (if next_of ys = Some u then prev_of xs else dn_previous r),
     dn_next := (if prev_of xs = Some u then next_of ys else dn_next r)\<rparr>"
  let ?s1 = "relink ?W s"
  have links: "detach_links x x s = Some ?s1"
    using neigh nb xp px unfolding detach_links_def
    by (cases "prev_of xs"; cases "next_of ys") (auto simp: set_link_before_def set_link_after_def intro!: relink_cong)
  have st: "alloc s m" if "(x, m) \<in> (parent_rel s)\<^sup>*" for m
    using that xp(1) by (induction rule: rtrancl_induct) (auto simp: parent_rel_def)
  have up: "(x, p) \<notin> (parent_rel s)\<^sup>*"
    using tree_invD(2) [OF t] xp by (auto simp: acyclic_def parent_rel_def dest: rtrancl_into_trancl1)
  have "\<exists>evs. dom_node_dispatch_node_change_event out (Some doc') x (Some p) DOM_MUTATION_REMOVAL ?s1 =
      Some (DOM_NO_ERR, logged evs ?s1)"
  proof (rule dispatch_elsewhere [OF t xp(1) ok])
    show "dn_first_child (nd ?s1 m) = dn_first_child (nd s m) \<and> dn_last_child (nd ?s1 m) = dn_last_child (nd s m)"
      if "(x, m) \<in> (parent_rel s)\<^sup>*" for m
    proof -
      have "m \<noteq> p" using up that by blast
      with st [OF that] show ?thesis by simp
    qed
    show "dn_next (nd ?s1 m) = dn_next (nd s m) \<and> dn_previous (nd ?s1 m) = dn_previous (nd s m) \<and>
        dn_parent (nd ?s1 m) = dn_parent (nd s m)" if m: "(x, m) \<in> (parent_rel s)\<^sup>+" for m
    proof -
      have "m \<notin> set (K p)"
      proof
        assume "m \<in> set (K p)"
        then have "dn_parent (nd s m) = Some p" using tree_invD(6) [OF t] by blast
        moreover obtain q where "(x, q) \<in> (parent_rel s)\<^sup>*" "(q, m) \<in> parent_rel s" using m by (meson tranclD2)
        ultimately show False using up by (auto simp: parent_rel_def)
      qed
      then show ?thesis using st [OF trancl_into_rtrancl [OF m]] neigh(1) [of m] by auto
    qed
  qed simp
  then obtain evs where ev: "dom_node_dispatch_node_change_event out (Some doc') x (Some p) DOM_MUTATION_REMOVAL ?s1 =
      Some (DOM_NO_ERR, logged evs ?s1)" by blast
  have nxt: "dn_next (nd s x) \<noteq> Some x" using nb neigh(3) by auto
  have s1x: "dn_parent (nd ?s1 x) = Some p" "dn_owner (nd ?s1 x) = Some doc'" "dn_next (nd ?s1 x) = dn_next (nd s x)"
    using xp ow neigh(3) by auto
  let ?s2 = "logged evs (relink (\<lambda>u r. if u = x then r\<lparr>dn_parent := None\<rparr> else r) ?s1)"
  have stop: "detach_loop out DOM_NO_ERR (dn_next (nd s x)) x ?s2 = Some (DOM_NO_ERR, ?s2)"
    using xp(1) neigh(3) by (subst detach_loop.simps) auto
  have loop: "detach_loop out DOM_NO_ERR (Some x) x ?s1 = Some (DOM_NO_ERR, ?s2)"
    using stop ev s1x xp(1) nxt neigh(3) by (subst detach_loop.simps) auto
  have fin: "relink (\<lambda>u r. if u = x then r\<lparr>dn_next := None\<rparr> else r) (relink (\<lambda>u r. if u = x then r\<lparr>dn_previous := None\<rparr> else r)
      (relink (\<lambda>u r. if u = x then r\<lparr>dn_parent := None\<rparr> else r) ?s1)) =
      relink (cut_links p x (prev_of xs) (next_of ys)) s"
    using px by (auto simp: cut_links_def intro!: relink_cong)
  show ?thesis using links loop fin s1x xp ow px
    by (intro exI [of _ "evs @ [SubtreeModified p]"])
       (simp add: dom_node_detach_range_def dispatch_subtree_modified_event_def fire_def Let_def)
qed

section \<open>The pending lists\<close>

lemma filter_neq_id [simp]: "n \<notin> set xs \<Longrightarrow> filter (\<lambda>u. u \<noteq> n) xs = xs"
  by (induction xs) auto

definition pend_rings :: "pending_entry list_entry \<Rightarrow> dom_ptr set \<Rightarrow> (dom_ptr \<Rightarrow> dom_ptr list) \<Rightarrow> bool" where
  "pend_rings L D P \<longleftrightarrow> (\<forall>d \<in> D. list_members L (PendingHead d) (map PendingOf (P d))) \<and> (\<forall>d. d \<notin> D \<longrightarrow> P d = []) \<and>
     (\<forall>d d' n. n \<in> set (P d) \<and> n \<in> set (P d') \<longrightarrow> d = d') \<and>
     (\<forall>n. (\<forall>d. n \<notin> set (P d)) \<longrightarrow> list_single (PendingOf n) L)"

text \<open>Who is waiting: the nodes of the document that have no parent. A fragment may also be out of the
  list, since inserting its children takes it out.\<close>

definition pend_nodes :: "dom_state \<Rightarrow> (dom_ptr \<Rightarrow> dom_ptr list) \<Rightarrow> bool" where
  "pend_nodes s P \<longleftrightarrow>
     (\<forall>d. \<forall>n \<in> set (P d). alloc s n \<and> dn_owner (nd s n) = Some d \<and> dn_parent (nd s n) = None) \<and>
     (\<forall>n d. alloc s n \<and> dn_owner (nd s n) = Some d \<longrightarrow> d \<in> dom (ds_dispatching s) \<and>
        (dn_parent (nd s n) = None \<and> dn_type (nd s n) \<notin> {DOM_DOCUMENT_NODE, DOM_DOCUMENT_FRAGMENT_NODE} \<longrightarrow> n \<in> set (P d))) \<and>
     (\<forall>n. alloc s n \<and> dn_owner (nd s n) = None \<longrightarrow> dn_type (nd s n) = DOM_DOCUMENT_TYPE_NODE \<and> dn_parent (nd s n) = None) \<and>
     (\<forall>n. alloc s n \<and> dn_type (nd s n) = DOM_DOCUMENT_NODE \<longrightarrow> dn_owner (nd s n) = Some n)"

definition dom_inv :: "dom_state \<Rightarrow> (dom_ptr \<Rightarrow> dom_ptr list) \<Rightarrow> (dom_ptr \<Rightarrow> dom_ptr list) \<Rightarrow> bool" where
  "dom_inv s K P \<longleftrightarrow> tree_inv s K \<and> pend_rings (ds_pending s) (dom (ds_dispatching s)) P \<and> pend_nodes s P"

lemma pend_nodesD:
  assumes "pend_nodes s P"
  shows "n \<in> set (P d) \<Longrightarrow> alloc s n" and "n \<in> set (P d) \<Longrightarrow> dn_owner (nd s n) = Some d"
    and "n \<in> set (P d) \<Longrightarrow> dn_parent (nd s n) = None"
    and "alloc s n \<Longrightarrow> dn_owner (nd s n) = Some d \<Longrightarrow> d \<in> dom (ds_dispatching s)"
    and "alloc s n \<Longrightarrow> dn_owner (nd s n) = Some d \<Longrightarrow> dn_parent (nd s n) = None \<Longrightarrow>
      dn_type (nd s n) \<notin> {DOM_DOCUMENT_NODE, DOM_DOCUMENT_FRAGMENT_NODE} \<Longrightarrow> n \<in> set (P d)"
    and "alloc s n \<Longrightarrow> dn_owner (nd s n) = None \<Longrightarrow> dn_type (nd s n) = DOM_DOCUMENT_TYPE_NODE \<and> dn_parent (nd s n) = None"
    and "alloc s n \<Longrightarrow> dn_type (nd s n) = DOM_DOCUMENT_NODE \<Longrightarrow> dn_owner (nd s n) = Some n"
  using assms unfolding pend_nodes_def by blast+

lemma pend_rings_append:
  assumes r: "pend_rings L D P" and d: "d \<in> D" and n: "\<And>d. n \<notin> set (P d)"
  shows "pend_rings (list_append (PendingHead d) (PendingOf n) L) D (P(d := P d @ [n]))"
proof -
  let ?L = "list_append (PendingHead d) (PendingOf n) L"
  have m: "list_members L (PendingHead e) (map PendingOf (P e))" if "e \<in> D" for e using r that by (simp add: pend_rings_def)
  have dis: "e = e'" if "u \<in> set (P e)" "u \<in> set (P e')" for u e e' using r that unfolding pend_rings_def by blast
  have "list_members ?L (PendingHead e) (map PendingOf ((P(d := P d @ [n])) e))" if "e \<in> D" for e
  proof (cases "e = d")
    case True
    with list_append_members [OF m [OF d], of "PendingOf n"] n show ?thesis by auto
  next
    case False
    have "set (PendingHead d # map PendingOf (P d)) \<inter> set (PendingHead e # map PendingOf (P e)) = {}"
      using False dis by auto
    then have "list_members ?L (PendingHead e) (map PendingOf (P e))"
      using list_append_other [OF m [OF d] m [OF that]] n by auto
    with False show ?thesis by simp
  qed
  moreover have "list_single (PendingOf u) ?L" if u: "\<And>e. u \<notin> set ((P(d := P d @ [n])) e)" for u
  proof (rule list_single_append_other [OF m [OF d]])
    have "u \<notin> set (P e)" for e using u [of e] by (auto split: if_splits)
    moreover have "u \<noteq> n" using u [of d] by simp
    ultimately show "PendingOf u \<notin> set (PendingHead d # map PendingOf (P d))" "PendingOf u \<noteq> PendingOf n" "list_single (PendingOf u) L"
      using r by (auto simp: pend_rings_def)
  qed
  moreover have "\<forall>e. e \<notin> D \<longrightarrow> (P(d := P d @ [n])) e = []" using r d by (auto simp: pend_rings_def)
  moreover have "\<forall>e e' u. u \<in> set ((P(d := P d @ [n])) e) \<and> u \<in> set ((P(d := P d @ [n])) e') \<longrightarrow> e = e'"
    using dis n by (auto split: if_splits)
  ultimately show ?thesis unfolding pend_rings_def by blast
qed

lemma pend_rings_del:
  assumes r: "pend_rings L D P" and n: "n \<in> set (P d)"
  shows "pend_rings (list_del (PendingOf n) L) D (\<lambda>e. filter (\<lambda>u. u \<noteq> n) (P e))" and "le_prev L (PendingOf n) \<noteq> PendingOf n"
proof -
  let ?L = "list_del (PendingOf n) L" and ?P = "\<lambda>e. filter (\<lambda>u. u \<noteq> n) (P e)"
  have m: "list_members L (PendingHead e) (map PendingOf (P e))" if "e \<in> D" for e using r that by (simp add: pend_rings_def)
  have dis: "e = e'" if "u \<in> set (P e)" "u \<in> set (P e')" for u e e' using r that unfolding pend_rings_def by blast
  have d: "d \<in> D" using r n by (auto simp: pend_rings_def)
  obtain xs ys where P: "P d = xs @ n # ys" using n by (meson split_list)
  have md: "list_members L (PendingHead d) (map PendingOf xs @ PendingOf n # map PendingOf ys)" using m [OF d] P by simp
  then have nin: "n \<notin> set xs" "n \<notin> set ys" by (auto simp: list_members_def ring_def)
  show "le_prev L (PendingOf n) \<noteq> PendingOf n" using list_members_not_single [OF m [OF d]] n by simp
  have "list_members ?L (PendingHead e) (map PendingOf (?P e))" if e: "e \<in> D" for e
  proof (cases "e = d")
    case True
    have "?P d = xs @ ys" using P nin by simp
    with True list_del_members(1) [OF md] show ?thesis by simp
  next
    case False
    then have "n \<notin> set (P e)" using dis n by blast
    then have "?P e = P e" by simp
    moreover have "set (PendingHead d # map PendingOf xs @ PendingOf n # map PendingOf ys) \<inter> set (PendingHead e # map PendingOf (P e)) = {}"
      using False dis [of _ d e] P by auto
    ultimately show ?thesis using list_del_other [OF md m [OF e]] by simp
  qed
  moreover have "list_single (PendingOf u) ?L" if u: "\<And>e. u \<notin> set (?P e)" for u
  proof (cases "u = n")
    case True
    with list_del_members(2) [OF md] show ?thesis by simp
  next
    case False
    then have "u \<notin> set (P e)" for e using u [of e] by auto
    then have "list_single (PendingOf u) L" "u \<notin> set (P d)" using r by (auto simp: pend_rings_def)
    with list_single_del_other [OF md] False P show ?thesis by auto
  qed
  moreover have "\<forall>e. e \<notin> D \<longrightarrow> ?P e = []" using r by (auto simp: pend_rings_def)
  moreover have "\<forall>e e' u. u \<in> set (?P e) \<and> u \<in> set (?P e') \<longrightarrow> e = e'" using dis by auto
  ultimately show "pend_rings ?L D ?P" unfolding pend_rings_def by blast
qed

lemma pend_rings_single: "pend_rings L D P \<Longrightarrow> (\<And>d. n \<notin> set (P d)) \<Longrightarrow> le_prev L (PendingOf n) = PendingOf n"
  by (auto simp: pend_rings_def list_single_def)

lemma readonly_total:
  assumes i: "dom_inv s K P" and n: "alloc s n"
  shows "\<exists>b. dom_node_readonly s n = Some b"
proof -
  have t: "tree_inv s K" and q: "pend_nodes s P" using i by (simp_all add: dom_inv_def)
  have "\<exists>b. dom_node_readonly_owner s n = Some b"
    using n pend_nodesD(4) [OF q n] by (cases "dn_owner (nd s n)") (auto simp: dom_node_readonly_owner_def)
  moreover obtain b where "in_entity s (Some n) = Some b" using in_entity_total [OF t n] by blast
  ultimately show ?thesis using n by (auto simp: dom_node_readonly_def)
qed

text \<open>What stays with a node while it is moved about.\<close>

definition same_ident :: "dom_state \<Rightarrow> dom_state \<Rightarrow> bool" where
  "same_ident s s' \<longleftrightarrow> alloc s' = alloc s \<and> ds_dispatching s' = ds_dispatching s \<and>
     (\<forall>u. alloc s u \<longrightarrow> dn_type (nd s' u) = dn_type (nd s u) \<and> dn_owner (nd s' u) = dn_owner (nd s u))"

lemma same_ident_links [simp]:
  "same_ident s (logged evs (relink (cut_links p x pv nx) s))" "same_ident s (relink (splice_links p pv nx zs fr) s)"
  by (simp_all add: same_ident_def cut_links_def splice_links_def)

text \<open>Detaching with its bookkeeping.\<close>

lemma detach_ok:
  assumes i: "dom_inv s K P" and ok: "all_ok out" and K: "K p = xs @ x # ys"
  obtains s' d where "dom_node_detach out x s = Some s'" and "tree_inv s' (K(p := xs @ ys))" and "same_ident s s'"
    and "pend_rings (ds_pending s') (dom (ds_dispatching s)) (P(d := P d @ [x]))" and "dn_owner (nd s x) = Some d"
    and "\<forall>u. alloc s u \<longrightarrow> dn_parent (nd s' u) = (if u = x then None else dn_parent (nd s u))" and "\<forall>d. x \<notin> set (P d)"
proof -
  have t: "tree_inv s K" and r: "pend_rings (ds_pending s) (dom (ds_dispatching s)) P" and q: "pend_nodes s P"
    using i by (simp_all add: dom_inv_def)
  have x: "x \<in> set (K p)" using K by simp
  note xp = tree_invD(4-6) [OF t x]
  have px: "p \<noteq> x" using tree_invD(2) [OF t] xp by (auto simp: acyclic_def parent_rel_def)
  have nt: "dn_type (nd s p) \<noteq> DOM_DOCUMENT_TYPE_NODE"
    using tree_invD(7) [OF t x] by (auto simp: child_type_ok_def)
  obtain d where d: "dn_owner (nd s x) = Some d" using pend_nodesD(6) [OF q xp(1)] xp(3) by (cases "dn_owner (nd s x)") auto
  obtain e where e: "dn_owner (nd s p) = Some e" using pend_nodesD(6) [OF q xp(2)] nt by (cases "dn_owner (nd s p)") auto
  have nin: "x \<notin> set (P d)" for d using pend_nodesD(3) [OF q] xp(3) by fastforce
  have dd: "d \<in> dom (ds_dispatching s)" using pend_nodesD(4) [OF q xp(1) d] .
  let ?L = "list_append (PendingHead d) (PendingOf x) (ds_pending s)"
  let ?s1 = "s\<lparr>ds_pending := ?L\<rparr>"
  have mark: "dom_node_mark_pending x s = Some ?s1"
    using xp(1) d dd pend_rings_single [OF r nin] by (auto simp: dom_node_mark_pending_def)
  have t1: "tree_inv ?s1 K" using t by simp
  obtain evs where dt: "dom_node_detach_range out x x ?s1 =
      Some (DOM_NO_ERR, logged evs (relink (cut_links p x (prev_of xs) (next_of ys)) ?s1))"
    using detach_range_ok [OF t1 ok K, of e d] d e by auto
  let ?s2 = "logged evs (relink (cut_links p x (prev_of xs) (next_of ys)) ?s1)"
  have t2: "tree_inv ?s2 (K(p := xs @ ys))" using tree_inv_cut [OF t1 K] by simp
  show thesis
  proof (rule that [of ?s2 d])
    show "dom_node_detach out x s = Some ?s2" using mark dt by (simp add: dom_node_detach_def)
    show "tree_inv ?s2 (K(p := xs @ ys))" by (rule t2)
    show "same_ident s ?s2" by (simp add: same_ident_def cut_links_def)
    show "pend_rings (ds_pending ?s2) (dom (ds_dispatching s)) (P(d := P d @ [x]))"
      using pend_rings_append [OF r dd nin] by simp
    show "\<forall>u. alloc s u \<longrightarrow> dn_parent (nd ?s2 u) = (if u = x then None else dn_parent (nd s u))"
      by (simp add: cut_links_def)
  qed (use d nin in auto)
qed

text \<open>The parent of a node cannot be changed.\<close>

definition frozen_parent :: "dom_state \<Rightarrow> dom_ptr \<Rightarrow> bool" where
  "frozen_parent s x \<longleftrightarrow> (\<exists>p. dn_parent (nd s x) = Some p \<and> dom_node_readonly s p = Some True)"

text \<open>Taking a node out of its tree and out of the list: afterwards it is nowhere.\<close>

lemma take_out_ok:
  assumes i: "dom_inv s K P" and ok: "all_ok out" and x: "alloc s x"
    and ty: "dn_type (nd s x) \<notin> {DOM_DOCUMENT_NODE, DOM_ATTRIBUTE_NODE}"
    and fr: "dn_type (nd s x) = DOM_DOCUMENT_FRAGMENT_NODE \<longrightarrow> (\<exists>d. x \<in> set (P d))"
  shows "if frozen_parent s x then take_out out x s = Some (Inl DOM_NO_MODIFICATION_ALLOWED_ERR)
    else (\<exists>s'. take_out out x s = Some (Inr s') \<and> tree_inv s' (\<lambda>q. filter (\<lambda>u. u \<noteq> x) (K q)) \<and> same_ident s s' \<and>
       pend_rings (ds_pending s') (dom (ds_dispatching s)) (\<lambda>d. filter (\<lambda>u. u \<noteq> x) (P d)) \<and>
       (\<forall>u. alloc s u \<longrightarrow> dn_parent (nd s' u) = (if u = x then None else dn_parent (nd s u))) \<and>
       (dn_parent (nd s x) = None \<longrightarrow> ds_nodes s' = ds_nodes s))"
proof -
  have t: "tree_inv s K" and r: "pend_rings (ds_pending s) (dom (ds_dispatching s)) P" and q: "pend_nodes s P"
    using i by (simp_all add: dom_inv_def)
  show ?thesis
  proof (cases "dn_parent (nd s x)")
    case None
    have nf: "\<not> frozen_parent s x" using None by (simp add: frozen_parent_def)
    have "x \<notin> set (K p)" for p using tree_invD(6) [OF t] None by fastforce
    then have K: "(\<lambda>q. filter (\<lambda>u. u \<noteq> x) (K q)) = K" by (simp add: fun_eq_iff)
    show ?thesis
    proof (cases "dn_owner (nd s x)")
      case no: None
      then have "dn_type (nd s x) = DOM_DOCUMENT_TYPE_NODE" using pend_nodesD(6) [OF q x] by simp
      have "x \<notin> set (P d)" for d using pend_nodesD(2) [OF q] no by fastforce
      then have P: "(\<lambda>q. filter (\<lambda>u. u \<noteq> x) (P q)) = P" by (simp add: fun_eq_iff)
      have "take_out out x s = Some (Inr s)" using None no x by (simp add: take_out_def dom_node_remove_pending_def)
      with K P t r None nf show ?thesis by (auto simp: same_ident_def)
    next
      case (Some d)
      obtain d' where "x \<in> set (P d')" using fr pend_nodesD(5) [OF q x Some None] ty by blast
      note del = pend_rings_del [OF r this]
      let ?s = "s\<lparr>ds_pending := list_del (PendingOf x) (ds_pending s)\<rparr>"
      have "take_out out x s = Some (Inr ?s)"
        using None Some x del(2) by (simp add: take_out_def dom_node_remove_pending_def)
      moreover have "tree_inv ?s K" using t by simp
      ultimately show ?thesis using K del(1) None nf by (auto simp: same_ident_def)
    qed
  next
    case (Some p)
    have xp: "x \<in> set (K p)" using tree_invD(9) [OF t x Some] ty by blast
    have ap: "alloc s p" using tree_invD(5) [OF t xp] .
    obtain b where b: "dom_node_readonly s p = Some b" using readonly_total [OF i ap] by blast
    show ?thesis
    proof (cases b)
      case True
      with b Some x show ?thesis by (simp add: take_out_def frozen_parent_def)
    next
      case False
      obtain xs ys where K: "K p = xs @ x # ys" using xp by (meson split_list)
      obtain s' d where d: "dom_node_detach out x s = Some s'" "tree_inv s' (K(p := xs @ ys))" "same_ident s s'"
        "pend_rings (ds_pending s') (dom (ds_dispatching s)) (P(d := P d @ [x]))" "dn_owner (nd s x) = Some d"
        "\<forall>u. alloc s u \<longrightarrow> dn_parent (nd s' u) = (if u = x then None else dn_parent (nd s u))" "\<forall>d. x \<notin> set (P d)"
        by (rule detach_ok [OF i ok K])
      have "x \<in> set ((P(d := P d @ [x])) d)" by simp
      note del = pend_rings_del [OF d(4) this]
      have P: "(\<lambda>e. filter (\<lambda>u. u \<noteq> x) ((P(d := P d @ [x])) e)) = (\<lambda>e. filter (\<lambda>u. u \<noteq> x) (P e))" by auto
      have "distinct (K p)" using kids_distinct tree_invD(3) [OF t ap] by blast
      then have "filter (\<lambda>u. u \<noteq> x) (K p) = xs @ ys" using K by simp
      moreover have "filter (\<lambda>u. u \<noteq> x) (K e) = K e" if "e \<noteq> p" for e
        using that kids_disjoint [OF t xp] by (intro filter_neq_id) blast
      ultimately have K': "K(p := xs @ ys) = (\<lambda>q. filter (\<lambda>u. u \<noteq> x) (K q))" by (auto simp: fun_eq_iff)
      let ?s = "s'\<lparr>ds_pending := list_del (PendingOf x) (ds_pending s')\<rparr>"
      have x': "alloc s' x" "dn_owner (nd s' x) = Some d" using d(3,5) x by (auto simp: same_ident_def)
      have "take_out out x s = Some (Inr ?s)"
        using Some x b False d(1) x' del(2) by (simp add: take_out_def dom_node_remove_pending_def)
      moreover have "tree_inv ?s (\<lambda>q. filter (\<lambda>u. u \<noteq> x) (K q))" using d(2) unfolding K' by simp
      moreover have "same_ident s ?s" using d(3) by (simp add: same_ident_def)
      moreover have "\<not> frozen_parent s x" using b False Some by (simp add: frozen_parent_def)
      ultimately show ?thesis using del(1) d(6) Some unfolding P by auto
    qed
  qed
qed

section \<open>Inserting\<close>

definition insert_at :: "'a option \<Rightarrow> 'a list \<Rightarrow> 'a list \<Rightarrow> 'a list" where
  "insert_at ref zs xs =
     (case ref of None \<Rightarrow> xs @ zs | Some r \<Rightarrow> takeWhile (\<lambda>u. u \<noteq> r) xs @ zs @ dropWhile (\<lambda>u. u \<noteq> r) xs)"

text \<open>What inserting does to the children, as the DOM describes it: the new node leaves the place it had; it, or the
  children of the fragment, then stand before the reference child or at the end.\<close>

definition insert_kids ::
  "(dom_ptr \<Rightarrow> dom_ptr list) \<Rightarrow> bool \<Rightarrow> dom_ptr \<Rightarrow> dom_ptr \<Rightarrow> dom_ptr option \<Rightarrow> dom_ptr \<Rightarrow> dom_ptr list" where
  "insert_kids K frag node new_child ref_child =
     (let K' = (\<lambda>q. filter (\<lambda>u. u \<noteq> new_child) (K q));
          zs = (if frag then K' new_child else [new_child])
      in splice_kids K' node (insert_at ref_child zs (K' node)) (if frag then Some new_child else None))"

lemma insert_place:
  assumes k: "kids s node (K node)" and r: "\<And>r. ref = Some r \<Longrightarrow> r \<in> set (K node)"
  obtains xs ys where "K node = xs @ ys" and "\<And>zs. insert_at ref zs (K node) = xs @ zs @ ys"
    and "next_of ys = ref" and "prev_of xs = (case ref of None \<Rightarrow> dn_last_child (nd s node) | Some r \<Rightarrow> dn_previous (nd s r))"
proof (cases ref)
  case None
  show ?thesis
    by (rule that [of "K node" "[]"])
       (use None kids_ends(2) [OF k] in \<open>simp_all add: insert_at_def next_of_def prev_of_def\<close>)
next
  case (Some r)
  let ?xs = "takeWhile (\<lambda>u. u \<noteq> r) (K node)" and ?ys = "dropWhile (\<lambda>u. u \<noteq> r) (K node)"
  have ne: "?ys \<noteq> []" using r [OF Some] by simp
  have hd: "hd ?ys = r" using hd_dropWhile [OF ne] by simp
  have K: "K node = ?xs @ r # tl ?ys" using hd list.collapse [OF ne] takeWhile_dropWhile_id by metis
  have "dn_previous (nd s r) = prev_of ?xs" using kids_mid(2) [of s node ?xs r "tl ?ys"] k K by (simp add: prev_of_def)
  then show ?thesis
    by (intro that [of ?xs ?ys]) (use Some ne hd in \<open>simp_all add: insert_at_def next_of_def\<close>)
qed

lemma tree_inv_relink_same:
  assumes t: "tree_inv s K"
    and F: "\<And>u. alloc s u \<Longrightarrow> dn_parent (F u (nd s u)) = dn_parent (nd s u) \<and> dn_first_child (F u (nd s u)) = dn_first_child (nd s u) \<and>
      dn_last_child (F u (nd s u)) = dn_last_child (nd s u) \<and> dn_previous (F u (nd s u)) = dn_previous (nd s u) \<and>
      dn_next (F u (nd s u)) = dn_next (nd s u) \<and> dn_type (F u (nd s u)) = dn_type (nd s u)"
  shows "tree_inv (relink F s) K"
proof (rule tree_invI)
  have "parent_rel (relink F s) = parent_rel s" using F by (auto simp: parent_rel_def)
  then show "acyclic (parent_rel (relink F s))" using tree_invD(2) [OF t] by simp
  show "kids (relink F s) p (K p)" if "alloc (relink F s) p" for p
    using that tree_invD(3,4) [OF t] F by (subst kids_cong [where s = s]) auto
  show "alloc (relink F s) x \<and> dn_parent (nd (relink F s) x) = Some p \<and>
      child_type_ok (dn_type (nd (relink F s) p)) (dn_type (nd (relink F s) x))" if "x \<in> set (K p)" for p x
    using tree_invD(4-7) [OF t that] F by simp
  show "alloc (relink F s) p \<and> (dn_type (nd (relink F s) x) \<noteq> DOM_ATTRIBUTE_NODE \<longrightarrow> x \<in> set (K p))"
    if "alloc (relink F s) x" "dn_parent (nd (relink F s) x) = Some p" for x p
    using that tree_invD(8,9) [OF t, of x p] F by simp
  show "dn_previous (nd (relink F s) x) = None \<and> dn_next (nd (relink F s) x) = None"
    if "alloc (relink F s) x" "\<And>p. x \<notin> set (K p)" for x
    using tree_inv_loose [OF t _ that(2)] that(1) F by simp
qed (use tree_invD(1) [OF t] tree_inv_dead [OF t] in simp_all)

text \<open>The children a node may be given: the types of the two fit, and a document has one element and one document type.\<close>

definition may_hold :: "dom_state \<Rightarrow> (dom_ptr \<Rightarrow> dom_ptr list) \<Rightarrow> dom_ptr \<Rightarrow> dom_ptr \<Rightarrow> bool" where
  "may_hold s K p c \<longleftrightarrow> child_type_ok (dn_type (nd s p)) (dn_type (nd s c)) \<and>
    \<not> (dn_type (nd s p) = DOM_DOCUMENT_NODE \<and> dn_type (nd s c) \<in> {DOM_ELEMENT_NODE, DOM_DOCUMENT_TYPE_NODE} \<and>
       (\<exists>x \<in> set (K p). dn_type (nd s x) = dn_type (nd s c)))"

lemma permitted_child_may_hold:
  "tree_inv s K \<Longrightarrow> alloc s p \<Longrightarrow> alloc s c \<Longrightarrow> dom_node_permitted_child s p c = Some (may_hold s K p c)"
  using permitted_child_total unfolding may_hold_def .

lemma insert_attach_ok:
  assumes t: "tree_inv s K" and ok: "all_ok out" and node: "alloc s node" "dn_owner (nd s node) = Some doc"
    and new: "alloc s new_child" "dn_parent (nd s new_child) = None"
    and r: "\<forall>r. ref_child = Some r \<longrightarrow> r \<in> set (K node)"
    and up: "(new_child, node) \<notin> (parent_rel s)\<^sup>*"
    and fr: "frag \<longleftrightarrow> dn_type (nd s new_child) = DOM_DOCUMENT_FRAGMENT_NODE"
    and ty: "\<not> frag \<Longrightarrow> child_type_ok (dn_type (nd s node)) (dn_type (nd s new_child))"
    and zs: "zs = (if frag then K new_child else [new_child])"
  shows "if frag \<and> (\<exists>y \<in> set (K new_child). \<not> may_hold s K node y)
    then insert_attach out node new_child ref_child s = Some (DOM_HIERARCHY_REQUEST_ERR, s)
    else (\<exists>s'. insert_attach out node new_child ref_child s = Some (DOM_NO_ERR, s') \<and>
       tree_inv s' (splice_kids K node (insert_at ref_child zs (K node)) (if frag then Some new_child else None)) \<and>
       same_ident s s' \<and> ds_pending s' = ds_pending s \<and>
       (\<forall>u. alloc s u \<longrightarrow> dn_parent (nd s' u) = (if u \<in> set zs then Some node else dn_parent (nd s u))))"
proof -
  have k: "kids s node (K node)" using tree_invD(3) [OF t node(1)] .
  obtain xs ys where K: "K node = xs @ ys" and at: "\<And>zs. insert_at ref_child zs (K node) = xs @ zs @ ys" and
    pl: "next_of ys = ref_child" "prev_of xs = (case ref_child of None \<Rightarrow> dn_last_child (nd s node) | Some r \<Rightarrow> dn_previous (nd s r))"
    using insert_place [of s node K ref_child, OF k] r by blast
  have prev: "(case ref_child of None \<Rightarrow> Some (dn_last_child (nd s node)) | Some r \<Rightarrow> map_option dn_previous (ds_nodes s r)) = Some (prev_of xs)"
    using pl(2) r tree_invD(4) [OF t] by (cases ref_child) auto
  have ne: "node \<noteq> new_child" using up by blast
  show ?thesis
  proof (cases frag)
    case False
    then have zs1: "zs = [new_child]" using zs by simp
    have src: "splice_source s K node zs None" using new zs1 by (simp add: splice_source_def)
    have up': "\<forall>z \<in> set zs. (z, node) \<notin> (parent_rel s)\<^sup>*" using up zs1 by simp
    obtain evs where "dom_node_attach_range out new_child new_child node (prev_of xs) ref_child s =
        Some (DOM_NO_ERR, logged evs (relink (splice_links node (prev_of xs) ref_child zs None) s))"
      using attach_range_ok [OF t ok node K src up'] zs1 pl(1) by auto
    moreover have "tree_inv (relink (splice_links node (prev_of xs) ref_child zs None) s) (splice_kids K node (xs @ zs @ ys) None)"
      using tree_inv_splice [OF t node(1) K src up'] ty [OF False] zs1 pl(1) by simp
    ultimately show ?thesis using False fr prev at new(1) node(1)
      by (simp add: insert_attach_def dom_node_attach_def same_ident_def splice_links_def)
  next
    case True
    have kn: "kids s new_child ([] @ K new_child)" using tree_invD(3) [OF t new(1)] by simp
    have first: "dn_first_child (nd s new_child) = (if K new_child = [] then None else Some (hd (K new_child)))"
      "dn_last_child (nd s new_child) = (if K new_child = [] then None else Some (last (K new_child)))"
      using kids_ends [OF kn] by simp_all
    obtain b where b: "all_permitted s node (dn_first_child (nd s new_child)) = Some b"
      "b \<longleftrightarrow> (\<forall>y \<in> set (K new_child). may_hold s K node y)"
      using all_permitted_total [OF t node(1) kn] tree_invD(4) [OF t] first(1) permitted_child_may_hold [OF t node(1)] by auto
    show ?thesis
    proof (cases b)
      case no: False
      then show ?thesis using True fr b prev new(1) node(1) by (simp add: insert_attach_def)
    next
      case yes: True
      show ?thesis
      proof (cases "K new_child = []")
        case empty: True
        then have "splice_kids K node (insert_at ref_child zs (K node)) (Some new_child) = K"
          using True zs at K by (auto simp: splice_kids_def fun_eq_iff)
        then show ?thesis using True fr b yes prev new(1) node(1) first empty zs t
          by (simp add: insert_attach_def same_ident_def)
      next
        case False
        have src: "splice_source s K node zs (Some new_child)" using True zs False ne by (simp add: splice_source_def)
        have zp: "(new_child, z) \<in> parent_rel s" if "z \<in> set zs" for z
          using that zs True tree_invD(4,6) [OF t] by (auto simp: parent_rel_def)
        then have up': "\<forall>z \<in> set zs. (z, node) \<notin> (parent_rel s)\<^sup>*" using up by (meson converse_rtrancl_into_rtrancl)
        obtain evs where att: "dom_node_attach_range out (hd zs) (last zs) node (prev_of xs) ref_child s =
            Some (DOM_NO_ERR, logged evs (relink (splice_links node (prev_of xs) ref_child zs None) s))"
          using attach_range_ok [OF t ok node K src up'] pl(1) by auto
        have "child_type_ok (dn_type (nd s node)) (dn_type (nd s z))" if "z \<in> set zs" for z
          using that zs True yes b(2) by (auto simp: may_hold_def)
        then have tr: "tree_inv (relink (splice_links node (prev_of xs) ref_child zs (Some new_child)) s)
            (splice_kids K node (xs @ zs @ ys) (Some new_child))"
          using tree_inv_splice [OF t node(1) K src up'] pl(1) by simp
        have fin: "relink (\<lambda>u r. if u = new_child then r\<lparr>dn_last_child := None\<rparr> else r)
            (relink (\<lambda>u r. if u = new_child then r\<lparr>dn_first_child := None\<rparr> else r)
              (relink (splice_links node (prev_of xs) ref_child zs None) s)) =
            relink (splice_links node (prev_of xs) ref_child zs (Some new_child)) s"
          using ne by (auto simp: splice_links_def intro!: relink_cong)
        have "insert_attach out node new_child ref_child s =
            Some (DOM_NO_ERR, logged evs (relink (splice_links node (prev_of xs) ref_child zs (Some new_child)) s))"
          using True fr b(1) yes prev new(1) node(1) first False zs att fin by (simp add: insert_attach_def)
        with tr True at yes b(2) show ?thesis by (simp add: same_ident_def splice_links_def)
      qed
    qed
  qed
qed

lemma pend_nodes_insert:
  assumes q: "pend_nodes s P" and t: "tree_inv s K" and node: "alloc s node"
    and same: "alloc s' = alloc s" "ds_dispatching s' = ds_dispatching s" "\<And>u. alloc s u \<Longrightarrow> dn_type (nd s' u) = dn_type (nd s u)"
    and own: "\<And>u. alloc s u \<Longrightarrow> dn_owner (nd s' u) =
      (if u = new_child \<and> dn_type (nd s node) = DOM_DOCUMENT_NODE \<and> dn_type (nd s new_child) = DOM_DOCUMENT_TYPE_NODE
       then Some node else dn_owner (nd s u))"
    and par: "\<And>u. alloc s u \<Longrightarrow> dn_parent (nd s' u) =
      (if u \<in> set zs then Some node else if u = new_child then None else dn_parent (nd s u))"
    and fr: "frag \<longleftrightarrow> dn_type (nd s new_child) = DOM_DOCUMENT_FRAGMENT_NODE" and zs: "zs = (if frag then K new_child else [new_child])"
    and dt: "dn_type (nd s new_child) = DOM_DOCUMENT_TYPE_NODE \<Longrightarrow> dn_type (nd s node) = DOM_DOCUMENT_NODE"
  shows "pend_nodes s' (\<lambda>d. filter (\<lambda>u. u \<noteq> new_child) (P d))"
proof -
  have zp: "n \<notin> set (P d)" if "n \<in> set zs" "n \<noteq> new_child" for n d
    using that zs tree_invD(6) [OF t, of n new_child] pend_nodesD(3) [OF q, of n d] by (auto split: if_splits)
  have zo: "dn_owner (nd s n) \<noteq> None" if "n \<in> set zs" "n \<noteq> new_child" for n
    using that zs tree_invD(4,6) [OF t, of n new_child] pend_nodesD(6) [OF q, of n] by (auto split: if_splits)
  have 1: "alloc s' n \<and> dn_owner (nd s' n) = Some d \<and> dn_parent (nd s' n) = None"
    if n: "n \<in> set (filter (\<lambda>u. u \<noteq> new_child) (P d))" for n d
  proof -
    have "n \<in> set (P d)" "n \<noteq> new_child" using n by auto
    then show ?thesis using pend_nodesD(1-3) [OF q, of n d] zp own par same(1) by auto
  qed
  have 2: "d \<in> dom (ds_dispatching s') \<and> (dn_parent (nd s' n) = None \<and>
      dn_type (nd s' n) \<notin> {DOM_DOCUMENT_NODE, DOM_DOCUMENT_FRAGMENT_NODE} \<longrightarrow> n \<in> set (filter (\<lambda>u. u \<noteq> new_child) (P d)))"
    if n: "alloc s' n" "dn_owner (nd s' n) = Some d" for n d
  proof -
    have a: "alloc s n" using n(1) same(1) by simp
    show ?thesis
    proof (cases "n = new_child")
      case True
      have "d \<in> dom (ds_dispatching s)"
      proof (cases "dn_owner (nd s n) = Some d")
        case True
        then show ?thesis using pend_nodesD(4) [OF q a] by blast
      next
        case False
        then have "d = node" "dn_type (nd s node) = DOM_DOCUMENT_NODE" using own [OF a] n(2) by (auto split: if_splits)
        then show ?thesis using pend_nodesD(4) [OF q node pend_nodesD(7) [OF q node]] by blast
      qed
      moreover have "frag" if "dn_parent (nd s' n) = None" using par [OF a] that True zs by (auto split: if_splits)
      ultimately show ?thesis using same(2,3) a True fr by auto
    next
      case False
      then have o': "dn_owner (nd s n) = Some d" using own [OF a] n(2) by simp
      then show ?thesis using pend_nodesD(4,5) [OF q a o'] par [OF a] False same(2) same(3) [OF a] by auto
    qed
  qed
  have 3: "dn_type (nd s' n) = DOM_DOCUMENT_TYPE_NODE \<and> dn_parent (nd s' n) = None"
    if n: "alloc s' n" "dn_owner (nd s' n) = None" for n
  proof -
    have a: "alloc s n" using n(1) same(1) by simp
    then have o': "dn_owner (nd s n) = None" using own [OF a] n(2) by (auto split: if_splits)
    note ty = pend_nodesD(6) [OF q a o']
    have "n \<noteq> new_child" using own [OF a] n(2) ty dt by (auto split: if_splits)
    moreover have "n \<notin> set zs" using zo o' calculation by blast
    ultimately show ?thesis using ty par [OF a] same(3) [OF a] by simp
  qed
  have 4: "dn_owner (nd s' n) = Some n" if n: "alloc s' n" "dn_type (nd s' n) = DOM_DOCUMENT_NODE" for n
  proof -
    have a: "alloc s n" "dn_type (nd s n) = DOM_DOCUMENT_NODE" using n same by auto
    have "\<not> (n = new_child \<and> dn_type (nd s new_child) = DOM_DOCUMENT_TYPE_NODE)" using a(2) by auto
    then show ?thesis using own [OF a(1)] pend_nodesD(7) [OF q a] by auto
  qed
  show ?thesis unfolding pend_nodes_def using 1 2 3 4 by blast
qed

lemma pend_nodes_same:
  assumes q: "pend_nodes s P" and same: "alloc s' = alloc s" "ds_dispatching s' = ds_dispatching s"
    and f: "\<And>u. alloc s u \<Longrightarrow> dn_owner (nd s' u) = dn_owner (nd s u) \<and> dn_parent (nd s' u) = dn_parent (nd s u) \<and>
      dn_type (nd s' u) = dn_type (nd s u)"
  shows "pend_nodes s' P"
  unfolding pend_nodes_def same
proof (intro conjI allI ballI impI; (elim conjE)?)
  fix n d
  show "alloc s n" "dn_owner (nd s' n) = Some d" "dn_parent (nd s' n) = None" if "n \<in> set (P d)"
    using pend_nodesD(1-3) [OF q that] f by auto
  show "d \<in> dom (ds_dispatching s)" if "alloc s n" "dn_owner (nd s' n) = Some d"
    using pend_nodesD(4) [OF q that(1)] that f by auto
  show "n \<in> set (P d)" if "alloc s n" "dn_owner (nd s' n) = Some d" "dn_parent (nd s' n) = None"
    "dn_type (nd s' n) \<notin> {DOM_DOCUMENT_NODE, DOM_DOCUMENT_FRAGMENT_NODE}"
    using pend_nodesD(5) [OF q that(1)] that f by auto
  show "dn_type (nd s' n) = DOM_DOCUMENT_TYPE_NODE" "dn_parent (nd s' n) = None" if "alloc s n" "dn_owner (nd s' n) = None"
    using pend_nodesD(6) [OF q that(1)] that f by auto
  show "dn_owner (nd s' n) = Some n" if "alloc s n" "dn_type (nd s' n) = DOM_DOCUMENT_NODE"
    using pend_nodesD(7) [OF q that(1)] that f by auto
qed

lemma dom_ref_inv:
  assumes "dom_inv s K P" and "alloc s n"
  shows "\<exists>s'. dom_node_ref n s = Some s' \<and> dom_inv s' K P \<and> same_ident s s'"
proof -
  let ?F = "\<lambda>u r :: dom_node_internal. if u = n then r\<lparr>dn_refcnt := dn_refcnt r + 1\<rparr> else r"
  have "tree_inv (relink ?F s) K" using assms(1) by (intro tree_inv_relink_same) (auto simp: dom_inv_def)
  moreover have "pend_nodes (relink ?F s) P"
    by (rule pend_nodes_same [of s]) (use assms(1) in \<open>auto simp: dom_inv_def\<close>)
  ultimately show ?thesis using assms by (auto simp: dom_node_ref_def dom_inv_def same_ident_def)
qed

lemma dom_ok_inv:
  assumes "dom_inv s K P" and "alloc s n"
  shows "\<exists>s'. dom_ok n s = Some (DOM_NO_ERR, Some n, s') \<and> dom_inv s' K P"
  using dom_ref_inv [OF assms] by (auto simp: dom_ok_def)

lemma fragment_no_parent:
  "tree_inv s K \<Longrightarrow> alloc s x \<Longrightarrow> dn_type (nd s x) \<in> {DOM_DOCUMENT_FRAGMENT_NODE, DOM_DOCUMENT_NODE} \<Longrightarrow> dn_parent (nd s x) = None"
proof (rule ccontr)
  assume t: "tree_inv s K" "alloc s x" and ty: "dn_type (nd s x) \<in> {DOM_DOCUMENT_FRAGMENT_NODE, DOM_DOCUMENT_NODE}"
    and "dn_parent (nd s x) \<noteq> None"
  then obtain p where p: "dn_parent (nd s x) = Some p" by auto
  have "x \<in> set (K p)" using tree_invD(9) [OF t p] ty by auto
  from child_type_never [OF tree_invD(7) [OF t(1) this]] ty show False by auto
qed

definition insert_pending :: "(dom_ptr \<Rightarrow> dom_ptr list) \<Rightarrow> dom_ptr \<Rightarrow> dom_ptr \<Rightarrow> dom_ptr list" where
  "insert_pending P new_child d = filter (\<lambda>u. u \<noteq> new_child) (P d)"

text \<open>The part after the checks.\<close>

lemma insert_move_ok:
  assumes i: "dom_inv s K P" and ok: "all_ok out" and node: "alloc s node" and new: "alloc s new_child"
    and own: "dn_type (nd s new_child) = DOM_DOCUMENT_TYPE_NODE \<or> dn_owner (nd s new_child) = dn_owner (nd s node)"
    and fp: "dn_type (nd s new_child) = DOM_DOCUMENT_FRAGMENT_NODE \<longrightarrow> (\<exists>d. new_child \<in> set (P d))"
    and up: "(new_child, node) \<notin> (parent_rel s)\<^sup>*"
    and ty: "dn_type (nd s new_child) \<noteq> DOM_DOCUMENT_FRAGMENT_NODE \<longrightarrow> child_type_ok (dn_type (nd s node)) (dn_type (nd s new_child))"
    and nt: "dn_type (nd s node) \<noteq> DOM_DOCUMENT_TYPE_NODE"
    and ref: "\<forall>r. ref_child = Some r \<longrightarrow> r \<in> set (K node) \<and> r \<noteq> new_child"
    and fz: "\<not> frozen_parent s new_child"
  shows "\<exists>s1. take_out out new_child s = Some (Inr s1) \<and>
      (if dn_type (nd s new_child) = DOM_DOCUMENT_FRAGMENT_NODE \<and> (\<exists>y \<in> set (K new_child). \<not> may_hold s K node y)
       then (\<exists>s2. insert_attach out node new_child ref_child s1 = Some (DOM_HIERARCHY_REQUEST_ERR, s2) \<and> ds_nodes s2 = ds_nodes s)
       else (\<exists>s2 s3. insert_attach out node new_child ref_child s1 = Some (DOM_NO_ERR, s2) \<and>
         (if dn_type (nd s node) = DOM_DOCUMENT_NODE \<and> dn_type (nd s new_child) = DOM_DOCUMENT_TYPE_NODE
          then set_owner new_child (Some node) s2 else Some s2) = Some s3 \<and> alloc s3 new_child \<and>
         dom_inv s3 (insert_kids K (dn_type (nd s new_child) = DOM_DOCUMENT_FRAGMENT_NODE) node new_child ref_child)
           (insert_pending P new_child)))"
proof -
  have t: "tree_inv s K" and q: "pend_nodes s P" using i by (simp_all add: dom_inv_def)
  define frag where "frag \<longleftrightarrow> dn_type (nd s new_child) = DOM_DOCUMENT_FRAGMENT_NODE"
  have ty2: "dn_type (nd s new_child) \<notin> {DOM_DOCUMENT_NODE, DOM_ATTRIBUTE_NODE}"
    using ty child_type_never by (cases "dn_type (nd s new_child) = DOM_DOCUMENT_FRAGMENT_NODE") auto
  let ?K = "\<lambda>q. filter (\<lambda>u. u \<noteq> new_child) (K q)"
  obtain s1 where 2: "take_out out new_child s = Some (Inr s1)" "tree_inv s1 ?K" "same_ident s s1"
      "pend_rings (ds_pending s1) (dom (ds_dispatching s)) (insert_pending P new_child)"
      "\<And>u. alloc s u \<Longrightarrow> dn_parent (nd s1 u) = (if u = new_child then None else dn_parent (nd s u))"
      "dn_parent (nd s new_child) = None \<longrightarrow> ds_nodes s1 = ds_nodes s"
    using take_out_ok [OF i ok new ty2 fp] fz unfolding insert_pending_def if_not_P [OF fz] by (elim exE conjE) auto
    have same: "alloc s1 = alloc s" "ds_dispatching s1 = ds_dispatching s"
      "\<And>u. alloc s u \<Longrightarrow> dn_type (nd s1 u) = dn_type (nd s u) \<and> dn_owner (nd s1 u) = dn_owner (nd s u)"
      using 2(3) by (auto simp: same_ident_def)
    obtain doc where doc: "dn_owner (nd s1 node) = Some doc"
      using pend_nodesD(6) [OF q node] nt same(3) [OF node] by (cases "dn_owner (nd s node)") auto
    have sub: "parent_rel s1 \<subseteq> parent_rel s" using 2(5) same(1) by (auto simp: parent_rel_def split: if_splits)
    then have up1: "(new_child, node) \<notin> (parent_rel s1)\<^sup>*" using up rtrancl_mono by blast
    define zs where "zs = (if frag then ?K new_child else [new_child])"
    have fr1: "frag \<longleftrightarrow> dn_type (nd s1 new_child) = DOM_DOCUMENT_FRAGMENT_NODE" using same(3) [OF new] by (simp add: frag_def)
    have ty1: "child_type_ok (dn_type (nd s1 node)) (dn_type (nd s1 new_child))" if "\<not> frag"
      using ty that same(3) [OF new] same(3) [OF node] by (simp add: frag_def)
    have ref1: "\<forall>r. ref_child = Some r \<longrightarrow> r \<in> set (?K node)" using ref by simp
    have bad: "frag \<and> (\<exists>y \<in> set (?K new_child). \<not> may_hold s1 ?K node y) \<longleftrightarrow> frag \<and> (\<exists>y \<in> set (K new_child). \<not> may_hold s K node y)"
    proof (cases frag)
      case True
      then have np: "dn_parent (nd s new_child) = None" using fragment_no_parent [OF t new] by (simp add: frag_def)
      then have "nd s1 = nd s" using 2(6) by (simp add: nd_def fun_eq_iff)
      moreover have "?K = K" using np tree_invD(6) [OF t, of new_child] by (fastforce simp: fun_eq_iff)
      ultimately show ?thesis using fun_cong [of ?K K new_child] by (simp only: may_hold_def)
    qed simp
    have "alloc s1 node" "alloc s1 new_child" "dn_parent (nd s1 new_child) = None" using node new same(1) 2(5) [OF new] by simp_all
    note att = insert_attach_ok [OF 2(2) ok this(1) doc this(2,3) ref1 up1 fr1 ty1 zs_def, unfolded bad]
    show ?thesis
    proof (cases "frag \<and> (\<exists>y \<in> set (K new_child). \<not> may_hold s K node y)")
      case True
      then have "insert_attach out node new_child ref_child s1 = Some (DOM_HIERARCHY_REQUEST_ERR, s1)"
        using att by simp
      moreover have "dn_parent (nd s new_child) = None" using fragment_no_parent [OF t new] True by (simp add: frag_def)
      ultimately show ?thesis using 2(1,6) True by (auto simp: frag_def)
    next
      case False
      then obtain s2 where ia: "insert_attach out node new_child ref_child s1 = Some (DOM_NO_ERR, s2)"
        and t2: "tree_inv s2 (insert_kids K frag node new_child ref_child)" and si2: "same_ident s1 s2"
        and pd: "ds_pending s2 = ds_pending s1"
        and par2: "\<forall>u. alloc s1 u \<longrightarrow> dn_parent (nd s2 u) = (if u \<in> set zs then Some node else dn_parent (nd s1 u))"
        using att unfolding if_not_P [OF False] insert_kids_def Let_def zs_def by blast
      have same2: "alloc s2 = alloc s" "ds_dispatching s2 = ds_dispatching s"
        "\<And>u. alloc s u \<Longrightarrow> dn_type (nd s2 u) = dn_type (nd s u) \<and> dn_owner (nd s2 u) = dn_owner (nd s u)"
        using si2 same by (auto simp: same_ident_def)
      let ?dt = "dn_type (nd s node) = DOM_DOCUMENT_NODE \<and> dn_type (nd s new_child) = DOM_DOCUMENT_TYPE_NODE"
      let ?G = "\<lambda>u r :: dom_node_internal. if ?dt \<and> u = new_child then r\<lparr>dn_owner := Some node\<rparr> else r"
      define s3 where "s3 = relink ?G s2"
      have s3: "(if ?dt then set_owner new_child (Some node) s2 else Some s2) = Some s3"
        using new same2(1) by (auto simp: s3_def relink_id)
      have t3: "tree_inv s3 (insert_kids K frag node new_child ref_child)"
        unfolding s3_def by (rule tree_inv_relink_same [OF t2]) auto
      have K': "zs = (if frag then K new_child else [new_child])"
      proof -
        have "new_child \<notin> set (K new_child)"
          using tree_invD(2) [OF t] tree_invD(4,6) [OF t, of new_child new_child] by (auto simp: acyclic_def parent_rel_def)
        then show ?thesis by (simp add: zs_def)
      qed
      have "pend_nodes s3 (insert_pending P new_child)" unfolding insert_pending_def
      proof (rule pend_nodes_insert [OF q t node _ _ _ _ _ frag_def K'])
        show "dn_type (nd s node) = DOM_DOCUMENT_NODE" if "dn_type (nd s new_child) = DOM_DOCUMENT_TYPE_NODE"
          using ty that by (cases "dn_type (nd s node)") (auto simp: child_type_ok_def)
        show "dn_parent (nd s3 u) = (if u \<in> set zs then Some node else if u = new_child then None else dn_parent (nd s u))"
          if "alloc s u" for u using that par2 2(5) [OF that] same(1) same2(1) by (auto simp: s3_def)
      qed (use same2 in \<open>auto simp: s3_def\<close>)
      then have "dom_inv s3 (insert_kids K frag node new_child ref_child) (insert_pending P new_child)"
        using t3 2(4) pd same2(2) by (simp add: dom_inv_def s3_def)
      moreover have "alloc s3 new_child" using new same2(1) by (simp add: s3_def)
      ultimately show ?thesis using 2(1) ia s3 False by (auto simp: frag_def)
    qed
qed

text \<open>The answer the operation gives, from the tree it is called on.\<close>

definition insert_verdict :: "dom_state \<Rightarrow> (dom_ptr \<Rightarrow> dom_ptr list) \<Rightarrow> dom_ptr \<Rightarrow> dom_ptr \<Rightarrow> dom_ptr option \<Rightarrow> dom_exception" where
  "insert_verdict s K node new_child ref_child =
     (let frag = (dn_type (nd s new_child) = DOM_DOCUMENT_FRAGMENT_NODE) in
      if dn_owner (nd s new_child) \<noteq> dn_owner (nd s node) \<and>
         (dn_type (nd s new_child) = DOM_DOCUMENT_TYPE_NODE \<longrightarrow> dn_owner (nd s new_child) \<noteq> None) then DOM_WRONG_DOCUMENT_ERR
      else if dom_node_readonly s node = Some True then DOM_NO_MODIFICATION_ALLOWED_ERR
      else if \<not> (\<forall>r. ref_child = Some r \<longrightarrow> r \<in> set (K node)) then DOM_NOT_FOUND_ERR
      else if (new_child, node) \<in> (parent_rel s)\<^sup>* then DOM_HIERARCHY_REQUEST_ERR
      else if \<not> frag \<and> \<not> may_hold s K node new_child then DOM_HIERARCHY_REQUEST_ERR
      else if ref_child = Some new_child then DOM_NO_ERR
      else if frozen_parent s new_child then DOM_NO_MODIFICATION_ALLOWED_ERR
      else if frag \<and> (\<exists>y \<in> set (K new_child). \<not> may_hold s K node y) then DOM_HIERARCHY_REQUEST_ERR
      else DOM_NO_ERR)"

lemma insert_before_ok:
  assumes i: "dom_inv s K P" and ok: "all_ok out" and node: "alloc s node" and new: "alloc s new_child"
    and fp: "dn_type (nd s new_child) = DOM_DOCUMENT_FRAGMENT_NODE \<longrightarrow> (\<exists>d. new_child \<in> set (P d))"
    and ref: "\<forall>r. ref_child = Some r \<longrightarrow> alloc s r \<and> dn_type (nd s r) \<noteq> DOM_ATTRIBUTE_NODE"
  shows "\<exists>s'. dom_node_insert_before out node new_child ref_child s =
      Some (insert_verdict s K node new_child ref_child,
        if insert_verdict s K node new_child ref_child = DOM_NO_ERR then Some new_child else None, s') \<and>
    (if insert_verdict s K node new_child ref_child \<noteq> DOM_NO_ERR then ds_nodes s' = ds_nodes s
     else if ref_child = Some new_child then dom_inv s' K P
     else dom_inv s' (insert_kids K (dn_type (nd s new_child) = DOM_DOCUMENT_FRAGMENT_NODE) node new_child ref_child)
            (insert_pending P new_child))"
proof -
  have t: "tree_inv s K" and q: "pend_nodes s P" using i by (simp_all add: dom_inv_def)
  let ?c = "nd s new_child" and ?p = "nd s node" and ?v = "insert_verdict s K node new_child ref_child"
  let ?ia = "(new_child, node) \<in> (parent_rel s)\<^sup>*"
  let ?rok = "\<forall>r. ref_child = Some r \<longrightarrow> r \<in> set (K node)"
  let ?frag = "dn_type ?c = DOM_DOCUMENT_FRAGMENT_NODE"
  obtain ro where ro: "dom_node_readonly s node = Some ro" using readonly_total [OF i node] by blast
  have "dn_parent (nd s r) = Some node \<longleftrightarrow> r \<in> set (K node)" if "ref_child = Some r" for r
    using tree_invD(6,9) [OF t] ref that by blast
  then have rk: "(case ref_child of None \<Rightarrow> Some True | Some r \<Rightarrow> map_option (\<lambda>q. dn_parent q = Some node) (ds_nodes s r)) = Some ?rok"
    using ref by (cases ref_child) auto
  have anc: "has_ancestor s new_child (Some node) = Some ?ia" using has_ancestor_correct [OF t node] .
  have pk: "(if ?frag then Some True else dom_node_permitted_child s node new_child) = Some (?frag \<or> may_hold s K node new_child)"
    using permitted_child_may_hold [OF t node new] by auto
  let ?wd = "dn_owner ?c \<noteq> dn_owner ?p \<and> (dn_type ?c = DOM_DOCUMENT_TYPE_NODE \<longrightarrow> dn_owner ?c \<noteq> None)"
  show ?thesis
  proof (cases "?wd \<or> ro \<or> \<not> ?rok \<or> ?ia \<or> \<not> (?frag \<or> may_hold s K node new_child)")
    case True
    then have "dom_node_insert_before out node new_child ref_child s = Some (?v, None, s) \<and> ?v \<noteq> DOM_NO_ERR"
      unfolding dom_node_insert_before_def insert_verdict_def Let_def using node new ro rk anc permitted_child_may_hold [OF t node new]
      by (auto simp: dom_fail_def)
    then show ?thesis by simp
  next
    case False
    then have c: "\<not> ?wd" "\<not> ro" "?rok" "\<not> ?ia" "?frag \<or> may_hold s K node new_child" by auto
    have v: "?v = (if ref_child = Some new_child then DOM_NO_ERR else if frozen_parent s new_child then DOM_NO_MODIFICATION_ALLOWED_ERR
        else if ?frag \<and> (\<exists>y \<in> set (K new_child). \<not> may_hold s K node y) then DOM_HIERARCHY_REQUEST_ERR else DOM_NO_ERR)"
    proof -
      have "\<not> dom_node_readonly s node = Some True" "\<not> \<not> ?rok" "\<not> (\<not> ?frag \<and> \<not> may_hold s K node new_child)" using c ro by auto
      then show ?thesis unfolding insert_verdict_def Let_def if_not_P [OF c(1)] if_not_P [OF c(4)] by (simp only: if_False)
    qed
    have nt: "dn_type ?p \<noteq> DOM_DOCUMENT_TYPE_NODE"
      using ro c(2) node by (auto simp: dom_node_readonly_def split: Option.bind_splits if_splits)
    show ?thesis
    proof (cases "ref_child = Some new_child")
      case True
      obtain s' where "dom_ok new_child s = Some (DOM_NO_ERR, Some new_child, s')" "dom_inv s' K P" using dom_ok_inv [OF i new] by blast
      then show ?thesis unfolding dom_node_insert_before_def v using node new ro rk anc pk c True by auto
    next
      case nr: False
      have reduce: "dom_node_insert_before out node new_child ref_child s = do {
          t \<leftarrow> take_out out new_child s;
          case t of Inl err \<Rightarrow> dom_fail err s
          | Inr s \<Rightarrow> do {
              (err, s) \<leftarrow> insert_attach out node new_child ref_child s;
              if err \<noteq> DOM_NO_ERR then dom_fail err s
              else do {
                s \<leftarrow> (if dn_type ?p = DOM_DOCUMENT_NODE \<and> dn_type ?c = DOM_DOCUMENT_TYPE_NODE
                       then set_owner new_child (Some node) s else Some s);
                dom_ok new_child s } } }"
        unfolding dom_node_insert_before_def using node new ro rk anc pk c nr by auto
      have own: "dn_type ?c = DOM_DOCUMENT_TYPE_NODE \<or> dn_owner ?c = dn_owner ?p" using c(1) by auto
      have ty: "\<not> ?frag \<longrightarrow> child_type_ok (dn_type ?p) (dn_type ?c)" using c(5) by (auto simp: may_hold_def)
      have ty2: "dn_type ?c \<notin> {DOM_DOCUMENT_NODE, DOM_ATTRIBUTE_NODE}" using ty child_type_never by (cases ?frag) auto
      show ?thesis
      proof (cases "frozen_parent s new_child")
        case True
        then show ?thesis unfolding reduce v using nr take_out_ok [OF i ok new ty2 fp] by (simp add: dom_fail_def)
      next
        case nf: False
        have "\<forall>r. ref_child = Some r \<longrightarrow> r \<in> set (K node) \<and> r \<noteq> new_child" using nr c(3) by blast
        from insert_move_ok [OF i ok node new own fp c(4) ty nt this nf]
        obtain s1 where s1: "take_out out new_child s = Some (Inr s1)" "if ?frag \<and> (\<exists>y \<in> set (K new_child). \<not> may_hold s K node y)
          then (\<exists>s2. insert_attach out node new_child ref_child s1 = Some (DOM_HIERARCHY_REQUEST_ERR, s2) \<and> ds_nodes s2 = ds_nodes s)
          else (\<exists>s2 s3. insert_attach out node new_child ref_child s1 = Some (DOM_NO_ERR, s2) \<and>
            (if dn_type ?p = DOM_DOCUMENT_NODE \<and> dn_type ?c = DOM_DOCUMENT_TYPE_NODE
             then set_owner new_child (Some node) s2 else Some s2) = Some s3 \<and> alloc s3 new_child \<and>
            dom_inv s3 (insert_kids K ?frag node new_child ref_child) (insert_pending P new_child))" by blast
        show ?thesis
        proof (cases "?frag \<and> (\<exists>y \<in> set (K new_child). \<not> may_hold s K node y)")
          case True
          then show ?thesis unfolding reduce v using s1 nr nf by (auto simp: dom_fail_def)
        next
          case False
          then obtain s2 s3 where a: "insert_attach out node new_child ref_child s1 = Some (DOM_NO_ERR, s2)"
            "(if dn_type ?p = DOM_DOCUMENT_NODE \<and> dn_type ?c = DOM_DOCUMENT_TYPE_NODE
              then set_owner new_child (Some node) s2 else Some s2) = Some s3" "alloc s3 new_child"
            "dom_inv s3 (insert_kids K ?frag node new_child ref_child) (insert_pending P new_child)"
            using s1(2) by auto
          obtain s4 where "dom_ok new_child s3 = Some (DOM_NO_ERR, Some new_child, s4)"
            "dom_inv s4 (insert_kids K ?frag node new_child ref_child) (insert_pending P new_child)"
            using dom_ok_inv [OF a(4,3)] by blast
          then show ?thesis unfolding reduce v using s1(1) a(1,2) nr nf False by simp
        qed
      qed
    qed
  qed
qed

section \<open>Removing\<close>

lemma pend_nodes_detach:
  assumes q: "pend_nodes s P" and same: "same_ident s s'" and x: "alloc s x" "dn_owner (nd s x) = Some d"
    and par: "\<forall>u. alloc s u \<longrightarrow> dn_parent (nd s' u) = (if u = x then None else dn_parent (nd s u))"
  shows "pend_nodes s' (P(d := P d @ [x]))"
proof -
  have al: "alloc s' = alloc s" "ds_dispatching s' = ds_dispatching s"
    and f: "\<And>u. alloc s u \<Longrightarrow> dn_type (nd s' u) = dn_type (nd s u) \<and> dn_owner (nd s' u) = dn_owner (nd s u)"
    using same by (auto simp: same_ident_def)
  have 1: "alloc s n \<and> dn_owner (nd s' n) = Some e \<and> dn_parent (nd s' n) = None" if "n \<in> set ((P(d := P d @ [x])) e)" for n e
    using that pend_nodesD(1-3) [OF q, of n e] x f par by (auto split: if_splits)
  have 2: "e \<in> dom (ds_dispatching s) \<and> (dn_parent (nd s' n) = None \<and>
      dn_type (nd s' n) \<notin> {DOM_DOCUMENT_NODE, DOM_DOCUMENT_FRAGMENT_NODE} \<longrightarrow> n \<in> set ((P(d := P d @ [x])) e))"
    if "alloc s n" "dn_owner (nd s' n) = Some e" for n e
    using that pend_nodesD(4,5) [OF q, of n e] x(2) f par by (auto split: if_splits)
  have 3: "dn_type (nd s' n) = DOM_DOCUMENT_TYPE_NODE \<and> dn_parent (nd s' n) = None" if "alloc s n" "dn_owner (nd s' n) = None" for n
    using that pend_nodesD(6) [OF q, of n] f par by auto
  have 4: "dn_owner (nd s' n) = Some n" if "alloc s n" "dn_type (nd s' n) = DOM_DOCUMENT_NODE" for n
    using that pend_nodesD(7) [OF q, of n] f by auto
  show ?thesis unfolding pend_nodes_def al using 1 2 3 4 by blast
qed

lemma filter_child:
  assumes t: "tree_inv s K" and K: "K p = xs @ x # ys"
  shows "(\<lambda>q. filter (\<lambda>u. u \<noteq> x) (K q)) = K(p := xs @ ys)"
proof
  fix q
  have x: "x \<in> set (K p)" using K by simp
  have "distinct (K p)" using kids_distinct tree_invD(3) [OF t tree_invD(5) [OF t x]] by blast
  moreover have "filter (\<lambda>u. u \<noteq> x) (K q) = K q" if "q \<noteq> p"
    using that kids_disjoint [OF t x] by (intro filter_neq_id) blast
  ultimately show "filter (\<lambda>u. u \<noteq> x) (K q) = (K(p := xs @ ys)) q" using K by simp
qed

definition remove_verdict :: "dom_state \<Rightarrow> (dom_ptr \<Rightarrow> dom_ptr list) \<Rightarrow> dom_ptr \<Rightarrow> dom_ptr \<Rightarrow> dom_exception" where
  "remove_verdict s K node old_child =
     (if dn_type (nd s node) = DOM_DOCUMENT_NODE \<and> dn_type (nd s old_child) \<in> {DOM_DOCUMENT_TYPE_NODE, DOM_ELEMENT_NODE}
      then DOM_NOT_SUPPORTED_ERR
      else if old_child \<notin> set (K node) then DOM_NOT_FOUND_ERR
      else if dom_node_readonly s node = Some True then DOM_NO_MODIFICATION_ALLOWED_ERR
      else DOM_NO_ERR)"

lemma dom_inv_events [simp]: "dom_inv (s\<lparr>ds_events := es\<rparr>) K P = dom_inv s K P"
  by (simp add: dom_inv_def pend_nodes_def)

lemma remove_child_ok:
  assumes i: "dom_inv s K P" and ok: "all_ok out" and node: "alloc s node" and old: "alloc s old_child"
    and na: "dn_type (nd s old_child) \<noteq> DOM_ATTRIBUTE_NODE"
  shows "if remove_verdict s K node old_child \<noteq> DOM_NO_ERR
    then dom_node_remove_child out node old_child s = Some (remove_verdict s K node old_child, None, s)
    else (\<exists>s' d. dom_node_remove_child out node old_child s = Some (DOM_NO_ERR, Some old_child, s') \<and>
      dn_owner (nd s old_child) = Some d \<and>
      dom_inv s' (\<lambda>q. filter (\<lambda>u. u \<noteq> old_child) (K q)) (P(d := P d @ [old_child])))"
proof -
  have t: "tree_inv s K" and q: "pend_nodes s P" using i by (simp_all add: dom_inv_def)
  let ?c = "nd s old_child" and ?p = "nd s node" and ?v = "remove_verdict s K node old_child"
  obtain ro where ro: "dom_node_readonly s node = Some ro" using readonly_total [OF i node] by blast
  have par: "dn_parent ?c = Some node \<longleftrightarrow> old_child \<in> set (K node)" using tree_invD(6,9) [OF t] old na by blast
  show ?thesis
  proof (cases "?v = DOM_NO_ERR")
    case False
    then have "dom_node_remove_child out node old_child s = Some (?v, None, s)"
      using node old par ro by (auto simp: dom_node_remove_child_def remove_verdict_def dom_fail_def)
    with False show ?thesis by simp
  next
    case True
    then have c: "\<not> (dn_type ?p = DOM_DOCUMENT_NODE \<and> dn_type ?c \<in> {DOM_DOCUMENT_TYPE_NODE, DOM_ELEMENT_NODE})"
      "old_child \<in> set (K node)" "ro = False"
      using ro by (auto simp: remove_verdict_def split: if_splits)
    obtain xs ys where K: "K node = xs @ old_child # ys" using c(2) by (meson split_list)
    obtain e where e: "dn_owner ?p = Some e"
      using pend_nodesD(6) [OF q node] tree_invD(7) [OF t c(2)] by (cases "dn_owner ?p") (auto simp: child_type_ok_def)
    obtain evs where ev: "dom_node_dispatch_node_change_event out (Some e) old_child (Some node) DOM_MUTATION_REMOVAL s =
        Some (DOM_NO_ERR, logged evs s)"
      using dispatch_elsewhere [OF t old ok, of s e "Some node" DOM_MUTATION_REMOVAL] by auto
    let ?s1 = "logged evs s"
    have i1: "dom_inv ?s1 K P" using i by simp
    obtain s2 d where d: "dom_node_detach out old_child ?s1 = Some s2" "tree_inv s2 (K(node := xs @ ys))" "same_ident ?s1 s2"
        "pend_rings (ds_pending s2) (dom (ds_dispatching ?s1)) (P(d := P d @ [old_child]))" "dn_owner (nd ?s1 old_child) = Some d"
        "\<forall>u. alloc ?s1 u \<longrightarrow> dn_parent (nd s2 u) = (if u = old_child then None else dn_parent (nd ?s1 u))" "\<forall>d. old_child \<notin> set (P d)"
      by (rule detach_ok [OF i1 ok K])
    have "pend_nodes s2 (P(d := P d @ [old_child]))"
      by (rule pend_nodes_detach [OF _ d(3) _ d(5,6)]) (use i1 old in \<open>simp_all add: dom_inv_def\<close>)
    then have i2: "dom_inv s2 (\<lambda>q. filter (\<lambda>u. u \<noteq> old_child) (K q)) (P(d := P d @ [old_child]))"
      using d(2,3,4) filter_child [OF t K] by (simp add: dom_inv_def same_ident_def)
    have al: "alloc s2 old_child" "alloc s2 node" "dn_owner (nd s2 node) = Some e"
      using d(3) old node e by (auto simp: same_ident_def)
    obtain s3 where s3: "dom_node_ref old_child s2 = Some s3" "same_ident s2 s3"
        "dom_inv s3 (\<lambda>q. filter (\<lambda>u. u \<noteq> old_child) (K q)) (P(d := P d @ [old_child]))"
      using dom_ref_inv [OF i2 al(1)] by blast
    have n3: "alloc s3 node" "dn_owner (nd s3 node) = Some e" using s3(2) al by (simp_all add: same_ident_def)
    have "dom_node_remove_child out node old_child s = Some (DOM_NO_ERR, Some old_child, logged [SubtreeModified node] s3)"
      using node old par ro c e ev d(1) s3(1) n3 ok
      by (auto simp: dom_node_remove_child_def dispatch_subtree_modified_event_def fire_def)
    with True d(5) s3(3) show ?thesis by auto
  qed
qed

section \<open>Replacing\<close>

lemma replace_parent_loop_ok:
  assumes "\<forall>z \<in> set zs. alloc s z \<and> z \<noteq> old" and "alloc s lst" and "alloc s old" and "dn_parent (nd s old) = Some p"
    and "linked (sib_nx s p) (map Some zs @ [nxt])" and "dn_next (nd s lst) = nxt" and "nxt \<notin> Some ` set zs"
  shows "replace_parent_loop (hd (map Some zs @ [nxt])) lst old s =
    Some (relink (\<lambda>u r. r\<lparr>dn_parent := if u \<in> set zs then Some p else dn_parent r\<rparr>) s)"
  using assms
proof (induction zs arbitrary: s)
  case Nil
  then show ?case by (subst replace_parent_loop.simps) (simp add: relink_id)
next
  case (Cons z zs)
  let ?s1 = "relink (\<lambda>u r. if u = z then r\<lparr>dn_parent := Some p\<rparr> else r) s"
  have z: "alloc s z" "z \<noteq> old" using Cons.prems(1) by auto
  have nx: "dn_next (nd s z) = hd (map Some zs @ [nxt])" and lk: "linked (sib_nx s p) (map Some zs @ [nxt])"
    using linked_append [of "sib_nx s p" "[Some z]" "map Some zs @ [nxt]"] Cons.prems(5)
    by (simp_all add: sib_nx_def [of s p "Some z"])
  have "linked (sib_nx ?s1 p) (map Some zs @ [nxt]) = linked (sib_nx s p) (map Some zs @ [nxt])"
    by (rule linked_cong) (use Cons.prems(1) in \<open>auto simp: sib_nx_def\<close>)
  then have "replace_parent_loop (hd (map Some zs @ [nxt])) lst old ?s1 =
      Some (relink (\<lambda>u r. r\<lparr>dn_parent := if u \<in> set zs then Some p else dn_parent r\<rparr>) ?s1)"
    using Cons.prems z lk by (intro Cons.IH) auto
  moreover have "relink (\<lambda>u r. r\<lparr>dn_parent := if u \<in> set zs then Some p else dn_parent r\<rparr>) ?s1 =
      relink (\<lambda>u r. r\<lparr>dn_parent := if u \<in> set (z # zs) then Some p else dn_parent r\<rparr>) s"
    by (auto intro!: relink_cong)
  moreover have "replace_parent_loop (Some z) lst old s = replace_parent_loop (hd (map Some zs @ [nxt])) lst old ?s1"
    using Cons.prems(2-4,6,7) z nx by (subst replace_parent_loop.simps) auto
  ultimately show ?case by simp
qed

text \<open>The fields of the old child are read again between the writes, but they do not change.\<close>

lemma replace_links_attach:
  assumes "alloc s first" "alloc s lst" "alloc s old" "alloc s p" "\<And>u. pv = Some u \<Longrightarrow> alloc s u"
    and "dn_parent (nd s old) = Some p" "dn_previous (nd s old) = pv" "dn_next (nd s old) = nx"
    and "first \<noteq> old" "lst \<noteq> old" "p \<noteq> old" "pv \<noteq> Some old"
  shows "replace_links old first lst s = attach_links first lst p pv nx s"
  using assms unfolding replace_links_def attach_links_def by (cases pv) (simp_all add: set_link_before_def cong: if_cong)

text \<open>Replacing is cutting the old child out and putting the new ones in the same place.\<close>

lemma replace_ok:
  assumes t: "tree_inv s K" and K: "K p = xs @ old # ys" and new: "alloc s new_child" "new_child \<noteq> p"
    and fr: "frag \<longleftrightarrow> dn_type (nd s new_child) = DOM_DOCUMENT_FRAGMENT_NODE"
    and zs: "zs = (if frag then K new_child else [new_child])" "zs \<noteq> []"
    and np: "\<not> frag \<Longrightarrow> dn_parent (nd s new_child) = None"
  shows "dom_node_replace old new_child s =
    Some (relink (splice_links p (prev_of xs) (next_of ys) zs (if frag then Some new_child else None))
      (relink (cut_links p old (prev_of xs) (next_of ys)) s))"
proof -
  let ?fr = "if frag then Some new_child else None"
  have old: "old \<in> set (K p)" using K by simp
  note op = tree_invD(4-6) [OF t old]
  have kp: "kids s p (xs @ old # ys)" using tree_invD(3) [OF t op(2)] K by simp
  have nb: "dn_next (nd s old) = next_of ys" "dn_previous (nd s old) = prev_of xs"
    using kids_mid [OF kp] by (simp_all add: next_of_def prev_of_def)
  have d: "distinct (xs @ old # ys)" using kids_distinct [OF kp] .
  have neigh: "u \<in> set (K p)" "alloc s u" "u \<noteq> old" if "prev_of xs = Some u \<or> next_of ys = Some u" for u
    using that prev_of_in next_of_in K tree_invD(4) [OF t, of u p] d by force+
  have src: "splice_source s K p zs ?fr" using zs new np by (auto simp: splice_source_def)
  note z = source_facts [OF t src]
  have apart: "z \<notin> set (K p)" if "z \<in> set zs" for z using z(3) z(5) [OF that] by blast
  have za: "alloc s z" "z \<noteq> old" if "z \<in> set zs" for z using z(4) [OF that] apart [OF that] old by auto
  have po: "p \<noteq> old" using tree_invD(2) [OF t] op by (auto simp: acyclic_def parent_rel_def)
  have hz: "hd zs \<in> set zs" "last zs \<in> set zs" using zs(2) by auto
  have kn: "kids s new_child ([] @ K new_child)" using tree_invD(3) [OF t new(1)] by simp
  let ?s0 = "relink (\<lambda>u r. if ?fr = Some u then r\<lparr>dn_first_child := None, dn_last_child := None\<rparr> else r) s"
  have start: "dom_node_replace old new_child s = do {
      s \<leftarrow> replace_links old (hd zs) (last zs) ?s0;
      s \<leftarrow> replace_parent_loop (Some (hd zs)) (last zs) old s;
      replace_unlink old s }"
  proof (cases frag)
    case True
    have "relink (\<lambda>u r. if u = new_child then r\<lparr>dn_first_child := None\<rparr> else r)
      (relink (\<lambda>u r. if u = new_child then r\<lparr>dn_last_child := None\<rparr> else r) s) = ?s0"
      using True by (auto intro!: relink_cong)
    with True fr zs kids_ends [OF kn] new(1) show ?thesis by (simp add: dom_node_replace_def)
  next
    case False
    with fr zs new(1) show ?thesis by (simp add: dom_node_replace_def relink_id)
  qed
  let ?W = "\<lambda>u r :: dom_node_internal. r\<lparr>
     dn_first_child := (if u = p \<and> prev_of xs = None then Some (hd zs) else dn_first_child r),
     dn_last_child := (if u = p \<and> next_of ys = None then Some (last zs) else dn_last_child r),
     dn_previous := (if next_of ys = Some u then Some (last zs) else if u = hd zs then prev_of xs else dn_previous r),
     dn_next := (if prev_of xs = Some u then Some (hd zs) else if u = last zs then next_of ys else dn_next r)\<rparr>"
  let ?s1 = "relink ?W ?s0"
  have o0: "dn_parent (nd ?s0 old) = Some p" "dn_previous (nd ?s0 old) = prev_of xs" "dn_next (nd ?s0 old) = next_of ys"
    using nb op by simp_all
  have links: "replace_links old (hd zs) (last zs) ?s0 = Some ?s1"
  proof (subst replace_links_attach [OF _ _ _ _ _ o0])
    show "attach_links (hd zs) (last zs) p (prev_of xs) (next_of ys) ?s0 = Some ?s1"
      by (rule attach_links_ok) (use neigh(2) op(2) za(1) hz in auto)
  qed (use neigh op za hz po in auto)
  have "linked (sib_nx ?s1 p) (map Some zs) = linked (sib_nx s p) (map Some zs)"
  proof (rule linked_cong)
    fix v assume "v \<in> set (butlast (map Some zs))"
    then obtain u where u: "v = Some u" "u \<in> set (butlast zs)" by (auto simp: map_butlast [symmetric])
    then have "u \<in> set zs" "u \<noteq> last zs" using in_set_butlastD distinct_last_butlast [OF z(2,1)] by fastforce+
    moreover have "prev_of xs \<noteq> Some u" using neigh(1) apart calculation(1) by blast
    ultimately show "sib_nx ?s1 p v = sib_nx s p v" using u(1) z(4) by (simp add: sib_nx_def)
  qed
  moreover have ln: "dn_next (nd ?s1 (last zs)) = next_of ys"
    using za [OF hz(2)] neigh(1) [of "last zs"] apart [OF hz(2)] by auto
  ultimately have lk: "linked (sib_nx ?s1 p) (map Some zs @ [next_of ys])"
    using z(1,6) by (simp only: linked_append) (simp add: last_map sib_nx_def)
  have loop: "replace_parent_loop (hd (map Some zs @ [next_of ys])) (last zs) old ?s1 =
      Some (relink (\<lambda>u r. r\<lparr>dn_parent := if u \<in> set zs then Some p else dn_parent r\<rparr>) ?s1)"
  proof (rule replace_parent_loop_ok)
    show "linked (sib_nx ?s1 p) (map Some zs @ [next_of ys])" by (rule lk)
    show "dn_next (nd ?s1 (last zs)) = next_of ys" by (rule ln)
    show "next_of ys \<notin> Some ` set zs" using neigh(1) apart by (metis imageE)
  qed (use za op hz neigh(3) in auto)
  have "hd (map Some zs @ [next_of ys]) = Some (hd zs)" using zs(2) by (simp add: hd_append hd_map)
  moreover have "relink (\<lambda>u r. if u = old then r\<lparr>dn_previous := None\<rparr> else r) (relink (\<lambda>u r. if u = old then r\<lparr>dn_next := None\<rparr> else r)
      (relink (\<lambda>u r. if u = old then r\<lparr>dn_parent := None\<rparr> else r)
        (relink (\<lambda>u r. r\<lparr>dn_parent := if u \<in> set zs then Some p else dn_parent r\<rparr>) ?s1))) =
      relink (splice_links p (prev_of xs) (next_of ys) zs ?fr) (relink (cut_links p old (prev_of xs) (next_of ys)) s)"
    using neigh(3) za(2) hz new(2) po by (auto simp: splice_links_def cut_links_def intro!: relink_cong)
  ultimately show ?thesis unfolding start links using loop op by (simp add: replace_unlink_def)
qed

definition replace_at :: "'a \<Rightarrow> 'a list \<Rightarrow> 'a list \<Rightarrow> 'a list" where
  "replace_at old zs xs = concat (map (\<lambda>u. if u = old then zs else [u]) xs)"

text \<open>What replacing does to the children: the new node leaves its place, and it, or the children of the fragment,
  stand where the old child stood.\<close>

definition replace_kids ::
  "(dom_ptr \<Rightarrow> dom_ptr list) \<Rightarrow> bool \<Rightarrow> dom_ptr \<Rightarrow> dom_ptr \<Rightarrow> dom_ptr \<Rightarrow> dom_ptr \<Rightarrow> dom_ptr list" where
  "replace_kids K frag node new_child old_child =
     (let K' = (\<lambda>q. filter (\<lambda>u. u \<noteq> new_child) (K q));
          zs = (if frag then K' new_child else [new_child])
      in splice_kids K' node (replace_at old_child zs (K' node)) (if frag then Some new_child else None))"

definition replace_verdict :: "dom_state \<Rightarrow> (dom_ptr \<Rightarrow> dom_ptr list) \<Rightarrow> dom_ptr \<Rightarrow> dom_ptr \<Rightarrow> dom_ptr \<Rightarrow> dom_exception" where
  "replace_verdict s K node new_child old_child =
     (if dn_type (nd s node) = DOM_DOCUMENT_NODE \<and> dn_type (nd s new_child) \<in> {DOM_DOCUMENT_TYPE_NODE, DOM_ELEMENT_NODE}
      then DOM_NOT_SUPPORTED_ERR
      else if dn_owner (nd s new_child) \<noteq> dn_owner (nd s node) then DOM_WRONG_DOCUMENT_ERR
      else if dom_node_readonly s node = Some True then DOM_NO_MODIFICATION_ALLOWED_ERR
      else if old_child \<notin> set (K node) then DOM_NOT_FOUND_ERR
      else if (new_child, node) \<in> (parent_rel s)\<^sup>* then DOM_HIERARCHY_REQUEST_ERR
      else if \<exists>y \<in> set (if dn_type (nd s new_child) = DOM_DOCUMENT_FRAGMENT_NODE then K new_child else [new_child]).
          \<not> may_hold s K node y then DOM_HIERARCHY_REQUEST_ERR
      else if new_child = old_child then DOM_NO_ERR
      else if frozen_parent s new_child then DOM_NO_MODIFICATION_ALLOWED_ERR
      else DOM_NO_ERR)"

lemma replace_at_split: "distinct (xs @ old # ys) \<Longrightarrow> replace_at old zs (xs @ old # ys) = xs @ zs @ ys"
proof -
  have "concat (map (\<lambda>u. if u = old then zs else [u]) us) = us" if "old \<notin> set us" for us using that by (induction us) auto
  then show "distinct (xs @ old # ys) \<Longrightarrow> ?thesis" by (simp add: replace_at_def)
qed

lemma tree_inv_replace:
  assumes t: "tree_inv s K" and K: "K p = xs @ old # ys" and src: "splice_source s K p zs fr" and no: "old \<notin> set zs"
    and up: "\<forall>z \<in> set zs. (z, p) \<notin> (parent_rel s)\<^sup>*" and ty: "\<forall>z \<in> set zs. child_type_ok (dn_type (nd s p)) (dn_type (nd s z))"
  shows "tree_inv (relink (splice_links p (prev_of xs) (next_of ys) zs fr) (relink (cut_links p old (prev_of xs) (next_of ys)) s))
    (splice_kids K p (xs @ zs @ ys) fr)"
proof -
  let ?s = "relink (cut_links p old (prev_of xs) (next_of ys)) s" and ?K = "K(p := xs @ ys)"
  have p: "alloc s p" using tree_invD(5) [OF t, of old p] K by simp
  have za: "alloc s z" if "z \<in> set zs" for z using source_facts(4) [OF t src that] .
  have "parent_rel ?s \<subseteq> parent_rel s" by (auto simp: parent_rel_def cut_links_def split: if_splits)
  then have up': "\<forall>z \<in> set zs. (z, p) \<notin> (parent_rel ?s)\<^sup>*" using up rtrancl_mono by blast
  have src': "splice_source ?s ?K p zs fr" using src no by (auto simp: splice_source_def cut_links_def split: option.splits)
  have "tree_inv (relink (splice_links p (prev_of xs) (next_of ys) zs fr) ?s) (splice_kids ?K p (xs @ zs @ ys) fr)"
    by (rule tree_inv_splice [OF tree_inv_cut [OF t K] _ _ src' up']) (use p ty za in \<open>auto simp: cut_links_def\<close>)
  moreover have "splice_kids ?K p (xs @ zs @ ys) fr = splice_kids K p (xs @ zs @ ys) fr" by (auto simp: splice_kids_def fun_eq_iff)
  ultimately show ?thesis by simp
qed

text \<open>Who waits after the replacement: the new node no longer, the old one last.\<close>

lemma pend_nodes_replace:
  assumes q: "pend_nodes s P" and t: "tree_inv s K" and node: "alloc s node" and old: "alloc s old" "dn_owner (nd s old) = Some d"
    and same: "same_ident s s'"
    and par: "\<And>u. alloc s u \<Longrightarrow> dn_parent (nd s' u) =
      (if u = old then None else if u \<in> set zs then Some node else if u = new_child then None else dn_parent (nd s u))"
    and fr: "frag \<longleftrightarrow> dn_type (nd s new_child) = DOM_DOCUMENT_FRAGMENT_NODE" and zs: "zs = (if frag then K new_child else [new_child])"
    and dt: "dn_type (nd s new_child) \<noteq> DOM_DOCUMENT_TYPE_NODE"
  shows "pend_nodes s' ((insert_pending P new_child)(d := insert_pending P new_child d @ [old]))"
proof -
  let ?s = "relink (\<lambda>u r. r\<lparr>dn_parent := if u \<in> set zs then Some node else if u = new_child then None else dn_parent r\<rparr>) s"
  have mid: "pend_nodes ?s (insert_pending P new_child)" unfolding insert_pending_def
    by (rule pend_nodes_insert [OF q t node _ _ _ _ _ fr zs]) (use dt in auto)
  show ?thesis
  proof (rule pend_nodes_detach [OF mid])
    show "same_ident ?s s'" using same by (simp add: same_ident_def)
    show "\<forall>u. alloc ?s u \<longrightarrow> dn_parent (nd s' u) = (if u = old then None else dn_parent (nd ?s u))" using par by simp
  qed (use old in simp_all)
qed

lemma ref_mark_ok:
  assumes t: "tree_inv s K" and q: "pend_nodes s (P(d := P d @ [n]))" and r: "pend_rings (ds_pending s) (dom (ds_dispatching s)) P"
    and nin: "\<forall>e. n \<notin> set (P e)" and n: "alloc s n" "dn_owner (nd s n) = Some d"
  shows "\<exists>s1 s2. dom_node_ref n s = Some s1 \<and> dom_node_mark_pending n s1 = Some s2 \<and> dom_inv s2 K (P(d := P d @ [n]))"
proof -
  let ?F = "\<lambda>u r :: dom_node_internal. if u = n then r\<lparr>dn_refcnt := dn_refcnt r + 1\<rparr> else r"
  let ?s2 = "(relink ?F s)\<lparr>ds_pending := list_append (PendingHead d) (PendingOf n) (ds_pending s)\<rparr>"
  have dd: "d \<in> dom (ds_dispatching s)" using pend_nodesD(4) [OF q n] .
  have "tree_inv (relink ?F s) K" using t by (intro tree_inv_relink_same) auto
  then have "tree_inv ?s2 K" by simp
  moreover have "pend_nodes ?s2 (P(d := P d @ [n]))" by (rule pend_nodes_same [OF q]) auto
  moreover have "pend_rings (ds_pending ?s2) (dom (ds_dispatching ?s2)) (P(d := P d @ [n]))"
    using pend_rings_append [OF r dd] nin by simp
  moreover have "dom_node_ref n s = Some (relink ?F s)" using n(1) by (simp add: dom_node_ref_def)
  moreover have "dom_node_mark_pending n (relink ?F s) = Some ?s2"
    using n dd pend_rings_single [OF r] nin by (auto simp: dom_node_mark_pending_def)
  ultimately show ?thesis by (auto simp: dom_inv_def)
qed

lemma replace_move_ok:
  assumes i: "dom_inv s K P" and ok: "all_ok out" and node: "alloc s node" and new: "alloc s new_child" "new_child \<noteq> old_child"
    and fp: "dn_type (nd s new_child) = DOM_DOCUMENT_FRAGMENT_NODE \<longrightarrow> (\<exists>d. new_child \<in> set (P d))"
    and old: "old_child \<in> set (K node)" and up: "(new_child, node) \<notin> (parent_rel s)\<^sup>*" and fz: "\<not> frozen_parent s new_child"
    and frag: "frag \<longleftrightarrow> dn_type (nd s new_child) = DOM_DOCUMENT_FRAGMENT_NODE" and zs: "zs = (if frag then K new_child else [new_child])" "zs \<noteq> []"
    and hold: "\<forall>y \<in> set zs. child_type_ok (dn_type (nd s node)) (dn_type (nd s y))"
    and dt: "dn_type (nd s new_child) \<noteq> DOM_DOCUMENT_TYPE_NODE"
  shows "\<exists>s1 s2 s3 s4 d. take_out out new_child s = Some (Inr s1) \<and> dom_node_replace old_child new_child s1 = Some s2 \<and>
    dom_node_ref old_child s2 = Some s3 \<and> dom_node_mark_pending old_child s3 = Some s4 \<and> dn_owner (nd s old_child) = Some d \<and>
    dom_inv s4 (replace_kids K frag node new_child old_child)
      ((insert_pending P new_child)(d := insert_pending P new_child d @ [old_child]))"
proof -
  have t: "tree_inv s K" and q: "pend_nodes s P" using i by (simp_all add: dom_inv_def)
  note on = tree_invD(4,6) [OF t old]
  have ty2: "dn_type (nd s new_child) \<notin> {DOM_DOCUMENT_NODE, DOM_ATTRIBUTE_NODE}"
    using hold zs(1) frag child_type_never by (cases frag) fastforce+
  let ?K = "\<lambda>q. filter (\<lambda>u. u \<noteq> new_child) (K q)" and ?fr = "if frag then Some new_child else None"
  obtain s1 where 2: "take_out out new_child s = Some (Inr s1)" "tree_inv s1 ?K" "same_ident s s1"
      "pend_rings (ds_pending s1) (dom (ds_dispatching s)) (insert_pending P new_child)"
      "\<And>u. alloc s u \<Longrightarrow> dn_parent (nd s1 u) = (if u = new_child then None else dn_parent (nd s u))"
    using take_out_ok [OF i ok new(1) ty2 fp] fz unfolding insert_pending_def if_not_P [OF fz] by (elim exE conjE) auto
  have al: "alloc s1 = alloc s" and ty1: "\<And>u. alloc s u \<Longrightarrow> dn_type (nd s1 u) = dn_type (nd s u)"
    and ow1: "\<And>u. alloc s u \<Longrightarrow> dn_owner (nd s1 u) = dn_owner (nd s u)" using 2(3) by (auto simp: same_ident_def)
  have nz: "new_child \<notin> set (K new_child)" using tree_invD(2) [OF t] tree_invD(4,6) [OF t, of new_child new_child]
    by (auto simp: acyclic_def parent_rel_def)
  have nn: "new_child \<noteq> node" using up by blast
  have zs1: "zs = (if frag then ?K new_child else [new_child])" using zs(1) nz by simp
  obtain xs ys where K1: "?K node = xs @ old_child # ys" using split_list [of old_child "?K node"] old new(2) by auto
  have np: "dn_parent (nd s1 new_child) = None" using 2(5) [OF new(1)] by simp
  let ?s2 = "relink (splice_links node (prev_of xs) (next_of ys) zs ?fr) (relink (cut_links node old_child (prev_of xs) (next_of ys)) s1)"
  have rep: "dom_node_replace old_child new_child s1 = Some ?s2"
    by (rule replace_ok [OF 2(2) K1]) (use new(1) nn frag zs zs1 np al ty1 in auto)
  have src: "splice_source s1 ?K node zs ?fr" using zs1 zs(2) np new(1) al nn by (auto simp: splice_source_def)
  have ka: "alloc s z" "z \<noteq> old_child" if "z \<in> set zs" for z
    using source_facts(4) [OF 2(2) src that] source_facts(5) [OF 2(2) src that, of node] source_facts(3) [OF 2(2) src] K1 al by auto
  have "parent_rel s1 \<subseteq> parent_rel s" using 2(5) al by (auto simp: parent_rel_def split: if_splits)
  then have up1: "(new_child, node) \<notin> (parent_rel s1)\<^sup>*" using up rtrancl_mono by blast
  have "z = new_child \<or> (new_child, z) \<in> parent_rel s1" if "z \<in> set zs" for z
    using that zs1 tree_invD(4,6) [OF 2(2), of z new_child] by (auto simp: parent_rel_def split: if_splits)
  then have upz: "\<forall>z \<in> set zs. (z, node) \<notin> (parent_rel s1)\<^sup>*" using up1 by (metis converse_rtrancl_into_rtrancl)
  have dis: "distinct (xs @ old_child # ys)" using kids_distinct [OF tree_invD(3) [OF 2(2)]] node al K1 by metis
  have rk: "replace_kids K frag node new_child old_child = splice_kids ?K node (xs @ zs @ ys) ?fr"
    by (simp only: replace_kids_def Let_def zs1 [symmetric] K1 replace_at_split [OF dis])
  have t2: "tree_inv ?s2 (replace_kids K frag node new_child old_child)"
    unfolding rk by (rule tree_inv_replace [OF 2(2) K1 src _ upz]) (use ka hold ty1 node in auto)
  obtain d where d: "dn_owner (nd s old_child) = Some d" using pend_nodesD(6) [OF q on(1)] on(2) by (cases "dn_owner (nd s old_child)") auto
  have si: "same_ident s ?s2" using 2(3) by (simp add: same_ident_def splice_links_def cut_links_def)
  have "pend_nodes ?s2 ((insert_pending P new_child)(d := insert_pending P new_child d @ [old_child]))"
    by (rule pend_nodes_replace [OF q t node on(1) d si _ frag zs(1) dt])
       (use 2(5) al ka(2) in \<open>auto simp: splice_links_def cut_links_def\<close>)
  moreover have "pend_rings (ds_pending ?s2) (dom (ds_dispatching ?s2)) (insert_pending P new_child)"
    using 2(3,4) by (simp add: same_ident_def)
  moreover have "\<forall>e. old_child \<notin> set (insert_pending P new_child e)" using pend_nodesD(3) [OF q] on(2) by (fastforce simp: insert_pending_def)
  moreover have "alloc ?s2 old_child" "dn_owner (nd ?s2 old_child) = Some d" using si on(1) d by (auto simp: same_ident_def)
  ultimately show ?thesis using ref_mark_ok [OF t2] 2(1) rep d by blast
qed

lemma replace_child_ok:
  assumes i: "dom_inv s K P" and ok: "all_ok out" and node: "alloc s node" and new: "alloc s new_child" and old: "alloc s old_child"
    and na: "dn_type (nd s old_child) \<noteq> DOM_ATTRIBUTE_NODE"
    and fp: "dn_type (nd s new_child) = DOM_DOCUMENT_FRAGMENT_NODE \<longrightarrow> (\<exists>d. new_child \<in> set (P d)) \<and> K new_child \<noteq> []"
  shows "\<exists>s'. dom_node_replace_child out node new_child old_child s =
      Some (replace_verdict s K node new_child old_child,
        if replace_verdict s K node new_child old_child = DOM_NO_ERR then Some old_child else None, s') \<and>
    (if replace_verdict s K node new_child old_child \<noteq> DOM_NO_ERR then s' = s
     else if new_child = old_child then dom_inv s' K P
     else (\<exists>d. dn_owner (nd s old_child) = Some d \<and>
       dom_inv s' (replace_kids K (dn_type (nd s new_child) = DOM_DOCUMENT_FRAGMENT_NODE) node new_child old_child)
         ((insert_pending P new_child)(d := insert_pending P new_child d @ [old_child]))))"
proof -
  have t: "tree_inv s K" using i by (simp add: dom_inv_def)
  let ?c = "nd s new_child" and ?p = "nd s node" and ?v = "replace_verdict s K node new_child old_child"
  let ?frag = "dn_type ?c = DOM_DOCUMENT_FRAGMENT_NODE" and ?ia = "(new_child, node) \<in> (parent_rel s)\<^sup>*"
  let ?zs = "if ?frag then K new_child else [new_child]" and ?ns = "dn_type ?p = DOM_DOCUMENT_NODE \<and> dn_type ?c \<in> {DOM_DOCUMENT_TYPE_NODE, DOM_ELEMENT_NODE}"
  obtain ro where ro: "dom_node_readonly s node = Some ro" using readonly_total [OF i node] by blast
  have par: "dn_parent (nd s old_child) = Some node \<longleftrightarrow> old_child \<in> set (K node)" using tree_invD(6,9) [OF t] old na by blast
  have anc: "has_ancestor s new_child (Some node) = Some ?ia" using has_ancestor_correct [OF t node] .
  have kn: "kids s new_child ([] @ K new_child)" using tree_invD(3) [OF t new] by simp
  define pk where "pk \<longleftrightarrow> (\<forall>y \<in> set ?zs. may_hold s K node y)"
  have pk: "(if ?frag then all_permitted s node (dn_first_child ?c) else dom_node_permitted_child s node new_child) = Some pk"
    using all_permitted_total [OF t node kn] tree_invD(4) [OF t] kids_ends(1) [OF kn] permitted_child_may_hold [OF t node] new
    by (auto simp: pk_def)
  have v: "?v = (if ?ns then DOM_NOT_SUPPORTED_ERR else if dn_owner ?c \<noteq> dn_owner ?p then DOM_WRONG_DOCUMENT_ERR
      else if ro then DOM_NO_MODIFICATION_ALLOWED_ERR else if old_child \<notin> set (K node) then DOM_NOT_FOUND_ERR
      else if ?ia then DOM_HIERARCHY_REQUEST_ERR else if \<not> pk then DOM_HIERARCHY_REQUEST_ERR
      else if new_child = old_child then DOM_NO_ERR else if frozen_parent s new_child then DOM_NO_MODIFICATION_ALLOWED_ERR else DOM_NO_ERR)"
  proof -
    have "(\<exists>y \<in> set ?zs. \<not> may_hold s K node y) = (\<not> pk)" "(dom_node_readonly s node = Some True) = ro" using ro by (auto simp: pk_def)
    then show ?thesis by (simp only: replace_verdict_def)
  qed
  show ?thesis
  proof (cases "?ns \<or> dn_owner ?c \<noteq> dn_owner ?p \<or> ro \<or> old_child \<notin> set (K node) \<or> ?ia \<or> \<not> pk")
    case True
    then have "dom_node_replace_child out node new_child old_child s = Some (?v, None, s) \<and> ?v \<noteq> DOM_NO_ERR"
      unfolding v dom_node_replace_child_def using node new old ro anc pk par by (auto simp: dom_fail_def)
    then show ?thesis by simp
  next
    case False
    then have c: "\<not> ?ns" "dn_owner ?c = dn_owner ?p" "\<not> ro" "old_child \<in> set (K node)" "\<not> ?ia" "pk" by auto
    have reduce: "dom_node_replace_child out node new_child old_child s =
        (if new_child = old_child then dom_ok old_child s
         else do {
           t \<leftarrow> take_out out new_child s;
           case t of Inl err \<Rightarrow> dom_fail err s
           | Inr s \<Rightarrow> do {
               s \<leftarrow> dom_node_replace old_child new_child s;
               s \<leftarrow> dom_node_ref old_child s;
               s \<leftarrow> dom_node_mark_pending old_child s;
               Some (DOM_NO_ERR, Some old_child, s) } })"
      unfolding dom_node_replace_child_def using node new old ro anc pk par c by auto
    have v': "?v = (if new_child = old_child then DOM_NO_ERR else if frozen_parent s new_child then DOM_NO_MODIFICATION_ALLOWED_ERR else DOM_NO_ERR)"
      unfolding v using c by auto
    have hold: "\<forall>y \<in> set ?zs. child_type_ok (dn_type ?p) (dn_type (nd s y))" using c(6) by (auto simp: pk_def may_hold_def)
    have dt: "dn_type ?c \<noteq> DOM_DOCUMENT_TYPE_NODE" using hold c(1) by (cases "dn_type ?p") (auto simp: child_type_ok_def)
    have ty2: "dn_type ?c \<notin> {DOM_DOCUMENT_NODE, DOM_ATTRIBUTE_NODE}" using hold child_type_never by (cases ?frag) fastforce+
    have fp': "?frag \<longrightarrow> (\<exists>d. new_child \<in> set (P d))" and ne: "?zs \<noteq> []" using fp by auto
    show ?thesis
    proof (cases "new_child = old_child")
      case True
      then show ?thesis unfolding reduce v' using dom_ok_inv [OF i old] by auto
    next
      case nr: False
      show ?thesis
      proof (cases "frozen_parent s new_child")
        case True
        then show ?thesis unfolding reduce v' using nr take_out_ok [OF i ok new ty2 fp'] by (simp add: dom_fail_def)
      next
        case nf: False
        from replace_move_ok [OF i ok node new nr fp' c(4,5) nf refl refl ne hold dt] nr nf
        show ?thesis unfolding reduce v' by auto
      qed
    qed
  qed
qed

end
