(* ===== verification/Dom_Props.thy ===== *)
theory Dom_Props
  imports Dom_Ops
begin

text \<open>
  The node tree as its clients see it: documents and nodes come into being with the invariant, the
  operations of the Node interface keep it and change the lists of children as the DOM says,
  and what the code gets wrong.
\<close>

section \<open>New nodes and documents\<close>

lemma list_init_other:
  "list_members L h xs \<Longrightarrow> e \<notin> set (h # xs) \<Longrightarrow> list_members (list_init e L) h xs"
  unfolding list_members_def by (subst ring_cong) (auto simp: list_init_def)

lemma list_init_single: "list_single e L \<Longrightarrow> list_init e L = L"
  by (simp add: list_single_def list_init_def fun_upd_idem)

lemma alloc_new [simp]: "alloc (s\<lparr>ds_nodes := (ds_nodes s)(n \<mapsto> r)\<rparr>) u \<longleftrightarrow> u = n \<or> alloc s u"
  by (simp add: alloc_def)

lemma nd_new [simp]: "nd (s\<lparr>ds_nodes := (ds_nodes s)(n \<mapsto> r)\<rparr>) u = (if u = n then r else nd s u)"
  by (simp add: nd_def)

lemma tree_inv_new:
  assumes t: "tree_inv s K" and n: "\<not> alloc s n"
    and r: "dn_parent r = None" "dn_first_child r = None" "dn_last_child r = None" "dn_previous r = None" "dn_next r = None"
  shows "tree_inv (s\<lparr>ds_nodes := (ds_nodes s)(n \<mapsto> r)\<rparr>) K"
proof (rule tree_invI)
  let ?s = "s\<lparr>ds_nodes := (ds_nodes s)(n \<mapsto> r)\<rparr>"
  have in_old: "u \<noteq> n" if "u \<in> set (K p)" for u p using tree_invD(4) [OF t that] n by blast
  have Kn: "K n = []" using tree_inv_dead [OF t n] .
  have "{u. u = n \<or> alloc s u} = insert n {u. alloc s u}" by auto
  then show "finite {u. alloc ?s u}" using tree_invD(1) [OF t] by simp
  have "parent_rel ?s = parent_rel s" using r(1) n by (auto simp: parent_rel_def split: if_splits)
  then show "acyclic (parent_rel ?s)" using tree_invD(2) [OF t] by simp
  show "kids ?s p (K p)" if "alloc ?s p" for p
  proof (cases "p = n")
    case True
    then show ?thesis using Kn r by (simp add: kids_def ring_def sib_nx_def sib_pv_def)
  next
    case False
    with that have "kids s p (K p)" using tree_invD(3) [OF t] by simp
    then show ?thesis using False in_old by (subst kids_cong [where s = s]) auto
  qed
  show "alloc ?s x \<and> dn_parent (nd ?s x) = Some p \<and> child_type_ok (dn_type (nd ?s p)) (dn_type (nd ?s x))" if "x \<in> set (K p)" for p x
    using tree_invD(4-7) [OF t that] in_old [OF that] n by auto
  show "alloc ?s p \<and> (dn_type (nd ?s x) \<noteq> DOM_ATTRIBUTE_NODE \<longrightarrow> x \<in> set (K p))"
    if "alloc ?s x" "dn_parent (nd ?s x) = Some p" for x p
    using that tree_invD(8,9) [OF t, of x p] r(1) by (auto split: if_splits)
  show "dn_previous (nd ?s x) = None \<and> dn_next (nd ?s x) = None" if "alloc ?s x" "\<And>p. x \<notin> set (K p)" for x
    using that tree_inv_loose [OF t _ that(2)] r by (cases "x = n") auto
qed (use tree_inv_dead [OF t] in auto)

lemma tree_inv_nodes: "ds_nodes s' = ds_nodes s \<Longrightarrow> tree_inv s' K = tree_inv s K"
proof -
  assume e: "ds_nodes s' = ds_nodes s"
  then have "alloc s' = alloc s" "nd s' = nd s" by (simp_all add: fun_eq_iff alloc_def nd_def)
  moreover from this have "parent_rel s' = parent_rel s" "kids s' = kids s"
    by (auto simp: parent_rel_def fun_eq_iff kids_def sib_nx_def [abs_def] sib_pv_def [abs_def])
  ultimately show ?thesis by (simp add: tree_inv_def)
qed

lemma pend_rings_document:
  assumes r: "pend_rings L D P" and d: "d \<notin> D"
  shows "pend_rings (list_init (PendingHead d) L) (insert d D) P"
proof -
  have "list_members (list_init (PendingHead d) L) (PendingHead e) (map PendingOf (P e))" if "e \<in> insert d D" for e
  proof (cases "e = d")
    case True
    then show ?thesis using r d list_init_members by (auto simp: pend_rings_def)
  next
    case False
    with that r have "list_members L (PendingHead e) (map PendingOf (P e))" by (simp add: pend_rings_def)
    then show ?thesis using False by (intro list_init_other) auto
  qed
  moreover have "list_single (PendingOf n) (list_init (PendingHead d) L)" if "list_single (PendingOf n) L" for n
    using that by (simp add: list_single_def list_init_def)
  ultimately show ?thesis using r d unfolding pend_rings_def by auto
qed

lemma pend_nodesI:
  assumes "\<And>n d. n \<in> set (P d) \<Longrightarrow> alloc s n \<and> dn_owner (nd s n) = Some d \<and> dn_parent (nd s n) = None"
    and "\<And>n d. alloc s n \<Longrightarrow> dn_owner (nd s n) = Some d \<Longrightarrow> d \<in> dom (ds_dispatching s)"
    and "\<And>n d. alloc s n \<Longrightarrow> dn_owner (nd s n) = Some d \<Longrightarrow> dn_parent (nd s n) = None \<Longrightarrow>
      dn_type (nd s n) \<notin> {DOM_DOCUMENT_NODE, DOM_DOCUMENT_FRAGMENT_NODE} \<Longrightarrow> n \<in> set (P d)"
    and "\<And>n. alloc s n \<Longrightarrow> dn_owner (nd s n) = None \<Longrightarrow> dn_type (nd s n) = DOM_DOCUMENT_TYPE_NODE \<and> dn_parent (nd s n) = None"
    and "\<And>n. alloc s n \<Longrightarrow> dn_type (nd s n) = DOM_DOCUMENT_NODE \<Longrightarrow> dn_owner (nd s n) = Some n"
  shows "pend_nodes s P"
  using assms unfolding pend_nodes_def by blast

lemma dom_inv_new_node:
  assumes i: "dom_inv s K P" and n: "\<not> alloc s n" and d: "d \<in> dom (ds_dispatching s)" and ty: "ty \<noteq> DOM_DOCUMENT_NODE"
  shows "\<exists>s'. dom_node_initialise n (Some d) ty name value namespace prefix s = Some s' \<and> dom_inv s' K (P(d := P d @ [n])) \<and>
    alloc s' = (\<lambda>u. u = n \<or> alloc s u) \<and> ds_dispatching s' = ds_dispatching s \<and> dn_type (nd s' n) = ty"
proof -
  have t: "tree_inv s K" and r: "pend_rings (ds_pending s) (dom (ds_dispatching s)) P" and q: "pend_nodes s P"
    using i by (simp_all add: dom_inv_def)
  have nin: "n \<notin> set (P e)" for e using pend_nodesD(1) [OF q] n by blast
  let ?r = "\<lparr>dn_name = name, dn_value = value, dn_type = ty, dn_parent = None, dn_first_child = None, dn_last_child = None,
    dn_previous = None, dn_next = None, dn_owner = Some d, dn_namespace = namespace, dn_prefix = prefix, dn_refcnt = 1,
    dn_read_only = False\<rparr>"
  let ?s = "s\<lparr>ds_nodes := (ds_nodes s)(n \<mapsto> ?r), ds_pending := list_append (PendingHead d) (PendingOf n) (ds_pending s)\<rparr>"
  have same: "list_init (PendingOf n) (ds_pending s) = ds_pending s"
    using r nin by (intro list_init_single) (auto simp: pend_rings_def)
  have "dom_node_initialise n (Some d) ty name value namespace prefix s = Some ?s"
    using ty d pend_rings_single [OF r nin] by (auto simp: dom_node_initialise_def same dom_node_mark_pending_def)
  moreover have "tree_inv ?s K" using tree_inv_new [OF t n, of ?r] by simp
  moreover have "pend_rings (ds_pending ?s) (dom (ds_dispatching ?s)) (P(d := P d @ [n]))"
    using pend_rings_append [OF r d nin] by simp
  moreover have "pend_nodes ?s (P(d := P d @ [n]))"
  proof (rule pend_nodesI)
    fix u e
    show "alloc ?s u \<and> dn_owner (nd ?s u) = Some e \<and> dn_parent (nd ?s u) = None" if "u \<in> set ((P(d := P d @ [n])) e)"
      using that pend_nodesD(1-3) [OF q, of u e] n by (auto split: if_splits)
    show "e \<in> dom (ds_dispatching ?s)" if "alloc ?s u" "dn_owner (nd ?s u) = Some e"
      using that pend_nodesD(4) [OF q, of u e] d by (auto split: if_splits)
    show "u \<in> set ((P(d := P d @ [n])) e)" if "alloc ?s u" "dn_owner (nd ?s u) = Some e" "dn_parent (nd ?s u) = None"
      "dn_type (nd ?s u) \<notin> {DOM_DOCUMENT_NODE, DOM_DOCUMENT_FRAGMENT_NODE}"
      using that pend_nodesD(5) [OF q, of u e] by (auto split: if_splits)
    show "dn_type (nd ?s u) = DOM_DOCUMENT_TYPE_NODE \<and> dn_parent (nd ?s u) = None" if "alloc ?s u" "dn_owner (nd ?s u) = None"
      using that pend_nodesD(6) [OF q, of u] by (auto split: if_splits)
    show "dn_owner (nd ?s u) = Some u" if "alloc ?s u" "dn_type (nd ?s u) = DOM_DOCUMENT_NODE"
      using that pend_nodesD(7) [OF q, of u] ty by (auto split: if_splits)
  qed
  ultimately show ?thesis by (auto simp: dom_inv_def fun_eq_iff)
qed

lemma dom_inv_new_document:
  assumes i: "dom_inv s K P" and d: "\<not> alloc s d" "ds_dispatching s d = None"
  shows "\<exists>s'. dom_document_initialise d s = Some s' \<and> dom_inv s' K P \<and> alloc s' = (\<lambda>u. u = d \<or> alloc s u) \<and>
    dom (ds_dispatching s') = insert d (dom (ds_dispatching s)) \<and> dn_type (nd s' d) = DOM_DOCUMENT_NODE"
proof -
  have t: "tree_inv s K" and r: "pend_rings (ds_pending s) (dom (ds_dispatching s)) P" and q: "pend_nodes s P"
    using i by (simp_all add: dom_inv_def)
  have nin: "d \<notin> set (P e)" for e using pend_nodesD(1) [OF q] d(1) by blast
  have no: "dn_owner (nd s u) \<noteq> Some d" if "alloc s u" for u using pend_nodesD(4) [OF q that] d(2) by auto
  let ?r = "\<lparr>dn_name = Some [0x23, 0x64, 0x6F, 0x63, 0x75, 0x6D, 0x65, 0x6E, 0x74], dn_value = None, dn_type = DOM_DOCUMENT_NODE,
    dn_parent = None, dn_first_child = None, dn_last_child = None, dn_previous = None, dn_next = None, dn_owner = Some d,
    dn_namespace = None, dn_prefix = None, dn_refcnt = 1, dn_read_only = False\<rparr>"
  let ?s = "s\<lparr>ds_nodes := (ds_nodes s)(d \<mapsto> ?r), ds_pending := list_init (PendingHead d) (ds_pending s),
    ds_dispatching := (ds_dispatching s)(d \<mapsto> 0)\<rparr>"
  have al: "alloc ?s u \<longleftrightarrow> u = d \<or> alloc s u" "nd ?s u = (if u = d then ?r else nd s u)" for u by (simp_all add: alloc_def nd_def)
  have same: "list_init (PendingOf d) (ds_pending s) = ds_pending s"
    using r nin by (intro list_init_single) (auto simp: pend_rings_def)
  have "dom_document_initialise d s = Some ?s" by (simp add: dom_document_initialise_def dom_node_initialise_def same)
  moreover have "tree_inv ?s K" using tree_inv_new [OF t d(1), of ?r] by (subst tree_inv_nodes [where s = "s\<lparr>ds_nodes := (ds_nodes s)(d \<mapsto> ?r)\<rparr>"]) simp_all
  moreover have "pend_rings (ds_pending ?s) (dom (ds_dispatching ?s)) P" using pend_rings_document [OF r, of d] d(2) by auto
  moreover have "pend_nodes ?s P"
  proof (rule pend_nodesI)
    fix u e
    show "alloc ?s u \<and> dn_owner (nd ?s u) = Some e \<and> dn_parent (nd ?s u) = None" if "u \<in> set (P e)"
      using that pend_nodesD(1-3) [OF q that] d(1) unfolding al by auto
    show "e \<in> dom (ds_dispatching ?s)" if "alloc ?s u" "dn_owner (nd ?s u) = Some e"
      using that pend_nodesD(4) [OF q, of u e] unfolding al by (auto split: if_splits)
    show "u \<in> set (P e)" if "alloc ?s u" "dn_owner (nd ?s u) = Some e" "dn_parent (nd ?s u) = None"
      "dn_type (nd ?s u) \<notin> {DOM_DOCUMENT_NODE, DOM_DOCUMENT_FRAGMENT_NODE}"
      using that pend_nodesD(5) [OF q, of u e] unfolding al by (auto split: if_splits)
    show "dn_type (nd ?s u) = DOM_DOCUMENT_TYPE_NODE \<and> dn_parent (nd ?s u) = None" if "alloc ?s u" "dn_owner (nd ?s u) = None"
      using that pend_nodesD(6) [OF q, of u] unfolding al by (auto split: if_splits)
    show "dn_owner (nd ?s u) = Some u" if "alloc ?s u" "dn_type (nd ?s u) = DOM_DOCUMENT_NODE"
      using that pend_nodesD(7) [OF q, of u] unfolding al by (auto split: if_splits)
  qed
  ultimately show ?thesis using al by (auto simp: dom_inv_def fun_eq_iff)
qed

text \<open>Before any document: the memory of the list entries is free.\<close>

definition dom_empty :: dom_state where
  "dom_empty = \<lparr>ds_nodes = Map.empty, ds_dispatching = Map.empty, ds_pending = \<lparr>le_prev = (\<lambda>e. e), le_next = (\<lambda>e. e)\<rparr>, ds_events = []\<rparr>"

lemma dom_inv_empty: "dom_inv dom_empty (\<lambda>_. []) (\<lambda>_. [])"
proof -
  have "\<not> alloc dom_empty n" for n by (simp add: alloc_def dom_empty_def)
  then show ?thesis by (auto simp: dom_inv_def pend_nodes_def pend_rings_def dom_empty_def list_single_def parent_rel_def intro!: tree_invI acyclicI)
qed

section \<open>A small document\<close>

text \<open>A document 0 with the root element 1, which has the element 2 and the text 3; outside the tree, the
  fragment 4 with the comment 5, and the comment 6. Nobody listens to the events.\<close>

definition no_listener :: dispatcher where
  "no_listener = (\<lambda>_ _. DOM_NO_ERR)"

definition example_new :: "dom_ptr \<Rightarrow> dom_node_type \<Rightarrow> bytes \<Rightarrow> dom_state \<Rightarrow> dom_state" where
  "example_new n ty name s = the (dom_node_initialise n (Some 0) ty (Some name) None None None s)"

definition example_append :: "dom_ptr \<Rightarrow> dom_ptr \<Rightarrow> dom_state \<Rightarrow> dom_state" where
  "example_append p c s = snd (snd (the (dom_node_append_child no_listener p c s)))"

definition example_nodes :: dom_state where
  "example_nodes =
     example_new 6 DOM_COMMENT_NODE [0x23] (example_new 5 DOM_COMMENT_NODE [0x23] (
     example_new 4 DOM_DOCUMENT_FRAGMENT_NODE [0x23] (example_new 3 DOM_TEXT_NODE [0x23] (
     example_new 2 DOM_ELEMENT_NODE [0x50] (example_new 1 DOM_ELEMENT_NODE [0x42] (
     the (dom_document_initialise 0 dom_empty)))))))"

definition example :: dom_state where
  "example = example_append 4 5 (example_append 1 3 (example_append 1 2 (example_append 0 1 example_nodes)))"

definition example_K :: "dom_ptr \<Rightarrow> dom_ptr list" where
  "example_K q = (if q = 0 then [1] else if q = 1 then [2, 3] else if q = 4 then [5] else [])"

definition example_P :: "dom_ptr \<Rightarrow> dom_ptr list" where
  "example_P d = (if d = 0 then [4, 6] else [])"

lemma example_new_inv:
  assumes "dom_inv s K P" and "ds_nodes s n = None" and "ds_dispatching s 0 \<noteq> None" and "ty \<noteq> DOM_DOCUMENT_NODE"
  shows "dom_inv (example_new n ty name s) K (P(0 := P 0 @ [n]))"
proof -
  have a: "\<not> alloc s n" and d: "0 \<in> dom (ds_dispatching s)" using assms(2,3) by (auto simp: alloc_def)
  from dom_inv_new_node [OF assms(1) a d assms(4), of "Some name" None None None]
  show ?thesis by (auto simp: example_new_def)
qed

lemma example_append_inv:
  assumes i: "dom_inv s K P" and "ds_nodes s c \<noteq> None" and "dn_type (the (ds_nodes s c)) \<noteq> DOM_DOCUMENT_FRAGMENT_NODE" and "ds_nodes s p \<noteq> None"
    and e: "map_option fst (dom_node_append_child no_listener p c s) = Some DOM_NO_ERR"
  shows "dom_inv (example_append p c s) (insert_kids K False p c None) (insert_pending P c)"
proof -
  have a: "alloc s p" "alloc s c" "dn_type (nd s c) \<noteq> DOM_DOCUMENT_FRAGMENT_NODE" unfolding alloc_def nd_def by (rule assms)+
  have ok: "all_ok no_listener" by (simp add: no_listener_def)
  have fp: "dn_type (nd s c) = DOM_DOCUMENT_FRAGMENT_NODE \<longrightarrow> (\<exists>d. c \<in> set (P d))" using a(3) by simp
  have rf: "\<forall>r. None = Some r \<longrightarrow> alloc s r \<and> dn_type (nd s r) \<noteq> DOM_ATTRIBUTE_NODE" by simp
  obtain s' where s': "dom_node_insert_before no_listener p c None s = Some (insert_verdict s K p c None,
        if insert_verdict s K p c None = DOM_NO_ERR then Some c else None, s')"
      "if insert_verdict s K p c None \<noteq> DOM_NO_ERR then ds_nodes s' = ds_nodes s else if None = Some c then dom_inv s' K P
       else dom_inv s' (insert_kids K (dn_type (nd s c) = DOM_DOCUMENT_FRAGMENT_NODE) p c None) (insert_pending P c)"
    using insert_before_ok [OF i ok a(1,2) fp rf] by (elim exE conjE)
  have v: "insert_verdict s K p c None = DOM_NO_ERR" using e s'(1) by (simp add: dom_node_append_child_def)
  with s' a(3) show ?thesis by (simp add: example_append_def dom_node_append_child_def)
qed

lemma example_nodes_inv: "dom_inv example_nodes (\<lambda>_. []) ((\<lambda>_. [])(0 := [1, 2, 3, 4, 5, 6]))"
proof -
  obtain s where s: "dom_document_initialise 0 dom_empty = Some s" "dom_inv s (\<lambda>_. []) (\<lambda>_. [])"
    using dom_inv_new_document [OF dom_inv_empty, of 0] by (auto simp: alloc_def dom_empty_def)
  then have 0: "dom_inv (the (dom_document_initialise 0 dom_empty)) (\<lambda>_. []) (\<lambda>_. [])" by simp
  define P where "P ns = (\<lambda>_ :: dom_ptr. [])(0 := ns)" for ns :: "dom_ptr list"
  have P: "(P ns)(0 := P ns 0 @ [n]) = P (ns @ [n])" for ns n by (simp add: P_def)
  have 0: "dom_inv (the (dom_document_initialise 0 dom_empty)) (\<lambda>_. []) (P [])" using 0 by (simp add: P_def fun_upd_idem)
  note step = example_new_inv [where P = "P _", unfolded P append.simps]
  have 1: "dom_inv (example_new 1 DOM_ELEMENT_NODE [0x42] (the (dom_document_initialise 0 dom_empty))) (\<lambda>_. []) (P [1])"
    by (rule step [OF 0, unfolded append.simps]; code_simp)
  have 2: "dom_inv (example_new 2 DOM_ELEMENT_NODE [0x50] (example_new 1 DOM_ELEMENT_NODE [0x42] (the (dom_document_initialise 0 dom_empty)))) (\<lambda>_. []) (P [1, 2])"
    by (rule step [OF 1, unfolded append.simps]; code_simp)
  have 3: "dom_inv (example_new 3 DOM_TEXT_NODE [0x23] (example_new 2 DOM_ELEMENT_NODE [0x50] (example_new 1 DOM_ELEMENT_NODE [0x42] (the (dom_document_initialise 0 dom_empty))))) (\<lambda>_. []) (P [1, 2, 3])"
    by (rule step [OF 2, unfolded append.simps]; code_simp)
  have 4: "dom_inv (example_new 4 DOM_DOCUMENT_FRAGMENT_NODE [0x23] (example_new 3 DOM_TEXT_NODE [0x23] (example_new 2 DOM_ELEMENT_NODE [0x50] (example_new 1 DOM_ELEMENT_NODE [0x42] (the (dom_document_initialise 0 dom_empty)))))) (\<lambda>_. []) (P [1, 2, 3, 4])"
    by (rule step [OF 3, unfolded append.simps]; code_simp)
  have 5: "dom_inv (example_new 5 DOM_COMMENT_NODE [0x23] (example_new 4 DOM_DOCUMENT_FRAGMENT_NODE [0x23] (example_new 3 DOM_TEXT_NODE [0x23] (example_new 2 DOM_ELEMENT_NODE [0x50] (example_new 1 DOM_ELEMENT_NODE [0x42] (the (dom_document_initialise 0 dom_empty))))))) (\<lambda>_. []) (P [1, 2, 3, 4, 5])"
    by (rule step [OF 4, unfolded append.simps]; code_simp)
  have "dom_inv example_nodes (\<lambda>_. []) (P [1, 2, 3, 4, 5, 6])"
    unfolding example_nodes_def by (rule step [OF 5, unfolded append.simps]; code_simp)
  then show ?thesis by (simp add: P_def)
qed

lemma example_inv: "dom_inv example example_K example_P"
proof -
  have 1: "dom_inv (example_append 0 1 example_nodes) (insert_kids (\<lambda>_. []) False 0 1 None)
      (insert_pending ((\<lambda>_. [])(0 := [1, 2, 3, 4, 5, 6])) 1)"
    by (rule example_append_inv [OF example_nodes_inv]; code_simp)
  have 2: "dom_inv (example_append 1 2 (example_append 0 1 example_nodes)) (insert_kids (insert_kids (\<lambda>_. []) False 0 1 None) False 1 2 None)
      (insert_pending (insert_pending ((\<lambda>_. [])(0 := [1, 2, 3, 4, 5, 6])) 1) 2)"
    by (rule example_append_inv [OF 1]; code_simp)
  have 3: "dom_inv (example_append 1 3 (example_append 1 2 (example_append 0 1 example_nodes)))
      (insert_kids (insert_kids (insert_kids (\<lambda>_. []) False 0 1 None) False 1 2 None) False 1 3 None)
      (insert_pending (insert_pending (insert_pending ((\<lambda>_. [])(0 := [1, 2, 3, 4, 5, 6])) 1) 2) 3)"
    by (rule example_append_inv [OF 2]; code_simp)
  have 4: "dom_inv example
      (insert_kids (insert_kids (insert_kids (insert_kids (\<lambda>_. []) False 0 1 None) False 1 2 None) False 1 3 None) False 4 5 None)
      (insert_pending (insert_pending (insert_pending (insert_pending ((\<lambda>_. [])(0 := [1, 2, 3, 4, 5, 6])) 1) 2) 3) 5)"
    unfolding example_def by (rule example_append_inv [OF 3]; code_simp)
  have "insert_kids (insert_kids (insert_kids (insert_kids (\<lambda>_. []) False 0 1 None) False 1 2 None) False 1 3 None) False 4 5 None = example_K"
    by (simp add: fun_eq_iff insert_kids_def splice_kids_def insert_at_def example_K_def)
  moreover have "insert_pending (insert_pending (insert_pending (insert_pending ((\<lambda>_. [])(0 := [1, 2, 3, 4, 5, 6])) 1) 2) 3) 5 = example_P"
    by (simp add: fun_eq_iff insert_pending_def example_P_def)
  ultimately show ?thesis using 4 by simp
qed

section \<open>Properties\<close>







text \<open>creating a node in an existing document, and creating a document, succeed and keep the state well-formed: the tree is as it was, and the
  node waits at the end of the pending list of the document.\<close>

theorem dom_initialise_inv:
  assumes "dom_inv s K P" and "\<not> alloc s n"
  shows "(ds_dispatching s d \<noteq> None \<and> ty \<noteq> DOM_DOCUMENT_NODE \<longrightarrow>
      (\<exists>s'. dom_node_initialise n (Some d) ty nm v ns pf s = Some s' \<and> dom_inv s' K (P(d := P d @ [n])))) \<and>
    (ds_dispatching s n = None \<longrightarrow> (\<exists>s'. dom_document_initialise n s = Some s' \<and> dom_inv s' K P))"
  using dom_inv_new_node [OF assms, of d ty nm v ns pf] dom_inv_new_document [OF assms] by blast

lemma dom_initialise_inv_witness:
  "(\<exists>s'. dom_node_initialise 7 (Some 0) DOM_ELEMENT_NODE None None None None example = Some s' \<and>
      dom_inv s' example_K (example_P(0 := example_P 0 @ [7]))) \<and>
   (\<exists>s'. dom_document_initialise 7 example = Some s' \<and> dom_inv s' example_K example_P)"
proof -
  have a: "ds_nodes example 7 = None" "ds_dispatching example 0 \<noteq> None" "ds_dispatching example 7 = None" by code_simp+
  then have n: "\<not> alloc example 7" by (simp add: alloc_def)
  show ?thesis using dom_initialise_inv [OF example_inv n, of 0 DOM_ELEMENT_NODE None None None None] a by simp
qed

text \<open>contains answers whether the first node is the second or an ancestor of it, for nodes of one document, and the walk to the root ends.\<close>

theorem dom_contains_correct:
  assumes "dom_inv s K P" and "alloc s node" and "alloc s other"
  shows "dom_node_contains s node other = Some (dn_owner (nd s node) = dn_owner (nd s other) \<and> (node, other) \<in> (parent_rel s)\<^sup>*)"
  using has_ancestor_correct [of s K other node] assms by (auto simp: dom_node_contains_def dom_inv_def)

lemma dom_contains_correct_witness:
  "dom_node_contains example 1 3 = Some (dn_owner (nd example 1) = dn_owner (nd example 3) \<and> (1, 3) \<in> (parent_rel example)\<^sup>*) \<and>
   dom_node_contains example 1 3 = Some True \<and> dom_node_contains example 3 1 = Some False"
proof -
  have a: "ds_nodes example 1 \<noteq> None" "ds_nodes example 3 \<noteq> None" by code_simp+
  have "dom_node_contains example 1 3 = Some (dn_owner (nd example 1) = dn_owner (nd example 3) \<and> (1, 3) \<in> (parent_rel example)\<^sup>*)"
    by (rule dom_contains_correct [OF example_inv]) (use a in \<open>simp_all only: alloc_def not_False_eq_True\<close>)
  moreover have "dom_node_contains example 1 3 = Some True" "dom_node_contains example 3 1 = Some False" by code_simp+
  ultimately show ?thesis by blast
qed

text \<open>C29: dispatching a node change fires one event at the node and then one at every descendant, in document order and each once; the
  traversal over first_child, next and the climb over last_child ends.\<close>

theorem dom_node_change_events:
  assumes "dom_inv s K P" and "alloc s node" and "\<forall>ev es. out ev es = DOM_NO_ERR"
  shows "\<exists>xs. doc_order K node (node # xs) \<and> dom_node_dispatch_node_change_event out (Some doc) node related change s =
    Some (DOM_NO_ERR, s\<lparr>ds_events := ds_events s @ NodeChange change node related # map (NodeChangeDocument change) xs\<rparr>)"
  using dispatch_subtree [of s K node out s doc related change] assms by (simp add: dom_inv_def)

lemma dom_node_change_events_witness:
  "\<exists>xs. doc_order example_K 0 (0 # xs) \<and> dom_node_dispatch_node_change_event no_listener (Some 0) 0 None DOM_MUTATION_REMOVAL example =
      Some (DOM_NO_ERR, example\<lparr>ds_events := ds_events example @ NodeChange DOM_MUTATION_REMOVAL 0 None #
        map (NodeChangeDocument DOM_MUTATION_REMOVAL) xs\<rparr>)"
proof (rule dom_node_change_events [OF example_inv])
  have "ds_nodes example 0 \<noteq> None" by code_simp
  then show "alloc example 0" by (simp only: alloc_def not_False_eq_True)
qed (simp add: no_listener_def)

text \<open>C28: while a mutation event is being dispatched in its document, no operation changes the tree at a node: each returns an
  exception, hands out no node and leaves the whole state as it was.\<close>

theorem dom_mutation_locked:
  assumes "alloc s node" and "alloc s new_child" and "alloc s old_child" and "dn_owner (nd s node) = Some doc"
    and "ds_dispatching s doc = Some c" and "0 < c"
  shows "\<exists>e1 e2 e3 e4. DOM_NO_ERR \<notin> {e1, e2, e3, e4} \<and>
    dom_node_insert_before out node new_child ref_child s = Some (e1, None, s) \<and>
    dom_node_append_child out node new_child s = Some (e2, None, s) \<and>
    dom_node_replace_child out node new_child old_child s = Some (e3, None, s) \<and>
    dom_node_remove_child out node old_child s = Some (e4, None, s)"
proof -
  have ro: "dom_node_readonly s node = Some True"
    using assms by (simp add: dom_node_readonly_def dom_node_readonly_owner_def)
  have "\<exists>e. e \<noteq> DOM_NO_ERR \<and> dom_node_insert_before out node new_child r s = Some (e, None, s)" for r
    using ro assms(1-3) by (auto simp: dom_node_insert_before_def dom_fail_def)
  moreover from this have "\<exists>e. e \<noteq> DOM_NO_ERR \<and> dom_node_append_child out node new_child s = Some (e, None, s)"
    by (simp add: dom_node_append_child_def)
  moreover have "\<exists>e. e \<noteq> DOM_NO_ERR \<and> dom_node_replace_child out node new_child old_child s = Some (e, None, s)"
    using ro assms(1-3) by (auto simp: dom_node_replace_child_def dom_fail_def)
  moreover have "\<exists>e. e \<noteq> DOM_NO_ERR \<and> dom_node_remove_child out node old_child s = Some (e, None, s)"
    using ro assms(1-3) by (auto simp: dom_node_remove_child_def dom_fail_def)
  ultimately show ?thesis by (metis empty_iff insert_iff)
qed

lemma dom_mutation_locked_witness:
  "let s = example\<lparr>ds_dispatching := [0 \<mapsto> 1]\<rparr> in
   \<exists>e1 e2 e3 e4. DOM_NO_ERR \<notin> {e1, e2, e3, e4} \<and>
    dom_node_insert_before no_listener 1 6 (Some 2) s = Some (e1, None, s) \<and>
    dom_node_append_child no_listener 1 6 s = Some (e2, None, s) \<and>
    dom_node_replace_child no_listener 1 6 2 s = Some (e3, None, s) \<and>
    dom_node_remove_child no_listener 1 2 s = Some (e4, None, s)"
proof -
  let ?s = "example\<lparr>ds_dispatching := [0 \<mapsto> 1]\<rparr>"
  have a: "ds_nodes ?s 1 \<noteq> None" "ds_nodes ?s 6 \<noteq> None" "ds_nodes ?s 2 \<noteq> None" "dn_owner (the (ds_nodes ?s 1)) = Some 0" "0 < (1 :: u32)"
    by code_simp+
  have "ds_dispatching ?s 0 = Some 1" by simp
  then show ?thesis unfolding Let_def
    by (intro dom_mutation_locked [of ?s 1 6 2 0 1]) (use a in \<open>simp_all only: alloc_def nd_def not_False_eq_True\<close>)
qed

section \<open>What the code gets wrong\<close>

text \<open>Replacing a child by a fragment without children unlinks the child but not its neighbours: with the children
  2, 3 and 6, replacing 3 succeeds, yet afterwards the next sibling of 2 is still 3, which has neither parent nor siblings, so that
  walking on from 2 never reaches the last child 6.\<close>

theorem dom_replace_by_empty_fragment:
  "let s = example_append 1 6 (example_append 1 3 (example_append 1 2 (example_append 0 1 example_nodes)));
       s' = snd (snd (the (dom_node_replace_child no_listener 1 4 3 s)))
   in map_option fst (dom_node_replace_child no_listener 1 4 3 s) = Some DOM_NO_ERR \<and>
      dn_next (the (ds_nodes s' 2)) = Some 3 \<and> dn_previous (the (ds_nodes s' 6)) = Some 3 \<and>
      dn_parent (the (ds_nodes s' 3)) = None \<and> dn_next (the (ds_nodes s' 3)) = None \<and> dn_last_child (the (ds_nodes s' 1)) = Some 6"
  by code_simp

text \<open>inserting a fragment twice aborts the program: the first insertion takes the fragment out of the pending list, the second one
  finds it in no list and fails the assertion of remove_pending.\<close>

theorem dom_fragment_used_twice:
  "let s = example_append 1 4 example
   in dom_node_append_child no_listener 1 4 example \<noteq> None \<and> dom_node_append_child no_listener 1 4 s = None"
  by code_simp

text \<open>a fragment with two elements is accepted as the content of an empty document, which then has two root elements: every child
  is checked against the document before any of them is in it.\<close>

theorem dom_two_root_elements:
  "let s = example_append 4 2 (example_append 4 1 example_nodes);
       s' = snd (snd (the (dom_node_append_child no_listener 0 4 s)))
   in map_option fst (dom_node_append_child no_listener 0 4 s) = Some DOM_NO_ERR \<and>
      dn_first_child (the (ds_nodes s' 0)) = Some 1 \<and> dn_next (the (ds_nodes s' 1)) = Some 2 \<and>
      dn_type (the (ds_nodes s' 1)) = DOM_ELEMENT_NODE \<and> dn_type (the (ds_nodes s' 2)) = DOM_ELEMENT_NODE"
  by code_simp

text \<open>Removing a child fires the removal event at it twice, once before and once while it is detached.\<close>

lemma dom_remove_child_fires_twice:
  "filter (\<lambda>e. e = NodeChange DOM_MUTATION_REMOVAL 2 (Some 1))
     (ds_events (snd (snd (the (dom_node_remove_child no_listener 1 2 example))))) =
   [NodeChange DOM_MUTATION_REMOVAL 2 (Some 1), NodeChange DOM_MUTATION_REMOVAL 2 (Some 1)]"
  by code_simp

text \<open>An Attr node has the element it belongs to for a parent, although it is not among the children. Removing it
  as a child is accepted, and empties the list of children.\<close>

lemma dom_remove_attribute_as_child:
  "let s = the (set_parent 7 (Some 1) (the (dom_node_remove_pending 7 (example_new 7 DOM_ATTRIBUTE_NODE [0x61] example))));
       s' = snd (snd (the (dom_node_remove_child no_listener 1 7 s)))
   in map_option fst (dom_node_remove_child no_listener 1 7 s) = Some DOM_NO_ERR \<and>
      dn_first_child (the (ds_nodes s 1)) = Some 2 \<and> dn_first_child (the (ds_nodes s' 1)) = None \<and> dn_last_child (the (ds_nodes s' 1)) = None"
  by code_simp

end
