(* ===== verification/Dom_String.thy ===== *)
theory Dom_String
  imports Utf8 Dom_Node
begin

text \<open>
  The strings of the document object model, \<^verbatim>\<open>libdom/src/core/string.c\<close>, on top of the UTF-8 primitives. A string
  is given by its bytes; an interned string and one with its own buffer hold the same bytes, and
  comparing two interned strings by their pointers is the subject of the theory of interning. Positions are numbers of
  characters, so every operation first walks the bytes to find where they are.

  Byte lengths are 32-bit in insert and replace, and the size of the buffer they allocate is computed in
  32 bits; copying outside the buffer is \<open>None\<close>.
\<close>

section \<open>Comparing\<close>

definition dolower :: "u8 \<Rightarrow> u8" where
  "dolower c = (if 0x41 \<le> c \<and> c \<le> 0x5A then c + 0x61 - 0x41 else c)"

text \<open>NULL stands for the empty string.\<close>

definition dom_bytes :: "bytes option \<Rightarrow> bytes" where
  "dom_bytes s = (case s of None \<Rightarrow> [] | Some b \<Rightarrow> b)"

definition dom_string_isequal :: "bytes option \<Rightarrow> bytes option \<Rightarrow> bool" where
  "dom_string_isequal s1 s2 = (length (dom_bytes s1) = length (dom_bytes s2) \<and> dom_bytes s1 = dom_bytes s2)"

definition dom_string_caseless_isequal :: "bytes option \<Rightarrow> bytes option \<Rightarrow> bool" where
  "dom_string_caseless_isequal s1 s2 = (length (dom_bytes s1) = length (dom_bytes s2) \<and>
     list_all2 (\<lambda>a b. dolower a = dolower b) (dom_bytes s1) (dom_bytes s2))"

section \<open>Creating\<close>

abbreviation DOM_STRING_SIZE :: nat where "DOM_STRING_SIZE \<equiv> 32"

text \<open>The buffer of a string has room for a final NUL.\<close>

definition dom_string_create :: "heap \<Rightarrow> bytes \<Rightarrow> (dom_exception + bytes) option" where
  "dom_string_create h data =
     (let len = length data in
      if \<not> malloc_ok h DOM_STRING_SIZE \<or> \<not> malloc_ok h (size_wrap (len + 1)) then Some (Inl DOM_NO_MEM_ERR)
      else do {
        mem \<leftarrow> mem_write 0 data (replicate (size_wrap (len + 1)) (heap_junk h));
        mem \<leftarrow> mem_write len [0] mem;
        Some (Inr (take len mem))
      })"

section \<open>Searching\<close>

definition dom_string_length :: "bytes \<Rightarrow> u32" where
  "dom_string_length s =
     (case parserutils_charset_utf8_length (Some s) of Inl _ \<Rightarrow> 0 | Inr clen \<Rightarrow> of_nat clen)"

function index_loop :: "bytes \<Rightarrow> u32 \<Rightarrow> u32 \<Rightarrow> u32" where
  "index_loop [] chr index = - 1"
| "index_loop (b # bs) chr index =
     (case parserutils_charset_utf8_to_ucs4 (Some (b # bs)) of
        Inl _ \<Rightarrow> - 1
      | Inr (c, clen) \<Rightarrow> if c = chr then index else index_loop (drop clen (b # bs)) chr (index + 1))"
  by pat_completeness auto
termination
proof (relation "measure (\<lambda>(s, chr, index). length s)", goal_cases)
  case (2 b bs chr index a c clen)
  then have "utf8_seq_len c = Some clen" using utf8_decode_canonical(1) [of "b # bs" c clen] by simp
  then show ?case using utf8_seq_len_range by force
qed simp

definition dom_string_index :: "bytes \<Rightarrow> u32 \<Rightarrow> u32" where
  "dom_string_index s chr = index_loop s chr 0"

text \<open>Decoding at an offset with a length that may be more than there is: reading past the end is \<open>None\<close>.\<close>

definition to_ucs4_at :: "bytes \<Rightarrow> nat \<Rightarrow> nat \<Rightarrow> (parserutils_error + (u32 \<times> nat)) option" where
  "to_ucs4_at s off len =
     (if off + len \<le> length s then Some (UTF8_TO_UCS4 (take len (drop off s)))
      else if UTF8_TO_UCS4 (drop off s) = Inl PARSERUTILS_NEEDDATA then None
      else Some (UTF8_TO_UCS4 (drop off s)))"

partial_function (option) rindex_loop :: "bytes \<Rightarrow> u32 \<Rightarrow> nat \<Rightarrow> nat \<Rightarrow> u32 \<Rightarrow> u32 option" where
  "rindex_loop s chr slen clen index =
     (if slen = 0 then Some (- 1)
      else do {
        coff \<leftarrow> UTF8_PREV s slen;
        r \<leftarrow> to_ucs4_at s coff (size_sub slen clen);
        case r of
          Inl _ \<Rightarrow> Some (- 1)
        | Inr (c, clen) \<Rightarrow>
            if c = chr then Some index else rindex_loop s chr (size_sub slen clen) clen (index - 1)
      })"

definition dom_string_rindex :: "bytes \<Rightarrow> u32 \<Rightarrow> u32 option" where
  "dom_string_rindex s chr = rindex_loop s chr (length s) 0 (dom_string_length s)"

lemmas string_code = rindex_loop.simps

declare string_code [code]

text \<open>The character at a position. The value \<open>-1\<close> that is returned when decoding fails is not an exception of the
  enumeration: it is \<open>Inl None\<close>.\<close>

function at_loop :: "bytes \<Rightarrow> u32 \<Rightarrow> u32 \<Rightarrow> (u32 \<times> bytes) option" where
  "at_loop [] index i = Some (i, [])"
| "at_loop (b # bs) index i =
     (case UTF8_CHAR_BYTE_LENGTH (b # bs) of
        None \<Rightarrow> None
      | Some clen \<Rightarrow>
          if i + 1 = index + 1 then Some (i + 1, b # bs)
          else if clen \<le> length (b # bs) then at_loop (drop clen (b # bs)) index (i + 1)
          else None)"
  by pat_completeness auto
termination
  by (relation "measure (\<lambda>(s, index, i). length s)") (auto simp: UTF8_CHAR_BYTE_LENGTH_def)

definition dom_string_at :: "bytes \<Rightarrow> u32 \<Rightarrow> (dom_exception option + u32) option" where
  "dom_string_at s index = do {
     (i, s) \<leftarrow> at_loop s index 0;
     if i = index + 1
     then (case UTF8_TO_UCS4 s of Inl _ \<Rightarrow> Some (Inl None) | Inr (c, _) \<Rightarrow> Some (Inr c))
     else Some (Inl (Some DOM_DOMSTRING_SIZE_ERR))
   }"

section \<open>Cutting and joining\<close>

definition dom_string_concat :: "heap \<Rightarrow> bytes \<Rightarrow> bytes \<Rightarrow> (dom_exception + bytes) option" where
  "dom_string_concat h s1 s2 =
     (let n = size_wrap (length s1 + length s2) in
      if \<not> malloc_ok h DOM_STRING_SIZE \<or> \<not> malloc_ok h (size_wrap (n + 1)) then Some (Inl DOM_NO_MEM_ERR)
      else do {
        mem \<leftarrow> mem_write 0 s1 (replicate (size_wrap (n + 1)) (heap_junk h));
        mem \<leftarrow> mem_write (length s1) s2 mem;
        mem \<leftarrow> mem_write n [0] mem;
        Some (Inr (take n mem))
      })"

text \<open>The byte offset, in 32 bits, \<open>n\<close> characters after \<open>b\<close>; \<open>None\<close> is the error of stepping off the end.\<close>

fun skip_chars :: "bytes \<Rightarrow> nat \<Rightarrow> nat \<Rightarrow> nat option" where
  "skip_chars s 0 b = Some b"
| "skip_chars s (Suc n) b =
     (case parserutils_charset_utf8_next (Some s) b of Inl _ \<Rightarrow> None | Inr b' \<Rightarrow> skip_chars s n (u32_wrap b'))"

definition dom_string_substr :: "heap \<Rightarrow> bytes option \<Rightarrow> u32 \<Rightarrow> u32 \<Rightarrow> (dom_exception + bytes) option" where
  "dom_string_substr h str i1 i2 =
     (let s = dom_bytes str; n = i2 - i1 in
      case skip_chars s (unat i1) 0 of
        None \<Rightarrow> Some (Inl DOM_NO_MEM_ERR)
      | Some b1 \<Rightarrow>
          (case skip_chars s (unat n) b1 of
             None \<Rightarrow> Some (Inl DOM_NO_MEM_ERR)
           | Some b2 \<Rightarrow> dom_string_create h (take (b2 - b1) (drop b1 s))))"

text \<open>The new buffer: the bytes of the target before \<open>b1\<close>, the source, the bytes of the target from \<open>b2\<close>
  on, and a NUL. \<open>tlen\<close> and \<open>slen\<close> are the lengths in 32 bits.\<close>

definition splice_bytes :: "heap \<Rightarrow> bytes \<Rightarrow> nat \<Rightarrow> bytes \<Rightarrow> nat \<Rightarrow> nat \<Rightarrow> nat \<Rightarrow> (dom_exception + bytes) option" where
  "splice_bytes h t tlen s slen b1 b2 =
     (let n = u32_wrap (tlen + slen + 2 ^ 32 - (b2 - b1)) in
      if \<not> malloc_ok h DOM_STRING_SIZE \<or> \<not> malloc_ok h (u32_wrap (n + 1)) then Some (Inl DOM_NO_MEM_ERR)
      else do {
        mem \<leftarrow> mem_write 0 (take b1 t) (replicate (u32_wrap (n + 1)) (heap_junk h));
        mem \<leftarrow> mem_write b1 (take slen s) mem;
        mem \<leftarrow> (if b2 < tlen then mem_write (b1 + slen) (take (tlen - b2) (drop b2 t)) mem else Some mem);
        mem \<leftarrow> mem_write n [0] mem;
        Some (Inr (take n mem))
      })"

definition dom_string_insert :: "heap \<Rightarrow> bytes option \<Rightarrow> bytes \<Rightarrow> u32 \<Rightarrow> (dom_exception + bytes) option" where
  "dom_string_insert h target s offset =
     (let t = dom_bytes target; tlen = u32_wrap (length t); slen = u32_wrap (length s); clen = dom_string_length t in
      if offset > clen then Some (Inl DOM_INDEX_SIZE_ERR)
      else case (if offset = clen then Some tlen else skip_chars (take tlen t) (unat offset) 0) of
          None \<Rightarrow> Some (Inl DOM_NO_MEM_ERR)
        | Some ins \<Rightarrow> splice_bytes h t tlen s slen ins ins)"

definition dom_string_replace :: "heap \<Rightarrow> bytes option \<Rightarrow> bytes \<Rightarrow> u32 \<Rightarrow> u32 \<Rightarrow> (dom_exception + bytes) option" where
  "dom_string_replace h target s i1 i2 =
     (let t = dom_bytes target; tlen = u32_wrap (length t); slen = u32_wrap (length s); n = i2 - i1 in
      case skip_chars (take tlen t) (unat i1) 0 of
        None \<Rightarrow> Some (Inl DOM_NO_MEM_ERR)
      | Some b1 \<Rightarrow>
          (case skip_chars (take tlen t) (unat n) b1 of
             None \<Rightarrow> Some (Inl DOM_NO_MEM_ERR)
           | Some b2 \<Rightarrow> splice_bytes h t tlen s slen b1 b2))"

section \<open>Case and white space\<close>

definition doupper :: "u8 \<Rightarrow> u8" where
  "doupper c = (if 0x61 \<le> c \<and> c \<le> 0x7A then c - (0x61 - 0x41) else c)"

definition dom_string_toupper :: "heap \<Rightarrow> bytes \<Rightarrow> bool \<Rightarrow> (dom_exception + bytes) option" where
  "dom_string_toupper h s ascii_only =
     (if \<not> ascii_only then Some (Inl DOM_NOT_SUPPORTED_ERR)
      else if \<not> malloc_ok h (length s) then Some (Inl DOM_NO_MEM_ERR)
      else dom_string_create h (map doupper s))"

definition dom_string_tolower :: "heap \<Rightarrow> bytes \<Rightarrow> bool \<Rightarrow> (dom_exception + bytes) option" where
  "dom_string_tolower h s ascii_only =
     (if \<not> ascii_only then Some (Inl DOM_NOT_SUPPORTED_ERR)
      else if \<not> malloc_ok h (length s) then Some (Inl DOM_NO_MEM_ERR)
      else dom_string_create h (map dolower s))"

definition is_space :: "u8 \<Rightarrow> bool" where
  "is_space c \<longleftrightarrow> c = 0x20 \<or> c = 0x09 \<or> c = 0x0A \<or> c = 0x0D \<or> c = 0x0C"

abbreviation DOM_WHITESPACE_STRIP_LEADING :: u32 where "DOM_WHITESPACE_STRIP_LEADING \<equiv> 1"
abbreviation DOM_WHITESPACE_STRIP_TRAILING :: u32 where "DOM_WHITESPACE_STRIP_TRAILING \<equiv> 2"
abbreviation DOM_WHITESPACE_COLLAPSE :: u32 where "DOM_WHITESPACE_COLLAPSE \<equiv> 4"

text \<open>The main loop, which writes into a buffer of the size of the input: \<open>None\<close> when it is full.\<close>

function copy_loop :: "bool \<Rightarrow> bytes \<Rightarrow> nat \<Rightarrow> bytes \<Rightarrow> bytes option" where
  "copy_loop collapse [] room out = Some out"
| "copy_loop collapse (c # rest) room out =
     (if room = 0 then None
      else if collapse \<and> is_space c then copy_loop collapse (dropWhile is_space rest) (room - 1) (out @ [0x20])
      else copy_loop collapse rest (room - 1) (out @ [c]))"
  by pat_completeness auto
termination
  by (relation "measure (\<lambda>(_, src, _). length src)") (auto simp: less_Suc_eq_le length_dropWhile_le)

definition strip_trailing :: "bytes \<Rightarrow> bytes" where
  "strip_trailing out = rev (dropWhile is_space (rev out))"

definition dom_string_whitespace_op :: "heap \<Rightarrow> bytes \<Rightarrow> u32 \<Rightarrow> (dom_exception + bytes) option" where
  "dom_string_whitespace_op h s op =
     (let len = length s in
      if \<not> malloc_ok h len then Some (Inl DOM_NO_MEM_ERR)
      else do {
        out \<leftarrow> copy_loop (op AND DOM_WHITESPACE_COLLAPSE \<noteq> 0)
                 (if op AND DOM_WHITESPACE_STRIP_LEADING \<noteq> 0 then dropWhile is_space s else s) len [];
        dom_string_create h (if op AND DOM_WHITESPACE_STRIP_TRAILING \<noteq> 0 then strip_trailing out else out)
      })"

section \<open>Walking well-formed text\<close>

abbreviation utf8_text :: "u32 list \<Rightarrow> bytes" where
  "utf8_text cs \<equiv> concat (map utf8_enc cs)"

lemma dom_string_length_text:
  "list_all utf8_ok cs \<Longrightarrow> dom_string_length (utf8_text cs) = of_nat (length cs)"
  by (simp add: dom_string_length_def utf8_length_text)

lemma length_text_ge: "list_all utf8_ok cs \<Longrightarrow> length cs \<le> length (utf8_text cs)"
proof (induction cs)
  case (Cons c cs)
  then have "0 < length (utf8_enc c)" "length cs \<le> length (utf8_text cs)" using utf8.enc_nonempty by simp_all
  then have "Suc (length cs) \<le> length (utf8_enc c) + length (utf8_text cs)" by linarith
  then show ?case by simp
qed simp

lemma length_utf8_enc_le: "length (utf8_enc c) \<le> 6"
  using utf8_seq_len_range [of c] by (auto simp: utf8_enc_def length_utf8_bytes split: option.splits)

lemma minus_one_u32: "k < 2 ^ 32 - 1 \<Longrightarrow> (of_nat k :: u32) \<noteq> - 1"
proof
  assume "k < 2 ^ 32 - 1" and "(of_nat k :: u32) = - 1"
  then have "unat (of_nat k :: u32) = unat (- 1 :: u32)" "k < 2 ^ 32 - 1" by simp_all
  then show False by (simp add: unat_of_nat unsigned_minus_1_eq_mask mask_eq_exp_minus_1)
qed

text \<open>From the start of a character, \<open>n\<close> steps lead \<open>n\<close> characters on, or fail when there are fewer.\<close>

lemma skip_chars_text:
  assumes "list_all utf8_ok (ds @ es)" and "length (utf8_text (ds @ es)) < 2 ^ 32"
  shows "skip_chars (utf8_text (ds @ es)) n (length (utf8_text ds)) =
    (if n \<le> length es then Some (length (utf8_text (ds @ take n es))) else None)"
  using assms
proof (induction es arbitrary: ds n)
  case Nil
  then show ?case by (cases n) (simp_all add: UTF8_NEXT_def)
next
  case (Cons c es)
  show ?case
  proof (cases n)
    case (Suc m)
    have "UTF8_NEXT (utf8_text (ds @ c # es)) (length (utf8_text ds)) = Inr (length (utf8_text (ds @ [c])))"
      using next_char [of c es "utf8_text ds"] Cons.prems(1) by simp
    moreover have "u32_wrap (length (utf8_text (ds @ [c]))) = length (utf8_text (ds @ [c]))"
      using Cons.prems(2) by (intro u32_wrap_id) simp
    ultimately show ?thesis
      using Cons.IH [of "ds @ [c]" m] Cons.prems Suc by simp
  qed simp
qed

lemma skip_chars_start:
  "list_all utf8_ok cs \<Longrightarrow> length (utf8_text cs) < 2 ^ 32 \<Longrightarrow>
   skip_chars (utf8_text cs) n 0 = (if n \<le> length cs then Some (length (utf8_text (take n cs))) else None)"
  using skip_chars_text [of "[]" cs n] by simp

lemma text_split: "utf8_text cs = utf8_text (take k cs) @ utf8_text (drop k cs)"
  by (metis append_take_drop_id concat_append map_append)

section \<open>New buffers\<close>

text \<open>What an operation that makes a string returns: the string, if memory for it and for its buffer, with the
  final NUL, is granted.\<close>

definition new_string :: "heap \<Rightarrow> bytes \<Rightarrow> dom_exception + bytes" where
  "new_string h data =
     (if malloc_ok h DOM_STRING_SIZE \<and> malloc_ok h (length data + 1) then Inr data else Inl DOM_NO_MEM_ERR)"

lemma create_new: "length data + 1 < SIZE_MODULUS \<Longrightarrow> dom_string_create h data = Some (new_string h data)"
  by (simp add: dom_string_create_def new_string_def Let_def mem_write_def)

lemma concat_new:
  assumes "length s1 + length s2 + 1 < SIZE_MODULUS"
  shows "dom_string_concat h s1 s2 = Some (new_string h (s1 @ s2))"
  using assms by (simp add: dom_string_concat_def new_string_def Let_def mem_write_def)

lemma splice_new:
  assumes "length x + length y + length z + length s + 1 < 2 ^ 32"
  shows "splice_bytes h (x @ y @ z) (length (x @ y @ z)) s (length s) (length x) (length (x @ y)) =
    Some (new_string h (x @ s @ z))"
proof -
  have n: "u32_wrap (length (x @ y @ z) + length s + 2 ^ 32 - (length (x @ y) - length x)) = length (x @ s @ z)"
    using assms mod_add_self2 [of "length (x @ s @ z)" "2 ^ 32"] by (simp add: u32_wrap_def ac_simps)
  have "drop (length x + length y) (x @ y @ z) = z" by simp
  with assms show ?thesis unfolding splice_bytes_def Let_def n
    by (auto simp: new_string_def mem_write_def)
qed

section \<open>Cutting and joining well-formed text\<close>

lemma text_parts:
  assumes "i \<le> j"
  shows "utf8_text cs = utf8_text (take i cs) @ utf8_text (take (j - i) (drop i cs)) @ utf8_text (drop j cs)"
proof -
  have "cs = take i cs @ take (j - i) (drop i cs) @ drop j cs"
    using assms by (metis append_take_drop_id drop_drop le_add_diff_inverse2)
  then show ?thesis by (metis concat_append map_append)
qed

text \<open>The two walks of substr and replace: they succeed exactly when the range is inside the text, also when the
  32-bit difference of the two ends wraps around.\<close>

lemma range_walk:
  fixes i1 i2 :: u32
  assumes "list_all utf8_ok cs" and "length (utf8_text cs) < 2 ^ 32"
  shows "(case skip_chars (utf8_text cs) (unat i1) 0 of None \<Rightarrow> None
          | Some b1 \<Rightarrow> map_option (Pair b1) (skip_chars (utf8_text cs) (unat (i2 - i1)) b1)) =
    (if i1 \<le> i2 \<and> unat i2 \<le> length cs
     then Some (length (utf8_text (take (unat i1) cs)), length (utf8_text (take (unat i2) cs))) else None)"
proof -
  let ?i = "unat i1" and ?n = "unat (i2 - i1)"
  have len: "length cs < 2 ^ 32" using assms length_text_ge [of cs] by simp
  have two: "skip_chars (utf8_text cs) ?n (length (utf8_text (take ?i cs))) =
      (if ?n \<le> length cs - ?i then Some (length (utf8_text (take (?i + ?n) cs))) else None)"
    using skip_chars_text [of "take ?i cs" "drop ?i cs" ?n] assms by (simp add: take_add)
  show ?thesis
  proof (cases "i1 \<le> i2")
    case True
    then have "?n = unat i2 - ?i" "?i \<le> unat i2" by (simp_all add: unat_sub word_le_nat_alt)
    then show ?thesis using True two skip_chars_start [OF assms, of ?i] by auto
  next
    case False
    then have "?n = 2 ^ 32 + unat i2 - ?i" by (simp add: unat_sub_if_size word_size word_le_nat_alt)
    moreover have "?i < 2 ^ 32" using unsigned_less [of i1] by simp
    ultimately have "\<not> ?n \<le> length cs - ?i" using len by simp
    then show ?thesis using False two skip_chars_start [OF assms, of ?i] by auto
  qed
qed

lemma range_walk_cases:
  fixes i1 i2 :: u32
  assumes "list_all utf8_ok cs" and "length (utf8_text cs) < 2 ^ 32"
  shows "i1 \<le> i2 \<and> unat i2 \<le> length cs \<Longrightarrow>
      skip_chars (utf8_text cs) (unat i1) 0 = Some (length (utf8_text (take (unat i1) cs))) \<and>
      skip_chars (utf8_text cs) (unat (i2 - i1)) (length (utf8_text (take (unat i1) cs))) =
        Some (length (utf8_text (take (unat i2) cs)))"
    and "\<not> (i1 \<le> i2 \<and> unat i2 \<le> length cs) \<Longrightarrow> skip_chars (utf8_text cs) (unat i1) 0 = Some b1 \<Longrightarrow>
      skip_chars (utf8_text cs) (unat (i2 - i1)) b1 = None"
  using range_walk [OF assms, where ?i1.0 = i1 and ?i2.0 = i2] by (auto split: option.splits if_splits)

lemma take_parts:
  assumes "i \<le> j"
  shows "utf8_text (take j cs) = utf8_text (take i cs) @ utf8_text (take (j - i) (drop i cs))"
proof -
  have "take j cs = take i cs @ take (j - i) (drop i cs)" using assms by (metis le_add_diff_inverse take_add)
  then show ?thesis by simp
qed

lemma substr_text:
  assumes ok: "list_all utf8_ok cs" and len: "length (utf8_text cs) < 2 ^ 32"
  shows "dom_string_substr h (Some (utf8_text cs)) i1 i2 =
    Some (if i1 \<le> i2 \<and> unat i2 \<le> length cs
          then new_string h (utf8_text (take (unat (i2 - i1)) (drop (unat i1) cs))) else Inl DOM_NO_MEM_ERR)"
proof (cases "i1 \<le> i2 \<and> unat i2 \<le> length cs")
  case True
  let ?m = "utf8_text (take (unat i2 - unat i1) (drop (unat i1) cs))"
  have le: "unat i1 \<le> unat i2" "unat (i2 - i1) = unat i2 - unat i1"
    using True by (simp_all add: unat_sub word_le_nat_alt)
  have t: "utf8_text cs = utf8_text (take (unat i1) cs) @ ?m @ utf8_text (drop (unat i2) cs)"
    by (rule text_parts [OF le(1)])
  have "length ?m + 1 < SIZE_MODULUS" using len by (subst (asm) t) simp
  with t True le range_walk_cases(1) [OF ok len True] show ?thesis
    by (simp add: dom_string_substr_def dom_bytes_def take_parts [OF le(1)] create_new)
next
  case False
  with range_walk_cases(2) [OF ok len False] show ?thesis
    by (auto simp: dom_string_substr_def dom_bytes_def Let_def split: option.splits)
qed

lemma replace_text:
  assumes ok: "list_all utf8_ok cs" and len: "length (utf8_text cs) + length s + 1 < 2 ^ 32"
  shows "dom_string_replace h (Some (utf8_text cs)) s i1 i2 =
    Some (if i1 \<le> i2 \<and> unat i2 \<le> length cs
          then new_string h (utf8_text (take (unat i1) cs) @ s @ utf8_text (drop (unat i2) cs))
          else Inl DOM_NO_MEM_ERR)"
proof (cases "i1 \<le> i2 \<and> unat i2 \<le> length cs")
  case True
  have le: "unat i1 \<le> unat i2" using True by (simp add: word_le_nat_alt)
  let ?x = "utf8_text (take (unat i1) cs)" and ?m = "utf8_text (take (unat i2 - unat i1) (drop (unat i1) cs))"
    and ?z = "utf8_text (drop (unat i2) cs)"
  have t: "utf8_text cs = ?x @ ?m @ ?z" by (rule text_parts [OF le])
  have l: "length ?x + length ?m + length ?z + length s + 1 < 2 ^ 32" using len by (subst (asm) t) simp
  have len': "length (utf8_text cs) < 2 ^ 32" using len by simp
  note w = range_walk_cases(1) [OF ok len' True]
  have "dom_string_replace h (Some (utf8_text cs)) s i1 i2 =
      splice_bytes h (?x @ ?m @ ?z) (length (?x @ ?m @ ?z)) s (length s) (length ?x) (length (?x @ ?m))"
    using w len unfolding t [symmetric] take_parts [OF le, symmetric]
    by (simp add: dom_string_replace_def dom_bytes_def Let_def)
  also have "\<dots> = Some (new_string h (?x @ s @ ?z))" by (rule splice_new [OF l])
  finally show ?thesis using True by simp
next
  case False
  have len': "length (utf8_text cs) < 2 ^ 32" using len by simp
  from range_walk_cases(2) [OF ok len' False] False len show ?thesis
    by (auto simp: dom_string_replace_def dom_bytes_def Let_def split: option.splits)
qed

lemma insert_text:
  assumes ok: "list_all utf8_ok cs" and len: "length (utf8_text cs) + length s + 1 < 2 ^ 32"
  shows "dom_string_insert h (Some (utf8_text cs)) s offset =
    Some (if unat offset \<le> length cs
          then new_string h (utf8_text (take (unat offset) cs) @ s @ utf8_text (drop (unat offset) cs))
          else Inl DOM_INDEX_SIZE_ERR)"
proof -
  let ?x = "utf8_text (take (unat offset) cs)" and ?z = "utf8_text (drop (unat offset) cs)"
  have len': "length (utf8_text cs) < 2 ^ 32" "length cs < 2 ^ 32" using len length_text_ge [OF ok] by simp_all
  have cmp: "offset > dom_string_length (utf8_text cs) \<longleftrightarrow> \<not> unat offset \<le> length cs"
    "offset = dom_string_length (utf8_text cs) \<longleftrightarrow> unat offset = length cs"
    using len'(2) by (auto simp: dom_string_length_text [OF ok] word_less_nat_alt unat_of_nat word_unat_eq_iff)
  have t: "utf8_text cs = ?x @ [] @ ?z" using text_split by simp
  have l: "length ?x + length ([] :: bytes) + length ?z + length s + 1 < 2 ^ 32" using len by (subst (asm) t) simp
  have "dom_string_insert h (Some (utf8_text cs)) s offset =
      splice_bytes h (?x @ [] @ ?z) (length (?x @ [] @ ?z)) s (length s) (length ?x) (length (?x @ []))"
    if "unat offset \<le> length cs"
    using that len cmp skip_chars_start [OF ok len'(1), of "unat offset"] unfolding t [symmetric]
    by (simp add: dom_string_insert_def dom_bytes_def Let_def)
  also have "\<dots> = Some (new_string h (?x @ s @ ?z))" by (rule splice_new [OF l])
  finally show ?thesis using cmp by (auto simp: dom_string_insert_def dom_bytes_def Let_def)
qed

section \<open>Searching well-formed text\<close>

lemma length_takeWhile_less: "x \<in> set xs \<Longrightarrow> \<not> P x \<Longrightarrow> length (takeWhile P xs) < length xs"
  by (induction xs) auto

lemma index_loop_text:
  "list_all utf8_ok cs \<Longrightarrow>
   index_loop (utf8_text cs) chr i =
     (if chr \<in> set cs then i + of_nat (length (takeWhile (\<lambda>c. c \<noteq> chr) cs)) else - 1)"
proof (induction cs arbitrary: i)
  case (Cons c cs)
  then have ok: "utf8_ok c" by simp
  obtain b bs where b: "utf8_text (c # cs) = b # bs" using utf8.enc_nonempty [OF ok] by (cases "utf8_enc c") auto
  have "UTF8_TO_UCS4 (b # bs) = Inr (c, length (utf8_enc c))" and d: "drop (length (utf8_enc c)) (b # bs) = utf8_text cs"
    unfolding b [symmetric] using utf8.dec_enc [OF ok, of "utf8_text cs"] by simp_all
  then have "index_loop (b # bs) chr i = (if c = chr then i else index_loop (utf8_text cs) chr (i + 1))"
    by (simp del: drop.simps)
  with Cons b show ?case by (simp add: add.commute add.left_commute)
qed simp

lemma at_loop_text:
  "list_all utf8_ok cs \<Longrightarrow> unat i \<le> unat index \<Longrightarrow> unat i + length cs < 2 ^ 32 \<Longrightarrow>
   at_loop (utf8_text cs) index i =
     Some (if unat index - unat i < length cs then (index + 1, utf8_text (drop (unat index - unat i) cs))
           else (i + of_nat (length cs), []))"
proof (induction cs arbitrary: i)
  case (Cons c cs)
  then have ok: "utf8_ok c" by simp
  from utf8_enc_shape [OF ok] obtain b ys where e: "utf8_enc c = b # ys" "numContinuations ! unat b = length ys" by blast
  then have b: "utf8_text (c # cs) = b # ys @ utf8_text cs" by simp
  have step: "at_loop (b # ys @ utf8_text cs) index i =
      (if i = index then Some (i + 1, b # ys @ utf8_text cs) else at_loop (utf8_text cs) index (i + 1))"
    using e(2) by (simp add: UTF8_CHAR_BYTE_LENGTH_def)
  show ?case
  proof (cases "i = index")
    case False
    then have lt: "unat i < unat index" using Cons.prems(2) by (simp add: order_less_le word_unat_eq_iff)
    have "unat (i + 1) = unat i + 1" using Cons.prems(3) by (subst unat_add_lem [THEN iffD1]) simp_all
    with Cons.IH [of "i + 1"] Cons.prems lt False step b show ?thesis by (auto simp: drop_Cons' add.commute)
  qed (use step b in simp)
qed simp

lemma at_text:
  assumes ok: "list_all utf8_ok cs" and len: "length cs < 2 ^ 32" and "index \<noteq> - 1"
  shows "dom_string_at (utf8_text cs) index =
    Some (if unat index < length cs then Inr (cs ! unat index) else Inl (Some DOM_DOMSTRING_SIZE_ERR))"
proof (cases "unat index < length cs")
  case True
  then have d: "drop (unat index) cs = cs ! unat index # drop (Suc (unat index)) cs" by (simp add: Cons_nth_drop_Suc)
  have "utf8_ok (cs ! unat index)" using ok True by (simp add: list_all_length)
  from utf8.dec_enc [OF this] True at_loop_text [OF ok, of 0 index] len show ?thesis
    by (simp add: dom_string_at_def d)
next
  case False
  have "1 + index \<noteq> 0" using assms(3) by (simp add: add_eq_0_iff)
  then have "unat (index + 1) = unat index + 1" using unatSuc [of index] by (simp add: add.commute)
  then have "of_nat (length cs) \<noteq> index + 1" using False len by (auto simp: word_unat_eq_iff unat_of_nat)
  then show ?thesis using False at_loop_text [OF ok, of 0 index] len by (simp add: dom_string_at_def)
qed

text \<open>The backward search ends at once when the last character is the wanted one.\<close>

lemma rindex_last:
  assumes "list_all utf8_ok (cs @ [c])" and "length (utf8_text (cs @ [c])) < SIZE_MODULUS"
  shows "dom_string_rindex (utf8_text (cs @ [c])) c = Some (of_nat (length cs) + 1)"
proof -
  have ok: "utf8_ok c" using assms(1) by simp
  have p: "UTF8_PREV (utf8_text cs @ utf8_enc c) (length (utf8_text cs) + length (utf8_enc c)) = Some (length (utf8_text cs))"
    using prev_char [OF ok, of "utf8_text cs" "[]"] by simp
  have d: "UTF8_TO_UCS4 (utf8_enc c) = Inr (c, length (utf8_enc c))" using utf8.dec_enc [OF ok, of "[]"] by simp
  have "to_ucs4_at (utf8_text cs @ utf8_enc c) (length (utf8_text cs)) (length (utf8_text cs) + length (utf8_enc c)) =
      Some (Inr (c, length (utf8_enc c)))"
    using d by (auto simp: to_ucs4_at_def)
  with p assms utf8.enc_nonempty [OF ok] show ?thesis
    by (simp add: dom_string_rindex_def rindex_loop.simps dom_string_length_text [of "cs @ [c]", simplified] add.commute)
qed

section \<open>White space\<close>

primrec collapse_spec :: "bytes \<Rightarrow> bool \<Rightarrow> bytes" where
  "collapse_spec [] _ = []"
| "collapse_spec (c # s) after =
     (if is_space c then (if after then collapse_spec s True else 0x20 # collapse_spec s True)
      else c # collapse_spec s False)"

lemma collapse_drop: "collapse_spec (dropWhile is_space s) True = collapse_spec s True"
  by (induction s) auto

lemma collapse_drop_False: "collapse_spec (dropWhile is_space s) False = collapse_spec s True"
  by (induction s) auto

lemma copy_loop_eq:
  "length src \<le> room \<Longrightarrow>
   copy_loop collapse src room out = Some (out @ (if collapse then collapse_spec src False else src))"
proof (induction collapse src room out rule: copy_loop.induct)
  case (2 collapse c rest room out)
  have "length (dropWhile is_space rest) \<le> length rest" by (rule length_dropWhile_le)
  with 2 show ?case by (auto simp: collapse_drop_False)
qed simp

lemma dropWhile_shorter: "t \<noteq> [] \<Longrightarrow> P (hd t) \<Longrightarrow> length (dropWhile P t) < length t"
  by (cases t) (simp_all add: less_Suc_eq_le length_dropWhile_le)

text \<open>The words of a string: the maximal runs of bytes that are not white space.\<close>

function space_words :: "bytes \<Rightarrow> bytes list" where
  "space_words s =
     (let t = dropWhile is_space s in
      if t = [] then [] else takeWhile (\<lambda>c. \<not> is_space c) t # space_words (dropWhile (\<lambda>c. \<not> is_space c) t))"
  by pat_completeness auto
termination
proof (relation "measure length", goal_cases)
  case (2 s t)
  then have "t \<noteq> []" and "\<not> is_space (hd t)" using hd_dropWhile [of is_space s] by blast+
  then have "length (dropWhile (\<lambda>c. \<not> is_space c) t) < length t" by (rule dropWhile_shorter)
  also have "\<dots> \<le> length s" using 2 by (simp add: length_dropWhile_le)
  finally show ?case by simp
qed simp

declare space_words.simps [simp del]

fun join_words :: "bytes list \<Rightarrow> bytes" where
  "join_words [] = []"
| "join_words [w] = w"
| "join_words (w # ws) = w @ 0x20 # join_words ws"

lemma strip_trailing_append: "strip_trailing b \<noteq> [] \<Longrightarrow> strip_trailing (a @ b) = a @ strip_trailing b"
  by (auto simp: strip_trailing_def dropWhile_append)

lemma strip_trailing_spaces: "list_all is_space b \<Longrightarrow> strip_trailing (a @ b) = strip_trailing a"
  by (simp add: strip_trailing_def list_all_iff dropWhile_append dropWhile_eq_Nil_conv [THEN iffD2])

lemma strip_trailing_id: "a \<noteq> [] \<Longrightarrow> \<not> is_space (last a) \<Longrightarrow> strip_trailing a = a"
  by (cases a rule: rev_cases) (simp_all add: strip_trailing_def)

lemma collapse_word: "list_all (\<lambda>c. \<not> is_space c) w \<Longrightarrow> w \<noteq> [] \<Longrightarrow> collapse_spec (w @ t) b = w @ collapse_spec t False"
  by (induction w arbitrary: b) (auto, (case_tac w; simp)+)

text \<open>A string is white space only, or a word stands between leading white space and the rest.\<close>

lemma space_words_cases:
  obtains "dropWhile is_space s = []" "space_words s = []"
  | w r where "dropWhile is_space s = w @ r" "w \<noteq> []" "list_all (\<lambda>c. \<not> is_space c) w"
      "r = [] \<or> is_space (hd r)" "space_words s = w # space_words r" "length r < length s"
proof (cases "dropWhile is_space s = []")
  case True
  then show ?thesis using that(1) space_words.simps [of s] by (simp only: Let_def if_True)
next
  case False
  define t where "t = dropWhile is_space s"
  have t: "t \<noteq> []" "\<not> is_space (hd t)" using False hd_dropWhile [of is_space s] by (simp_all only: t_def not_False_eq_True)
  let ?w = "takeWhile (\<lambda>c. \<not> is_space c) t" and ?r = "dropWhile (\<lambda>c. \<not> is_space c) t"
  have "?w \<noteq> []" using t by (cases t) auto
  moreover have "list_all (\<lambda>c. \<not> is_space c) ?w" by (auto simp: list_all_iff dest: set_takeWhileD)
  moreover have "?r = [] \<or> is_space (hd ?r)" using hd_dropWhile [of "\<lambda>c. \<not> is_space c" t] by blast
  moreover have "space_words s = ?w # space_words ?r"
    using space_words.simps [of s] t(1) unfolding t_def [symmetric] by (simp only: Let_def if_False)
  moreover have "length ?r < length t" using t by (rule dropWhile_shorter)
  then have "length ?r < length s" using length_dropWhile_le [of is_space s] by (simp add: t_def)
  moreover have "dropWhile is_space s = ?w @ ?r" unfolding t_def by (rule takeWhile_dropWhile_id [symmetric])
  ultimately show ?thesis using that(2) by blast
qed

lemma join_words_Nil: "join_words (space_words s) = [] \<longleftrightarrow> space_words s = []"
proof (cases s rule: space_words_cases)
  case (2 w r)
  then show ?thesis by (cases "space_words r") simp_all
qed simp

lemma strip_collapse_words: "strip_trailing (collapse_spec s True) = join_words (space_words s)"
proof (induction s rule: length_induct)
  case (1 s)
  show ?case
  proof (cases s rule: space_words_cases)
    case 1
    then show ?thesis using collapse_drop_False [of s] by (simp only: collapse_spec.simps join_words.simps) (simp add: strip_trailing_def)
  next
    case (2 w r)
    let ?x = "collapse_spec r True"
    have c: "collapse_spec s True = w @ (if r = [] then [] else 0x20 # ?x)"
      using collapse_drop_False [of s] collapse_word [OF 2(3,2), of r False] 2(1,4) by (cases r) simp_all
    have IH: "strip_trailing ?x = join_words (space_words r)" using 1 2(6) by simp
    show ?thesis
    proof (cases "strip_trailing ?x = []")
      case True
      then have "list_all is_space (if r = [] then [] else 0x20 # ?x)"
        by (auto simp: strip_trailing_def list_all_iff dropWhile_eq_Nil_conv is_space_def)
      moreover have "strip_trailing w = w" using 2(2,3) by (intro strip_trailing_id) (auto simp: list_all_iff)
      ultimately have "strip_trailing (collapse_spec s True) = w" unfolding c by (simp only: strip_trailing_spaces)
      moreover have "space_words r = []" using IH True join_words_Nil [of r] by simp
      ultimately show ?thesis by (simp add: 2(5))
    next
      case False
      then have ne: "space_words r \<noteq> []" "r \<noteq> []" using IH by (auto simp: strip_trailing_def)
      then have "strip_trailing (collapse_spec s True) = w @ 0x20 # join_words (space_words r)"
        unfolding c using False IH strip_trailing_append [of ?x "w @ [0x20]"] by simp
      then show ?thesis using ne by (cases "space_words r") (simp_all add: 2(5))
    qed
  qed
qed

lemma length_collapse: "length (collapse_spec s b) \<le> length s"
  by (induction s arbitrary: b) (auto intro: le_SucI)

lemma length_strip_trailing: "length (strip_trailing s) \<le> length s"
  using length_dropWhile_le [of is_space "rev s"] by (simp add: strip_trailing_def)

section \<open>Properties\<close>

text \<open>C30: Cutting a piece out of a string goes by characters: for well-formed text of less than 2^32 bytes
  substr returns exactly the characters from the first index up to the second, which never splits a
  multi-byte character, or an error when memory for the result is refused. When the range is
  not inside the text, also when the end is before the start and the 32-bit difference wraps around, it returns an error.\<close>

theorem dom_string_substr_refines:
  assumes "list_all utf8_ok cs" and "length (utf8_text cs) < 2 ^ 32"
  shows "dom_string_substr h (Some (utf8_text cs)) i1 i2 =
    Some (if i1 \<le> i2 \<and> unat i2 \<le> length cs
          then new_string h (utf8_text (take (unat (i2 - i1)) (drop (unat i1) cs))) else Inl DOM_NO_MEM_ERR)"
  using assms by (rule substr_text)

theorem dom_string_substr_refines_witness:
  "dom_string_substr heap_all (Some (utf8_text [0x41, 0x20AC, 0x42])) 1 2 =
    Some (if (1 :: u32) \<le> 2 \<and> unat (2 :: u32) \<le> length [0x41, 0x20AC, 0x42 :: u32]
          then new_string heap_all (utf8_text (take (unat (2 - 1 :: u32)) (drop (unat (1 :: u32)) [0x41, 0x20AC, 0x42])))
          else Inl DOM_NO_MEM_ERR)"
  by (rule dom_string_substr_refines) (use length_utf8_enc_le [of "0x41"] length_utf8_enc_le [of "0x20AC"] length_utf8_enc_le [of "0x42"] in
    \<open>simp_all add: utf8_ok_def utf8_bad_char_def\<close>)



text \<open>Searching and indexing agree on well-formed text: the index of a character that occurs is inside the text,
  the character at it is the wanted one and no earlier position holds it; a character that does not occur has index -1.\<close>

theorem dom_string_index_at:
  assumes "list_all utf8_ok cs" and "length cs < 2 ^ 32 - 1"
  shows "if chr \<in> set cs
    then unat (dom_string_index (utf8_text cs) chr) < length cs \<and>
      dom_string_at (utf8_text cs) (dom_string_index (utf8_text cs) chr) = Some (Inr chr) \<and>
      (\<forall>j. j < dom_string_index (utf8_text cs) chr \<longrightarrow> dom_string_at (utf8_text cs) j \<noteq> Some (Inr chr))
    else dom_string_index (utf8_text cs) chr = - 1"
proof (cases "chr \<in> set cs")
  case True
  define k where "k = length (takeWhile (\<lambda>c. c \<noteq> chr) cs)"
  have k: "k < length cs" "cs ! k = chr" using True nth_length_takeWhile [of "\<lambda>c. c \<noteq> chr" cs]
    length_takeWhile_less [of chr cs "\<lambda>c. c \<noteq> chr"] by (auto simp: k_def)
  have before: "cs ! j \<noteq> chr" if "j < k" for j
    using that takeWhile_nth [of j "\<lambda>c. c \<noteq> chr" cs] nth_mem [of j "takeWhile (\<lambda>c. c \<noteq> chr) cs"] set_takeWhileD
    unfolding k_def by metis
  have i: "dom_string_index (utf8_text cs) chr = of_nat k" and u: "unat (of_nat k :: u32) = k"
    using True index_loop_text [OF assms(1), of chr 0] k(1) assms(2)
    by (simp_all add: dom_string_index_def k_def unat_of_nat)
  have small: "j \<noteq> - 1" if "unat j < length cs" for j :: u32
    using that assms(2) minus_one_u32 [of "unat j"] by simp
  have "length cs < 2 ^ 32" using assms(2) by simp
  note at = at_text [OF assms(1) this]
  have "dom_string_at (utf8_text cs) j \<noteq> Some (Inr chr)" if "j < of_nat k" for j
    using that at [of j] small [of j] before [of "unat j"] k(1) by (auto simp: word_less_nat_alt u)
  moreover have "dom_string_at (utf8_text cs) (of_nat k) = Some (Inr chr)"
    using at [of "of_nat k"] small [of "of_nat k"] k by (simp add: u)
  ultimately show ?thesis using True k by (simp add: i u)
next
  case False
  then show ?thesis using index_loop_text [OF assms(1), of chr 0] by (simp add: dom_string_index_def)
qed

theorem dom_string_index_at_witness:
  "unat (dom_string_index (utf8_text [0x41, 0x20AC, 0x42]) 0x20AC) < length [0x41, 0x20AC, 0x42 :: u32] \<and>
   dom_string_at (utf8_text [0x41, 0x20AC, 0x42]) (dom_string_index (utf8_text [0x41, 0x20AC, 0x42]) 0x20AC) = Some (Inr 0x20AC)"
proof -
  have "list_all utf8_ok [0x41, 0x20AC, 0x42]" by (simp add: utf8_ok_def utf8_bad_char_def)
  from dom_string_index_at [OF this, of "0x20AC"] show ?thesis by simp
qed

text \<open>C31: The white-space operation that strips and collapses returns the words of the string, the maximal runs of
  bytes that are not white space, joined by single spaces, and never writes past its temporary buffer; it fails only for want of memory.\<close>

theorem dom_string_whitespace_words:
  assumes "length s + 1 < SIZE_MODULUS"
  shows "dom_string_whitespace_op h s
      (DOM_WHITESPACE_STRIP_LEADING OR DOM_WHITESPACE_STRIP_TRAILING OR DOM_WHITESPACE_COLLAPSE) =
    Some (if malloc_ok h (length s) then new_string h (join_words (space_words s)) else Inl DOM_NO_MEM_ERR)"
proof -
  have l: "length (dropWhile is_space s) \<le> length s" by (rule length_dropWhile_le)
  have "length (join_words (space_words s)) \<le> length s"
    using length_strip_trailing [of "collapse_spec s True"] length_collapse [of s True] by (simp add: strip_collapse_words)
  with assms l show ?thesis
    by (simp add: dom_string_whitespace_op_def Let_def copy_loop_eq collapse_drop_False strip_collapse_words create_new)
qed

theorem dom_string_whitespace_words_witness:
  "dom_string_whitespace_op heap_all [0x20, 0x61, 0x09, 0x0A, 0x62, 0x20]
      (DOM_WHITESPACE_STRIP_LEADING OR DOM_WHITESPACE_STRIP_TRAILING OR DOM_WHITESPACE_COLLAPSE) =
    Some (if malloc_ok heap_all (length [0x20, 0x61, 0x09, 0x0A, 0x62, 0x20 :: u8])
          then new_string heap_all (join_words (space_words [0x20, 0x61, 0x09, 0x0A, 0x62, 0x20]))
          else Inl DOM_NO_MEM_ERR)"
  by (rule dom_string_whitespace_words) simp

text \<open>The backward search is off by one: when the last character of a string is the wanted one, the
  result is the number of characters, one more than its index, so the character there does not exist.\<close>

theorem dom_string_rindex_off_by_one:
  assumes "list_all utf8_ok (cs @ [c])" and "length (utf8_text (cs @ [c])) < 2 ^ 32 - 1"
  shows "dom_string_rindex (utf8_text (cs @ [c])) c = Some (of_nat (length (cs @ [c]))) \<and>
    dom_string_at (utf8_text (cs @ [c])) (of_nat (length (cs @ [c]))) = Some (Inl (Some DOM_DOMSTRING_SIZE_ERR)) \<and>
    dom_string_at (utf8_text (cs @ [c])) (of_nat (length cs)) = Some (Inr c)"
proof -
  have l: "length (cs @ [c]) < 2 ^ 32 - 1" using assms length_text_ge [OF assms(1)] by simp
  have u: "unat (of_nat k :: u32) = k" "(of_nat k :: u32) \<noteq> - 1" if "k \<le> length (cs @ [c])" for k
    using that l minus_one_u32 [of k] by (simp_all add: unat_of_nat)
  have "length (cs @ [c]) < 2 ^ 32" using l by simp
  note at = at_text [OF assms(1) this]
  show ?thesis
    using rindex_last [OF assms(1)] assms(2) at [OF u(2), of "length (cs @ [c])"] at [OF u(2), of "length cs"]
      u(1) [of "length (cs @ [c])"] u(1) [of "length cs"]
    by (simp add: add.commute nth_append)
qed

theorem dom_string_rindex_off_by_one_witness:
  "dom_string_rindex (utf8_text ([0x61] @ [0x62])) 0x62 = Some (of_nat (length ([0x61] @ [0x62 :: u32]))) \<and>
    dom_string_at (utf8_text ([0x61] @ [0x62])) (of_nat (length ([0x61] @ [0x62 :: u32]))) =
      Some (Inl (Some DOM_DOMSTRING_SIZE_ERR)) \<and>
    dom_string_at (utf8_text ([0x61] @ [0x62])) (of_nat (length [0x61 :: u32])) = Some (Inr 0x62)"
  by (rule dom_string_rindex_off_by_one) (use length_utf8_enc_le [of "0x61"] length_utf8_enc_le [of "0x62"] in \<open>simp_all add: utf8_ok_def utf8_bad_char_def\<close>)

text \<open>It also misses characters: the second round decodes with the number of bytes that are left after the character,
  not before it. In \<open>ab\<close> no \<open>a\<close> is found.\<close>

lemma rindex_misses: "dom_string_rindex [0x61, 0x62] 0x61 = Some (- 1)"
proof -
  have "UTF8_PREV [0x61, 0x62] 2 = Some 1" "UTF8_PREV [0x61, 0x62] 1 = Some 0" by (code_simp)+
  moreover have "to_ucs4_at [0x61, 0x62] 1 2 = Some (Inr (0x62, 1))" "to_ucs4_at [0x61, 0x62] 0 0 = Some (Inl PARSERUTILS_NEEDDATA)"
    by code_simp+
  ultimately show ?thesis by (simp add: dom_string_rindex_def rindex_loop.simps numeral_2_eq_2)
qed

end
