(* ===== verification/Dom_Nodelist.thy ===== *)
theory Dom_Nodelist
  imports Dom_Props Dom_String
begin

text \<open>
  Live lists of nodes, \<^verbatim>\<open>libdom/src/core/nodelist.c\<close>, which compare names with the operations of
  \<^verbatim>\<open>libdom/src/core/string.c\<close>, and the cache of lists a document keeps
  (\<^verbatim>\<open>_dom_document_get_nodelist\<close>). A list stands for the children of its root or for the descendants with a given name;
  its length and its items are found by walking the tree.
\<close>

section \<open>Node lists\<close>

datatype nodelist_type =
    DOM_NODELIST_CHILDREN | DOM_NODELIST_BY_NAME | DOM_NODELIST_BY_NAMESPACE | DOM_NODELIST_BY_NAME_CASELESS
  | DOM_NODELIST_BY_NAMESPACE_CASELESS

datatype nodelist_data =
    NoData
  | NameData "bytes option" bool
  | NsData bool bool "bytes option" "bytes option"

record dom_nodelist =
  nl_owner :: dom_ptr
  nl_root :: dom_ptr
  nl_type :: nodelist_type
  nl_data :: nodelist_data
  nl_refcnt :: u32

definition is_star :: "bytes option \<Rightarrow> bool" where
  "is_star s = (s = Some [0x2A])"

definition nodelist_fields ::
  "nodelist_type \<Rightarrow> bytes option \<Rightarrow> bytes option \<Rightarrow> bytes option \<Rightarrow> nodelist_data" where
  "nodelist_fields type tagname namespace localname =
     (if type \<in> {DOM_NODELIST_BY_NAME, DOM_NODELIST_BY_NAME_CASELESS} then NameData tagname (is_star tagname)
      else if type \<in> {DOM_NODELIST_BY_NAMESPACE, DOM_NODELIST_BY_NAMESPACE_CASELESS}
      then NsData (is_star namespace) (is_star localname) namespace localname
      else NoData)"

text \<open>The result: an exception, the list, and the state with the references claimed. \<open>mem\<close> tells whether the
  allocation succeeds.\<close>

definition dom_nodelist_create ::
  "bool \<Rightarrow> dom_ptr \<Rightarrow> nodelist_type \<Rightarrow> dom_ptr \<Rightarrow> bytes option \<Rightarrow> bytes option \<Rightarrow> bytes option \<Rightarrow> dom_state \<Rightarrow>
   (dom_exception \<times> dom_nodelist option \<times> dom_state) option" where
  "dom_nodelist_create mem doc type root tagname namespace localname s =
     (if \<not> mem then Some (DOM_NO_MEM_ERR, None, s)
      else do {
        s \<leftarrow> dom_node_ref doc s;
        s \<leftarrow> dom_node_ref root s;
        if type \<in> {DOM_NODELIST_BY_NAME, DOM_NODELIST_BY_NAME_CASELESS} \<and> tagname = None then None
        else Some (DOM_NO_ERR, Some \<lparr>nl_owner = doc, nl_root = root, nl_type = type,
               nl_data = nodelist_fields type tagname namespace localname, nl_refcnt = 1\<rparr>, s)
      })"

text \<open>Which nodes count, as the two traversals test it. They differ for nodes without a namespace.\<close>

definition length_counts :: "dom_nodelist \<Rightarrow> dom_node_internal \<Rightarrow> bool" where
  "length_counts l cur =
     (case nl_data l of
        NoData \<Rightarrow> True
      | NameData name any_name \<Rightarrow>
          (any_name \<or> dn_name cur \<noteq> None \<and>
             (if nl_type l = DOM_NODELIST_BY_NAME then dom_string_isequal (dn_name cur) name
              else dom_string_caseless_isequal (dn_name cur) name)) \<and> dn_type cur = DOM_ELEMENT_NODE
      | NsData any_namespace any_localname namespace localname \<Rightarrow>
          (any_namespace \<or>
             (if nl_type l = DOM_NODELIST_BY_NAMESPACE then dom_string_isequal (dn_namespace cur) namespace
              else dom_string_caseless_isequal (dn_namespace cur) namespace)) \<and>
          (any_localname \<or> dn_name cur \<noteq> None \<and>
             (if nl_type l = DOM_NODELIST_BY_NAMESPACE then dom_string_isequal (dn_name cur) localname
              else dom_string_caseless_isequal (dn_name cur) localname)) \<and> dn_type cur = DOM_ELEMENT_NODE)"

definition item_counts :: "dom_nodelist \<Rightarrow> dom_node_internal \<Rightarrow> bool" where
  "item_counts l cur =
     (case nl_data l of
        NoData \<Rightarrow> True
      | NameData name any_name \<Rightarrow>
          (any_name \<or> dn_name cur \<noteq> None \<and>
             (if nl_type l = DOM_NODELIST_BY_NAME then dom_string_isequal (dn_name cur) name
              else dom_string_caseless_isequal (dn_name cur) name)) \<and> dn_type cur = DOM_ELEMENT_NODE
      | NsData any_namespace any_localname namespace localname \<Rightarrow>
          (any_namespace \<or> dn_namespace cur \<noteq> None \<and>
             (if nl_type l = DOM_NODELIST_BY_NAMESPACE then dom_string_isequal (dn_namespace cur) namespace
              else dom_string_caseless_isequal (dn_namespace cur) namespace)) \<and>
          (any_localname \<or> dn_name cur \<noteq> None \<and>
             (if nl_type l = DOM_NODELIST_BY_NAMESPACE then dom_string_isequal (dn_name cur) localname
              else dom_string_caseless_isequal (dn_name cur) localname)) \<and> dn_type cur = DOM_ELEMENT_NODE)"

text \<open>The next node of the traversal: of the children, or of the whole subtree below \<open>root\<close>.\<close>

definition sibling_next :: "dom_state \<Rightarrow> dom_ptr \<Rightarrow> dom_ptr option option" where
  "sibling_next s cur = map_option dn_next (ds_nodes s cur)"

definition tree_next :: "dom_state \<Rightarrow> dom_ptr \<Rightarrow> dom_ptr \<Rightarrow> dom_ptr option option" where
  "tree_next s root cur = do {
     r \<leftarrow> ds_nodes s cur;
     if dn_first_child r \<noteq> None then Some (dn_first_child r)
     else if dn_next r \<noteq> None then Some (dn_next r)
     else do { u \<leftarrow> climb (ds_nodes s) root cur; q \<leftarrow> ds_nodes s u; Some (dn_next q) }
   }"

definition nodelist_next :: "dom_nodelist \<Rightarrow> dom_state \<Rightarrow> dom_ptr \<Rightarrow> dom_ptr option option" where
  "nodelist_next l s cur =
     (if nl_type l = DOM_NODELIST_CHILDREN then sibling_next s cur else tree_next s (nl_root l) cur)"

partial_function (option) length_loop :: "dom_nodelist \<Rightarrow> dom_state \<Rightarrow> dom_ptr option \<Rightarrow> u32 \<Rightarrow> u32 option" where
  "length_loop l s cur len =
     (case cur of
        None \<Rightarrow> Some len
      | Some c \<Rightarrow> do {
          r \<leftarrow> ds_nodes s c;
          n \<leftarrow> nodelist_next l s c;
          length_loop l s n (if length_counts l r then len + 1 else len)
        })"

definition dom_nodelist_get_length :: "dom_nodelist \<Rightarrow> dom_state \<Rightarrow> (dom_exception \<times> u32) option" where
  "dom_nodelist_get_length l s = do {
     r \<leftarrow> ds_nodes s (nl_root l);
     len \<leftarrow> length_loop l s (dn_first_child r) 0;
     Some (DOM_NO_ERR, len)
   }"

partial_function (option) item_loop ::
  "dom_nodelist \<Rightarrow> dom_state \<Rightarrow> u32 \<Rightarrow> dom_ptr option \<Rightarrow> u32 \<Rightarrow> dom_ptr option option" where
  "item_loop l s index cur count =
     (case cur of
        None \<Rightarrow> Some None
      | Some c \<Rightarrow> do {
          r \<leftarrow> ds_nodes s c;
          (let count = (if item_counts l r then count + 1 else count) in
           if index + 1 = count then Some (Some c)
           else do { n \<leftarrow> nodelist_next l s c; item_loop l s index n count })
        })"

definition dom_nodelist_item :: "dom_nodelist \<Rightarrow> u32 \<Rightarrow> dom_state \<Rightarrow> dom_result" where
  "dom_nodelist_item l index s = do {
     r \<leftarrow> ds_nodes s (nl_root l);
     cur \<leftarrow> item_loop l s index (dn_first_child r) 0;
     s \<leftarrow> (case cur of None \<Rightarrow> Some s | Some c \<Rightarrow> dom_node_ref c s);
     Some (DOM_NO_ERR, cur, s)
   }"

lemmas nodelist_walk_code = length_loop.simps item_loop.simps

declare nodelist_walk_code [code]

text \<open>Does a list answer a request?\<close>

definition dom_nodelist_match ::
  "dom_nodelist \<Rightarrow> nodelist_type \<Rightarrow> dom_ptr \<Rightarrow> bytes option \<Rightarrow> bytes option \<Rightarrow> bytes option \<Rightarrow> bool" where
  "dom_nodelist_match l type root tagname namespace localname =
     (if nl_root l \<noteq> root then False
      else if nl_type l \<noteq> type then False
      else case (nl_type l, nl_data l) of
          (DOM_NODELIST_CHILDREN, _) \<Rightarrow> True
        | (DOM_NODELIST_BY_NAME, NameData name _) \<Rightarrow> dom_string_isequal name tagname
        | (DOM_NODELIST_BY_NAMESPACE, NsData _ _ ns ln) \<Rightarrow> dom_string_isequal ns namespace \<and> dom_string_isequal ln localname
        | (DOM_NODELIST_BY_NAME_CASELESS, NameData name _) \<Rightarrow> dom_string_caseless_isequal name tagname
        | (DOM_NODELIST_BY_NAMESPACE_CASELESS, NsData _ _ ns ln) \<Rightarrow>
            dom_string_caseless_isequal ns namespace \<and> dom_string_caseless_isequal ln localname
        | _ \<Rightarrow> False)"

text \<open>The lists a document keeps, newest first. \<open>mem1\<close> and \<open>mem2\<close> are the two allocations.\<close>

fun claim_match :: "(dom_nodelist \<Rightarrow> bool) \<Rightarrow> dom_nodelist list \<Rightarrow> (dom_nodelist \<times> dom_nodelist list) option" where
  "claim_match m [] = None"
| "claim_match m (l # ls) =
     (if m l then Some (l\<lparr>nl_refcnt := nl_refcnt l + 1\<rparr>, l\<lparr>nl_refcnt := nl_refcnt l + 1\<rparr> # ls)
      else map_option (\<lambda>(r, ls). (r, l # ls)) (claim_match m ls))"

definition dom_document_get_nodelist ::
  "bool \<Rightarrow> bool \<Rightarrow> dom_ptr \<Rightarrow> nodelist_type \<Rightarrow> dom_ptr \<Rightarrow> bytes option \<Rightarrow> bytes option \<Rightarrow> bytes option \<Rightarrow>
   dom_nodelist list \<Rightarrow> dom_state \<Rightarrow> (dom_exception \<times> dom_nodelist option \<times> dom_nodelist list \<times> dom_state) option" where
  "dom_document_get_nodelist mem1 mem2 doc type root tagname namespace localname nls s =
     (case claim_match (\<lambda>l. dom_nodelist_match l type root tagname namespace localname) nls of
        Some (l, nls) \<Rightarrow> Some (DOM_NO_ERR, Some l, nls, s)
      | None \<Rightarrow>
          if \<not> mem1 then Some (DOM_NO_MEM_ERR, None, nls, s)
          else do {
            (err, l, s) \<leftarrow> dom_nodelist_create mem2 doc type root tagname namespace localname s;
            case l of
              None \<Rightarrow> Some (err, None, nls, s)
            | Some l \<Rightarrow> Some (DOM_NO_ERR, Some l, l # nls, s)
          })"

definition dom_node_get_child_nodes ::
  "bool \<Rightarrow> bool \<Rightarrow> dom_ptr \<Rightarrow> dom_nodelist list \<Rightarrow> dom_state \<Rightarrow>
   (dom_exception \<times> dom_nodelist option \<times> dom_nodelist list \<times> dom_state) option" where
  "dom_node_get_child_nodes mem1 mem2 node nls s = do {
     r \<leftarrow> ds_nodes s node;
     case dn_owner r of
       None \<Rightarrow> Some (DOM_NOT_SUPPORTED_ERR, None, nls, s)
     | Some doc \<Rightarrow> dom_document_get_nodelist mem1 mem2 doc DOM_NODELIST_CHILDREN node None None None nls s
   }"

section \<open>Walks\<close>

fun steps :: "('n \<Rightarrow> 'n option option) \<Rightarrow> 'n list \<Rightarrow> 'n option option \<Rightarrow> bool" where
  "steps nxt [] e \<longleftrightarrow> True"
| "steps nxt [x] e \<longleftrightarrow> nxt x = e"
| "steps nxt (x # y # zs) e \<longleftrightarrow> nxt x = Some (Some y) \<and> steps nxt (y # zs) e"

lemma steps_append:
  "xs \<noteq> [] \<Longrightarrow> ys \<noteq> [] \<Longrightarrow> steps nxt (xs @ ys) e \<longleftrightarrow> steps nxt xs (Some (Some (hd ys))) \<and> steps nxt ys e"
proof (induction nxt xs e rule: steps.induct)
  case (2 nxt x e)
  then show ?case by (cases ys) auto
qed auto

text \<open>What the users of a list rely on: following the links from the first node visits the members in order
  and ends. A loop along the links is then a fold over the members, or a search among them.\<close>

fun first_hit :: "('n \<Rightarrow> 'a \<Rightarrow> bool) \<Rightarrow> ('n \<Rightarrow> 'a \<Rightarrow> 'a) \<Rightarrow> 'n list \<Rightarrow> 'a \<Rightarrow> 'n option" where
  "first_hit hit f [] acc = None"
| "first_hit hit f (x # xs) acc = (if hit x (f x acc) then Some x else first_hit hit f xs (f x acc))"

locale node_walk =
  fixes first :: "'s \<Rightarrow> 'n option" and nxt :: "'s \<Rightarrow> 'n \<Rightarrow> 'n option option" and members :: "'s \<Rightarrow> 'n list \<Rightarrow> bool"
  assumes first_member: "members s xs \<Longrightarrow> first s = (if xs = [] then None else Some (hd xs))"
    and walk_members: "members s xs \<Longrightarrow> steps (nxt s) xs (Some None)"
begin

lemma loop_fold:
  assumes m: "members s xs" and "\<And>acc. loop None acc = fin acc"
    and "\<And>t acc. t \<in> set xs \<Longrightarrow> loop (Some t) acc = Option.bind (nxt s t) (\<lambda>n. loop n (f t acc))"
  shows "loop (first s) acc = fin (fold f xs acc)"
proof -
  have "loop (if ys = [] then None else Some (hd ys)) acc = fin (fold f ys acc)"
    if "steps (nxt s) ys (Some None)" "set ys \<subseteq> set xs" for ys acc
    using that
  proof (induction ys arbitrary: acc)
    case (Cons y ys)
    have "nxt s y = Some (if ys = [] then None else Some (hd ys))" "steps (nxt s) ys (Some None)"
      using Cons.prems(1) by (cases ys; simp)+
    with Cons assms(3) [of y] show ?case by simp
  qed (simp add: assms(2))
  from this [OF walk_members [OF m]] show ?thesis using first_member [OF m] by simp
qed

lemma loop_search:
  assumes m: "members s xs" and "\<And>acc. loop None acc = Some None"
    and "\<And>t acc. t \<in> set xs \<Longrightarrow>
      loop (Some t) acc = (if hit t (f t acc) then Some (Some t) else Option.bind (nxt s t) (\<lambda>n. loop n (f t acc)))"
  shows "loop (first s) acc = Some (first_hit hit f xs acc)"
proof -
  have "loop (if ys = [] then None else Some (hd ys)) acc = Some (first_hit hit f ys acc)"
    if "steps (nxt s) ys (Some None)" "set ys \<subseteq> set xs" for ys acc
    using that
  proof (induction ys arbitrary: acc)
    case (Cons y ys)
    have "nxt s y = Some (if ys = [] then None else Some (hd ys))" "steps (nxt s) ys (Some None)"
      using Cons.prems(1) by (cases ys; simp)+
    with Cons assms(3) [of y] show ?case by simp
  qed (simp add: assms(2))
  from this [OF walk_members [OF m]] show ?thesis using first_member [OF m] by simp
qed

end

section \<open>The walks of the tree\<close>

lemma sibling_steps:
  assumes "kids s p (xs @ ys)" and "\<forall>y \<in> set ys. alloc s y"
  shows "steps (sibling_next s) ys (Some None)"
  using assms
proof (induction ys arbitrary: xs)
  case (Cons y ys)
  have "dn_next (nd s y) = (if ys = [] then None else Some (hd ys))" using kids_mid(1) [OF Cons.prems(1)] .
  with Cons.IH [of "xs @ [y]"] Cons.prems show ?case by (cases ys) (auto simp: sibling_next_def)
qed simp

text \<open>Going on after a subtree.\<close>

definition after :: "dom_state \<Rightarrow> dom_ptr \<Rightarrow> dom_ptr \<Rightarrow> dom_ptr option option" where
  "after s root n = do { u \<leftarrow> climb (ds_nodes s) root n; q \<leftarrow> ds_nodes s u; Some (dn_next q) }"

lemma sibling_subtree_steps:
  assumes "list_all2 (\<lambda>c ys. ys \<noteq> [] \<and> hd ys = c \<and> steps (tree_next s root) ys (after s root c)) cs yss" and "cs \<noteq> []"
    and "kids s p (pre @ cs)" and "\<forall>c \<in> set cs. alloc s c"
    and "\<forall>c \<in> set cs. dn_next (nd s c) \<noteq> None \<longrightarrow> climb (ds_nodes s) root c = Some c"
  shows "concat yss \<noteq> [] \<and> hd (concat yss) = hd cs \<and> steps (tree_next s root) (concat yss) (after s root (last cs))"
  using assms
proof (induction cs arbitrary: yss pre)
  case (Cons c cs)
  obtain ys zss where yss: "yss = ys # zss" "ys \<noteq> []" "hd ys = c" "steps (tree_next s root) ys (after s root c)"
    "list_all2 (\<lambda>c ys. ys \<noteq> [] \<and> hd ys = c \<and> steps (tree_next s root) ys (after s root c)) cs zss"
    using Cons.prems(1) by (auto simp: list_all2_Cons1)
  show ?case
  proof (cases "cs = []")
    case True
    with yss show ?thesis by simp
  next
    case False
    have nx: "dn_next (nd s c) = Some (hd cs)" using kids_mid(1) [OF Cons.prems(3)] False by simp
    then have "after s root c = Some (Some (hd cs))" using Cons.prems(4,5) by (simp add: after_def)
    moreover note IH = Cons.IH [OF yss(5) False, of "pre @ [c]"]
    ultimately show ?thesis using yss Cons.prems(3-5) False by (simp add: steps_append)
  qed
qed simp

lemma doc_order_steps:
  assumes "doc_order K n xs"
  shows "links_below s K (set xs) \<Longrightarrow> root \<notin> set xs \<Longrightarrow> (dn_next (nd s n) \<noteq> None \<longrightarrow> climb (ds_nodes s) root n = Some n) \<Longrightarrow>
    xs \<noteq> [] \<and> hd xs = n \<and> steps (tree_next s root) xs (after s root n)"
  using assms
proof (induction rule: doc_order.induct)
  case (doc_order n yss)
  have lb: "links_below s K {n}" and n: "n \<noteq> root" using doc_order.prems by (auto simp: links_below_def)
  have a: "alloc s n" and k: "kids s n (K n)" using lb by (auto simp: links_below_def)
  show ?case
  proof (cases "K n = []")
    case True
    then have "yss = []" "dn_first_child (nd s n) = None" using doc_order.IH kids_ends(1) [OF k] by auto
    with doc_order.prems(3) a show ?thesis by (auto simp: tree_next_def after_def)
  next
    case False
    have fc: "dn_first_child (nd s n) = Some (hd (K n))" using kids_ends(1) [OF k] False by simp
    have "list_all2 (\<lambda>c ys. ys \<noteq> [] \<and> hd ys = c \<and> steps (tree_next s root) ys (after s root c)) (K n) yss"
    proof (rule list_all2_all_nthI)
      show len: "length (K n) = length yss" using doc_order.IH by (rule list_all2_lengthD)
      fix i assume i: "i < length (K n)"
      have "yss ! i \<in> set yss" using i len by simp
      then have sub: "set (yss ! i) \<subseteq> set (n # concat yss)" by auto
      show "yss ! i \<noteq> [] \<and> hd (yss ! i) = K n ! i \<and> steps (tree_next s root) (yss ! i) (after s root (K n ! i))"
        using list_all2_nthD [OF doc_order.IH i] links_below_mono [OF doc_order.prems(1) sub] doc_order.prems(2) sub
          climb_child(1) [OF lb nth_mem [OF i]] by blast
    qed
    moreover have "\<forall>c \<in> set (K n). alloc s c" using lb by (auto simp: links_below_def)
    moreover have "\<forall>c \<in> set (K n). dn_next (nd s c) \<noteq> None \<longrightarrow> climb (ds_nodes s) root c = Some c"
      using climb_child(1) [OF lb] by blast
    moreover have "kids s n ([] @ K n)" using k by simp
    ultimately have "concat yss \<noteq> []" "hd (concat yss) = hd (K n)" "steps (tree_next s root) (concat yss) (after s root (last (K n)))"
      using sibling_subtree_steps [OF _ False] by blast+
    moreover have "after s root (last (K n)) = after s root n"
      using climb_child(2) [OF lb last_in_set [OF False]] n by (simp add: after_def)
    moreover have "tree_next s root n = Some (Some (hd (K n)))" using fc a by (simp add: tree_next_def)
    ultimately show ?thesis by (cases "concat yss") auto
  qed
qed

lemma doc_order_below:
  assumes t: "tree_inv s K" and z: "alloc s z" and d: "doc_order K z (z # xs)"
  shows "links_below s K (insert z (set xs))" and "z \<notin> set xs"
proof -
  obtain ws where "doc_order K z ws" "\<forall>m \<in> set ws. alloc s m \<and> (z, m) \<in> (parent_rel s)\<^sup>*" using doc_order_exists [OF t z] by blast
  then have al: "\<forall>m \<in> insert z (set xs). alloc s m" using doc_order_unique [OF d] by fastforce
  then show "links_below s K (insert z (set xs))" using tree_invD(3,4,6) [OF t] by (auto simp: links_below_def)
  obtain yss where y: "xs = concat yss" "list_all2 (doc_order K) (K z) yss" using d by (auto elim: doc_orderE)
  show "z \<notin> set xs"
  proof
    assume "z \<in> set xs"
    then obtain ys where "ys \<in> set yss" "z \<in> set ys" unfolding y(1) by auto
    then obtain i where i: "i < length yss" "z \<in> set (yss ! i)" by (metis in_set_conv_nth)
    then have c: "K z ! i \<in> set (K z)" "doc_order K (K z ! i) (yss ! i)"
      using y(2) list_all2_nthD2 [OF y(2)] by (auto simp: list_all2_lengthD)
    obtain ws where "doc_order K (K z ! i) ws" "\<forall>m \<in> set ws. (K z ! i, m) \<in> (parent_rel s)\<^sup>*"
      using doc_order_exists [OF t tree_invD(4) [OF t c(1)]] by blast
    moreover have "ws = yss ! i" using doc_order_unique c(2) calculation(1) by blast
    moreover have "(z, K z ! i) \<in> parent_rel s" using tree_invD(4,6) [OF t c(1)] by (auto simp: parent_rel_def)
    ultimately have "(z, z) \<in> (parent_rel s)\<^sup>+" using i(2) by (meson rtrancl_into_trancl2)
    then show False using tree_invD(2) [OF t] by (auto simp: acyclic_def)
  qed
qed

lemma subtree_steps:
  assumes t: "tree_inv s K" and z: "alloc s z" and d: "doc_order K z (z # xs)"
  shows "dn_first_child (nd s z) = (if xs = [] then None else Some (hd xs)) \<and> steps (tree_next s z) xs (Some None)"
proof -
  note b = doc_order_below [OF assms]
  have lb: "links_below s K {z}" using links_below_mono [OF b(1), of "{z}"] by simp
  obtain yss where y: "xs = concat yss" "list_all2 (doc_order K) (K z) yss" using d by (auto elim: doc_orderE)
  have k: "kids s z (K z)" using tree_invD(3) [OF t z] .
  show ?thesis
  proof (cases "K z = []")
    case True
    then show ?thesis using y kids_ends(1) [OF k] by simp
  next
    case False
    have "list_all2 (\<lambda>c ys. ys \<noteq> [] \<and> hd ys = c \<and> steps (tree_next s z) ys (after s z c)) (K z) yss"
    proof (rule list_all2_all_nthI)
      show len: "length (K z) = length yss" using y(2) by (rule list_all2_lengthD)
      fix i assume i: "i < length (K z)"
      have "yss ! i \<in> set yss" using i len by simp
      then have sub: "set (yss ! i) \<subseteq> set xs" unfolding y(1) by auto
      show "yss ! i \<noteq> [] \<and> hd (yss ! i) = K z ! i \<and> steps (tree_next s z) (yss ! i) (after s z (K z ! i))"
        by (rule doc_order_steps [OF list_all2_nthD [OF y(2) i]])
           (use links_below_mono [OF b(1)] sub b(2) climb_child(1) [OF lb nth_mem [OF i]] in blast)+
    qed
    then have "concat yss \<noteq> [] \<and> hd (concat yss) = hd (K z) \<and> steps (tree_next s z) (concat yss) (after s z (last (K z)))"
      by (rule sibling_subtree_steps [OF _ False, where pre = "[]" and p = z])
         (use k tree_invD(4) [OF t] climb_child(1) [OF lb] in auto)
    moreover have "after s z (last (K z)) = Some None"
      using climb_child(3,4) [OF lb last_in_set [OF False]] tree_invD(4) [OF t last_in_set [OF False]] by (simp add: after_def)
    ultimately show ?thesis using kids_ends(1) [OF k] False y(1) by simp
  qed
qed

text \<open>Both traversals meet the contract.\<close>

type_synonym walk_from = "dom_state \<times> (dom_ptr \<Rightarrow> dom_ptr list) \<times> dom_ptr"

interpretation child_walk: node_walk
  "\<lambda>(s, K, p). dn_first_child (nd s p)" "\<lambda>(s, K, p). sibling_next s"
  "\<lambda>(s, K, p) xs. tree_inv s K \<and> alloc s p \<and> xs = K p"
proof (unfold_locales, goal_cases)
  case (1 w xs)
  obtain s K p where w: "w = (s, K, p)" by (cases w)
  with 1 have "kids s p xs" using tree_invD(3) by auto
  then show ?case using kids_ends(1) w by simp
next
  case (2 w xs)
  obtain s K p where w: "w = (s, K, p)" by (cases w)
  with 2 have "kids s p ([] @ xs)" "\<forall>y \<in> set xs. alloc s y" using tree_invD(3,4) by auto
  then show ?case using sibling_steps [of s p "[]" xs] w by simp
qed

interpretation subtree_walk: node_walk
  "\<lambda>(s, K, p). dn_first_child (nd s p)" "\<lambda>(s, K, p). tree_next s p"
  "\<lambda>(s, K, p) xs. tree_inv s K \<and> alloc s p \<and> doc_order K p (p # xs)"
  by unfold_locales (auto dest: subtree_steps split: prod.splits)

section \<open>Length and items\<close>

text \<open>The nodes a list looks at: the children of its root, or the nodes below it in document order.\<close>

definition nodelist_scope :: "(dom_ptr \<Rightarrow> dom_ptr list) \<Rightarrow> dom_nodelist \<Rightarrow> dom_ptr list \<Rightarrow> bool" where
  "nodelist_scope K l xs \<longleftrightarrow>
     (if nl_type l = DOM_NODELIST_CHILDREN then xs = K (nl_root l) else doc_order K (nl_root l) (nl_root l # xs))"

lemma scope_exists:
  assumes "tree_inv s K" and "alloc s (nl_root l)"
  shows "\<exists>xs. nodelist_scope K l xs"
proof (cases "nl_type l = DOM_NODELIST_CHILDREN")
  case False
  obtain ws where "doc_order K (nl_root l) ws" using doc_order_exists [OF assms] by blast
  then show ?thesis using False by (auto simp: nodelist_scope_def elim!: doc_orderE intro: doc_order)
qed (simp add: nodelist_scope_def)

lemma scope_alloc:
  assumes t: "tree_inv s K" and r: "alloc s (nl_root l)" and sc: "nodelist_scope K l xs" and x: "x \<in> set xs"
  shows "alloc s x"
  using sc x tree_invD(4) [OF t] doc_order_below(1) [OF t r] by (auto simp: nodelist_scope_def links_below_def split: if_splits)

lemma length_loop_correct:
  assumes t: "tree_inv s K" and r: "alloc s (nl_root l)" and sc: "nodelist_scope K l xs"
  shows "length_loop l s (dn_first_child (nd s (nl_root l))) len =
    Some (fold (\<lambda>c len. if length_counts l (nd s c) then len + 1 else len) xs len)"
proof (cases "nl_type l = DOM_NODELIST_CHILDREN")
  case True
  then show ?thesis using child_walk.loop_fold [of "(s, K, nl_root l)" xs "length_loop l s" Some] t r sc scope_alloc [OF t r sc]
    by (simp add: nodelist_scope_def length_loop.simps [of l s None] length_loop.simps [of l s "Some _"] nodelist_next_def)
next
  case False
  then show ?thesis using subtree_walk.loop_fold [of "(s, K, nl_root l)" xs "length_loop l s" Some] t r sc scope_alloc [OF t r sc]
    by (simp add: nodelist_scope_def length_loop.simps [of l s None] length_loop.simps [of l s "Some _"] nodelist_next_def)
qed

lemma item_loop_correct:
  assumes t: "tree_inv s K" and r: "alloc s (nl_root l)" and sc: "nodelist_scope K l xs"
  shows "item_loop l s index (dn_first_child (nd s (nl_root l))) count =
    Some (first_hit (\<lambda>_ count. index + 1 = count) (\<lambda>c count. if item_counts l (nd s c) then count + 1 else count) xs count)"
proof (cases "nl_type l = DOM_NODELIST_CHILDREN")
  case True
  then show ?thesis using child_walk.loop_search [of "(s, K, nl_root l)" xs "item_loop l s index"] t r sc scope_alloc [OF t r sc]
    by (simp add: nodelist_scope_def item_loop.simps [of l s index None] item_loop.simps [of l s index "Some _"] nodelist_next_def Let_def)
next
  case False
  then show ?thesis using subtree_walk.loop_search [of "(s, K, nl_root l)" xs "item_loop l s index"] t r sc scope_alloc [OF t r sc]
    by (simp add: nodelist_scope_def item_loop.simps [of l s index None] item_loop.simps [of l s index "Some _"] nodelist_next_def Let_def)
qed

lemma fold_count: "fold (\<lambda>c len. if P c then len + 1 else len) xs len = len + of_nat (length (filter P xs))"
  for len :: "'a :: semiring_1"
  by (induction xs arbitrary: len) (auto simp: add.assoc)

text \<open>The search stops at the member with the wanted number, as long as the count does not wrap.\<close>

lemma first_hit_nth:
  fixes index :: u32
  assumes "n + length xs < 2 ^ 32" and "n \<le> unat index" and "index \<noteq> - 1"
  shows "first_hit (\<lambda>_ count. index + 1 = count) (\<lambda>c count. if P c then count + 1 else count) xs (of_nat n) =
    (let ys = filter P xs in if unat index - n < length ys then Some (ys ! (unat index - n)) else None)"
  using assms
proof (induction xs arbitrary: n)
  case (Cons x xs)
  have u: "unat (index + 1) = unat index + 1" using Cons.prems(3) by (metis Suc_eq_plus1 add.commute add_eq_0_iff unatSuc)
  have w: "index + 1 = of_nat m \<longleftrightarrow> unat index + 1 = m" if "m < 2 ^ 32" for m
    using u take_bit_nat_eq_self [OF that] by (simp add: word_unat_eq_iff unsigned_of_nat)
  show ?case
  proof (cases "P x")
    case True
    have "index + 1 = of_nat n + 1 \<longleftrightarrow> unat index = n" using w [of "Suc n"] Cons.prems(1) by (simp add: add.commute)
    then show ?thesis using Cons.IH [of "Suc n"] Cons.prems True by (auto simp: Let_def add.commute Suc_diff_Suc less_Suc_eq_0_disj nth_Cons')
  next
    case False
    have "index + 1 \<noteq> of_nat n" using w [of n] Cons.prems(1,2) by auto
    then show ?thesis using Cons.IH [of n] Cons.prems False by (simp add: Let_def)
  qed
qed simp

text \<open>Equality of strings is an equivalence that the comparison with a third string respects.\<close>

lemma isequal_iff: "dom_string_isequal a b \<longleftrightarrow> dom_bytes a = dom_bytes b"
  by (auto simp: dom_string_isequal_def)

lemma caseless_iff: "dom_string_caseless_isequal a b \<longleftrightarrow> map dolower (dom_bytes a) = map dolower (dom_bytes b)"
proof -
  have "list_all2 (\<lambda>a b. dolower a = dolower b) xs ys \<longleftrightarrow> map dolower xs = map dolower ys" for xs ys
    by (auto simp: list_all2_conv_all_nth list_eq_iff_nth_eq)
  then show ?thesis by (auto simp: dom_string_caseless_isequal_def dest: map_eq_imp_length_eq)
qed

lemma dolower_star: "dolower c = 0x2A \<longleftrightarrow> c = 0x2A"
  by (auto simp: dolower_def word_le_nat_alt word_unat_eq_iff unat_word_ariths)

lemma is_star_iff: "is_star s \<longleftrightarrow> dom_bytes s = [0x2A]" "is_star s \<longleftrightarrow> map dolower (dom_bytes s) = [0x2A]"
  by (cases s; auto simp: is_star_def dom_bytes_def map_eq_Cons_conv dolower_star)+

text \<open>A list that matches a request selects the same nodes as the list that would be created for it.\<close>

lemma match_same:
  assumes m: "dom_nodelist_match l type root tagname namespace localname"
    and d: "nl_data l = nodelist_fields (nl_type l) t0 n0 l0" "nl_type l' = type" "nl_data l' = nodelist_fields type tagname namespace localname"
  shows "length_counts l = length_counts l' \<and> item_counts l = item_counts l'"
proof -
  have ty: "nl_type l = type" using m by (simp add: dom_nodelist_match_def split: if_splits)
  have star: "is_star a = is_star b" if "dom_string_isequal a b \<or> dom_string_caseless_isequal a b" for a b
    using that is_star_iff [of a] is_star_iff [of b] by (auto simp: isequal_iff caseless_iff)
  have eq: "dom_string_isequal c a = dom_string_isequal c b" if "dom_string_isequal a b" for a b c using that by (simp add: isequal_iff)
  have cl: "dom_string_caseless_isequal c a = dom_string_caseless_isequal c b" if "dom_string_caseless_isequal a b" for a b c
    using that by (simp add: caseless_iff)
  show ?thesis
  proof (cases type)
    case DOM_NODELIST_CHILDREN
    with d ty show ?thesis by (simp add: fun_eq_iff nodelist_fields_def length_counts_def item_counts_def)
  next
    case DOM_NODELIST_BY_NAME
    with m d ty have "dom_string_isequal t0 tagname" by (simp add: dom_nodelist_match_def nodelist_fields_def split: if_splits)
    with DOM_NODELIST_BY_NAME d ty star [of t0 tagname] eq show ?thesis by (simp add: fun_eq_iff nodelist_fields_def length_counts_def item_counts_def)
  next
    case DOM_NODELIST_BY_NAMESPACE
    with m d ty have "dom_string_isequal n0 namespace" "dom_string_isequal l0 localname"
      by (simp_all add: dom_nodelist_match_def nodelist_fields_def split: if_splits)
    with DOM_NODELIST_BY_NAMESPACE d ty star [of n0 namespace] star [of l0 localname] eq show ?thesis by (simp add: fun_eq_iff nodelist_fields_def length_counts_def item_counts_def)
  next
    case DOM_NODELIST_BY_NAME_CASELESS
    with m d ty have "dom_string_caseless_isequal t0 tagname" by (simp add: dom_nodelist_match_def nodelist_fields_def split: if_splits)
    with DOM_NODELIST_BY_NAME_CASELESS d ty star [of t0 tagname] cl show ?thesis by (simp add: fun_eq_iff nodelist_fields_def length_counts_def item_counts_def)
  next
    case DOM_NODELIST_BY_NAMESPACE_CASELESS
    with m d ty have "dom_string_caseless_isequal n0 namespace" "dom_string_caseless_isequal l0 localname"
      by (simp_all add: dom_nodelist_match_def nodelist_fields_def split: if_splits)
    with DOM_NODELIST_BY_NAMESPACE_CASELESS d ty star [of n0 namespace] star [of l0 localname] cl show ?thesis by (simp add: fun_eq_iff nodelist_fields_def length_counts_def item_counts_def)
  qed
qed

section \<open>Properties\<close>


definition example_list :: dom_nodelist where
  "example_list = \<lparr>nl_owner = 0, nl_root = 0, nl_type = DOM_NODELIST_BY_NAME_CASELESS, nl_data = NameData (Some [0x70]) False, nl_refcnt = 1\<rparr>"


definition created :: "dom_nodelist \<Rightarrow> bool" where
  "created l \<longleftrightarrow> (\<exists>t n m. nl_data l = nodelist_fields (nl_type l) t n m)"

lemma claim_match_Some:
  "claim_match m ls = Some (r, ls') \<Longrightarrow>
     \<exists>l \<in> set ls. m l \<and> r = l\<lparr>nl_refcnt := nl_refcnt l + 1\<rparr> \<and> r \<in> set ls' \<and> set ls' \<subseteq> insert r (set ls) \<and> length ls' = length ls"
proof (induction ls arbitrary: ls')
  case (Cons l ls)
  show ?case
  proof (cases "m l")
    case True
    with Cons.prems show ?thesis by auto
  next
    case False
    with Cons.prems obtain ms where "claim_match m ls = Some (r, ms)" "ls' = l # ms" by auto
    with Cons.IH show ?thesis by fastforce
  qed
qed simp

lemma claim_match_None: "claim_match m ls = None \<longleftrightarrow> (\<forall>l \<in> set ls. \<not> m l)"
  by (induction ls) auto

text \<open>C34: asking a document for a list gives, whether it is found among the lists the document keeps or newly made, a list of the requested kind
  and root that selects exactly the nodes a new list for the request would select; it is among the lists kept from then on, and one list is
  added only when none answered the request.\<close>

theorem dom_get_nodelist_transparent:
  assumes "\<forall>l \<in> set nls. created l" and "alloc s doc" and "alloc s root"
    and "type \<in> {DOM_NODELIST_BY_NAME, DOM_NODELIST_BY_NAME_CASELESS} \<longrightarrow> tagname \<noteq> None"
    and "fresh = \<lparr>nl_owner = doc, nl_root = root, nl_type = type, nl_data = nodelist_fields type tagname namespace localname, nl_refcnt = 1\<rparr>"
  shows "\<exists>l nls' s'. dom_document_get_nodelist True True doc type root tagname namespace localname nls s = Some (DOM_NO_ERR, Some l, nls', s') \<and>
    nl_root l = root \<and> nl_type l = type \<and> length_counts l = length_counts fresh \<and> item_counts l = item_counts fresh \<and>
    l \<in> set nls' \<and> (\<forall>l \<in> set nls'. created l) \<and>
    length nls' = length nls + (if \<exists>l \<in> set nls. dom_nodelist_match l type root tagname namespace localname then 0 else 1)"
proof -
  let ?m = "\<lambda>l. dom_nodelist_match l type root tagname namespace localname"
  show ?thesis
  proof (cases "claim_match ?m nls")
    case None
    have "\<exists>s1 s2. dom_node_ref doc s = Some s1 \<and> dom_node_ref root s1 = Some s2" using assms(2,3) by (auto simp: dom_node_ref_def)
    then obtain s' where "dom_nodelist_create True doc type root tagname namespace localname s = Some (DOM_NO_ERR, Some fresh, s')"
      using assms(4,5) by (auto simp: dom_nodelist_create_def)
    with None have "dom_document_get_nodelist True True doc type root tagname namespace localname nls s =
        Some (DOM_NO_ERR, Some fresh, fresh # nls, s')" by (simp add: dom_document_get_nodelist_def)
    moreover have "created fresh" using assms(5) by (auto simp: created_def)
    ultimately show ?thesis using assms(1,5) None [unfolded claim_match_None] by auto
  next
    case (Some x)
    obtain r nls' where x: "x = (r, nls')" by (cases x)
    obtain l where l: "l \<in> set nls" "?m l" "r = l\<lparr>nl_refcnt := nl_refcnt l + 1\<rparr>" "r \<in> set nls'" "set nls' \<subseteq> insert r (set nls)" "length nls' = length nls"
      using claim_match_Some [OF Some [unfolded x]] by blast
    obtain t n m where d: "nl_data l = nodelist_fields (nl_type l) t n m" using assms(1) l(1) by (auto simp: created_def)
    have same: "length_counts l = length_counts fresh \<and> item_counts l = item_counts fresh"
      by (rule match_same [OF l(2) d]) (simp_all add: assms(5))
    moreover have sel: "nl_data r = nl_data l" "nl_type r = nl_type l" by (simp_all add: l(3))
    moreover have "length_counts r = length_counts l \<and> item_counts r = item_counts l"
      unfolding length_counts_def [abs_def] item_counts_def [abs_def] sel by (rule conjI; rule refl)
    moreover have "nl_root r = root" "nl_type r = type" using l(2,3) by (auto simp: dom_nodelist_match_def split: if_splits)
    moreover have "created r" using d l(3) by (auto simp: created_def)
    ultimately show ?thesis using Some x l assms(1) by (auto simp: dom_document_get_nodelist_def)
  qed
qed

lemma dom_get_nodelist_transparent_witness:
  "\<exists>l nls' s'. dom_document_get_nodelist True True 0 DOM_NODELIST_BY_NAME_CASELESS 0 (Some [0x50]) None None [example_list] example =
      Some (DOM_NO_ERR, Some l, nls', s') \<and>
    nl_root l = 0 \<and> nl_type l = DOM_NODELIST_BY_NAME_CASELESS \<and>
    length_counts l = length_counts (example_list\<lparr>nl_data := NameData (Some [0x50]) False\<rparr>) \<and>
    item_counts l = item_counts (example_list\<lparr>nl_data := NameData (Some [0x50]) False\<rparr>) \<and> l \<in> set nls' \<and>
    (\<forall>l \<in> set nls'. created l) \<and>
    length nls' = length [example_list] +
      (if \<exists>l \<in> set [example_list]. dom_nodelist_match l DOM_NODELIST_BY_NAME_CASELESS 0 (Some [0x50]) None None then 0 else 1)"
proof (rule dom_get_nodelist_transparent)
  have "nl_data example_list = nodelist_fields (nl_type example_list) (Some [0x70]) None None"
    by (simp add: example_list_def nodelist_fields_def is_star_def)
  then show "\<forall>l \<in> set [example_list]. created l" by (auto simp: created_def)
  have "ds_nodes example 0 \<noteq> None" by code_simp
  then show "alloc example 0" "alloc example 0" by (simp_all only: alloc_def not_False_eq_True)
qed (simp_all add: example_list_def nodelist_fields_def is_star_def)

text \<open>the length of a list by namespace counts elements without a namespace when the wanted namespace is NULL or empty, but no index
  finds them: for one element without a namespace the length is one and the first item is missing.\<close>

theorem dom_nodelist_length_without_item:
  "let l = \<lparr>nl_owner = 0, nl_root = 0, nl_type = DOM_NODELIST_BY_NAMESPACE, nl_data = nodelist_fields DOM_NODELIST_BY_NAMESPACE None None (Some [0x50]),
     nl_refcnt = 1\<rparr>
   in dom_nodelist_get_length l example = Some (DOM_NO_ERR, 1) \<and>
      map_option (\<lambda>(e, n, _). (e, n)) (dom_nodelist_item l 0 example) = Some (DOM_NO_ERR, None)"
  by code_simp

text \<open>the largest index gives a node that is not in the list: index + 1 wraps to zero, the count before any node has been
  selected. Here the root element 1, which does not have the name the list asks for, is returned.\<close>

theorem dom_nodelist_item_wraps:
  "map_option (\<lambda>(e, n, _). (e, n)) (dom_nodelist_item example_list 0xFFFFFFFF example) = Some (DOM_NO_ERR, Some 1) \<and>
   \<not> item_counts example_list (the (ds_nodes example 1))"
  by code_simp

end
