(* ===== verification/Base64.thy ===== *)
theory Base64
  imports Prelude
begin

text \<open>
  Base64 encoding and decoding, \<^verbatim>\<open>libnsutils/src/base64.c\<close>: the standard and the URL alphabet, the encoder into a
  buffer of the caller and into a fresh one, and the decoder, which skips bytes outside the alphabet, stops at the first
  padding byte and checks the room left in its buffer. \<open>None\<close> is an access outside the input or the output.
\<close>

section \<open>Tables\<close>

datatype nsuerror =
    NSUERROR_OK | NSUERROR_UNKNOWN | NSUERROR_NOMEM | NSUERROR_NO_FETCH_HANDLER | NSUERROR_NOT_FOUND
  | NSUERROR_NOT_DIRECTORY | NSUERROR_SAVE_FAILED | NSUERROR_CLONE_FAILED | NSUERROR_INIT_FAILED
  | NSUERROR_MNG_ERROR | NSUERROR_BAD_ENCODING | NSUERROR_NEED_DATA | NSUERROR_ENCODING_CHANGE
  | NSUERROR_BAD_PARAMETER | NSUERROR_INVALID | NSUERROR_BOX_CONVERT | NSUERROR_STOPPED | NSUERROR_DOM
  | NSUERROR_CSS | NSUERROR_CSS_BASE | NSUERROR_BAD_URL | NSUERROR_BAD_CONTENT | NSUERROR_FRAME_DEPTH
  | NSUERROR_PERMISSION | NSUERROR_NOSPACE | NSUERROR_BAD_SIZE | NSUERROR_NOT_IMPLEMENTED

definition b64_decoding_table :: "u8 list" where
  "b64_decoding_table = replicate 43 0xFF @ [62, 0xFF, 0xFF, 0xFF, 63] @ map of_nat [52..<62] @
     [0xFF, 0xFF, 0xFF, 64, 0xFF, 0xFF, 0xFF] @ map of_nat [0..<26] @ replicate 6 0xFF @
     map of_nat [26..<52] @ replicate 133 0xFF"

definition b64url_decoding_table :: "u8 list" where
  "b64url_decoding_table = replicate 45 0xFF @ [62, 0xFF, 0xFF] @ map of_nat [52..<62] @
     [0xFF, 0xFF, 0xFF, 64, 0xFF, 0xFF, 0xFF] @ map of_nat [0..<26] @ [0xFF, 0xFF, 0xFF, 0xFF, 63, 0xFF] @
     map of_nat [26..<52] @ replicate 133 0xFF"

definition b64_encoding_table :: "u8 list" where
  "b64_encoding_table = map of_nat [65..<91] @ map of_nat [97..<123] @ map of_nat [48..<58] @ [0x2B, 0x2F]"

definition b64url_encoding_table :: "u8 list" where
  "b64url_encoding_table = map of_nat [65..<91] @ map of_nat [97..<123] @ map of_nat [48..<58] @ [0x2D, 0x5F]"

definition mod_table :: "nat list" where
  "mod_table = [0, 2, 1]"

abbreviation b64_pad :: u8 where "b64_pad \<equiv> 0x3D"

section \<open>Encoding\<close>

definition b64_encoded_len :: "nat \<Rightarrow> nat" where
  "b64_encoded_len n = size_wrap (4 * (size_wrap (n + 2) div 3))"

text \<open>The four characters of three octets.\<close>

definition b64_quad :: "u8 list \<Rightarrow> u8 \<Rightarrow> u8 \<Rightarrow> u8 \<Rightarrow> bytes" where
  "b64_quad tbl a b c =
     (let triple = push_bit 16 (ucast a) + push_bit 8 (ucast b) + ucast c :: u32 in
      [tbl ! unat (drop_bit 18 triple AND 0x3F), tbl ! unat (drop_bit 12 triple AND 0x3F),
       tbl ! unat (drop_bit 6 triple AND 0x3F), tbl ! unat (triple AND 0x3F)])"

text \<open>The main loop: the octets that are missing from the last group count as zero.\<close>

fun encode_groups :: "u8 list \<Rightarrow> bytes \<Rightarrow> nat \<Rightarrow> bytes \<Rightarrow> bytes option" where
  "encode_groups tbl [] j out = Some out"
| "encode_groups tbl [a] j out = mem_write j (b64_quad tbl a 0 0) out"
| "encode_groups tbl [a, b] j out = mem_write j (b64_quad tbl a b 0) out"
| "encode_groups tbl (a # b # c # rest) j out = do {
     out \<leftarrow> mem_write j (b64_quad tbl a b c) out;
     encode_groups tbl rest (j + 4) out
   }"

fun pad_loop :: "nat \<Rightarrow> nat \<Rightarrow> nat \<Rightarrow> bytes \<Rightarrow> bytes option" where
  "pad_loop 0 i encoded_len out = Some out"
| "pad_loop (Suc k) i encoded_len out = do {
     out \<leftarrow> mem_write (size_sub (size_sub encoded_len 1) i) [b64_pad] out;
     pad_loop k (Suc i) encoded_len out
   }"

text \<open>The buffer of the caller is \<open>out\<close>, and its size is the length that is passed; the result is the buffer and the
  length that was written.\<close>

definition table_encode :: "u8 list \<Rightarrow> bytes \<Rightarrow> bytes \<Rightarrow> (nsuerror + (bytes \<times> nat)) option" where
  "table_encode tbl input out =
     (let encoded_len = b64_encoded_len (length input) in
      if encoded_len > length out then Some (Inl NSUERROR_NOSPACE)
      else do {
        out \<leftarrow> encode_groups tbl input 0 out;
        out \<leftarrow> pad_loop (mod_table ! (length input mod 3)) 0 encoded_len out;
        Some (Inr (out, encoded_len))
      })"

definition table_encode_alloc :: "heap \<Rightarrow> u8 list \<Rightarrow> bytes \<Rightarrow> (nsuerror + bytes) option" where
  "table_encode_alloc h tbl input =
     (let encoded_len = b64_encoded_len (length input) in
      if \<not> malloc_ok h encoded_len then Some (Inl NSUERROR_NOMEM)
      else do {
        res \<leftarrow> table_encode tbl input (replicate encoded_len (heap_junk h));
        case res of Inl e \<Rightarrow> Some (Inl e) | Inr (out, n) \<Rightarrow> Some (Inr (take n out))
      })"

definition nsu_base64_encode_alloc :: "heap \<Rightarrow> bytes \<Rightarrow> (nsuerror + bytes) option" where
  "nsu_base64_encode_alloc h input = table_encode_alloc h b64_encoding_table input"

definition nsu_base64_encode_alloc_url :: "heap \<Rightarrow> bytes \<Rightarrow> (nsuerror + bytes) option" where
  "nsu_base64_encode_alloc_url h input = table_encode_alloc h b64url_encoding_table input"

definition nsu_base64_encode :: "bytes \<Rightarrow> bytes \<Rightarrow> (nsuerror + (bytes \<times> nat)) option" where
  "nsu_base64_encode input out = table_encode b64_encoding_table input out"

definition nsu_base64_encode_url :: "bytes \<Rightarrow> bytes \<Rightarrow> (nsuerror + (bytes \<times> nat)) option" where
  "nsu_base64_encode_url input out = table_encode b64url_encoding_table input out"

section \<open>Decoding\<close>

text \<open>The three octets of four sextets; with fewer sextets, those that the switch at the end makes.\<close>

definition octet0 :: "u8 \<Rightarrow> u8 \<Rightarrow> u8" where "octet0 s0 s1 = push_bit 2 s0 OR drop_bit 4 s1"
definition octet1 :: "u8 \<Rightarrow> u8 \<Rightarrow> u8" where "octet1 s1 s2 = push_bit 4 s1 OR drop_bit 2 s2"
definition octet2 :: "u8 \<Rightarrow> u8 \<Rightarrow> u8" where "octet2 s2 s3 = push_bit 6 s2 OR s3"

text \<open>The loop over the input: the sextets of the group that is not complete, the output position and the output.\<close>

fun decode_groups :: "u8 list \<Rightarrow> nat \<Rightarrow> bytes \<Rightarrow> u8 list \<Rightarrow> nat \<Rightarrow> bytes \<Rightarrow> (u8 list \<times> nat \<times> bytes) option" where
  "decode_groups tbl decoded_len [] sextet opidx out = Some (sextet, opidx, out)"
| "decode_groups tbl decoded_len (b # input) sextet opidx out =
     (let v = tbl ! unat b in
      if 64 \<le> v then
        if v = 64 then Some (sextet, opidx, out)
        else decode_groups tbl decoded_len input sextet opidx out
      else
        let sextet = sextet @ [v] in
        if length sextet = 4 then
          if opidx \<ge> size_sub decoded_len 3 then Some (sextet, opidx, out)
          else do {
            out \<leftarrow> mem_write opidx [octet0 (sextet ! 0) (sextet ! 1), octet1 (sextet ! 1) (sextet ! 2),
                                  octet2 (sextet ! 2) (sextet ! 3)] out;
            decode_groups tbl decoded_len input [] (opidx + 3) out
          }
        else decode_groups tbl decoded_len input sextet opidx out)"

text \<open>The octets of the incomplete group, each stored only when there is room.\<close>

definition b64_rest :: "u8 list \<Rightarrow> u8 list" where
  "b64_rest sextet =
     (case sextet of
        [s0] \<Rightarrow> [push_bit 2 s0]
      | [s0, s1] \<Rightarrow> [octet0 s0 s1, push_bit 4 s1]
      | [s0, s1, s2] \<Rightarrow> [octet0 s0 s1, octet1 s1 s2, push_bit 6 s2]
      | [s0, s1, s2, s3] \<Rightarrow> [octet0 s0 s1, octet1 s1 s2, octet2 s2 s3]
      | _ \<Rightarrow> [])"

fun put_octets :: "nat \<Rightarrow> u8 list \<Rightarrow> nat \<Rightarrow> bytes \<Rightarrow> (nat \<times> bytes) option" where
  "put_octets decoded_len [] opidx out = Some (opidx, out)"
| "put_octets decoded_len (x # xs) opidx out =
     (if opidx < decoded_len then do {
        out \<leftarrow> mem_write opidx [x] out;
        put_octets decoded_len xs (opidx + 1) out
      } else put_octets decoded_len xs opidx out)"

definition b64_decoded_len :: "bytes \<Rightarrow> nat option" where
  "b64_decoded_len input = do {
     let n = length input;
     let decoded_len = size_wrap ((size_wrap (n + 3) div 4) * 3);
     last \<leftarrow> mem_read (size_sub n 1) 1 input;
     let decoded_len = (if last = [b64_pad] then size_sub decoded_len 1 else decoded_len);
     prev \<leftarrow> mem_read (size_sub n 2) 1 input;
     Some (if prev = [b64_pad] then size_sub decoded_len 1 else decoded_len)
   }"

definition base64_decode_alloc :: "heap \<Rightarrow> u8 list \<Rightarrow> bytes \<Rightarrow> (nsuerror + bytes) option" where
  "base64_decode_alloc h tbl input = do {
     decoded_len \<leftarrow> b64_decoded_len input;
     if \<not> malloc_ok h decoded_len then Some (Inl NSUERROR_NOMEM)
     else do {
       (sextet, opidx, out) \<leftarrow> decode_groups tbl decoded_len input [] 0 (replicate decoded_len (heap_junk h));
       (opidx, out) \<leftarrow> put_octets decoded_len (b64_rest sextet) opidx out;
       Some (Inr (take opidx out))
     }
   }"

definition nsu_base64_decode_alloc :: "heap \<Rightarrow> bytes \<Rightarrow> (nsuerror + bytes) option" where
  "nsu_base64_decode_alloc h input = base64_decode_alloc h b64_decoding_table input"

definition nsu_base64_decode_alloc_url :: "heap \<Rightarrow> bytes \<Rightarrow> (nsuerror + bytes) option" where
  "nsu_base64_decode_alloc_url h input = base64_decode_alloc h b64url_decoding_table input"

section \<open>Octets and sextets\<close>

definition b64_triple :: "u8 \<Rightarrow> u8 \<Rightarrow> u8 \<Rightarrow> u32" where
  "b64_triple a b c = push_bit 16 (ucast a) + push_bit 8 (ucast b) + ucast c"

definition sextet :: "nat \<Rightarrow> u8 \<Rightarrow> u8 \<Rightarrow> u8 \<Rightarrow> u8" where
  "sextet k a b c = ucast (drop_bit (18 - 6 * k) (b64_triple a b c) AND 0x3F)"

lemma bit_u8: "bit (w :: u8) n \<Longrightarrow> n < 8"
  using bit_imp_le_length [of w n] by simp

lemma u8_eqI:
  assumes "bit a 0 = bit (b :: u8) 0" "bit a 1 = bit b 1" "bit a 2 = bit b 2" "bit a 3 = bit b 3"
    "bit a 4 = bit b 4" "bit a 5 = bit b 5" "bit a 6 = bit b 6" "bit a 7 = bit b 7"
  shows "a = b"
proof (rule bit_word_eqI)
  fix n assume "n < LENGTH(8)"
  then have "n = 0 \<or> n = 1 \<or> n = 2 \<or> n = 3 \<or> n = 4 \<or> n = 5 \<or> n = 6 \<or> n = 7" by auto
  with assms show "bit a n = bit b n" by (elim disjE) simp_all
qed

lemma b64_triple_or: "b64_triple a b c = push_bit 16 (ucast a) OR push_bit 8 (ucast b) OR ucast c"
proof -
  have "push_bit 8 (ucast b :: u32) AND ucast c = 0"
    by (rule bit_word_eqI) (auto simp: bit_simps dest: bit_u8)
  moreover have "push_bit 16 (ucast a :: u32) AND (push_bit 8 (ucast b) OR ucast c) = 0"
    by (rule bit_word_eqI) (auto simp: bit_simps dest!: bit_u8)
  ultimately show ?thesis
    by (simp add: b64_triple_def add.assoc disjunctive_add_eq_or)
qed

lemma bit_beyond: "8 \<le> n \<Longrightarrow> \<not> bit (w :: u8) n"
  using bit_u8 [of w n] by auto

lemma octets_of_sextets:
  "octet0 (sextet 0 a b c) (sextet 1 a b c) = a"
  "octet1 (sextet 1 a b c) (sextet 2 a b c) = b"
  "octet2 (sextet 2 a b c) (sextet 3 a b c) = c"
proof -
  have m: "(0x3F :: u32) = mask 6" by (simp add: mask_numeral)
  note bits = octet0_def octet1_def octet2_def sextet_def b64_triple_or m bit_simps bit_beyond
  show "octet0 (sextet 0 a b c) (sextet 1 a b c) = a" by (rule u8_eqI) (simp_all add: bits)
  show "octet1 (sextet 1 a b c) (sextet 2 a b c) = b" by (rule u8_eqI) (simp_all add: bits)
  show "octet2 (sextet 2 a b c) (sextet 3 a b c) = c" by (rule u8_eqI) (simp_all add: bits)
qed

text \<open>What is left of an incomplete group: the missing octets are zero.\<close>

lemma incomplete_octets: "push_bit 4 (sextet 1 a 0 0) = 0" "push_bit 6 (sextet 2 a b 0) = 0"
proof -
  have m: "(0x3F :: u32) = mask 6" by (simp add: mask_numeral)
  note bits = sextet_def b64_triple_or m bit_simps bit_beyond
  show "push_bit 4 (sextet 1 a 0 0) = 0" by (rule u8_eqI) (simp_all add: bits)
  show "push_bit 6 (sextet 2 a b 0) = 0" by (rule u8_eqI) (simp_all add: bits)
qed

section \<open>The text of RFC 4648\<close>

text \<open>The characters that carry data, and the padding.\<close>

fun b64_sig :: "u8 list \<Rightarrow> bytes \<Rightarrow> bytes" where
  "b64_sig tbl [] = []"
| "b64_sig tbl [a] = take 2 (b64_quad tbl a 0 0)"
| "b64_sig tbl [a, b] = take 3 (b64_quad tbl a b 0)"
| "b64_sig tbl (a # b # c # rest) = b64_quad tbl a b c @ b64_sig tbl rest"

lemma group_induct [case_names zero one two three]:
  fixes P :: "bytes \<Rightarrow> bool"
  assumes "P []" "\<And>a. P [a]" "\<And>a b. P [a, b]" "\<And>a b c rest. P rest \<Longrightarrow> P (a # b # c # rest)"
  shows "P xs"
  using assms by (rule b64_sig.induct [of "\<lambda>_. P"])

definition b64_text :: "u8 list \<Rightarrow> bytes \<Rightarrow> bytes" where
  "b64_text tbl input = b64_sig tbl input @ replicate (mod_table ! (length input mod 3)) b64_pad"

fun b64_raw :: "u8 list \<Rightarrow> bytes \<Rightarrow> bytes" where
  "b64_raw tbl [] = []"
| "b64_raw tbl [a] = b64_quad tbl a 0 0"
| "b64_raw tbl [a, b] = b64_quad tbl a b 0"
| "b64_raw tbl (a # b # c # rest) = b64_quad tbl a b c @ b64_raw tbl rest"

lemma length_quad [simp]: "length (b64_quad tbl a b c) = 4"
  by (simp add: b64_quad_def Let_def)

lemma length_raw: "length (b64_raw tbl input) = 4 * ((length input + 2) div 3)"
proof (induction tbl input rule: b64_raw.induct)
  case (4 tbl a b c rest)
  have "(length (a # b # c # rest) + 2) div 3 = (length rest + 2) div 3 + 1" by simp
  with 4 show ?case by simp
qed simp_all

lemma mod_table_le: "mod_table ! (n mod 3) \<le> 2"
proof -
  have "n mod 3 = 0 \<or> n mod 3 = 1 \<or> n mod 3 = 2" by presburger
  then show ?thesis by (auto simp: mod_table_def)
qed

lemma mod_table_pad: "mod_table ! (n mod 3) = 3 * ((n + 2) div 3) - n"
proof -
  obtain q where "n = 3 * q \<or> n = 3 * q + 1 \<or> n = 3 * q + 2" by (rule that [of "n div 3"]) presburger
  moreover have "(3 * q + 1) mod 3 = 1" "(3 * q + 2) mod 3 = 2" by presburger+
  ultimately show ?thesis by (elim disjE) (simp_all add: mod_table_def del: mod_mult_self4)
qed

lemma raw_sig: "b64_sig tbl input = take (length (b64_raw tbl input) - mod_table ! (length input mod 3)) (b64_raw tbl input)"
proof (induction tbl input rule: b64_sig.induct)
  case (4 tbl a b c rest)
  have "mod_table ! (length rest mod 3) \<le> length (b64_raw tbl rest)"
    using mod_table_le [of "length rest"] by (cases rest) (auto simp: mod_table_def length_raw)
  with 4 show ?case by (simp add: mod_table_def)
qed (simp_all add: mod_table_def)

lemma length_text: "length (b64_text tbl input) = 4 * ((length input + 2) div 3)"
proof -
  have "mod_table ! (length input mod 3) \<le> length (b64_raw tbl input)"
    using mod_table_le [of "length input"] by (cases input) (auto simp: mod_table_def length_raw)
  then show ?thesis by (simp add: b64_text_def raw_sig length_raw)
qed

lemma encode_groups_raw:
  "j + length (b64_raw tbl input) \<le> length out \<Longrightarrow>
   encode_groups tbl input j out = Some (take j out @ b64_raw tbl input @ drop (j + length (b64_raw tbl input)) out)"
  by (induction tbl input j out rule: encode_groups.induct) (auto simp: mem_write_def ac_simps)

lemma pad_loop_eq:
  "i + k \<le> n \<Longrightarrow> n \<le> length out \<Longrightarrow> n < SIZE_MODULUS \<Longrightarrow>
   pad_loop k i n out = Some (take (n - i - k) out @ replicate k b64_pad @ drop (n - i) out)"
proof (induction k arbitrary: i out)
  case (Suc k)
  let ?p = "n - 1 - i"
  have p: "size_sub (size_sub n 1) i = ?p" "?p < length out" "n - i = Suc ?p" using Suc.prems by simp_all
  let ?out = "take ?p out @ b64_pad # drop (Suc ?p) out"
  have "pad_loop (Suc k) i n out = pad_loop k (Suc i) n ?out"
    using p by (simp add: mem_write_def)
  also have "\<dots> = Some (take (n - Suc i - k) ?out @ replicate k b64_pad @ drop (n - Suc i) ?out)"
    using Suc.prems p by (intro Suc.IH) simp_all
  also have "drop (n - Suc i) ?out = b64_pad # drop (n - i) out" using p by simp
  also have "take (n - Suc i - k) ?out = take (n - i - Suc k) out" using p Suc.prems by simp
  finally show ?case by (simp add: replicate_app_Cons_same)
qed simp

lemma encoded_len_eq: "n \<le> PTRDIFF_MAX \<Longrightarrow> b64_encoded_len n = 4 * ((n + 2) div 3)"
proof -
  assume n: "n \<le> PTRDIFF_MAX"
  then have "4 * ((n + 2) div 3) < SIZE_MODULUS" by linarith
  with n show ?thesis by (simp add: b64_encoded_len_def)
qed

lemma table_encode_text:
  assumes "length input \<le> PTRDIFF_MAX"
  shows "table_encode tbl input out =
    Some (if length (b64_text tbl input) \<le> length out
          then Inr (b64_text tbl input @ drop (length (b64_text tbl input)) out, length (b64_text tbl input))
          else Inl NSUERROR_NOSPACE)"
proof (cases "length (b64_text tbl input) \<le> length out")
  case True
  let ?raw = "b64_raw tbl input" and ?k = "mod_table ! (length input mod 3)"
  have len: "b64_encoded_len (length input) = length ?raw" "length (b64_text tbl input) = length ?raw"
    using assms by (simp_all add: encoded_len_eq length_raw length_text)
  have k: "?k \<le> length ?raw"
    using mod_table_le [of "length input"] by (cases input) (auto simp: mod_table_def length_raw)
  have "length ?raw < SIZE_MODULUS" using assms by (simp add: length_raw)
  with k True len have "pad_loop ?k 0 (length ?raw) (?raw @ drop (length ?raw) out) =
      Some (b64_text tbl input @ drop (length ?raw) out)"
    by (simp add: pad_loop_eq b64_text_def raw_sig)
  with True len encode_groups_raw [of 0 tbl input out] show ?thesis
    by (simp add: table_encode_def Let_def)
next
  case False
  then show ?thesis using assms by (simp add: table_encode_def encoded_len_eq length_text)
qed

lemma encode_alloc_text:
  assumes "length input \<le> PTRDIFF_MAX"
  shows "table_encode_alloc h tbl input =
    Some (if malloc_ok h (length (b64_text tbl input)) then Inr (b64_text tbl input) else Inl NSUERROR_NOMEM)"
  using assms by (simp add: table_encode_alloc_def table_encode_text encoded_len_eq length_text)

section \<open>Decoding encoded text\<close>

lemma put_octets_ok:
  "length out = dl \<Longrightarrow> op \<le> dl \<Longrightarrow>
   \<exists>op' out'. put_octets dl xs op out = Some (op', out') \<and> op' = min dl (op + length xs) \<and> length out' = dl \<and>
     take op' out' = take op out @ take (dl - op) xs"
proof (induction xs arbitrary: op out)
  case (Cons x xs)
  show ?case
  proof (cases "op < dl")
    case True
    let ?out = "take op out @ x # drop (Suc op) out"
    from True Cons.prems Cons.IH [of ?out "Suc op"] obtain op' out' where
      "put_octets dl xs (Suc op) ?out = Some (op', out')" "op' = min dl (Suc op + length xs)" "length out' = dl"
      "take op' out' = take op out @ x # take (dl - Suc op) xs" by auto
    moreover obtain m where "dl - op = Suc m" "dl - Suc op = m" using True by (metis Suc_diff_Suc)
    ultimately show ?thesis using True Cons.prems by (simp add: mem_write_def)
  next
    case False
    with Cons.prems Cons.IH [of out op] show ?thesis by simp
  qed
qed simp

text \<open>What the decoder relies on: its table inverts the one of the encoder, and knows the padding byte.\<close>

locale base64_alphabet =
  fixes enc dec :: "u8 list"
  assumes dec_enc: "k < 64 \<Longrightarrow> dec ! unat (enc ! k) = of_nat k"
    and dec_pad: "dec ! unat b64_pad = 64"
begin

lemma enc_not_pad: "k < 64 \<Longrightarrow> enc ! k \<noteq> b64_pad"
proof
  assume k: "k < 64" and "enc ! k = b64_pad"
  then have "(of_nat k :: u8) = 64" using dec_enc [OF k] dec_pad by simp
  then have "unat (of_nat k :: u8) = 64" by simp
  with k show False by (simp add: unat_of_nat)
qed

lemma low6: "unat (w AND 0x3F :: u32) < 64"
  using word_and_le1 [of w "0x3F"] by (simp add: word_le_nat_alt)

lemma dec_sextet:
  "dec ! unat (enc ! unat (drop_bit (18 - 6 * k) (b64_triple a b c) AND 0x3F)) = sextet k a b c"
  by (simp add: dec_enc low6 sextet_def)

lemma sextet_small: "\<not> 64 \<le> sextet k a b c"
proof -
  let ?n = "unat (drop_bit (18 - 6 * k) (b64_triple a b c) AND 0x3F)"
  have "sextet k a b c = of_nat ?n" by (simp add: sextet_def)
  then have "unat (sextet k a b c) < 64" using low6 [of "drop_bit (18 - 6 * k) (b64_triple a b c)"]
    by (simp only: unat_of_nat) simp
  then show ?thesis by (simp add: word_le_nat_alt)
qed

lemma sextet_not_pad: "sextet k a b c \<noteq> 64"
  using sextet_small [of k a b c] by auto

lemma quad_sextets:
  obtains x0 x1 x2 x3 where "b64_quad enc a b c = [x0, x1, x2, x3]"
    "dec ! unat x0 = sextet 0 a b c" "dec ! unat x1 = sextet 1 a b c" "dec ! unat x2 = sextet 2 a b c"
    "dec ! unat x3 = sextet 3 a b c"
    "x0 \<noteq> b64_pad" "x1 \<noteq> b64_pad" "x2 \<noteq> b64_pad" "x3 \<noteq> b64_pad"
proof -
  let ?x = "\<lambda>k. enc ! unat (drop_bit (18 - 6 * k) (b64_triple a b c) AND 0x3F)"
  have "b64_quad enc a b c = [?x 0, ?x 1, ?x 2, ?x 3]"
    by (simp add: b64_quad_def b64_triple_def Let_def)
  moreover have "?x k \<noteq> b64_pad" for k by (rule enc_not_pad [OF low6])
  ultimately show thesis using that dec_sextet [of _ a b c] by blast
qed

lemma decode_quad:
  "decode_groups dec dl (b64_quad enc a b c @ rest) [] op out =
    (if size_sub dl 3 \<le> op then Some ([sextet 0 a b c, sextet 1 a b c, sextet 2 a b c, sextet 3 a b c], op, out)
     else do { out \<leftarrow> mem_write op [a, b, c] out; decode_groups dec dl rest [] (op + 3) out })"
proof -
  obtain x0 x1 x2 x3 where "b64_quad enc a b c = [x0, x1, x2, x3]"
    "dec ! unat x0 = sextet 0 a b c" "dec ! unat x1 = sextet 1 a b c" "dec ! unat x2 = sextet 2 a b c"
    "dec ! unat x3 = sextet 3 a b c" by (rule quad_sextets)
  then show ?thesis by (simp add: Let_def sextet_small octets_of_sextets del: One_nat_def)
qed

lemma decode_incomplete:
  assumes "tail = [] \<or> hd tail = b64_pad"
  shows "decode_groups dec dl (take 2 (b64_quad enc a 0 0) @ tail) [] op out =
      Some ([sextet 0 a 0 0, sextet 1 a 0 0], op, out)"
    and "decode_groups dec dl (take 3 (b64_quad enc a b 0) @ tail) [] op out =
      Some ([sextet 0 a b 0, sextet 1 a b 0, sextet 2 a b 0], op, out)"
proof -
  have stop: "decode_groups dec dl tail sx op out = Some (sx, op, out)" for sx
    using assms dec_pad by (cases tail) simp_all
  obtain x0 x1 x2 x3 where "b64_quad enc a 0 0 = [x0, x1, x2, x3]"
    "dec ! unat x0 = sextet 0 a 0 0" "dec ! unat x1 = sextet 1 a 0 0" by (rule quad_sextets)
  then show "decode_groups dec dl (take 2 (b64_quad enc a 0 0) @ tail) [] op out =
      Some ([sextet 0 a 0 0, sextet 1 a 0 0], op, out)"
    by (simp add: Let_def sextet_small stop del: One_nat_def)
  obtain y0 y1 y2 y3 where "b64_quad enc a b 0 = [y0, y1, y2, y3]"
    "dec ! unat y0 = sextet 0 a b 0" "dec ! unat y1 = sextet 1 a b 0" "dec ! unat y2 = sextet 2 a b 0"
    by (rule quad_sextets)
  then show "decode_groups dec dl (take 3 (b64_quad enc a b 0) @ tail) [] op out =
      Some ([sextet 0 a b 0, sextet 1 a b 0, sextet 2 a b 0], op, out)"
    by (simp add: Let_def sextet_small stop del: One_nat_def)
qed

text \<open>Decoding encoded octets into a buffer with room for them, and for at most the rest of the last group, gives them
  back, followed by a zero octet when the buffer is larger.\<close>

lemma decode_sig:
  assumes "length out = dl" and "op + length rest \<le> dl" and "dl \<le> op + 3 * ((length rest + 2) div 3)"
    and "dl < SIZE_MODULUS" and "tail = [] \<or> hd tail = b64_pad"
  shows "\<exists>op' out'. Option.bind (decode_groups dec dl (b64_sig enc rest @ tail) [] op out)
      (\<lambda>(sx, op, out). put_octets dl (b64_rest sx) op out) = Some (op', out') \<and>
    take op' out' = take op out @ rest @ (if op + length rest < dl then [0] else [])"
  using assms
proof (induction rest arbitrary: op out rule: group_induct)
  case zero
  then show ?case using dec_pad by (cases tail) (simp_all add: b64_rest_def)
next
  case (one a)
  then have "dl = op + 1 \<or> dl = op + 2 \<or> dl = op + 3" by auto
  then have "take (dl - op) [a, 0] = [a] @ (if op + 1 < dl then [0] else [])" by auto
  with one put_octets_ok [of out dl op "[a, 0]"] show ?case
    by (auto simp: decode_incomplete [OF one.prems(5)] b64_rest_def octets_of_sextets [of a 0 0] incomplete_octets
        simp del: One_nat_def)
next
  case (two a b)
  then have "dl = op + 2 \<or> dl = op + 3" by auto
  then have "take (dl - op) [a, b, 0] = [a, b] @ (if op + 2 < dl then [0] else [])" by auto
  with two put_octets_ok [of out dl op "[a, b, 0]"] show ?case
    by (auto simp: decode_incomplete [OF two.prems(5)] b64_rest_def octets_of_sextets [of a b 0] incomplete_octets
        simp del: One_nat_def)
next
  case (three a b c rest)
  show ?case
  proof (cases rest)
    case Nil
    with three.prems have dl: "dl = op + 3" by simp
    have "decode_groups dec dl (b64_quad enc a b c @ tail) [] op out =
        Some ([sextet 0 a b c, sextet 1 a b c, sextet 2 a b c, sextet 3 a b c], op, out)"
      using dl three.prems(4) by (simp add: decode_quad)
    with Nil dl three.prems(1) put_octets_ok [of out dl op "[a, b, c]"] show ?thesis
      by (auto simp: b64_rest_def octets_of_sextets simp del: One_nat_def)
  next
    case (Cons d ds)
    let ?out = "take op out @ [a, b, c] @ drop (op + 3) out"
    have lt: "\<not> size_sub dl 3 \<le> op" using three.prems(2,4) Cons by simp
    have g: "(length (a # b # c # rest) + 2) div 3 = (length rest + 2) div 3 + 1" by simp
    have "op + 3 + length rest \<le> dl" "dl \<le> op + 3 + 3 * ((length rest + 2) div 3)" "length ?out = dl"
      using three.prems g by simp_all
    note IH = three.IH [OF this(3,1,2) three.prems(4,5)]
    have w: "mem_write op [a, b, c] out = Some ?out"
      using three.prems(1,2) by (simp add: mem_write_def numeral_3_eq_3)
    have step: "decode_groups dec dl (b64_sig enc (a # b # c # rest) @ tail) [] op out =
        decode_groups dec dl (b64_sig enc rest @ tail) [] (op + 3) ?out"
      using lt w by (simp add: decode_quad)
    have n: "op + length (a # b # c # rest) = op + 3 + length rest" "take (op + 3) ?out = take op out @ [a, b, c]"
      using three.prems(1,2) by simp_all
    show ?thesis using IH unfolding step n by simp
  qed
qed

lemma decode_alloc_sig:
  assumes dl: "b64_decoded_len (b64_sig enc input @ tail) = Some dl"
    and "length input \<le> dl" and "dl \<le> 3 * ((length input + 2) div 3)"
    and "tail = [] \<or> hd tail = b64_pad" and "malloc_ok h dl"
  shows "base64_decode_alloc h dec (b64_sig enc input @ tail) =
    Some (Inr (input @ (if length input < dl then [0] else [])))"
proof -
  have "dl < SIZE_MODULUS" using malloc_ok_bound [OF assms(5)] by simp
  with decode_sig [of "replicate dl (heap_junk h)" dl 0 input tail] assms
  obtain op' out' where "Option.bind (decode_groups dec dl (b64_sig enc input @ tail) [] 0 (replicate dl (heap_junk h)))
      (\<lambda>(sx, op, out). put_octets dl (b64_rest sx) op out) = Some (op', out')"
    "take op' out' = input @ (if length input < dl then [0] else [])" by auto
  with dl assms(5) show ?thesis
    by (cases "decode_groups dec dl (b64_sig enc input @ tail) [] 0 (replicate dl (heap_junk h))")
      (auto simp: base64_decode_alloc_def)
qed

lemma sig_not_pad: "x \<in> set (b64_sig enc input) \<Longrightarrow> x \<noteq> b64_pad"
proof (induction input rule: group_induct)
  case (one a)
  obtain x0 x1 x2 x3 where "b64_quad enc a 0 0 = [x0, x1, x2, x3]" "x0 \<noteq> b64_pad" "x1 \<noteq> b64_pad" by (rule quad_sextets)
  with one show ?case by auto
next
  case (two a b)
  obtain x0 x1 x2 x3 where "b64_quad enc a b 0 = [x0, x1, x2, x3]" "x0 \<noteq> b64_pad" "x1 \<noteq> b64_pad" "x2 \<noteq> b64_pad"
    by (rule quad_sextets)
  with two show ?case by (auto simp: numeral_3_eq_3)
next
  case (three a b c rest)
  obtain x0 x1 x2 x3 where "b64_quad enc a b c = [x0, x1, x2, x3]"
    "x0 \<noteq> b64_pad" "x1 \<noteq> b64_pad" "x2 \<noteq> b64_pad" "x3 \<noteq> b64_pad" by (rule quad_sextets)
  with three show ?case by auto
qed simp

end

lemma mem_read_one: "i < length xs \<Longrightarrow> mem_read i 1 xs = Some [xs ! i]"
  by (simp add: mem_read_def take_Suc_conv_app_nth)

lemma decoded_len_eq:
  assumes "2 \<le> length input" and "length input \<le> PTRDIFF_MAX"
  shows "b64_decoded_len input = Some ((length input + 3) div 4 * 3 -
    (if input ! (length input - 1) = b64_pad then 1 else 0) - (if input ! (length input - 2) = b64_pad then 1 else 0))"
proof -
  let ?d = "(length input + 3) div 4 * 3"
  have d: "?d < SIZE_MODULUS" using assms by linarith
  have "1 \<le> (length input + 3) div 4" using div_le_mono [of 5 "length input + 3" 4] assms(1) by simp
  then have "3 \<le> ?d" by linarith
  with d have s: "size_sub ?d 1 = ?d - 1" "size_sub (?d - 1) 1 = ?d - 1 - 1" by simp_all
  have w: "size_wrap (size_wrap (length input + 3) div 4 * 3) = ?d" using d assms(2) by simp
  have "length input - 1 < length input" "length input - 2 < length input" using assms(1) by linarith+
  then have r: "mem_read (size_sub (length input) 1) 1 input = Some [input ! (length input - 1)]"
    "mem_read (size_sub (length input) 2) 1 input = Some [input ! (length input - 2)]"
    using assms mem_read_one [of "length input - 1" input] mem_read_one [of "length input - 2" input] by simp_all
  show ?thesis unfolding b64_decoded_len_def Let_def w r using s by simp
qed

context base64_alphabet
begin

text \<open>The decoder stays inside its buffer: a buffer of fewer than three octets is only made for input that has a
  padding byte before its fourth byte.\<close>

lemma decode_groups_safe:
  assumes "length sx < 4" and "length out = dl" and "op \<le> dl" and "dl < SIZE_MODULUS"
    and "3 \<le> dl \<or> length sx + length (takeWhile (\<lambda>b. b \<noteq> b64_pad) input) < 4"
  shows "\<exists>sx' op' out'. decode_groups dec dl input sx op out = Some (sx', op', out') \<and> op' \<le> dl \<and> length out' = dl"
  using assms
proof (induction input arbitrary: sx op out)
  case (Cons b input)
  let ?v = "dec ! unat b"
  show ?case
  proof (cases "64 \<le> ?v")
    case True
    have "b \<noteq> b64_pad" if "?v \<noteq> 64" using that dec_pad by auto
    with True Cons show ?thesis by auto
  next
    case False
    have b: "b \<noteq> b64_pad" using False dec_pad by auto
    show ?thesis
    proof (cases "length sx = 3 \<and> \<not> size_sub dl 3 \<le> op")
      case True
      then have "3 \<le> dl" "op + 3 \<le> dl" using Cons.prems b by auto
      with True False Cons.prems Cons.IH [of "[]"] show ?thesis by (simp add: Let_def mem_write_def)
    next
      case neq: False
      with False b Cons.prems Cons.IH [of "sx @ [?v]"] show ?thesis by (auto simp: Let_def)
    qed
  qed
qed simp

lemma decoded_len_room:
  assumes "b64_decoded_len input = Some dl" and "2 \<le> length input" and "length input \<le> PTRDIFF_MAX"
  shows "3 \<le> dl \<or> length (takeWhile (\<lambda>b. b \<noteq> b64_pad) input) < 4"
proof (rule ccontr)
  assume "\<not> ?thesis"
  then have dl: "dl < 3" and t: "4 \<le> length (takeWhile (\<lambda>b. b \<noteq> b64_pad) input)" by auto
  have "length (takeWhile (\<lambda>b. b \<noteq> b64_pad) input) \<le> length input" by (rule length_takeWhile_le)
  with t have l: "4 \<le> length input" by linarith
  note d = decoded_len_eq [OF assms(2,3)]
  have "\<not> 5 \<le> length input"
  proof
    assume "5 \<le> length input"
    then have "2 \<le> (length input + 3) div 4" using div_le_mono [of 8 "length input + 3" 4] by simp
    with d dl assms(1) show False by (auto split: if_splits)
  qed
  with l have n: "length input = 4" by linarith
  then have p: "input ! 3 = b64_pad \<or> input ! 2 = b64_pad" using d dl assms(1) by (auto split: if_splits)
  have "takeWhile (\<lambda>b. b \<noteq> b64_pad) input = input"
    using t n by (metis takeWhile_eq_take take_all order.trans le_refl)
  then have "\<forall>b\<in>set input. b \<noteq> b64_pad" by (simp add: takeWhile_eq_all_conv)
  moreover have "input ! 3 \<in> set input" "input ! 2 \<in> set input" using n by simp_all
  ultimately show False using p by metis
qed

end

interpretation b64: base64_alphabet b64_encoding_table b64_decoding_table
proof
  have "list_all (\<lambda>k. b64_decoding_table ! unat (b64_encoding_table ! k) = of_nat k) [0..<64]" by code_simp
  then show "k < 64 \<Longrightarrow> b64_decoding_table ! unat (b64_encoding_table ! k) = of_nat k" for k
    by (simp add: list_all_iff)
  show "b64_decoding_table ! unat b64_pad = 64" by code_simp
qed

interpretation b64url: base64_alphabet b64url_encoding_table b64url_decoding_table
proof
  have "list_all (\<lambda>k. b64url_decoding_table ! unat (b64url_encoding_table ! k) = of_nat k) [0..<64]" by code_simp
  then show "k < 64 \<Longrightarrow> b64url_decoding_table ! unat (b64url_encoding_table ! k) = of_nat k" for k
    by (simp add: list_all_iff)
  show "b64url_decoding_table ! unat b64_pad = 64" by code_simp
qed

section \<open>Properties\<close>

lemma padded_ends:
  assumes "k \<le> 2" and "2 \<le> length s" and "\<And>x. x \<in> set s \<Longrightarrow> x \<noteq> p"
  defines "t \<equiv> s @ replicate k p"
  shows "t ! (length t - 1) = p \<longleftrightarrow> 1 \<le> k" and "t ! (length t - 2) = p \<longleftrightarrow> 2 \<le> k"
proof -
  have s: "s ! i \<noteq> p" if "i < length s" for i using that assms(3) nth_mem by blast
  have i: "length s - 1 < length s" "length s - 2 < length s" using assms(2) by linarith+
  have "k = 0 \<or> k = 1 \<or> k = 2" using assms(1) by linarith
  then show "t ! (length t - 1) = p \<longleftrightarrow> 1 \<le> k" "t ! (length t - 2) = p \<longleftrightarrow> 2 \<le> k"
    using s [OF i(1)] s [OF i(2)] i by (auto simp: t_def nth_append numeral_2_eq_2)
qed

text \<open>What the decoder is given when it is called on the result of the encoder.\<close>

lemma decoded_len_text:
  assumes "input \<noteq> []" and "length (b64_text tbl input) \<le> PTRDIFF_MAX" and "\<And>x. x \<in> set (b64_sig tbl input) \<Longrightarrow> x \<noteq> b64_pad"
  shows "b64_decoded_len (b64_text tbl input) = Some (length input)"
proof -
  let ?t = "b64_text tbl input" and ?k = "mod_table ! (length input mod 3)" and ?s = "b64_sig tbl input"
  let ?g = "(length input + 2) div 3"
  have g: "1 \<le> ?g" using assms(1) by (cases input) simp_all
  have lt: "length ?t = 4 * ?g" by (rule length_text)
  then have ls: "length ?s = 4 * ?g - ?k" by (simp add: b64_text_def)
  have k: "?k = 3 * ?g - length input" by (rule mod_table_pad)
  have "2 \<le> length ?s" using g ls mod_table_le [of "length input"] by linarith
  then have last: "?t ! (length ?t - 1) = b64_pad \<longleftrightarrow> 1 \<le> ?k" and prev: "?t ! (length ?t - 2) = b64_pad \<longleftrightarrow> 2 \<le> ?k"
    using padded_ends [OF mod_table_le _ assms(3)] unfolding b64_text_def by blast+
  have "2 \<le> length ?t" "(length ?t + 3) div 4 = ?g" using g lt by simp_all
  then have "b64_decoded_len ?t = Some (?g * 3 - (if 1 \<le> ?k then 1 else 0) - (if 2 \<le> ?k then 1 else 0))"
    using decoded_len_eq [of ?t] assms(2) unfolding last prev by simp
  moreover have "length input \<le> 3 * ?g" "?k \<le> 2" using mod_table_le by (presburger, blast)
  then have "?g * 3 - (if 1 \<le> ?k then 1 else 0) - (if 2 \<le> ?k then 1 else 0) = length input"
    using k by (auto simp del: One_nat_def) linarith
  ultimately show ?thesis by simp
qed

text \<open>The characters without the padding: the decoder makes room for whole groups.\<close>

lemma decoded_len_sig:
  assumes "length input mod 3 \<noteq> 0" and "length (b64_sig tbl input) \<le> PTRDIFF_MAX"
    and "\<And>x. x \<in> set (b64_sig tbl input) \<Longrightarrow> x \<noteq> b64_pad"
  shows "b64_decoded_len (b64_sig tbl input) = Some (3 * ((length input + 2) div 3))"
proof -
  let ?k = "mod_table ! (length input mod 3)" and ?s = "b64_sig tbl input" and ?g = "(length input + 2) div 3"
  have g: "1 \<le> ?g" using assms(1) by (cases input) simp_all
  have "length (b64_text tbl input) = 4 * ?g" by (rule length_text)
  then have ls: "length ?s = 4 * ?g - ?k" by (simp add: b64_text_def)
  have k: "?k \<le> 2" by (rule mod_table_le)
  then have l2: "2 \<le> length ?s" using g ls by linarith
  have "length ?s + 3 = 4 * ?g + (3 - ?k)" using ls g k by linarith
  then have "(length ?s + 3) div 4 = ?g" by (simp only: div_mult_self4 [of 4 "3 - ?k" ?g] add.commute)
  with decoded_len_eq [OF l2 assms(2)] padded_ends [of 0 ?s b64_pad] l2 assms(3) show ?thesis by simp
qed

lemma roundtrip_table:
  assumes "base64_alphabet enc dec" and "input \<noteq> []" and "table_encode_alloc h enc input = Some (Inr text)"
    and "malloc_ok h (length input)" and "length input \<le> PTRDIFF_MAX"
  shows "base64_decode_alloc h dec text = Some (Inr input)"
proof -
  let ?p = "replicate (mod_table ! (length input mod 3)) b64_pad"
  have t: "text = b64_sig enc input @ ?p" "malloc_ok h (length (b64_text enc input))"
    using assms(3,5) by (auto simp: encode_alloc_text b64_text_def split: if_splits)
  have "b64_decoded_len (b64_sig enc input @ ?p) = Some (length input)"
    using decoded_len_text [of input enc] base64_alphabet.sig_not_pad [OF assms(1)] assms(2) malloc_ok_bound [OF t(2)]
    unfolding b64_text_def by blast
  moreover have "?p = [] \<or> hd ?p = b64_pad" by (cases "mod_table ! (length input mod 3)") simp_all
  moreover have "length input \<le> 3 * ((length input + 2) div 3)" by presburger
  ultimately show ?thesis
    using base64_alphabet.decode_alloc_sig [OF assms(1), of input ?p "length input" h] assms(4) t(1) by simp
qed

text \<open>C21: Base64 round trip: whatever octets are encoded, decoding the text gives them back, in the
  standard and in the URL alphabet, as long as there is at least one octet and the memory for the text and for the result is granted.\<close>

theorem base64_roundtrip:
  assumes "input \<noteq> []" and "length input \<le> PTRDIFF_MAX" and "malloc_ok h (length input)"
    and "malloc_ok h (4 * ((length input + 2) div 3))"
  shows "\<exists>text url. nsu_base64_encode_alloc h input = Some (Inr text) \<and> nsu_base64_decode_alloc h text = Some (Inr input) \<and>
    nsu_base64_encode_alloc_url h input = Some (Inr url) \<and> nsu_base64_decode_alloc_url h url = Some (Inr input)"
proof -
  have e: "table_encode_alloc h tbl input = Some (Inr (b64_text tbl input))" for tbl
    using assms(2,4) by (simp add: encode_alloc_text length_text)
  have "nsu_base64_decode_alloc h (b64_text b64_encoding_table input) = Some (Inr input)"
    unfolding nsu_base64_decode_alloc_def by (rule roundtrip_table [OF b64.base64_alphabet_axioms assms(1) e assms(3,2)])
  moreover have "nsu_base64_decode_alloc_url h (b64_text b64url_encoding_table input) = Some (Inr input)"
    unfolding nsu_base64_decode_alloc_url_def by (rule roundtrip_table [OF b64url.base64_alphabet_axioms assms(1) e assms(3,2)])
  ultimately show ?thesis using e by (simp add: nsu_base64_encode_alloc_def nsu_base64_encode_alloc_url_def)
qed

theorem base64_roundtrip_witness:
  "\<exists>text url. nsu_base64_encode_alloc heap_all [1, 2, 255, 7] = Some (Inr text) \<and>
     nsu_base64_decode_alloc heap_all text = Some (Inr [1, 2, 255, 7]) \<and>
     nsu_base64_encode_alloc_url heap_all [1, 2, 255, 7] = Some (Inr url) \<and>
     nsu_base64_decode_alloc_url heap_all url = Some (Inr [1, 2, 255, 7])"
  by (rule base64_roundtrip) (simp_all add: malloc_ok_def heap_all_def)

text \<open>Encoding into a buffer of the caller is safe and complete: the encoder refuses with NOSPACE exactly when the
  padded text, four characters for every three octets begun, does not fit, writes nothing outside it, and otherwise puts the text at the start of
  the buffer and leaves the rest alone.\<close>

theorem base64_encode_refines:
  assumes "length input \<le> PTRDIFF_MAX"
  shows "nsu_base64_encode input out =
    Some (if 4 * ((length input + 2) div 3) \<le> length out
          then Inr (b64_text b64_encoding_table input @ drop (4 * ((length input + 2) div 3)) out,
                    4 * ((length input + 2) div 3))
          else Inl NSUERROR_NOSPACE)"
  using table_encode_text [OF assms, of b64_encoding_table out] by (simp add: nsu_base64_encode_def length_text)

theorem base64_encode_refines_witness:
  "nsu_base64_encode [0x4D] [0, 0, 0, 0, 9] =
    Some (if 4 * ((length [0x4D :: u8] + 2) div 3) \<le> length [0, 0, 0, 0, 9 :: u8]
          then Inr (b64_text b64_encoding_table [0x4D] @ drop (4 * ((length [0x4D :: u8] + 2) div 3)) [0, 0, 0, 0, 9],
                    4 * ((length [0x4D :: u8] + 2) div 3))
          else Inl NSUERROR_NOSPACE)"
  by (rule base64_encode_refines) simp

text \<open>C22: Decoding is memory safe on all input of at least two bytes, however malformed: it reads inside the input,
  writes inside the buffer it allocated, and returns.\<close>

theorem base64_decode_safe:
  assumes "2 \<le> length input" and "length input \<le> PTRDIFF_MAX"
  shows "(\<exists>r. nsu_base64_decode_alloc h input = Some r) \<and> (\<exists>r. nsu_base64_decode_alloc_url h input = Some r)"
proof -
  obtain dl where dl: "b64_decoded_len input = Some dl" using decoded_len_eq [OF assms] by blast
  have "\<exists>r. base64_decode_alloc h dec input = Some r" if "base64_alphabet enc dec" for enc dec
  proof (cases "malloc_ok h dl")
    case True
    have "dl < SIZE_MODULUS" using malloc_ok_bound [OF True] by simp
    with base64_alphabet.decode_groups_safe [OF that, of "[]" "replicate dl (heap_junk h)" dl 0 input]
      base64_alphabet.decoded_len_room [OF that dl assms]
    obtain sx op out where g: "decode_groups dec dl input [] 0 (replicate dl (heap_junk h)) = Some (sx, op, out)"
      "op \<le> dl" "length out = dl" by auto
    from put_octets_ok [OF g(3,2)] obtain op' out' where "put_octets dl (b64_rest sx) op out = Some (op', out')" by blast
    with g(1) dl True show ?thesis by (simp add: base64_decode_alloc_def)
  qed (simp add: base64_decode_alloc_def dl)
  then show ?thesis
    using b64.base64_alphabet_axioms b64url.base64_alphabet_axioms
    unfolding nsu_base64_decode_alloc_def nsu_base64_decode_alloc_url_def by blast
qed

theorem base64_decode_safe_witness:
  "(\<exists>r. nsu_base64_decode_alloc heap_all [0x3D, 0x41, 0x80] = Some r) \<and>
   (\<exists>r. nsu_base64_decode_alloc_url heap_all [0x3D, 0x41, 0x80] = Some r)"
  by (rule base64_decode_safe) simp_all

text \<open>Text without padding decodes to one octet too many: for a number of octets that is not a multiple of three, decoding
  the encoded characters without the padding gives the octets followed by a zero octet, because the unused bits of the last
  character are written out as an octet when the buffer has room.\<close>

theorem base64_unpadded_extra_octet:
  assumes "length input mod 3 \<noteq> 0" and "length (b64_sig b64_encoding_table input) \<le> PTRDIFF_MAX"
    and "malloc_ok h (3 * ((length input + 2) div 3))"
  shows "nsu_base64_decode_alloc h (b64_sig b64_encoding_table input) = Some (Inr (input @ [0]))"
proof -
  have "length input < 3 * ((length input + 2) div 3)" using assms(1) by presburger
  with b64.decode_alloc_sig [of input "[]" "3 * ((length input + 2) div 3)" h]
    decoded_len_sig [OF assms(1,2)] b64.sig_not_pad assms(3)
  show ?thesis by (simp add: nsu_base64_decode_alloc_def)
qed

theorem base64_unpadded_extra_octet_witness:
  "nsu_base64_decode_alloc heap_all (b64_sig b64_encoding_table [0x4D]) = Some (Inr ([0x4D] @ [0]))"
  by (rule base64_unpadded_extra_octet) (simp_all add: malloc_ok_def heap_all_def)

text \<open>Empty and one-byte input make the decoder read before its input.\<close>

lemma base64_decode_short: "nsu_base64_decode_alloc h [] = None" "nsu_base64_decode_alloc h [b] = None"
  by (simp_all add: nsu_base64_decode_alloc_def base64_decode_alloc_def b64_decoded_len_def Let_def mem_read_def size_sub_def)

end
