(* ===== verification/Url_Escape.thy ===== *)
theory Url_Escape
  imports Prelude
begin

text \<open>
  Percent escaping of the browser, \<^verbatim>\<open>netsurf/utils/url.c\<close>. A C string is the memory from its pointer on; reading past
  that memory, or writing past the result, is \<open>None\<close>. Shrinking the result with realloc keeps its contents whether it
  succeeds or not, so the result is given by its bytes up to the final NUL.
\<close>

section \<open>Strings and digits\<close>

datatype nserror =
    NSERROR_OK | NSERROR_UNKNOWN | NSERROR_NOMEM | NSERROR_NO_FETCH_HANDLER | NSERROR_NOT_FOUND | NSERROR_NOT_DIRECTORY
  | NSERROR_SAVE_FAILED | NSERROR_CLONE_FAILED | NSERROR_INIT_FAILED | NSERROR_BMP_ERROR | NSERROR_GIF_ERROR
  | NSERROR_ICO_ERROR | NSERROR_PNG_ERROR | NSERROR_SPRITE_ERROR | NSERROR_SVG_ERROR | NSERROR_BAD_ENCODING
  | NSERROR_NEED_DATA | NSERROR_ENCODING_CHANGE | NSERROR_BAD_PARAMETER | NSERROR_INVALID | NSERROR_BOX_CONVERT
  | NSERROR_STOPPED | NSERROR_DOM | NSERROR_CSS | NSERROR_CSS_BASE | NSERROR_BAD_URL | NSERROR_BAD_CONTENT
  | NSERROR_FRAME_DEPTH | NSERROR_PERMISSION | NSERROR_NOSPACE | NSERROR_BAD_SIZE | NSERROR_NOT_IMPLEMENTED
  | NSERROR_BAD_REDIRECT | NSERROR_CYCLIC_REDIRECT | NSERROR_UNSAFE_REDIRECT | NSERROR_BAD_AUTH | NSERROR_BAD_CERTS
  | NSERROR_TIMEOUT

fun strlen :: "bytes \<Rightarrow> nat option" where
  "strlen [] = None"
| "strlen (c # cs) = (if c = 0 then Some 0 else map_option Suc (strlen cs))"

definition ascii_is_hex :: "u8 \<Rightarrow> bool" where
  "ascii_is_hex c \<longleftrightarrow> 0x30 \<le> c \<and> c \<le> 0x39 \<or> 0x41 \<le> c \<and> c \<le> 0x46 \<or> 0x61 \<le> c \<and> c \<le> 0x66"

definition xdigit_to_hex :: "u8 \<Rightarrow> u8" where
  "xdigit_to_hex c =
     (if 0x30 \<le> c \<and> c \<le> 0x39 then c - 0x30
      else if 0x41 \<le> c \<and> c \<le> 0x46 then c - 0x41 + 10
      else c - 0x61 + 10)"

section \<open>Unescaping\<close>

text \<open>Both loops: escapes are looked for while at least three bytes are left, the last two are copied.\<close>

fun unescape_loop :: "bytes \<Rightarrow> nat \<Rightarrow> bytes \<Rightarrow> (nat \<times> bytes) option" where
  "unescape_loop (c # c1 # c2 # str) res_pos result =
     (if c = 0x25 \<and> ascii_is_hex c1 \<and> ascii_is_hex c2 then do {
        result \<leftarrow> mem_write res_pos [push_bit 4 (xdigit_to_hex c1) OR xdigit_to_hex c2] result;
        unescape_loop str (res_pos + 1) result
      } else do {
        result \<leftarrow> mem_write res_pos [c] result;
        unescape_loop (c1 # c2 # str) (res_pos + 1) result
      })"
| "unescape_loop (c # str) res_pos result = do {
     result \<leftarrow> mem_write res_pos [c] result;
     unescape_loop str (res_pos + 1) result
   }"
| "unescape_loop [] res_pos result = Some (res_pos, result)"

definition url_unescape :: "heap \<Rightarrow> bytes option \<Rightarrow> nat \<Rightarrow> (nserror + bytes) option" where
  "url_unescape h str len =
     (case str of
        None \<Rightarrow> Some (Inl NSERROR_BAD_PARAMETER)
      | Some str \<Rightarrow> do {
          len \<leftarrow> (if len = 0 then strlen str else Some len);
          if \<not> malloc_ok h (size_wrap (len + 1)) then Some (Inl NSERROR_NOMEM)
          else do {
            data \<leftarrow> mem_read 0 len str;
            (new_len, result) \<leftarrow> unescape_loop data 0 (replicate (size_wrap (len + 1)) (heap_junk h));
            result \<leftarrow> mem_write new_len [0] result;
            Some (Inr (take new_len result))
          }
        })"

section \<open>Escaping\<close>

text \<open>The reserved characters, as the string literal of the source lists them.\<close>

definition url_reserved :: bytes where
  "url_reserved = map (of_nat \<circ> of_char) (
     '':/?#[]@'' @ [CHR ''!'', CHR ''$'', CHR ''&'', CHR 0x27] @ ''()*+,;='' @
     ''<>%'' @ [CHR 0x22] @ ''{}|'' @ [CHR 0x5C] @ ''^'' @ [CHR 0x60] @ ''~'')"

definition must_escape :: "bytes option \<Rightarrow> u8 \<Rightarrow> bool" where
  "must_escape escexceptions c \<longleftrightarrow>
     0x80 \<le> c \<or>
     (c \<in> set url_reserved \<and> (case escexceptions of None \<Rightarrow> True | Some e \<Rightarrow> c \<notin> set e)) \<or>
     c \<le> 0x20 \<or> c = 0x7F"

definition hex_digits :: bytes where
  "hex_digits = map (of_nat \<circ> of_char) ''0123456789ABCDEF''"

definition escape_byte :: "bool \<Rightarrow> bytes option \<Rightarrow> u8 \<Rightarrow> bytes" where
  "escape_byte sptoplus escexceptions c =
     (if must_escape escexceptions c then
        if c = 0x20 \<and> sptoplus then [0x2B]
        else [0x25, hex_digits ! unat (drop_bit 4 c AND 0xF), hex_digits ! unat (c AND 0xF)]
      else [c])"

fun escape_loop :: "bool \<Rightarrow> bytes option \<Rightarrow> bytes \<Rightarrow> nat \<Rightarrow> bytes \<Rightarrow> (nat \<times> bytes) option" where
  "escape_loop sptoplus escexceptions [] pos escaped = Some (pos, escaped)"
| "escape_loop sptoplus escexceptions (c # cs) pos escaped =
     (let e = escape_byte sptoplus escexceptions c in do {
        escaped \<leftarrow> mem_write pos e escaped;
        escape_loop sptoplus escexceptions cs (pos + length e) escaped
      })"

definition url_escape :: "heap \<Rightarrow> bytes option \<Rightarrow> bool \<Rightarrow> bytes option \<Rightarrow> (nserror + bytes) option" where
  "url_escape h unescaped sptoplus escexceptions =
     (case unescaped of
        None \<Rightarrow> Some (Inl NSERROR_BAD_PARAMETER)
      | Some str \<Rightarrow> do {
          len \<leftarrow> strlen str;
          if \<not> malloc_ok h (size_wrap (len * 3 + 1)) then Some (Inl NSERROR_NOMEM)
          else do {
            (new_len, escaped) \<leftarrow> escape_loop sptoplus escexceptions (take len str) 0
              (replicate (size_wrap (len * 3 + 1)) (heap_junk h));
            escaped \<leftarrow> mem_write new_len [0] escaped;
            Some (Inr (take new_len escaped))
          }
        })"

lemma hex_digits_code [code]:
  "hex_digits = [0x30, 0x31, 0x32, 0x33, 0x34, 0x35, 0x36, 0x37, 0x38, 0x39, 0x41, 0x42, 0x43, 0x44, 0x45, 0x46]"
  by (simp add: hex_digits_def)

lemma url_reserved_code [code]:
  "url_reserved = [0x3A, 0x2F, 0x3F, 0x23, 0x5B, 0x5D, 0x40, 0x21, 0x24, 0x26, 0x27, 0x28, 0x29, 0x2A, 0x2B, 0x2C,
     0x3B, 0x3D, 0x3C, 0x3E, 0x25, 0x22, 0x7B, 0x7D, 0x7C, 0x5C, 0x5E, 0x60, 0x7E]"
  by (simp add: url_reserved_def)

section \<open>The loops as functions\<close>

fun unescape_spec :: "bytes \<Rightarrow> bytes" where
  "unescape_spec (c # c1 # c2 # str) =
     (if c = 0x25 \<and> ascii_is_hex c1 \<and> ascii_is_hex c2
      then (push_bit 4 (xdigit_to_hex c1) OR xdigit_to_hex c2) # unescape_spec str
      else c # unescape_spec (c1 # c2 # str))"
| "unescape_spec [] = []"
| "unescape_spec [c] = [c]"
| "unescape_spec [c, c1] = [c, c1]"

definition escape_spec :: "bool \<Rightarrow> bytes option \<Rightarrow> bytes \<Rightarrow> bytes" where
  "escape_spec sptoplus escexceptions str = concat (map (escape_byte sptoplus escexceptions) str)"

lemma mem_write_append:
  "length ys \<le> length zs \<Longrightarrow> mem_write (length xs) ys (xs @ zs) = Some (xs @ ys @ drop (length ys) zs)"
  by (simp add: mem_write_def)

lemma mem_write_one: "zs \<noteq> [] \<Longrightarrow> mem_write (length xs) [y] (xs @ zs) = Some ((xs @ [y]) @ tl zs)"
  by (cases zs) (simp_all add: mem_write_def)

lemma unescape_loop_eq:
  "length str \<le> length zs \<Longrightarrow>
   unescape_loop str (length xs) (xs @ zs) =
     Some (length xs + length (unescape_spec str), xs @ unescape_spec str @ drop (length (unescape_spec str)) zs)"
proof (induction str arbitrary: xs zs rule: unescape_spec.induct)
  case (1 c c1 c2 str)
  then have "zs \<noteq> []" by auto
  note w = mem_write_one [OF this]
  show ?case
  proof (cases "c = 0x25 \<and> ascii_is_hex c1 \<and> ascii_is_hex c2")
    case True
    with 1 w "1.IH"(1) [OF True, of "tl zs" "xs @ [push_bit 4 (xdigit_to_hex c1) OR xdigit_to_hex c2]"] show ?thesis
      by (simp add: drop_Suc)
  next
    case False
    with "1.prems" w "1.IH"(2) [OF False, of "tl zs" "xs @ [c]"] show ?thesis
      by (auto simp: drop_Suc)
  qed
next
  case 2
  then show ?case by simp
next
  case (3 v)
  then show ?case using mem_write_one [of zs xs v] by (cases zs) simp_all
next
  case (4 v vb)
  then show ?case using mem_write_one [of zs xs v] mem_write_one [of "tl zs" "xs @ [v]" vb]
    by (cases zs; cases "tl zs") (simp_all add: drop_Suc)
qed

lemma escape_loop_eq:
  "length (escape_spec sp ex str) \<le> length zs \<Longrightarrow>
   escape_loop sp ex str (length xs) (xs @ zs) =
     Some (length xs + length (escape_spec sp ex str),
           xs @ escape_spec sp ex str @ drop (length (escape_spec sp ex str)) zs)"
proof (induction str arbitrary: xs zs)
  case (Cons c str)
  let ?e = "escape_byte sp ex c"
  have "length ?e \<le> length zs" using Cons.prems by (simp add: escape_spec_def)
  note w = mem_write_append [OF this, of xs]
  with Cons.prems Cons.IH [of "drop (length ?e) zs" "xs @ ?e"] show ?case
    by (simp add: escape_spec_def Let_def add.commute add.left_commute)
qed (simp add: escape_spec_def)

lemma length_escape: "length (escape_spec sp ex str) \<le> 3 * length str"
proof (induction str)
  case (Cons c str)
  have "length (escape_byte sp ex c) \<le> 3" by (simp add: escape_byte_def)
  with Cons show ?case by (simp add: escape_spec_def)
qed (simp add: escape_spec_def)

lemma length_unescape: "length (unescape_spec str) \<le> length str"
  by (induction str rule: unescape_spec.induct) auto

lemma strlen_append: "0 \<notin> set s \<Longrightarrow> strlen (s @ 0 # rest) = Some (length s)"
  by (induction s) auto

lemma strlen_SomeD: "strlen s = Some n \<Longrightarrow> n < length s \<and> 0 \<notin> set (take n s)"
  by (induction s arbitrary: n) (auto split: if_splits)

section \<open>Unescaping inverts escaping\<close>

lemma hex_pair: "ascii_is_hex (hex_digits ! unat (drop_bit 4 c AND 0xF)) \<and> ascii_is_hex (hex_digits ! unat (c AND 0xF)) \<and>
    push_bit 4 (xdigit_to_hex (hex_digits ! unat (drop_bit 4 c AND 0xF))) OR
      xdigit_to_hex (hex_digits ! unat (c AND 0xF)) = c"
  by (rule all_u8_list) code_simp

lemma percent_reserved: "0x25 \<in> set url_reserved"
  by (simp add: url_reserved_code)

lemma unescape_plain: "c \<noteq> 0x25 \<Longrightarrow> unescape_spec (c # str) = c # unescape_spec str"
  by (cases str rule: unescape_spec.cases) simp_all

lemma unescape_escape:
  assumes "\<not> sp" and "case ex of None \<Rightarrow> True | Some e \<Rightarrow> 0x25 \<notin> set e"
  shows "unescape_spec (escape_spec sp ex str) = str"
proof (induction str)
  case (Cons c str)
  have "must_escape ex 0x25" using assms(2) percent_reserved by (auto simp: must_escape_def split: option.splits)
  then have "c \<noteq> 0x25" if "\<not> must_escape ex c" using that by auto
  with Cons assms(1) hex_pair [of c] unescape_plain [of c] show ?case
    by (auto simp: escape_spec_def escape_byte_def)
qed (simp add: escape_spec_def)

lemma hex_digit_plain:
  "0x20 < hex_digits ! unat (c AND 0xF) \<and> hex_digits ! unat (c AND 0xF) < 0x7F \<and> hex_digits ! unat (c AND 0xF) \<notin> set url_reserved"
  for c :: u8
proof -
  have "unat (c AND 0xF) < 16" using word_and_le1 [of c "0xF"] by (simp add: word_le_nat_alt)
  then have "hex_digits ! unat (c AND 0xF) \<in> set hex_digits"
    by (intro nth_mem) (simp add: hex_digits_def)
  moreover have "list_all (\<lambda>d. 0x20 < d \<and> d < 0x7F \<and> d \<notin> set url_reserved) hex_digits" by code_simp
  ultimately show ?thesis by (simp add: list_all_iff)
qed

lemma escape_plain: "x \<in> set (escape_byte sp ex c) \<Longrightarrow> 0x20 < x \<and> x < 0x7F \<and>
    (x \<in> set url_reserved \<longrightarrow> x = 0x25 \<or> (sp \<and> x = 0x2B) \<or> (\<exists>e. ex = Some e \<and> x \<in> set e))"
proof (cases "must_escape ex c")
  case True
  assume "x \<in> set (escape_byte sp ex c)"
  then consider "x = 0x25" | "x = 0x2B" "sp" | d :: u8 where "x = hex_digits ! unat (d AND 0xF)"
    using True by (auto simp: escape_byte_def split: if_splits)
  then show ?thesis by cases (use hex_digit_plain in simp_all)
next
  case False
  then have "c < 0x7F" "0x20 < c" "c \<in> set url_reserved \<longrightarrow> (\<exists>e. ex = Some e \<and> c \<in> set e)"
    by (auto simp: must_escape_def word_le_nat_alt word_less_nat_alt word_unat_eq_iff split: option.splits)
  moreover assume "x \<in> set (escape_byte sp ex c)"
  ultimately show ?thesis using False by (simp add: escape_byte_def)
qed

lemma url_escape_eq:
  assumes "strlen mem = Some n" and "3 * n + 1 < SIZE_MODULUS"
  shows "url_escape h (Some mem) sp ex =
    Some (if malloc_ok h (3 * n + 1) then Inr (escape_spec sp ex (take n mem)) else Inl NSERROR_NOMEM)"
proof (cases "malloc_ok h (3 * n + 1)")
  case True
  let ?e = "escape_spec sp ex (take n mem)" and ?z = "replicate (3 * n + 1) (heap_junk h)"
  have "length (take n mem) = n" using strlen_SomeD [OF assms(1)] by simp
  then have l: "length ?e \<le> 3 * n" using length_escape [of sp ex "take n mem"] by simp
  have "escape_loop sp ex (take n mem) 0 ?z = Some (length ?e, ?e @ drop (length ?e) ?z)"
    using escape_loop_eq [of sp ex "take n mem" ?z "[]"] l by simp
  moreover have "mem_write (length ?e) [0] (?e @ drop (length ?e) ?z) = Some ((?e @ [0]) @ tl (drop (length ?e) ?z))"
    using l by (intro mem_write_one) simp
  ultimately show ?thesis using True assms by (simp add: url_escape_def mult.commute)
next
  case False
  with assms show ?thesis by (simp add: url_escape_def mult.commute)
qed

lemma url_unescape_eq:
  assumes "(if len = 0 then strlen mem else Some len) = Some n" and "n \<le> length mem" and "n + 1 < SIZE_MODULUS"
  shows "url_unescape h (Some mem) len =
    Some (if malloc_ok h (n + 1) then Inr (unescape_spec (take n mem)) else Inl NSERROR_NOMEM)"
proof (cases "malloc_ok h (n + 1)")
  case True
  let ?u = "unescape_spec (take n mem)" and ?z = "replicate (n + 1) (heap_junk h)"
  have l: "length ?u \<le> n" using length_unescape [of "take n mem"] assms(2) by simp
  have "unescape_loop (take n mem) 0 ?z = Some (length ?u, ?u @ drop (length ?u) ?z)"
    using unescape_loop_eq [of "take n mem" ?z "[]"] l by simp
  moreover have "mem_write (length ?u) [0] (?u @ drop (length ?u) ?z) = Some ((?u @ [0]) @ tl (drop (length ?u) ?z))"
    using l by (intro mem_write_one) simp
  ultimately show ?thesis using True assms by (simp add: url_unescape_def mem_read_def)
next
  case False
  with assms show ?thesis by (simp add: url_unescape_def)
qed

section \<open>Properties\<close>

text \<open>C33: Percent escaping round trip: escaping any C string without turning spaces into plus signs, and with exceptions that
  do not name the percent sign, succeeds when memory is granted, and unescaping the result gives the
  string back, whatever bytes it has; all accesses stay inside the strings and the results.\<close>

theorem url_escape_roundtrip:
  assumes "0 \<notin> set s" and "case ex of None \<Rightarrow> True | Some e \<Rightarrow> 0x25 \<notin> set e"
    and "3 * length s + 1 \<le> PTRDIFF_MAX" and "\<And>n. n \<le> 3 * length s + 1 \<Longrightarrow> malloc_ok h n"
  shows "\<exists>e. url_escape h (Some (s @ 0 # rest)) False ex = Some (Inr e) \<and>
    url_unescape h (Some (e @ [0])) 0 = Some (Inr s) \<and> length e \<le> 3 * length s"
proof -
  let ?e = "escape_spec False ex s"
  have l: "length ?e \<le> 3 * length s" by (rule length_escape)
  have "0 \<notin> set ?e" using escape_plain [of 0 False ex] by (auto simp: escape_spec_def)
  then have "strlen (?e @ [0]) = Some (length ?e)" by (rule strlen_append)
  then have "url_unescape h (Some (?e @ [0])) 0 = Some (Inr s)"
    using url_unescape_eq [of 0 "?e @ [0]" "length ?e" h] l assms(3,4) unescape_escape [OF _ assms(2)] by simp
  moreover have "url_escape h (Some (s @ 0 # rest)) False ex = Some (Inr ?e)"
    using url_escape_eq [OF strlen_append [OF assms(1), of rest], of h False ex] assms(3,4) by simp
  ultimately show ?thesis using l by blast
qed

theorem url_escape_roundtrip_witness:
  "\<exists>e. url_escape heap_all (Some ([0x61, 0x25, 0xC3] @ 0 # [])) False (Some [0x2F]) = Some (Inr e) \<and>
    url_unescape heap_all (Some (e @ [0])) 0 = Some (Inr [0x61, 0x25, 0xC3]) \<and> length e \<le> 3 * length [0x61, 0x25, 0xC3 :: u8]"
  by (rule url_escape_roundtrip) (simp_all add: malloc_ok_def heap_all_def)

text \<open>An escaped string is safe to put into a URL: every byte of it is a printable ASCII character, and the only
  reserved characters in it are the percent sign of an escape, a plus sign if spaces become plus signs, and the characters that the
  caller excepted.\<close>

theorem url_escape_alphabet:
  assumes "url_escape h (Some mem) sp ex = Some (Inr e)" and "length mem \<le> PTRDIFF_MAX div 3" and "x \<in> set e"
  shows "0x20 < x \<and> x < 0x7F \<and>
    (x \<in> set url_reserved \<longrightarrow> x = 0x25 \<or> (sp \<and> x = 0x2B) \<or> (\<exists>ex'. ex = Some ex' \<and> x \<in> set ex'))"
proof -
  from assms(1) obtain n where n: "strlen mem = Some n" by (cases "strlen mem") (simp_all add: url_escape_def)
  then have "3 * n + 1 < SIZE_MODULUS" using strlen_SomeD [OF n] assms(2) by simp
  with url_escape_eq [OF n, of h sp ex] assms(1) have "e = escape_spec sp ex (take n mem)" by (simp split: if_splits)
  with assms(3) show ?thesis using escape_plain [of x sp ex] by (auto simp: escape_spec_def)
qed

theorem url_escape_alphabet_witness:
  "url_escape heap_all (Some [0x20, 0x2F, 0]) True None = Some (Inr [0x2B, 0x25, 0x32, 0x46]) \<and>
   0x20 < (0x2B :: u8) \<and> (0x2B :: u8) < 0x7F \<and>
    (0x2B \<in> set url_reserved \<longrightarrow> (0x2B :: u8) = 0x25 \<or> (True \<and> (0x2B :: u8) = 0x2B) \<or> (\<exists>ex'. None = Some ex' \<and> 0x2B \<in> set ex'))"
proof -
  have "strlen [0x20, 0x2F, 0] = Some 2" by simp
  then have h: "url_escape heap_all (Some [0x20, 0x2F, 0]) True None = Some (Inr [0x2B, 0x25, 0x32, 0x46])"
    using url_escape_eq [of "[0x20, 0x2F, 0]" 2 heap_all True None]
    by (simp add: malloc_ok_def heap_all_def escape_spec_def escape_byte_def must_escape_def hex_digits_code url_reserved_code)
  have "0x2B \<in> set [0x2B, 0x25, 0x32, 0x46 :: u8]" by simp
  then show ?thesis using h url_escape_alphabet [OF h] by simp
qed

end
