(* ===== verification/Punycode.thy ===== *)
theory Punycode
  imports Prelude Url_Escape
begin

text \<open>
  Punycode, the encoding of Unicode host labels in ASCII: \<^verbatim>\<open>netsurf/utils/punycode.c\<close>, and the two functions of
  \<^verbatim>\<open>netsurf/utils/idna.c\<close> that call it for a host label. The callers pass no case flags, so the model has none.

  Unsigned integers of 32 bits are natural numbers; a sum that the code does not guard is written with \<open>u32_wrap\<close>. A result
  is an error status or the output; \<open>None\<close> is a write outside the output array or a loop that does not end. The decoder's
  output is taken to have fewer than 2^32 - 1 code points, so that the count of them and one more does not wrap.
\<close>

section \<open>Parameters and digits\<close>

datatype punycode_status = punycode_success | punycode_bad_input | punycode_big_output | punycode_overflow

abbreviation base :: nat where "base \<equiv> 36"
abbreviation tmin :: nat where "tmin \<equiv> 1"
abbreviation tmax :: nat where "tmax \<equiv> 26"
abbreviation skew :: nat where "skew \<equiv> 38"
abbreviation damp :: nat where "damp \<equiv> 700"
abbreviation initial_bias :: nat where "initial_bias \<equiv> 72"
abbreviation initial_n :: nat where "initial_n \<equiv> 0x80"
abbreviation delimiter :: u8 where "delimiter \<equiv> 0x2D"
abbreviation maxint :: nat where "maxint \<equiv> 4294967295"

definition u32_sub :: "nat \<Rightarrow> nat \<Rightarrow> nat" where
  "u32_sub a b = (a + 2 ^ 32 - b) mod 2 ^ 32"

text \<open>A character of type char, which is signed, as an unsigned integer.\<close>

definition uint_of_char :: "u8 \<Rightarrow> nat" where
  "uint_of_char c = unat (scast c :: u32)"

definition decode_digit :: "nat \<Rightarrow> nat" where
  "decode_digit cp =
     (if u32_sub cp 48 < 10 then u32_sub cp 22
      else if u32_sub cp 65 < 26 then u32_sub cp 65
      else if u32_sub cp 97 < 26 then u32_sub cp 97
      else base)"

definition encode_digit :: "nat \<Rightarrow> u8" where
  "encode_digit d = of_nat (d + 22 + 75 * (if d < 26 then 1 else 0))"

section \<open>Bias adaptation\<close>

function adapt_loop :: "nat \<Rightarrow> nat \<Rightarrow> nat" where
  "adapt_loop delta k =
     (if delta > ((base - tmin) * tmax) div 2 then adapt_loop (delta div (base - tmin)) (k + base)
      else k + (base - tmin + 1) * delta div (delta + skew))"
  by pat_completeness auto
termination
  by (relation "measure fst") auto

definition adapt :: "nat \<Rightarrow> nat \<Rightarrow> bool \<Rightarrow> nat" where
  "adapt delta numpoints firsttime =
     (let delta = (if firsttime then delta div damp else delta div 2);
          delta = delta + delta div numpoints
      in adapt_loop delta 0)"

definition threshold :: "nat \<Rightarrow> nat \<Rightarrow> nat" where
  "threshold k bias = (if k \<le> bias then tmin else if k \<ge> bias + tmax then tmax else k - bias)"

section \<open>Encoding\<close>

definition emit :: "nat \<Rightarrow> u8 \<Rightarrow> bytes \<Rightarrow> bytes option" where
  "emit max_out c out = (if length out < max_out then Some (out @ [c]) else None)"

text \<open>The basic code points are copied.\<close>

fun copy_basic :: "nat list \<Rightarrow> nat \<Rightarrow> bytes \<Rightarrow> (punycode_status + bytes) option" where
  "copy_basic [] max_out out = Some (Inr out)"
| "copy_basic (c # input) max_out out =
     (if c < 0x80 then
        if size_sub max_out (length out) < 2 then Some (Inl punycode_big_output)
        else do { out \<leftarrow> emit max_out (of_nat c) out; copy_basic input max_out out }
      else copy_basic input max_out out)"

text \<open>A delta as a generalised variable-length integer.\<close>

function put_delta :: "nat \<Rightarrow> nat \<Rightarrow> nat \<Rightarrow> nat \<Rightarrow> bytes \<Rightarrow> (punycode_status + bytes) option" where
  "put_delta q k bias max_out out =
     (if length out \<ge> max_out then Some (Inl punycode_big_output)
      else
        (let t = threshold k bias in
         if q < t then map_option Inr (emit max_out (encode_digit q) out)
         else case emit max_out (encode_digit (t + (q - t) mod (base - t))) out of
                None \<Rightarrow> None
              | Some out \<Rightarrow> put_delta ((q - t) div (base - t)) (k + base) bias max_out out))"
  by pat_completeness auto
termination
proof (relation "measure fst", goal_cases)
  case (2 q k bias max_out out t out')
  then have t: "1 \<le> t" "t \<le> q" by (auto simp: threshold_def split: if_splits)
  have "(q - t) div (36 - t) \<le> q - t" by (rule div_le_dividend)
  also have "q - t < q" using t by simp
  finally show ?case by simp
qed simp

record enc_state =
  e_delta :: nat
  e_h :: nat
  e_bias :: nat
  e_out :: bytes

text \<open>One pass over the input for the code point \<open>n\<close>; \<open>b\<close> is the number of basic code points.\<close>

fun encode_pass :: "nat list \<Rightarrow> nat \<Rightarrow> nat \<Rightarrow> nat \<Rightarrow> enc_state \<Rightarrow> (punycode_status + enc_state) option" where
  "encode_pass [] n b max_out st = Some (Inr st)"
| "encode_pass (c # input) n b max_out st =
     (let delta = (if c < n then u32_wrap (e_delta st + 1) else e_delta st) in
      if c < n \<and> delta = 0 then Some (Inl punycode_overflow)
      else if c = n then do {
        r \<leftarrow> put_delta delta base (e_bias st) max_out (e_out st);
        case r of
          Inl e \<Rightarrow> Some (Inl e)
        | Inr out \<Rightarrow>
            encode_pass input n b max_out
              \<lparr>e_delta = 0, e_h = e_h st + 1, e_bias = adapt delta (e_h st + 1) (e_h st = b), e_out = out\<rparr>
      }
      else encode_pass input n b max_out (st\<lparr>e_delta := delta\<rparr>))"

text \<open>The next code point to handle: the least one that is at least \<open>n\<close>.\<close>

definition next_point :: "nat list \<Rightarrow> nat \<Rightarrow> nat" where
  "next_point input n = foldl (\<lambda>m c. if c \<ge> n \<and> c < m then c else m) maxint input"

partial_function (option) deltas_loop ::
  "nat list \<Rightarrow> nat \<Rightarrow> nat \<Rightarrow> nat \<Rightarrow> enc_state \<Rightarrow> (punycode_status + bytes) option" where
  "deltas_loop input n b max_out st =
     (if \<not> e_h st < length input then Some (Inr (e_out st))
      else
        (let m = next_point input n in
         if m - n > (maxint - e_delta st) div (e_h st + 1) then Some (Inl punycode_overflow)
         else do {
           r \<leftarrow> encode_pass input m b max_out (st\<lparr>e_delta := e_delta st + (m - n) * (e_h st + 1)\<rparr>);
           case r of
             Inl e \<Rightarrow> Some (Inl e)
           | Inr st \<Rightarrow> deltas_loop input (u32_wrap (m + 1)) b max_out (st\<lparr>e_delta := u32_wrap (e_delta st + 1)\<rparr>)
         }))"

definition punycode_encode :: "nat list \<Rightarrow> nat \<Rightarrow> (punycode_status + bytes) option" where
  "punycode_encode input max_out =
     (if length input > maxint then Some (Inl punycode_overflow)
      else do {
        r \<leftarrow> copy_basic input max_out [];
        case r of
          Inl e \<Rightarrow> Some (Inl e)
        | Inr out \<Rightarrow> do {
            let b = length out;
            out \<leftarrow> (if b > 0 then emit max_out delimiter out else Some out);
            deltas_loop input initial_n b max_out \<lparr>e_delta = 0, e_h = b, e_bias = initial_bias, e_out = out\<rparr>
          }
      })"

section \<open>Decoding\<close>

text \<open>A variable-length integer is added to \<open>i\<close>.\<close>

fun get_delta :: "bytes \<Rightarrow> nat \<Rightarrow> nat \<Rightarrow> nat \<Rightarrow> nat \<Rightarrow> punycode_status + (nat \<times> bytes)" where
  "get_delta [] i w k bias = Inl punycode_bad_input"
| "get_delta (c # input) i w k bias =
     (let digit = decode_digit (uint_of_char c) in
      if digit \<ge> base then Inl punycode_bad_input
      else if digit > (maxint - i) div w then Inl punycode_overflow
      else
        (let i = i + digit * w; t = threshold k bias in
         if digit < t then Inr (i, input)
         else if w > maxint div (base - t) then Inl punycode_overflow
         else get_delta input i (w * (base - t)) (k + base) bias))"

lemma get_delta_shorter: "get_delta input i w k bias = Inr (i', rest) \<Longrightarrow> length rest < length input"
  by (induction input i w k bias rule: get_delta.induct) (auto simp: Let_def split: if_splits intro: less_SucI)

function points_loop :: "bytes \<Rightarrow> nat \<Rightarrow> nat \<Rightarrow> nat \<Rightarrow> nat \<Rightarrow> nat list \<Rightarrow> punycode_status + nat list" where
  "points_loop input max_out n i bias out =
     (if input = [] then Inr out
      else case get_delta input i 1 base bias of
             Inl e \<Rightarrow> Inl e
           | Inr (i', rest) \<Rightarrow>
               (let bias = adapt (i' - i) (length out + 1) (i = 0) in
                if i' div (length out + 1) > maxint - n then Inl punycode_overflow
                else
                  (let n = n + i' div (length out + 1); p = i' mod (length out + 1) in
                   if length out \<ge> max_out then Inl punycode_big_output
                   else points_loop rest max_out n (p + 1) bias (take p out @ n # drop p out))))"
  by pat_completeness auto
termination
  by (relation "measure (\<lambda>(input, _). length input)") (auto dest: get_delta_shorter)

text \<open>The index of the last delimiter, or 0.\<close>

definition last_delimiter :: "bytes \<Rightarrow> nat" where
  "last_delimiter input = foldl (\<lambda>b j. if input ! j = delimiter then j else b) 0 [0..<length input]"

definition punycode_decode :: "bytes \<Rightarrow> nat \<Rightarrow> punycode_status + nat list" where
  "punycode_decode input output_length =
     (let max_out = (if output_length > maxint then maxint else output_length);
          b = last_delimiter input in
      if b > max_out then Inl punycode_big_output
      else if list_ex (\<lambda>c. \<not> uint_of_char c < 0x80) (take b input) then Inl punycode_bad_input
      else points_loop (if b > 0 then drop (b + 1) input else input) max_out initial_n 0 initial_bias
             (map uint_of_char (take b input)))"

declare deltas_loop.simps [code]

section \<open>Host labels\<close>

definition punycode_status_to_nserror :: "punycode_status \<Rightarrow> nserror" where
  "punycode_status_to_nserror status =
     (case status of
        punycode_success \<Rightarrow> NSERROR_OK
      | punycode_bad_input \<Rightarrow> NSERROR_BAD_ENCODING
      | punycode_big_output \<Rightarrow> NSERROR_BAD_SIZE
      | punycode_overflow \<Rightarrow> NSERROR_NOSPACE)"

definition ace_prefix :: bytes where
  "ace_prefix = [0x78, 0x6E, 0x2D, 0x2D]"

text \<open>The label is made in an array of 65 bytes and copied by strdup, whose result is not checked: the label is
  \<open>None\<close> when there is no memory.\<close>

definition idna__ucs4_to_ace :: "heap \<Rightarrow> nat list \<Rightarrow> (nserror + (bytes option \<times> nat)) option" where
  "idna__ucs4_to_ace h ucs4_label = do {
     r \<leftarrow> punycode_encode ucs4_label 60;
     case r of
       Inl status \<Rightarrow> Some (Inl (punycode_status_to_nserror status))
     | Inr output \<Rightarrow> do {
         punycode \<leftarrow> mem_write 0 (ace_prefix @ output) (replicate 65 (heap_junk h));
         let output_length = length output + 4;
         punycode \<leftarrow> mem_write output_length [0] punycode;
         len \<leftarrow> strlen punycode;
         Some (Inr (if malloc_ok h (len + 1) then Some (take len punycode) else None, output_length))
       }
   }"

text \<open>The result has room for as many code points as the label has bytes, and a final zero is written after them.\<close>

definition idna__ace_to_ucs4 :: "heap \<Rightarrow> bytes \<Rightarrow> (nserror + nat list) option" where
  "idna__ace_to_ucs4 h ace_label =
     (let ace_len = length ace_label in
      if take 4 ace_label \<noteq> ace_prefix then None
      else if \<not> malloc_ok h (size_wrap (ace_len * 4)) then Some (Inl NSERROR_NOMEM)
      else (case punycode_decode (drop 4 ace_label) ace_len of
              Inl status \<Rightarrow> Some (Inl (punycode_status_to_nserror status))
            | Inr ucs4 \<Rightarrow>
                if length ucs4 < size_wrap (ace_len * 4) div 4 then Some (Inr ucs4) else None))"

declare adapt_loop.simps [simp del] put_delta.simps [simp del] points_loop.simps [simp del]

section \<open>Variable-length integers\<close>

lemma threshold_bounds: "1 \<le> threshold k bias" "threshold k bias \<le> 26"
  by (auto simp: threshold_def)

lemma u32_sub_id: "b \<le> a \<Longrightarrow> a < 4294967296 \<Longrightarrow> u32_sub a b = a - b"
  by (simp add: u32_sub_def le_mod_geq)

lemma uint_of_char_small: "n < 128 \<Longrightarrow> uint_of_char (of_nat n) = n"
proof -
  have "list_all (\<lambda>n. uint_of_char (of_nat n) = n) [0..<128]" by code_simp
  then show "n < 128 \<Longrightarrow> ?thesis" by (simp add: list_all_iff)
qed

lemma digit_not_delimiter: "d < 36 \<Longrightarrow> encode_digit d \<noteq> delimiter"
proof -
  have "list_all (\<lambda>d. encode_digit d \<noteq> delimiter) [0..<36]" by code_simp
  then show "d < 36 \<Longrightarrow> ?thesis" by (simp add: list_all_iff)
qed

lemma digit_roundtrip: "d < 36 \<Longrightarrow> decode_digit (uint_of_char (encode_digit d)) = d"
  by (cases "d < 26") (simp_all only: encode_digit_def if_True if_False, simp_all add: uint_of_char_small decode_digit_def u32_sub_id
      del: of_nat_add of_nat_mult)

text \<open>What put_delta appends, get_delta reads back, as long as 35 times the value fits 32 bits.\<close>

lemma put_get_delta:
  assumes "put_delta q k bias max_out out = Some (Inr out')" and "0 < w"
    and "i + q * w \<le> maxint" and "35 * (q * w) \<le> maxint"
  shows "\<exists>e. out' = out @ e \<and> e \<noteq> [] \<and> delimiter \<notin> set e \<and> (\<forall>rest. get_delta (e @ rest) i w k bias = Inr (i + q * w, rest))"
  using assms
proof (induction q k bias max_out out arbitrary: i w rule: put_delta.induct)
  case (1 q k bias max_out out)
  let ?t = "threshold k bias"
  have t: "1 \<le> ?t" "?t \<le> 26" by (rule threshold_bounds)+
  have room: "length out < max_out" using "1.prems"(1) by (auto simp: put_delta.simps split: if_splits)
  show ?case
  proof (cases "q < ?t")
    case True
    then have "out' = out @ [encode_digit q]"
      using "1.prems"(1) room by (simp add: put_delta.simps [of q] emit_def Let_def)
    moreover have "q \<le> (maxint - i) div w" using "1.prems"(2,3) by (simp add: less_eq_div_iff_mult_less_eq)
    ultimately show ?thesis using True t digit_not_delimiter [of q] by (auto simp: digit_roundtrip Let_def not_le)
  next
    case False
    let ?d = "?t + (q - ?t) mod (36 - ?t)" and ?q = "(q - ?t) div (36 - ?t)" and ?w = "w * (36 - ?t)"
    have r: "(q - ?t) mod (36 - ?t) < 36 - ?t" using t by simp
    have d: "?d < 36" "?t \<le> ?d" using r t by linarith+
    have q: "?d + ?q * (36 - ?t) = q" using False by (simp add: mult.commute)
    have qw: "?d * w + ?q * ?w = q * w" using arg_cong [OF q, of "\<lambda>x. x * w"] by (simp add: algebra_simps)
    have put: "put_delta ?q (k + 36) bias max_out (out @ [encode_digit ?d]) = Some (Inr out')"
      using "1.prems"(1) False room by (simp add: put_delta.simps [of q] emit_def Let_def)
    have dw: "?d * w \<le> q * w" using qw by linarith
    have "w \<le> q * w" using False t by (cases q) simp_all
    then have "35 * w \<le> maxint" using "1.prems"(4) by linarith
    moreover have "36 - ?t \<le> 35" using t by linarith
    then have "?w \<le> 35 * w" by (metis mult.commute mult_le_mono2)
    ultimately have w: "?w \<le> maxint" by linarith
    have IH: "\<exists>e. out' = (out @ [encode_digit ?d]) @ e \<and> e \<noteq> [] \<and> delimiter \<notin> set e \<and>
        (\<forall>rest. get_delta (e @ rest) (i + ?d * w) ?w (k + 36) bias = Inr (i + ?d * w + ?q * ?w, rest))"
    proof (rule "1.IH" [OF _ refl False _ put])
      show "\<not> max_out \<le> length out" using room by simp
      show "emit max_out (encode_digit ?d) out = Some (out @ [encode_digit ?d])" using room by (simp add: emit_def)
      show "0 < ?w" using "1.prems"(2) t by simp
      show "i + ?d * w + ?q * ?w \<le> maxint" "35 * (?q * ?w) \<le> maxint" using qw "1.prems"(3,4) by linarith+
    qed
    then obtain e where e: "out' = out @ encode_digit ?d # e" "delimiter \<notin> set e"
      "\<And>rest. get_delta (e @ rest) (i + ?d * w) ?w (k + 36) bias = Inr (i + q * w, rest)"
      using qw by (auto simp: add.assoc)
    have maxi: "?d * w \<le> maxint - i" using dw "1.prems"(3) by linarith
    have "?d \<le> (maxint - i) div w" "w \<le> maxint div (36 - ?t)"
      using "1.prems"(2) w t maxi by (simp_all only: less_eq_div_iff_mult_less_eq zero_less_diff)
    then have "get_delta ((encode_digit ?d # e) @ rest) i w k bias = Inr (i + q * w, rest)" for rest
      using d e(3) by (simp add: digit_roundtrip Let_def)
    with e digit_not_delimiter [OF d(1)] show ?thesis by (intro exI [of _ "encode_digit ?d # e"]) simp
  qed
qed

lemma put_delta_total:
  "\<exists>r. put_delta q k bias max_out out = Some r \<and> (r = Inl punycode_big_output \<or> (\<exists>out'. r = Inr out' \<and> length out' \<le> max_out))"
proof (induction q k bias max_out out rule: put_delta.induct)
  case (1 q k bias max_out out)
  show ?case
  proof (cases "max_out \<le> length out")
    case False
    let ?t = "threshold k bias"
    let ?o = "out @ [encode_digit (?t + (q - ?t) mod (36 - ?t))]"
    have e: "emit max_out c out = Some (out @ [c])" for c using False by (simp add: emit_def)
    show ?thesis
    proof (cases "q < ?t")
      case True
      then show ?thesis using False e by (simp add: put_delta.simps [of q] Suc_le_eq)
    next
      case f: False
      from "1.IH" [OF False refl f e] False f e show ?thesis by (simp add: put_delta.simps [of q] Let_def)
    qed
  qed (simp add: put_delta.simps)
qed

section \<open>One pass\<close>

text \<open>The decoder when the encoder has handled the code points below \<open>n\<close>, and \<open>n\<close> itself in \<open>xs\<close>, the part of the input before
  the current position: its output, and the distance between its state and that position.\<close>

definition handled :: "nat \<Rightarrow> nat list \<Rightarrow> nat list \<Rightarrow> nat list" where
  "handled n xs ys = filter (\<lambda>c. c \<le> n) xs @ filter (\<lambda>c. c < n) ys"

definition pass_inv :: "nat \<Rightarrow> nat list \<Rightarrow> nat list \<Rightarrow> nat \<Rightarrow> nat \<Rightarrow> nat \<Rightarrow> enc_state \<Rightarrow> bool" where
  "pass_inv n xs ys b nd i st \<longleftrightarrow>
     nd \<le> n \<and> e_h st = length (handled n xs ys) \<and>
     i + e_delta st = (n - nd) * (e_h st + 1) + length (filter (\<lambda>c. c \<le> n) xs) \<and>
     b \<le> e_h st \<and> (i = 0 \<longleftrightarrow> e_h st = b)"

lemma length_handled: "length (handled n xs ys) \<le> length xs + length ys"
  by (simp add: handled_def add_mono)

lemma pass_bound:
  assumes "pass_inv n xs ys b nd i st" and "0x80 \<le> nd" and "length (xs @ ys) \<le> L"
  shows "i + e_delta st < n * (L + 1)"
proof -
  have h: "e_h st = length (handled n xs ys)" "nd \<le> n"
    "i + e_delta st = (n - nd) * (e_h st + 1) + length (filter (\<lambda>c. c \<le> n) xs)"
    using assms(1) by (simp_all add: pass_inv_def)
  have l: "length (filter (\<lambda>c. c \<le> n) xs) \<le> e_h st" using h(1) by (simp add: handled_def)
  have l2: "e_h st \<le> L" using assms(3) h(1) length_handled [of n xs ys] by simp
  have "i + e_delta st < (n - nd) * (e_h st + 1) + (e_h st + 1)" using l h(3) by simp
  also have "\<dots> = (n - nd + 1) * (e_h st + 1)" by simp
  also have "\<dots> \<le> n * (L + 1)" using assms(2) h(2) l2 by (intro mult_le_mono) simp_all
  finally show ?thesis .
qed

lemma div_mod_unique: "p < k \<Longrightarrow> (a * k + p) div k = a" "p < k \<Longrightarrow> (a * k + p) mod k = p" for k :: nat
  by simp_all

text \<open>Handling the code point at the current position: the decoder inserts it where it stands.\<close>

lemma points_step:
  assumes inv: "pass_inv n xs (n # ys) b nd i st" and nd: "0x80 \<le> nd" and n: "n \<le> maxint"
    and room: "length (handled n xs (n # ys)) < max_out"
    and e: "e \<noteq> []" "get_delta (e @ rest) i 1 36 (e_bias st) = Inr (i + e_delta st, rest)"
  shows "points_loop (e @ rest) max_out nd i (e_bias st) (handled n xs (n # ys)) =
    points_loop rest max_out n (length (filter (\<lambda>c. c \<le> n) xs) + 1) (adapt (e_delta st) (e_h st + 1) (e_h st = b))
      (handled n (xs @ [n]) ys)"
proof -
  let ?p = "length (filter (\<lambda>c. c \<le> n) xs)" and ?h = "e_h st"
  have h: "?h = length (handled n xs (n # ys))" and le: "nd \<le> n"
    and d: "i + e_delta st = (n - nd) * (?h + 1) + ?p" and f: "(i = 0) = (?h = b)"
    using inv by (simp_all add: pass_inv_def)
  have p: "?p < ?h + 1" using h by (simp add: handled_def)
  then have dm: "(i + e_delta st) div (?h + 1) = n - nd" "(i + e_delta st) mod (?h + 1) = ?p"
    unfolding d by (simp_all only: div_mod_unique)
  have ins: "take ?p (handled n xs (n # ys)) @ n # drop ?p (handled n xs (n # ys)) = handled n (xs @ [n]) ys"
    by (simp add: handled_def)
  have "\<not> maxint - nd < n - nd" using n by simp
  then show ?thesis
    by (subst points_loop.simps) (use e room n le in \<open>simp add: Let_def f h [symmetric] dm [simplified] ins\<close>)
qed

text \<open>What a stretch of encoding gives: either the output is full, or the encoder goes on in a state \<open>st'\<close>, and what it has
  written in between moves the decoder along, from the output \<open>out\<close> to \<open>out'\<close>.\<close>

definition advances :: "nat \<Rightarrow> nat \<Rightarrow> nat \<Rightarrow> nat \<Rightarrow> enc_state \<Rightarrow> nat list \<Rightarrow> nat \<Rightarrow> nat \<Rightarrow> enc_state \<Rightarrow> nat list \<Rightarrow> bool" where
  "advances mo max_out nd i st out nd' i' st' out' \<longleftrightarrow>
     length (e_out st') \<le> max_out \<and> 0x80 \<le> nd' \<and>
     (\<exists>e. e_out st' = e_out st @ e \<and> delimiter \<notin> set e \<and>
       (\<forall>rest. points_loop (e @ rest) mo nd i (e_bias st) out = points_loop rest mo nd' i' (e_bias st') out'))"

lemma advances_refl: "length (e_out st) \<le> max_out \<Longrightarrow> 0x80 \<le> nd \<Longrightarrow> advances mo max_out nd i st out nd i st out"
  by (simp add: advances_def)

lemma advances_trans:
  assumes "advances mo max_out nd i st out nd1 i1 st1 out1" and "advances mo max_out nd1 i1 st1 out1 nd2 i2 st2 out2"
  shows "advances mo max_out nd i st out nd2 i2 st2 out2"
proof -
  from assms obtain e1 e2 where e: "e_out st1 = e_out st @ e1" "delimiter \<notin> set e1" "e_out st2 = e_out st1 @ e2" "delimiter \<notin> set e2"
    "\<And>rest. points_loop (e1 @ rest) mo nd i (e_bias st) out = points_loop rest mo nd1 i1 (e_bias st1) out1"
    "\<And>rest. points_loop (e2 @ rest) mo nd1 i1 (e_bias st1) out1 = points_loop rest mo nd2 i2 (e_bias st2) out2"
    unfolding advances_def by blast
  then have "points_loop ((e1 @ e2) @ rest) mo nd i (e_bias st) out = points_loop rest mo nd2 i2 (e_bias st2) out2" for rest
    by simp
  moreover have "e_out st2 = e_out st @ (e1 @ e2)" "delimiter \<notin> set (e1 @ e2)" using e by simp_all
  ultimately show ?thesis using assms(2) unfolding advances_def by blast
qed

text \<open>The delta does not matter to the decoder.\<close>

lemma advances_delta:
  "advances mo max_out nd i (st\<lparr>e_delta := d\<rparr>) out nd' i' st' out' = advances mo max_out nd i st out nd' i' st' out'"
  "advances mo max_out nd i st out nd' i' (st'\<lparr>e_delta := d\<rparr>) out' = advances mo max_out nd i st out nd' i' st' out'"
  by (simp_all add: advances_def)

lemma encode_point:
  assumes inv: "pass_inv n xs (n # ys) b nd i st" and "0x80 \<le> nd" and len: "length (xs @ n # ys) \<le> L"
    and big: "35 * (n * (L + 1)) \<le> maxint" and "L \<le> mo"
    and put: "put_delta (e_delta st) 36 (e_bias st) max_out (e_out st) = Some (Inr out)" and "length out \<le> max_out"
  defines "st1 \<equiv> \<lparr>e_delta = 0, e_h = e_h st + 1, e_bias = adapt (e_delta st) (e_h st + 1) (e_h st = b), e_out = out\<rparr>"
  defines "i1 \<equiv> length (filter (\<lambda>c. c \<le> n) xs) + 1"
  shows "pass_inv n (xs @ [n]) ys b n i1 st1" and "0x80 \<le> n"
    and "advances mo max_out nd i st (handled n xs (n # ys)) n i1 st1 (handled n (xs @ [n]) ys)"
proof -
  have "i + e_delta st < n * (L + 1)" using pass_bound [OF inv assms(2) len] .
  then have "i + e_delta st * 1 \<le> maxint" "35 * (e_delta st * 1) \<le> maxint" using big by linarith+
  from put_get_delta [OF put _ this] obtain e where e: "out = e_out st @ e" "e \<noteq> []"
    "\<And>rest. get_delta (e @ rest) i 1 36 (e_bias st) = Inr (i + e_delta st, rest)" "delimiter \<notin> set e" by auto
  have "length (handled n xs (n # ys)) < L" using len length_handled [of n xs ys] by (simp add: handled_def)
  then have room: "length (handled n xs (n # ys)) < mo" using assms(5) by simp
  have "n \<le> maxint" using big by simp
  note step = points_step [OF inv assms(2) this room e(2,3)]
  show n: "0x80 \<le> n" using assms(2) inv by (simp add: pass_inv_def)
  show "pass_inv n (xs @ [n]) ys b n i1 st1" using inv by (simp add: pass_inv_def handled_def st1_def i1_def)
  show "advances mo max_out nd i st (handled n xs (n # ys)) n i1 st1 (handled n (xs @ [n]) ys)"
    unfolding advances_def using n assms(7) step e(1,4) by (auto simp: st1_def i1_def)
qed

lemma encode_pass_sound:
  assumes "pass_inv n xs ys b nd i st" and "0x80 \<le> nd" and "length (xs @ ys) \<le> L" and "35 * (n * (L + 1)) \<le> maxint"
    and "L \<le> mo" and "length (e_out st) \<le> max_out"
  shows "encode_pass ys n b max_out st = Some (Inl punycode_big_output) \<or>
    (\<exists>st' nd' i'. encode_pass ys n b max_out st = Some (Inr st') \<and> pass_inv n (xs @ ys) [] b nd' i' st' \<and>
      advances mo max_out nd i st (handled n xs ys) nd' i' st' (handled n (xs @ ys) []))"
  using assms
proof (induction ys arbitrary: xs nd i st)
  case Nil
  then have "advances mo max_out nd i st (handled n xs []) nd i st (handled n xs [])" by (intro advances_refl)
  with Nil.prems(1) show ?case by (simp, blast)
next
  case (Cons c ys)
  note inv = Cons.prems(1)
  have len: "length ((xs @ [c]) @ ys) \<le> L" using Cons.prems(3) by simp
  show ?case
  proof (cases "c = n")
    case False
    define d where "d = (if c < n then e_delta st + 1 else e_delta st)"
    have w: "u32_wrap (e_delta st + 1) = e_delta st + 1"
      using pass_bound [OF inv Cons.prems(2,3)] Cons.prems(4) by (intro u32_wrap_id) linarith
    have h: "handled n (xs @ [c]) ys = handled n xs (c # ys)" using False by (simp add: handled_def)
    have "i + e_delta st = (n - nd) * (e_h st + 1) + length (filter (\<lambda>c. c \<le> n) xs)" using inv by (simp only: pass_inv_def)
    moreover have "length (filter (\<lambda>c. c \<le> n) (xs @ [c])) = length (filter (\<lambda>c. c \<le> n) xs) + (if c < n then 1 else 0)"
      using False by simp
    moreover have "d = e_delta st + (if c < n then 1 else 0)" by (simp add: d_def)
    ultimately have "i + d = (n - nd) * (e_h st + 1) + length (filter (\<lambda>c. c \<le> n) (xs @ [c]))" by linarith
    then have "pass_inv n (xs @ [c]) ys b nd i (st\<lparr>e_delta := d\<rparr>)" using inv h unfolding pass_inv_def by simp
    moreover have "encode_pass (c # ys) n b max_out st = encode_pass ys n b max_out (st\<lparr>e_delta := d\<rparr>)"
      using False w by (simp add: d_def)
    ultimately show ?thesis
      using Cons.IH [of "xs @ [c]" nd i "st\<lparr>e_delta := d\<rparr>"] Cons.prems(2,4-6) len h by (simp add: advances_delta)
  next
    case True
    from put_delta_total [of "e_delta st" 36 "e_bias st" max_out "e_out st"] consider
      "put_delta (e_delta st) 36 (e_bias st) max_out (e_out st) = Some (Inl punycode_big_output)"
      | out where "put_delta (e_delta st) 36 (e_bias st) max_out (e_out st) = Some (Inr out)" "length out \<le> max_out" by auto
    then show ?thesis
    proof cases
      case 1
      then show ?thesis using True by simp
    next
      case (2 out)
      define st1 where "st1 = \<lparr>e_delta = 0, e_h = e_h st + 1, e_bias = adapt (e_delta st) (e_h st + 1) (e_h st = b), e_out = out\<rparr>"
      define i1 where "i1 = length (filter (\<lambda>c. c \<le> n) xs) + 1"
      note q = encode_point [OF inv [unfolded True] Cons.prems(2) Cons.prems(3) [unfolded True] Cons.prems(4,5) 2, folded st1_def i1_def]
      have "encode_pass (c # ys) n b max_out st = encode_pass ys n b max_out st1" "length (e_out st1) \<le> max_out"
        using 2 True by (simp_all add: st1_def)
      with Cons.IH [OF q(1,2) _ Cons.prems(4,5)] len True show ?thesis
        by (auto intro: advances_trans [OF q(3)])
    qed
  qed
qed

section \<open>All passes\<close>

lemma next_point_fold:
  fixes m0 n :: nat
  defines "f \<equiv> \<lambda>m c. if c \<ge> n \<and> c < m then c else m"
  shows "(foldl f m0 input = m0 \<or> foldl f m0 input \<in> set input \<and> n \<le> foldl f m0 input) \<and> foldl f m0 input \<le> m0 \<and>
    (\<forall>c\<in>set input. n \<le> c \<longrightarrow> foldl f m0 input \<le> c)"
proof (induction input arbitrary: m0)
  case (Cons c input)
  from Cons [of "f m0 c"] show ?case by (auto simp: f_def split: if_splits)
qed simp

lemma next_point_least:
  assumes "c \<in> set input" and "n \<le> c" and "c < maxint"
  shows "next_point input n \<in> set input" and "n \<le> next_point input n"
    and "\<And>c. c \<in> set input \<Longrightarrow> n \<le> c \<Longrightarrow> next_point input n \<le> c"
  using next_point_fold [of n maxint input] assms unfolding next_point_def by auto

lemma pass_start:
  assumes "pass_inv n [] s b nd i st" and "n \<le> m" and "\<And>c. c \<in> set s \<Longrightarrow> n \<le> c \<Longrightarrow> m \<le> c"
  shows "pass_inv m [] s b nd i (st\<lparr>e_delta := e_delta st + (m - n) * (e_h st + 1)\<rparr>) \<and> handled m [] s = handled n [] s"
proof -
  have "filter (\<lambda>c. c < m) s = filter (\<lambda>c. c < n) s"
    using assms(2,3) by (intro filter_cong) (auto simp: not_less [symmetric])
  then have h: "handled m [] s = handled n [] s" by (simp add: handled_def)
  have "(m - nd) * (e_h st + 1) = (n - nd) * (e_h st + 1) + (m - n) * (e_h st + 1)"
    unfolding add_mult_distrib [symmetric] using assms(1,2) by (simp add: pass_inv_def)
  with assms(1,2) h show ?thesis unfolding pass_inv_def by (simp del: mult_Suc_right add: add.assoc)
qed

lemma pass_end:
  assumes "pass_inv m s [] b nd i st"
  shows "pass_inv (m + 1) [] s b nd i (st\<lparr>e_delta := e_delta st + 1\<rparr>) \<and> handled m s [] = handled (m + 1) [] s"
proof -
  have h: "handled m s [] = handled (m + 1) [] s" by (simp add: handled_def less_Suc_eq_le)
  have "length (filter (\<lambda>c. c \<le> m) s) = e_h st" using assms by (simp add: pass_inv_def handled_def)
  moreover have "Suc m - nd = Suc (m - nd)" using assms by (simp add: pass_inv_def Suc_diff_le)
  ultimately show ?thesis using assms h by (simp add: pass_inv_def)
qed

lemma filter_le_more: "m \<in> set s \<Longrightarrow> length (filter (\<lambda>c. c < m) s) < length (filter (\<lambda>c. c \<le> m) s)" for m :: nat
proof (induction s)
  case (Cons c s)
  have "length (filter (\<lambda>c. c < m) s) \<le> length (filter (\<lambda>c. c \<le> m) s)" by (induction s) auto
  with Cons show ?case by auto
qed simp

text \<open>As long as a code point is left, the next one is found and its pass does not overflow.\<close>

lemma next_left:
  assumes inv: "pass_inv n [] s b nd i st" and "e_h st < length s" and small: "\<And>c. c \<in> set s \<Longrightarrow> c < maxint"
  shows "next_point s n \<in> set s" and "n \<le> next_point s n" and "\<And>c. c \<in> set s \<Longrightarrow> n \<le> c \<Longrightarrow> next_point s n \<le> c"
proof -
  have "filter (\<lambda>c. c < n) s \<noteq> s" using assms(1,2) by (auto simp: pass_inv_def handled_def)
  then obtain c where "c \<in> set s" "n \<le> c" by (auto simp: filter_id_conv not_less)
  from next_point_least [OF this small [OF this(1)]]
  show "next_point s n \<in> set s" "n \<le> next_point s n" "\<And>c. c \<in> set s \<Longrightarrow> n \<le> c \<Longrightarrow> next_point s n \<le> c" by blast+
qed

lemma bind_case: "Option.bind x f = (case x of None \<Rightarrow> None | Some y \<Rightarrow> f y)"
  by (cases x) simp_all

lemma encode_round:
  assumes inv: "pass_inv n [] s b nd i st" and nd: "0x80 \<le> nd" and more: "e_h st < length s"
    and small: "\<And>c. c \<in> set s \<Longrightarrow> 35 * (c * (length s + 1)) \<le> maxint" and mo: "length s \<le> mo"
    and out: "length (e_out st) \<le> max_out"
  shows "deltas_loop s n b max_out st = Some (Inl punycode_big_output) \<or>
    (\<exists>m st' nd' i'. deltas_loop s n b max_out st = deltas_loop s m b max_out st' \<and> e_h st < e_h st' \<and>
      pass_inv m [] s b nd' i' st' \<and> advances mo max_out nd i st (handled n [] s) nd' i' st' (handled m [] s))"
proof -
  define m where "m = next_point s n"
  define st1 where "st1 = st\<lparr>e_delta := e_delta st + (m - n) * (e_h st + 1)\<rparr>"
  have "c < maxint" if "c \<in> set s" for c using small [OF that] by simp
  note m = next_left [OF inv more this, folded m_def]
  have inv1: "pass_inv m [] s b nd i st1" and h1: "handled m [] s = handled n [] s"
    using pass_start [OF inv m(2,3)] by (simp_all add: st1_def)
  have mb: "35 * (m * (length s + 1)) \<le> maxint" by (rule small [OF m(1)])
  have "i + e_delta st1 < m * (length s + 1)" using pass_bound [OF inv1 nd, of "length s"] by simp
  then have "(m - n) * (e_h st + 1) \<le> maxint - e_delta st" using mb by (simp add: st1_def)
  then have guard: "\<not> m - n > (maxint - e_delta st) div (e_h st + 1)"
    by (simp only: not_less) (simp add: less_eq_div_iff_mult_less_eq)
  have loop: "deltas_loop s n b max_out st = (case encode_pass s m b max_out st1 of None \<Rightarrow> None
      | Some (Inl e) \<Rightarrow> Some (Inl e)
      | Some (Inr st) \<Rightarrow> deltas_loop s (u32_wrap (m + 1)) b max_out (st\<lparr>e_delta := u32_wrap (e_delta st + 1)\<rparr>))"
    using more guard by (subst deltas_loop.simps) (simp add: Let_def bind_case st1_def m_def split: option.split sum.split)
  have "length (e_out st1) \<le> max_out" using out by (simp add: st1_def)
  from encode_pass_sound [OF inv1 nd _ mb mo this] consider
    "encode_pass s m b max_out st1 = Some (Inl punycode_big_output)"
    | st2 nd2 i2 where "encode_pass s m b max_out st1 = Some (Inr st2)" "pass_inv m s [] b nd2 i2 st2"
      "advances mo max_out nd i st1 (handled m [] s) nd2 i2 st2 (handled m s [])" by auto
  then show ?thesis
  proof cases
    case 1
    then show ?thesis by (simp add: loop)
  next
    case (2 st2 nd2 i2)
    have nd2: "0x80 \<le> nd2" using 2(3) by (simp add: advances_def)
    have "i2 + e_delta st2 < m * (length s + 1)" using pass_bound [OF 2(2) nd2, of "length s"] by simp
    then have w: "u32_wrap (m + 1) = m + 1" "u32_wrap (e_delta st2 + 1) = e_delta st2 + 1" using mb by simp_all
    have "e_h st2 = length (filter (\<lambda>c. c \<le> m) s)" "e_h st = length (filter (\<lambda>c. c < m) s)"
      using 2(2) inv1 by (simp_all add: st1_def pass_inv_def handled_def)
    then have more': "e_h st < e_h (st2\<lparr>e_delta := e_delta st2 + 1\<rparr>)" using filter_le_more [OF m(1)] by simp
    have go: "deltas_loop s n b max_out st = deltas_loop s (m + 1) b max_out (st2\<lparr>e_delta := e_delta st2 + 1\<rparr>)"
      using w by (simp add: loop 2(1))
    have "advances mo max_out nd i st (handled n [] s) nd2 i2 (st2\<lparr>e_delta := e_delta st2 + 1\<rparr>) (handled (m + 1) [] s)"
      using 2(3) h1 pass_end [OF 2(2)] by (simp add: advances_delta st1_def)
    then show ?thesis using pass_end [OF 2(2)] go more' by blast
  qed
qed

lemma deltas_loop_sound:
  assumes "pass_inv n [] s b nd i st" and "0x80 \<le> nd" and small: "\<And>c. c \<in> set s \<Longrightarrow> 35 * (c * (length s + 1)) \<le> maxint"
    and mo: "length s \<le> mo" and "length (e_out st) \<le> max_out"
  shows "deltas_loop s n b max_out st = Some (Inl punycode_big_output) \<or>
    (\<exists>e. deltas_loop s n b max_out st = Some (Inr (e_out st @ e)) \<and> length (e_out st @ e) \<le> max_out \<and>
      delimiter \<notin> set e \<and> points_loop e mo nd i (e_bias st) (handled n [] s) = Inr s)"
  using assms(1,2,5)
proof (induction "length s - e_h st" arbitrary: n nd i st rule: less_induct)
  case less
  show ?case
  proof (cases "e_h st < length s")
    case False
    have "e_h st = length (filter (\<lambda>c. c < n) s)" using less.prems(1) by (simp add: pass_inv_def handled_def)
    then have "length (filter (\<lambda>c. c < n) s) = length s" using False length_filter_le [of "\<lambda>c. c < n" s] by linarith
    then have "filter (\<lambda>c. c < n) s = s" by (metis length_filter_less less_irrefl filter_True)
    then have "handled n [] s = s" by (simp add: handled_def)
    then show ?thesis using False less.prems(3)
      by (intro disjI2 exI [of _ "[]"]) (simp add: deltas_loop.simps points_loop.simps)
  next
    case True
    from encode_round [OF less.prems(1,2) True small mo less.prems(3)] consider
      "deltas_loop s n b max_out st = Some (Inl punycode_big_output)"
      | m st' nd' i' where "deltas_loop s n b max_out st = deltas_loop s m b max_out st'" "e_h st < e_h st'"
        "pass_inv m [] s b nd' i' st'" "advances mo max_out nd i st (handled n [] s) nd' i' st' (handled m [] s)" by blast
    then show ?thesis
    proof cases
      case (2 m st' nd' i')
      then obtain e where e: "length (e_out st') \<le> max_out" "0x80 \<le> nd'" "e_out st' = e_out st @ e" "delimiter \<notin> set e"
        "\<And>rest. points_loop (e @ rest) mo nd i (e_bias st) (handled n [] s) =
          points_loop rest mo nd' i' (e_bias st') (handled m [] s)" unfolding advances_def by blast
      have "length s - e_h st' < length s - e_h st" using 2(2) True by linarith
      from less.hyps [OF this 2(3) e(2,1)] show ?thesis
      proof (elim disjE exE conjE)
        fix e'
        assume "deltas_loop s m b max_out st' = Some (Inr (e_out st' @ e'))" "length (e_out st' @ e') \<le> max_out"
          "delimiter \<notin> set e'" "points_loop e' mo nd' i' (e_bias st') (handled m [] s) = Inr s"
        then show ?thesis using 2(1) e(3-5) by (intro disjI2 exI [of _ "e @ e'"]) simp
      qed (simp add: 2(1))
    qed simp
  qed
qed

section \<open>Whole labels\<close>

lemma copy_basic_sound:
  assumes "length out \<le> max_out" and "max_out < SIZE_MODULUS"
  shows "copy_basic input max_out out = Some (Inl punycode_big_output) \<or>
    copy_basic input max_out out = Some (Inr (out @ map of_nat (filter (\<lambda>c. c < 0x80) input))) \<and>
    (filter (\<lambda>c. c < 0x80) input \<noteq> [] \<longrightarrow> length out + length (filter (\<lambda>c. c < 0x80) input) < max_out)"
  using assms
proof (induction input arbitrary: out)
  case (Cons c input)
  show ?case
  proof (cases "c < 0x80 \<and> 2 \<le> max_out - length out")
    case True
    with Cons.prems Cons.IH [of "out @ [of_nat c]"] show ?thesis by (auto simp: emit_def)
  next
    case False
    with Cons show ?thesis by auto
  qed
qed simp

lemma last_delimiter_snoc: "last_delimiter (xs @ [x]) = (if x = delimiter then length xs else last_delimiter xs)"
proof -
  have "foldl (\<lambda>b j. if (xs @ [x]) ! j = delimiter then j else b) 0 [0..<length xs] =
      foldl (\<lambda>b j. if xs ! j = delimiter then j else b) 0 [0..<length xs]"
    by (rule foldl_cong) (auto simp: nth_append)
  then show ?thesis by (simp add: last_delimiter_def)
qed

lemma last_delimiter_none: "delimiter \<notin> set e \<Longrightarrow> last_delimiter e = 0"
proof (induction e rule: rev_induct)
  case Nil
  show ?case by (simp add: last_delimiter_def)
qed (simp add: last_delimiter_snoc)

lemma last_delimiter_append: "delimiter \<notin> set e \<Longrightarrow> last_delimiter (xs @ delimiter # e) = length xs"
proof (induction e rule: rev_induct)
  case Nil
  show ?case by (simp add: last_delimiter_snoc)
next
  case (snoc x e)
  then show ?case using last_delimiter_snoc [of "xs @ delimiter # e" x] by simp
qed

lemma basic_chars: "list_all (\<lambda>c. c < 128) cs \<Longrightarrow> map (uint_of_char \<circ> of_nat) cs = cs"
  by (induction cs) (simp_all add: uint_of_char_small)

text \<open>Decoding a label whose variable-length part decodes from the basic code points.\<close>

lemma decode_label:
  assumes "list_all (\<lambda>c. c < 128) basics" and "delimiter \<notin> set e" and "length basics \<le> mo" and "mo \<le> maxint"
    and "points_loop e mo initial_n 0 initial_bias basics = Inr s"
  shows "punycode_decode (map of_nat basics @ (if basics = [] then [] else [delimiter]) @ e) mo = Inr s"
proof (cases "basics = []")
  case True
  then show ?thesis using assms by (simp add: punycode_decode_def last_delimiter_none)
next
  case False
  let ?i = "map of_nat basics @ delimiter # e :: bytes"
  have b: "last_delimiter ?i = length basics" using last_delimiter_append [OF assms(2), of "map of_nat basics"] by simp
  have m: "map uint_of_char (map of_nat basics :: bytes) = basics" using basic_chars [OF assms(1)] by simp
  then have "\<not> list_ex (\<lambda>c. \<not> uint_of_char c < 128) (map of_nat basics :: bytes)"
    using assms(1) by (auto simp: list_ex_iff list_all_iff uint_of_char_small)
  then show ?thesis using False b m assms(3-5) by (simp add: punycode_decode_def)
qed

lemma encode_label:
  assumes small: "\<And>c. c \<in> set s \<Longrightarrow> 35 * (c * (length s + 1)) \<le> maxint" and "length s \<le> mo" and "mo \<le> maxint"
    and "max_out < SIZE_MODULUS"
  shows "punycode_encode s max_out = Some (Inl punycode_big_output) \<or>
    (\<exists>e. punycode_encode s max_out = Some (Inr e) \<and> length e \<le> max_out \<and> punycode_decode e mo = Inr s)"
proof -
  let ?b = "filter (\<lambda>c. c < 0x80) s"
  from copy_basic_sound [of "[]" max_out s] assms(4) consider "copy_basic s max_out [] = Some (Inl punycode_big_output)"
    | "copy_basic s max_out [] = Some (Inr (map of_nat ?b))" "?b \<noteq> [] \<longrightarrow> length ?b < max_out" by auto
  then show ?thesis
  proof cases
    case 1
    then show ?thesis using assms(2,3) by (simp add: punycode_encode_def)
  next
    case 2
    define out where "out = map of_nat ?b @ (if ?b = [] then [] else [delimiter])"
    define st where "st = \<lparr>e_delta = 0, e_h = length ?b, e_bias = initial_bias, e_out = out\<rparr>"
    have out: "length out \<le> max_out" using 2(2) by (auto simp: out_def)
    have enc: "punycode_encode s max_out = deltas_loop s initial_n (length ?b) max_out st"
      using 2 assms(2,3) by (auto simp: punycode_encode_def emit_def st_def out_def Let_def)
    have "pass_inv initial_n [] s (length ?b) initial_n 0 st" by (simp add: pass_inv_def handled_def st_def)
    have out': "length (e_out st) \<le> max_out" using out by (simp add: st_def)
    consider "deltas_loop s initial_n (length ?b) max_out st = Some (Inl punycode_big_output)"
      | e where "deltas_loop s initial_n (length ?b) max_out st = Some (Inr (e_out st @ e))" "length (e_out st @ e) \<le> max_out"
        "delimiter \<notin> set e" "points_loop e mo initial_n 0 (e_bias st) (handled initial_n [] s) = Inr s"
      using deltas_loop_sound [OF \<open>pass_inv initial_n [] s (length ?b) initial_n 0 st\<close> order_refl _ assms(2) out'] small by blast
    then show ?thesis
    proof cases
      case (2 e)
      have "length ?b \<le> mo" using assms(2) length_filter_le [of "\<lambda>c. c < 0x80" s] by linarith
      then have "punycode_decode (out @ e) mo = Inr s"
        using decode_label [of ?b e mo s] 2(3,4) assms(3) by (auto simp: out_def st_def handled_def list_all_iff)
      then show ?thesis using 2(1,2) by (simp add: enc st_def)
    qed (simp add: enc)
  qed
qed

lemma points_loop_bounds:
  "points_loop input mo n i bias out = Inr s \<Longrightarrow> length out \<le> mo \<Longrightarrow> length s \<le> mo \<and> length s \<le> length out + length input"
proof (induction input mo n i bias out rule: points_loop.induct)
  case (1 input mo n i bias out)
  show ?case
  proof (cases "input = []")
    case True
    then show ?thesis using 1(2,3) by (simp add: points_loop.simps)
  next
    case False
    with 1(2) obtain i' rest where g: "get_delta input i 1 base bias = Inr (i', rest)"
      by (subst (asm) points_loop.simps) (auto split: sum.splits)
    let ?p = "i' mod (length out + 1)" and ?n = "n + i' div (length out + 1)"
    let ?out = "take ?p out @ ?n # drop ?p out"
    have p: "?p \<le> length out" using mod_less_divisor [of "length out + 1" i'] by linarith
    have step: "\<not> maxint - n < i' div (length out + 1)" "length out < mo"
      "points_loop rest mo ?n (?p + 1) (adapt (i' - i) (length out + 1) (i = 0)) ?out = Inr s"
      using 1(2) False g by (auto simp: points_loop.simps [of input] Let_def split: if_splits)
    have "length s \<le> mo \<and> length s \<le> length ?out + length rest"
      by (rule 1(1) [OF False g refl refl step(1) refl refl _ step(3)]) (use step(2) p in simp_all)
    then show ?thesis using get_delta_shorter [OF g] p by simp
  qed
qed

text \<open>What a decodable label is made of: digits after the last delimiter, basic code points of the result before it.\<close>

lemma get_delta_digits:
  "get_delta input i w k bias = Inr (i', rest) \<Longrightarrow> c \<in> set input \<Longrightarrow> c \<notin> set rest \<Longrightarrow> decode_digit (uint_of_char c) < base"
  by (induction input i w k bias rule: get_delta.induct) (auto simp: Let_def split: if_splits)

lemma points_loop_digits:
  "points_loop input mo n i bias out = Inr s \<Longrightarrow> (\<forall>c \<in> set input. decode_digit (uint_of_char c) < base) \<and> set out \<subseteq> set s"
proof (induction input mo n i bias out rule: points_loop.induct)
  case (1 input mo n i bias out)
  show ?case
  proof (cases "input = []")
    case True
    then show ?thesis using 1(2) by (simp add: points_loop.simps)
  next
    case False
    with 1(2) obtain i' rest where g: "get_delta input i 1 base bias = Inr (i', rest)"
      by (subst (asm) points_loop.simps) (auto split: sum.splits)
    let ?p = "i' mod (length out + 1)" and ?n = "n + i' div (length out + 1)"
    have step: "\<not> maxint - n < i' div (length out + 1)" "\<not> mo \<le> length out"
      "points_loop rest mo ?n (?p + 1) (adapt (i' - i) (length out + 1) (i = 0)) (take ?p out @ ?n # drop ?p out) = Inr s"
      using 1(2) False g by (auto simp: points_loop.simps [of input] Let_def split: if_splits)
    have "(\<forall>c \<in> set rest. decode_digit (uint_of_char c) < base) \<and> set (take ?p out @ ?n # drop ?p out) \<subseteq> set s"
      by (rule 1(1) [OF False g refl refl step(1) refl refl step(2,3)])
    moreover have "set out = set (take ?p out) \<union> set (drop ?p out)" by (metis append_take_drop_id set_append)
    ultimately show ?thesis using get_delta_digits [OF g] by auto
  qed
qed

lemma last_delimiter_at:
  "last_delimiter input \<noteq> 0 \<Longrightarrow> last_delimiter input < length input \<and> input ! last_delimiter input = delimiter"
proof (induction input rule: rev_induct)
  case Nil
  then show ?case by (simp add: last_delimiter_def)
next
  case (snoc x xs)
  then show ?case by (cases "x = delimiter") (auto simp: last_delimiter_snoc nth_append)
qed

lemma last_delimiter_bound: "last_delimiter input \<le> length input"
  using last_delimiter_at [of input] by fastforce

lemma decode_bounds:
  assumes "punycode_decode input output_length = Inr s"
  shows "length s \<le> output_length \<and> length s \<le> length input"
proof -
  let ?b = "last_delimiter input" and ?mo = "if output_length > maxint then maxint else output_length"
  have b: "?b \<le> length input" by (rule last_delimiter_bound)
  have d: "points_loop (if 0 < ?b then drop (?b + 1) input else input) ?mo initial_n 0 initial_bias
      (map uint_of_char (take ?b input)) = Inr s" and le: "?b \<le> ?mo"
    using assms by (simp_all only: punycode_decode_def Let_def split: if_splits) (simp_all split: if_splits)
  from points_loop_bounds [OF d] le b show ?thesis by (auto split: if_splits)
qed

lemma decode_parts:
  assumes "punycode_decode input output_length = Inr s"
  obtains (plain) "\<forall>c \<in> set input. decode_digit (uint_of_char c) < base"
  | (parts) basics e where "input = basics @ delimiter # e" "basics \<noteq> []" "\<forall>c \<in> set e. decode_digit (uint_of_char c) < base"
      "\<forall>c \<in> set basics. uint_of_char c < 0x80" "uint_of_char ` set basics \<subseteq> set s" "e = [] \<Longrightarrow> s = map uint_of_char basics"
proof -
  let ?b = "last_delimiter input" and ?mo = "if output_length > maxint then maxint else output_length"
  have d: "points_loop (if 0 < ?b then drop (?b + 1) input else input) ?mo initial_n 0 initial_bias
      (map uint_of_char (take ?b input)) = Inr s" and small: "\<forall>c \<in> set (take ?b input). uint_of_char c < 0x80"
    using assms by (simp_all only: punycode_decode_def Let_def split: if_splits) (auto simp: list_ex_iff split: if_splits)
  show thesis
  proof (cases "?b = 0")
    case True
    then show ?thesis using points_loop_digits [OF d] plain by simp
  next
    case False
    then have "?b < length input \<and> input ! ?b = delimiter" by (rule last_delimiter_at)
    then have i: "input = take ?b input @ delimiter # drop (?b + 1) input" using id_take_nth_drop [of ?b input] by simp
    have "drop (?b + 1) input = [] \<Longrightarrow> s = map uint_of_char (take ?b input)" using d False by (simp add: points_loop.simps)
    moreover have "\<forall>c \<in> set (drop (?b + 1) input). decode_digit (uint_of_char c) < base"
      "uint_of_char ` set (take ?b input) \<subseteq> set s" using points_loop_digits [OF d] False by simp_all
    moreover have "take ?b input \<noteq> []" using False \<open>?b < length input \<and> _\<close> by (cases input) auto
    ultimately show ?thesis using parts [OF i] small by blast
  qed
qed

lemma decode_nonzero: "punycode_decode input output_length = Inr s \<Longrightarrow> 0 \<notin> set s \<Longrightarrow> 0 \<notin> set input"
proof (elim decode_parts)
  have z: "uint_of_char 0 = 0" "\<not> decode_digit 0 < base" by (simp_all add: uint_of_char_def decode_digit_def u32_sub_def)
  assume "\<forall>c \<in> set input. decode_digit (uint_of_char c) < base"
  then show "0 \<notin> set input" using z by (metis (no_types, lifting))
next
  have z: "uint_of_char 0 = 0" "\<not> decode_digit 0 < base" by (simp_all add: uint_of_char_def decode_digit_def u32_sub_def)
  fix basics e
  assume "0 \<notin> set s" "input = basics @ delimiter # e" "\<forall>c \<in> set e. decode_digit (uint_of_char c) < base"
    "uint_of_char ` set basics \<subseteq> set s"
  then show "0 \<notin> set input" using z by (force simp: image_subset_iff)
qed

lemma ascii_point_small: "length s \<le> 100 \<Longrightarrow> c \<le> 0x10FFFF \<Longrightarrow> 35 * (c * (length s + 1)) \<le> maxint"
  using mult_le_mono [of c "0x10FFFF" "length s + 1" 101] by simp

lemma ace_array:
  assumes "length p < n"
  shows "mem_write 0 p (replicate n j) = Some (p @ replicate (n - length p) j)"
    and "mem_write (length p) [0] (p @ replicate (n - length p) j) = Some (p @ 0 # replicate (n - length p - 1) j)"
  using assms by (simp_all add: mem_write_def)

lemma length_ace_prefix [simp]: "length ace_prefix = 4"
  by (simp add: ace_prefix_def)

lemma label_encodes:
  assumes "length s \<le> 100" and "\<forall>c \<in> set s. 0 < c \<and> c \<le> 0x10FFFF" and "punycode_encode s 60 \<noteq> Some (Inl punycode_big_output)"
  obtains e where "punycode_encode s 60 = Some (Inr e)" "length e \<le> 60" "punycode_decode e (length e + 4) = Inr s"
proof -
  have small: "\<And>c. c \<in> set s \<Longrightarrow> 35 * (c * (length s + 1)) \<le> maxint" using ascii_point_small [OF assms(1)] assms(2) by blast
  obtain e where e: "punycode_encode s 60 = Some (Inr e)" "length e \<le> 60" "punycode_decode e (length s) = Inr s"
    using encode_label [of s "length s" 60] small assms(1,3) by force
  then have "length s \<le> length e + 4" using decode_bounds by fastforce
  then have "punycode_decode e (length e + 4) = Inr s" using encode_label [of s "length e + 4" 60] small e(1,2) by force
  with e show thesis using that by blast
qed

lemma ucs4_to_ace_label:
  assumes "punycode_encode s 60 = Some (Inr e)" and "length e \<le> 60" and "0 \<notin> set e" and "\<forall>n. malloc_ok h n = (n \<le> PTRDIFF_MAX)"
  shows "idna__ucs4_to_ace h s = Some (Inr (Some (ace_prefix @ e), length e + 4))"
proof -
  have z: "0 \<notin> set (ace_prefix @ e)" using assms(3) by (simp add: ace_prefix_def)
  show ?thesis using assms(1,2,4) strlen_append [OF z] ace_array [of "ace_prefix @ e" 65 "heap_junk h"]
    by (simp add: idna__ucs4_to_ace_def add.commute Let_def)
qed

lemma ace_to_ucs4_label:
  assumes "punycode_decode e (length e + 4) = Inr s" and "length e \<le> 60" and "\<forall>n. malloc_ok h n = (n \<le> PTRDIFF_MAX)"
  shows "idna__ace_to_ucs4 h (ace_prefix @ e) = Some (Inr s)"
  using assms decode_bounds [OF assms(1)] by (simp add: idna__ace_to_ucs4_def add.commute [of 4])

section \<open>Properties\<close>

text \<open>C12: The Punycode decoder inverts the encoder. A label of at most 100 Unicode code points is encoded without an
  arithmetic overflow and without a write outside the output array, the encoder's loops end, and either the output array is
  too short or the encoding fits it and decodes to the label.\<close>

theorem punycode_roundtrip:
  assumes "length s \<le> 100" and "\<forall>c \<in> set s. c \<le> 0x10FFFF" and "max_out < SIZE_MODULUS"
    and "length s \<le> output_length" and "output_length \<le> maxint"
  shows "punycode_encode s max_out = Some (Inl punycode_big_output) \<or>
    (\<exists>e. punycode_encode s max_out = Some (Inr e) \<and> length e \<le> max_out \<and> punycode_decode e output_length = Inr s)"
  using encode_label [of s output_length max_out] ascii_point_small [OF assms(1)] assms(2-5) by blast

theorem punycode_roundtrip_witness:
  "\<exists>e. punycode_encode [0x62, 0xFC, 0x63, 0x68] 60 = Some (Inr e) \<and> punycode_decode e 4 = Inr [0x62, 0xFC, 0x63, 0x68]"
proof -
  have "punycode_encode [0x62, 0xFC, 0x63, 0x68] 60 = Some (Inr [0x62, 0x63, 0x68, 0x2D, 0x68, 0x6F, 0x61])"
    by (simp add: punycode_encode_def emit_def deltas_loop.simps next_point_def put_delta.simps encode_digit_def adapt_def
        adapt_loop.simps threshold_def)
  then show ?thesis using punycode_roundtrip [of "[0x62, 0xFC, 0x63, 0x68]" 60 4] by simp
qed

text \<open>The Punycode decoder stays inside its arrays on every input: the number of code points it stores is at most the
  number the caller has room for, and at most the number of input bytes.\<close>

theorem punycode_decode_bounded:
  assumes "punycode_decode input output_length = Inr s"
  shows "length s \<le> output_length \<and> length s \<le> length input"
  by (rule decode_bounds [OF assms])

theorem punycode_decode_bounded_witness:
  "punycode_decode [0x74, 0x64, 0x61] 4 = Inr [0xFC] \<and> length [0xFC :: nat] \<le> 4"
proof -
  have "punycode_decode [0x74, 0x64, 0x61] 4 = Inr [0xFC]"
    by (simp add: punycode_decode_def last_delimiter_def upt_rec uint_of_char_def points_loop.simps decode_digit_def u32_sub_def
        threshold_def adapt_def adapt_loop.simps)
  with punycode_decode_bounded [OF this] show ?thesis by simp
qed

text \<open>A host label of at most 100 Unicode code points, none of them zero, becomes an ACE label inside the 65-byte array
  and back: the conversion to ACE reports an oversized label or returns the prefix xn-- followed by at most 60 bytes, and the
  conversion of that label from ACE returns the code points, the final zero included inside its array.\<close>

theorem idna_label_roundtrip:
  assumes "length s \<le> 100" and "\<forall>c \<in> set s. 0 < c \<and> c \<le> 0x10FFFF" and "\<forall>n. malloc_ok h n = (n \<le> PTRDIFF_MAX)"
  shows "idna__ucs4_to_ace h s = Some (Inl NSERROR_BAD_SIZE) \<or>
    (\<exists>e. idna__ucs4_to_ace h s = Some (Inr (Some (ace_prefix @ e), length e + 4)) \<and> length e \<le> 60 \<and>
         idna__ace_to_ucs4 h (ace_prefix @ e) = Some (Inr s))"
proof (cases "punycode_encode s 60 = Some (Inl punycode_big_output)")
  case True
  then show ?thesis by (simp add: idna__ucs4_to_ace_def punycode_status_to_nserror_def)
next
  case False
  then obtain e where e: "punycode_encode s 60 = Some (Inr e)" "length e \<le> 60" "punycode_decode e (length e + 4) = Inr s"
    by (rule label_encodes [OF assms(1,2)])
  have "0 \<notin> set s" using assms(2) by blast
  then have "0 \<notin> set e" by (rule decode_nonzero [OF e(3)])
  then show ?thesis using ucs4_to_ace_label [OF e(1,2)] ace_to_ucs4_label [OF e(3,2)] assms(3) e(2) by blast
qed

theorem idna_label_roundtrip_witness:
  "\<exists>e. idna__ucs4_to_ace heap_all [0xFC] = Some (Inr (Some (ace_prefix @ e), length e + 4)) \<and>
       idna__ace_to_ucs4 heap_all (ace_prefix @ e) = Some (Inr [0xFC])"
proof -
  have "punycode_encode [0xFC] 60 = Some (Inr [0x74, 0x64, 0x61])"
    by (simp add: punycode_encode_def emit_def deltas_loop.simps next_point_def put_delta.simps encode_digit_def adapt_def
        adapt_loop.simps threshold_def)
  then have "idna__ucs4_to_ace heap_all [0xFC] \<noteq> Some (Inl NSERROR_BAD_SIZE)"
    by (simp add: idna__ucs4_to_ace_def mem_write_def ace_prefix_def Let_def heap_all_def)
  moreover have "\<forall>n. malloc_ok heap_all n = (n \<le> PTRDIFF_MAX)" by (simp add: malloc_ok_def heap_all_def)
  ultimately show ?thesis using idna_label_roundtrip [of "[0xFC]" heap_all] by auto
qed

end
