(* ===== verification/Idna.thy ===== *)
theory Idna
  imports Punycode
begin

text \<open>
  International host names: \<^verbatim>\<open>netsurf/utils/idna.c\<close>, in the build with utf8proc. A host name is cut into labels at its
  dots; a label of letters, digits and hyphens is kept, any other one is normalised, checked against the rules of
  IDNA2008 and turned into Punycode.

  The Unicode data are parameters, gathered in the record \<open>unicode\<close>: what utf8proc computes and the generated tables
  of \<^verbatim>\<open>netsurf/utils/idna_props.h\<close>. A host name in memory is the list of the bytes from the pointer on, so that
  reading past its end is \<open>None\<close>; so is reading a code point past the end of a label, which holds no defined value.
\<close>

section \<open>Unicode data\<close>

datatype idna_property = IDNA_P_PVALID | IDNA_P_CONTEXTJ | IDNA_P_CONTEXTO | IDNA_P_DISALLOWED | IDNA_P_UNASSIGNED

datatype idna_unicode_jt =
  IDNA_UNICODE_JT_U | IDNA_UNICODE_JT_C | IDNA_UNICODE_JT_D | IDNA_UNICODE_JT_R | IDNA_UNICODE_JT_T | IDNA_UNICODE_JT_L

text \<open>\<open>up_decompose\<close> is the full decomposition of a UTF-8 text and \<open>up_normalize\<close> the composition of code points,
  \<open>None\<close> where the library reports an error; \<open>up_encode\<close> writes code points in UTF-8.\<close>

record unicode =
  up_decompose :: "bytes \<Rightarrow> nat list option"
  up_normalize :: "nat list \<Rightarrow> nat list option"
  up_encode :: "nat list \<Rightarrow> bytes option"
  up_is_mark :: "nat \<Rightarrow> bool"
  up_combining_class :: "nat \<Rightarrow> nat"
  idna_derived :: "(nat \<times> nat \<times> idna_property) list"
  idna_joiningtype :: "(nat \<times> nat \<times> idna_unicode_jt) list"

fun table_find :: "'a \<Rightarrow> (nat \<times> nat \<times> 'a) list \<Rightarrow> nat \<Rightarrow> 'a" where
  "table_find d [] cp = d"
| "table_find d ((s, e, p) # t) cp = (if s \<le> cp \<and> cp \<le> e then p else table_find d t cp)"

definition idna__cp_property :: "unicode \<Rightarrow> nat \<Rightarrow> idna_property" where
  "idna__cp_property u cp = table_find IDNA_P_DISALLOWED (idna_derived u) cp"

definition idna__jt_property :: "unicode \<Rightarrow> nat \<Rightarrow> idna_unicode_jt" where
  "idna__jt_property u cp = table_find IDNA_UNICODE_JT_U (idna_joiningtype u) cp"

definition idna_contexto :: "nat list" where
  "idna_contexto =
     [0x00b7, 0x0375, 0x05f3, 0x05f4, 0x30fb, 0x0660, 0x0661, 0x0662, 0x0663, 0x0664, 0x0665, 0x0666, 0x0667, 0x0668,
      0x0669, 0x06f0, 0x06f1, 0x06f2, 0x06f3, 0x06f4, 0x06f5, 0x06f6, 0x06f7, 0x06f8, 0x06f9]"

definition idna__contexto_rule :: "nat \<Rightarrow> bool" where
  "idna__contexto_rule cp \<longleftrightarrow> List.member idna_contexto cp"

abbreviation IDNA_UNICODE_CCC_VIRAMA :: nat where "IDNA_UNICODE_CCC_VIRAMA \<equiv> 9"

section \<open>Checking a label\<close>

text \<open>A character that joins to the left, followed by a transparent one, before the character in question.\<close>

definition joins_before :: "unicode \<Rightarrow> nat list \<Rightarrow> nat \<Rightarrow> bool" where
  "joins_before u label index \<longleftrightarrow>
     list_ex (\<lambda>i. (idna__jt_property u (label ! i) = IDNA_UNICODE_JT_L \<or> idna__jt_property u (label ! i) = IDNA_UNICODE_JT_D) \<and>
                  idna__jt_property u (label ! (i + 1)) = IDNA_UNICODE_JT_T) [0..<index - 1]"

definition idna__contextj_rule :: "unicode \<Rightarrow> nat list \<Rightarrow> nat \<Rightarrow> bool option" where
  "idna__contextj_rule u label index =
     (if \<not> index < length label then None
      else if label ! index = 0x200c then
        if index = 0 then Some False
        else if up_combining_class u (label ! (index - 1)) = IDNA_UNICODE_CCC_VIRAMA then Some True
        else if \<not> joins_before u label index then Some False
        else if \<not> index + 1 < length label then None
        else if idna__jt_property u (label ! (index + 1)) \<noteq> IDNA_UNICODE_JT_T then Some False
        else Some (list_ex (\<lambda>c. idna__jt_property u c = IDNA_UNICODE_JT_R \<or> idna__jt_property u c = IDNA_UNICODE_JT_D)
                     (drop (index + 1) label))
      else if label ! index = 0x200d then
        if index = 0 then Some False
        else Some (up_combining_class u (label ! (index - 1)) = IDNA_UNICODE_CCC_VIRAMA)
      else Some False)"

lemma contextj_reads_past_end:
  "label ! index = 0x200c \<Longrightarrow> 0 < index \<Longrightarrow> index + 1 = length label \<Longrightarrow> joins_before u label index \<Longrightarrow>
   up_combining_class u (label ! (index - 1)) \<noteq> IDNA_UNICODE_CCC_VIRAMA \<Longrightarrow> idna__contextj_rule u label index = None"
  by (simp add: idna__contextj_rule_def)

text \<open>The loop over the code points, from position \<open>i\<close> on.\<close>

fun valid_loop :: "unicode \<Rightarrow> nat list \<Rightarrow> nat \<Rightarrow> nat list \<Rightarrow> bool option" where
  "valid_loop u label i [] = Some True"
| "valid_loop u label i (c # cs) =
     (let p = idna__cp_property u c in
      if p = IDNA_P_DISALLOWED then Some False
      else do {
        ok \<leftarrow> (if p = IDNA_P_CONTEXTJ then idna__contextj_rule u label i else Some True);
        if \<not> ok then Some False
        else if p = IDNA_P_CONTEXTO \<and> \<not> idna__contexto_rule c then Some False
        else if p = IDNA_P_UNASSIGNED then Some False
        else valid_loop u label (i + 1) cs
      })"

definition idna__is_valid :: "unicode \<Rightarrow> nat list \<Rightarrow> bool option" where
  "idna__is_valid u label =
     (if length label \<ge> 4 \<and> label ! 2 = 0x2d \<and> label ! 3 = 0x2d then Some False
      else if label = [] then None
      else if up_is_mark u (label ! 0) then Some False
      else valid_loop u label 0 label)"

section \<open>Conversions\<close>

text \<open>The array has as many elements as the label has bytes, but four times that number is passed as its size.\<close>

definition idna__utf8_to_ucs4 :: "unicode \<Rightarrow> heap \<Rightarrow> bytes \<Rightarrow> (nserror + nat list) option" where
  "idna__utf8_to_ucs4 u h utf8_label =
     (let len = length utf8_label in
      if \<not> malloc_ok h (size_wrap (len * 4)) then Some (Inl NSERROR_NOMEM)
      else case up_decompose u utf8_label of
          None \<Rightarrow> Some (Inl NSERROR_NOMEM)
        | Some cps \<Rightarrow>
            if \<not> length cps \<le> size_wrap (len * 4) div 4 then None
            else (case up_normalize u cps of None \<Rightarrow> Some (Inl NSERROR_NOMEM) | Some ucs4 \<Rightarrow> Some (Inr ucs4)))"

text \<open>The code points are normalised and encoded in place: the text and a final zero must fit in the array.\<close>

definition idna__ucs4_to_utf8 :: "unicode \<Rightarrow> heap \<Rightarrow> nat list \<Rightarrow> (nserror + bytes) option" where
  "idna__ucs4_to_utf8 u h ucs4_label =
     (let size = size_wrap (1 + length ucs4_label * 4) in
      if \<not> malloc_ok h size then Some (Inl NSERROR_NOMEM)
      else case up_normalize u ucs4_label of
          None \<Rightarrow> Some (Inl NSERROR_NOMEM)
        | Some nfc \<Rightarrow>
            (case up_encode u nfc of
               None \<Rightarrow> Some (Inl NSERROR_NOMEM)
             | Some utf8 \<Rightarrow> if length utf8 < size then Some (Inr utf8) else None))"

text \<open>An ACE label is decoded, normalised and encoded again.\<close>

definition idna__verify :: "unicode \<Rightarrow> heap \<Rightarrow> bytes \<Rightarrow> bool option" where
  "idna__verify u h label = do {
     r \<leftarrow> idna__ace_to_ucs4 h label;
     case r of
       Inl _ \<Rightarrow> Some False
     | Inr ucs4 \<Rightarrow>
         (case up_normalize u ucs4 of
            None \<Rightarrow> Some False
          | Some ucs4 \<Rightarrow> do {
              r \<leftarrow> idna__ucs4_to_ace h ucs4;
              case r of
                Inl _ \<Rightarrow> Some False
              | Inr (ace, ace_len) \<Rightarrow>
                  if length label \<noteq> ace_len then Some False
                  else (case ace of None \<Rightarrow> None | Some ace \<Rightarrow> Some (label = ace))
            })
   }"

section \<open>Host names\<close>

fun idna__host_label_length :: "bytes \<Rightarrow> nat \<Rightarrow> nat option" where
  "idna__host_label_length host max_length =
     (if max_length = 0 then Some 0
      else case host of
          [] \<Rightarrow> None
        | c # p \<Rightarrow>
            if c = 0x2E \<or> c = 0x3A \<or> c = 0 then Some 0
            else map_option Suc (idna__host_label_length p (max_length - 1)))"

declare idna__host_label_length.simps [simp del]

definition ldh_char :: "u8 \<Rightarrow> bool" where
  "ldh_char c \<longleftrightarrow> c = 0x2D \<or> 0x30 \<le> c \<and> c \<le> 0x39 \<or> 0x61 \<le> c \<and> c \<le> 0x7A \<or> 0x41 \<le> c \<and> c \<le> 0x5A"

definition idna__is_ldh :: "bytes \<Rightarrow> bool option" where
  "idna__is_ldh label =
     (if label = [] then None
      else if hd label = 0x2D \<or> last label = 0x2D then Some False
      else Some (list_all ldh_char label))"

text \<open>A comparison of bytes in memory that stops at the first difference.\<close>

fun starts_with :: "bytes \<Rightarrow> bytes \<Rightarrow> bool option" where
  "starts_with mem [] = Some True"
| "starts_with [] (x # xs) = None"
| "starts_with (c # mem) (x # xs) = (if c = x then starts_with mem xs else Some False)"

definition idna__is_ace :: "bytes \<Rightarrow> nat \<Rightarrow> bool option" where
  "idna__is_ace label len = do {
     ldh \<leftarrow> idna__is_ldh (take len label);
     if \<not> ldh then Some False else starts_with label ace_prefix
   }"

abbreviation FQDN_MAX :: nat where "FQDN_MAX \<equiv> 256"

text \<open>The name under construction: its array and its length.\<close>

type_synonym fqdn = "bytes \<times> nat"

definition FQDN_APPEND :: "bytes \<Rightarrow> fqdn \<Rightarrow> (nserror + fqdn) option" where
  "FQDN_APPEND s fqdn =
     (let (mem, fqdn_len) = fqdn in
      if size_sub FQDN_MAX fqdn_len \<le> length s then Some (Inl NSERROR_BAD_URL)
      else do { mem \<leftarrow> mem_write fqdn_len s mem; Some (Inr (mem, fqdn_len + length s)) })"

text \<open>One label of a host: from the bytes at the label and its length.\<close>

definition encode_host_label :: "unicode \<Rightarrow> heap \<Rightarrow> bytes \<Rightarrow> nat \<Rightarrow> fqdn \<Rightarrow> (nserror + fqdn) option" where
  "encode_host_label u h host label_len fqdn = do {
     let label = take label_len host;
     ldh \<leftarrow> idna__is_ldh label;
     if \<not> ldh then do {
       r \<leftarrow> idna__utf8_to_ucs4 u h label;
       case r of
         Inl e \<Rightarrow> Some (Inl e)
       | Inr ucs4_host \<Rightarrow> do {
           valid \<leftarrow> idna__is_valid u ucs4_host;
           if \<not> valid then Some (Inl NSERROR_BAD_URL)
           else do {
             r \<leftarrow> idna__ucs4_to_ace h ucs4_host;
             case r of
               Inl e \<Rightarrow> Some (Inl e)
             | Inr (None, output_len) \<Rightarrow>
                 if size_sub FQDN_MAX (snd fqdn) \<le> output_len then Some (Inl NSERROR_BAD_URL) else None
             | Inr (Some output, output_len) \<Rightarrow> do { s \<leftarrow> mem_read 0 output_len (output @ [0]); FQDN_APPEND s fqdn }
           }
         }
     }
     else do {
       ace \<leftarrow> idna__is_ace host label_len;
       ok \<leftarrow> (if ace then idna__verify u h label else Some True);
       if \<not> ok then Some (Inl NSERROR_BAD_URL) else FQDN_APPEND label fqdn
     }
   }"

definition decode_host_label :: "unicode \<Rightarrow> heap \<Rightarrow> bytes \<Rightarrow> nat \<Rightarrow> fqdn \<Rightarrow> (nserror + fqdn) option" where
  "decode_host_label u h ace_host label_len fqdn = do {
     let label = take label_len ace_host;
     ace \<leftarrow> idna__is_ace ace_host label_len;
     if ace then do {
       r \<leftarrow> idna__ace_to_ucs4 h label;
       case r of
         Inl e \<Rightarrow> Some (Inl e)
       | Inr ucs4_host \<Rightarrow> do {
           r \<leftarrow> idna__ucs4_to_utf8 u h ucs4_host;
           case r of Inl e \<Rightarrow> Some (Inl e) | Inr output \<Rightarrow> FQDN_APPEND output fqdn
         }
     }
     else FQDN_APPEND label fqdn
   }"

text \<open>The loop over the labels, which encoding and decoding share: \<open>convert\<close> is its body.\<close>

partial_function (option) host_labels ::
  "(bytes \<Rightarrow> nat \<Rightarrow> fqdn \<Rightarrow> (nserror + fqdn) option) \<Rightarrow> bytes \<Rightarrow> nat \<Rightarrow> nat \<Rightarrow> fqdn \<Rightarrow> (nserror + fqdn) option" where
  "host_labels convert host len label_len fqdn =
     (if label_len = 0 then Some (Inr fqdn)
      else do {
        r \<leftarrow> convert host label_len fqdn;
        case r of
          Inl e \<Rightarrow> Some (Inl e)
        | Inr fqdn \<Rightarrow> do {
            r \<leftarrow> FQDN_APPEND [0x2E] fqdn;
            case r of
              Inl e \<Rightarrow> Some (Inl e)
            | Inr fqdn \<Rightarrow>
                if \<not> label_len < length host then None
                else if host ! label_len = 0 \<or> host ! label_len = 0x3A then Some (Inr fqdn)
                else do {
                  let host = drop (label_len + 1) host;
                  let len = size_sub (size_sub len label_len) 1;
                  label_len \<leftarrow> idna__host_label_length host len;
                  host_labels convert host len label_len fqdn
                }
          }
      })"

declare host_labels.simps [code]

text \<open>The result is the copy that strdup makes, whose failure is not checked, and its length.\<close>

definition convert_host :: "(bytes \<Rightarrow> nat \<Rightarrow> fqdn \<Rightarrow> (nserror + fqdn) option) \<Rightarrow> heap \<Rightarrow> bytes \<Rightarrow> nat \<Rightarrow>
    (nserror + (bytes option \<times> nat)) option" where
  "convert_host convert h host len = do {
     label_len \<leftarrow> idna__host_label_length host len;
     if label_len = 0 then Some (Inl NSERROR_BAD_URL)
     else do {
       r \<leftarrow> host_labels convert host len label_len (replicate FQDN_MAX (heap_junk h), 0);
       case r of
         Inl e \<Rightarrow> Some (Inl e)
       | Inr (fqdn, fqdn_len) \<Rightarrow> do {
           fqdn \<leftarrow> mem_write (fqdn_len - 1) [0] fqdn;
           n \<leftarrow> strlen fqdn;
           Some (Inr (if malloc_ok h (n + 1) then Some (take n fqdn) else None, fqdn_len - 1))
         }
     }
   }"

definition idna_encode :: "unicode \<Rightarrow> heap \<Rightarrow> bytes \<Rightarrow> nat \<Rightarrow> (nserror + (bytes option \<times> nat)) option" where
  "idna_encode u h host len = convert_host (encode_host_label u h) h host len"

definition idna_decode :: "unicode \<Rightarrow> heap \<Rightarrow> bytes \<Rightarrow> nat \<Rightarrow> (nserror + (bytes option \<times> nat)) option" where
  "idna_decode u h ace_host ace_len = convert_host (decode_host_label u h) h ace_host ace_len"


section \<open>Cutting a host name into labels\<close>

definition host_sep :: "u8 \<Rightarrow> bool" where
  "host_sep c \<longleftrightarrow> c = 0x2E \<or> c = 0x3A \<or> c = 0"

fun join_dots :: "bytes list \<Rightarrow> bytes" where
  "join_dots [] = []"
| "join_dots [l] = l"
| "join_dots (l # ls) = l @ 0x2E # join_dots ls"

lemma join_dots_Cons: "ls \<noteq> [] \<Longrightarrow> join_dots (l # ls) = l @ 0x2E # join_dots ls"
  by (cases ls) simp_all

definition label_ok :: "bytes \<Rightarrow> bool" where
  "label_ok l \<longleftrightarrow> l \<noteq> [] \<and> list_all (\<lambda>c. \<not> host_sep c) l"

text \<open>What may follow the last label: the end of the host, a port, or a dot and an empty label.\<close>

definition host_end :: "bytes \<Rightarrow> nat \<Rightarrow> bool" where
  "host_end t r \<longleftrightarrow> t \<noteq> [] \<and> (hd t = 0 \<or> hd t = 0x3A \<or> hd t = 0x2E \<and> 0 < r \<and> idna__host_label_length (tl t) (r - 1) = Some 0)"

lemma host_label_length:
  "list_all (\<lambda>c. \<not> host_sep c) l \<Longrightarrow> t \<noteq> [] \<Longrightarrow> r = 0 \<or> host_sep (hd t) \<Longrightarrow>
   idna__host_label_length (l @ t) (length l + r) = Some (length l)"
proof (induction l)
  case Nil
  then show ?case by (subst idna__host_label_length.simps) (auto simp: host_sep_def split: list.splits)
next
  case (Cons c l)
  then show ?case by (subst idna__host_label_length.simps) (simp add: host_sep_def)
qed

lemma join_label_length:
  assumes "\<forall>l \<in> set ls. label_ok l" and "ls \<noteq> []" and "host_end t r"
  shows "idna__host_label_length (join_dots ls @ t) (length (join_dots ls) + r) = Some (length (hd ls))"
proof (cases ls)
  case (Cons l ls')
  have l: "list_all (\<lambda>c. \<not> host_sep c) l" using assms(1) Cons by (simp add: label_ok_def)
  show ?thesis
  proof (cases "ls' = []")
    case True
    then show ?thesis using host_label_length [OF l, of t r] assms(3) Cons by (auto simp: host_end_def host_sep_def)
  next
    case False
    then show ?thesis
      using host_label_length [OF l, of "0x2E # join_dots ls' @ t" "Suc (length (join_dots ls') + r)"] Cons
      by (simp add: join_dots_Cons host_sep_def add.assoc)
  qed
qed (use assms in simp)

section \<open>The name under construction\<close>

definition fqdn_rep :: "bytes \<Rightarrow> fqdn \<Rightarrow> bool" where
  "fqdn_rep tx fqdn \<longleftrightarrow> length (fst fqdn) = FQDN_MAX \<and> snd fqdn = length tx \<and> length tx < FQDN_MAX \<and> take (length tx) (fst fqdn) = tx"

lemma fqdn_append:
  assumes "fqdn_rep tx fqdn"
  shows "length (tx @ s) < FQDN_MAX \<Longrightarrow> \<exists>fqdn'. FQDN_APPEND s fqdn = Some (Inr fqdn') \<and> fqdn_rep (tx @ s) fqdn'"
    and "\<not> length (tx @ s) < FQDN_MAX \<Longrightarrow> FQDN_APPEND s fqdn = Some (Inl NSERROR_BAD_URL)"
  using assms by (auto simp: fqdn_rep_def FQDN_APPEND_def mem_write_def split: prod.splits)

text \<open>The text of the labels that have been converted, each with its dot.\<close>

abbreviation dotted :: "(bytes \<Rightarrow> bytes) \<Rightarrow> bytes list \<Rightarrow> bytes" where
  "dotted f ls \<equiv> concat (map (\<lambda>l. f l @ [0x2E]) ls)"

lemma dotted_join: "ls \<noteq> [] \<Longrightarrow> dotted f ls = join_dots (map f ls) @ [0x2E]"
  by (induction ls rule: join_dots.induct) simp_all

lemma fqdn_append_dot:
  assumes "fqdn_rep tx fqdn"
  obtains (fits) fq1 fq2 where "length (tx @ s @ [0x2E]) < FQDN_MAX" "FQDN_APPEND s fqdn = Some (Inr fq1)"
      "FQDN_APPEND [0x2E] fq1 = Some (Inr fq2)" "fqdn_rep (tx @ s @ [0x2E]) fq2"
  | (full) "\<not> length (tx @ s @ [0x2E]) < FQDN_MAX" "FQDN_APPEND s fqdn = Some (Inl NSERROR_BAD_URL)"
  | (full_dot) fq1 where "\<not> length (tx @ s @ [0x2E]) < FQDN_MAX" "FQDN_APPEND s fqdn = Some (Inr fq1)"
      "FQDN_APPEND [0x2E] fq1 = Some (Inl NSERROR_BAD_URL)"
proof (cases "length (tx @ s) < FQDN_MAX")
  case True
  then obtain fq1 where 1: "FQDN_APPEND s fqdn = Some (Inr fq1)" "fqdn_rep (tx @ s) fq1" using fqdn_append(1) [OF assms] by blast
  show thesis
  proof (cases "length ((tx @ s) @ [0x2E]) < FQDN_MAX")
    case True
    then obtain fq2 where "FQDN_APPEND [0x2E] fq1 = Some (Inr fq2)" "fqdn_rep (tx @ s @ [0x2E]) fq2"
      using fqdn_append(1) [OF 1(2) True] by auto
    then show ?thesis using fits [OF _ 1(1)] True by simp
  next
    case False
    then show ?thesis using fqdn_append(2) [OF 1(2) False] 1(1) full_dot by auto
  qed
next
  case False
  then show thesis using fqdn_append(2) [OF assms False] full by auto
qed

text \<open>The body of the loop appends \<open>f l\<close> for the label \<open>l\<close>.\<close>

definition converts :: "(bytes \<Rightarrow> nat \<Rightarrow> fqdn \<Rightarrow> (nserror + fqdn) option) \<Rightarrow> (bytes \<Rightarrow> bytes) \<Rightarrow> bytes \<Rightarrow> bool" where
  "converts convert f l \<longleftrightarrow>
     (\<forall>c rest fqdn. host_sep c \<longrightarrow> convert (l @ c # rest) (length l) fqdn = FQDN_APPEND (f l) fqdn)"

lemma convertsD: "converts convert f l \<Longrightarrow> host_sep c \<Longrightarrow> convert (l @ c # rest) (length l) fqdn = FQDN_APPEND (f l) fqdn"
  unfolding converts_def by blast

lemma host_labels_join:
  assumes "\<forall>l \<in> set ls. label_ok l \<and> converts convert f l" and "ls \<noteq> []" and "host_end t r"
    and "length (join_dots ls) + r < SIZE_MODULUS" and "fqdn_rep tx fqdn"
  shows "(if length (tx @ dotted f ls) < FQDN_MAX
      then \<exists>fqdn'. host_labels convert (join_dots ls @ t) (length (join_dots ls) + r) (length (hd ls)) fqdn = Some (Inr fqdn') \<and>
             fqdn_rep (tx @ dotted f ls) fqdn'
      else host_labels convert (join_dots ls @ t) (length (join_dots ls) + r) (length (hd ls)) fqdn = Some (Inl NSERROR_BAD_URL))"
  using assms
proof (induction ls arbitrary: tx fqdn rule: join_dots.induct)
  case (2 l)
  obtain c t' where t: "t = c # t'" using 2(3) by (cases t) (auto simp: host_end_def)
  have c: "host_sep c" using 2(3) t by (auto simp: host_end_def host_sep_def)
  have l: "l \<noteq> []" and conv: "convert (l @ t) (length l) fqdn = FQDN_APPEND (f l) fqdn"
    using 2(1) c t convertsD [of convert f l c t' fqdn] by (simp_all add: label_ok_def)
  note u = host_labels.simps [of convert "l @ t" "length l + r" "length l" fqdn]
  from 2(5) show ?case
  proof (cases rule: fqdn_append_dot [where s = "f l"])
    case (fits fq1 fq2)
    have "host_labels convert (l @ t) (length l + r) (length l) fqdn = Some (Inr fq2)"
      using l t "2.prems"(3,4) fits(2,3) conv host_labels.simps [of convert t' "r - 1" 0 fq2]
      by (subst u) (auto simp: host_end_def nth_append)
    then show ?thesis using fits(1,4) by simp
  next
    case full
    then show ?thesis using l conv u by simp
  next
    case (full_dot fq1)
    then show ?thesis using l conv u by simp
  qed
next
  case (3 l l2 ls)
  let ?ls = "l2 # ls"
  let ?h = "l @ 0x2E # join_dots ?ls @ t" and ?n = "length l + Suc (length (join_dots ?ls) + r)"
  have l: "l \<noteq> []" and conv: "convert ?h (length l) fqdn = FQDN_APPEND (f l) fqdn"
    using 3(2) convertsD [of convert f l "0x2E" "join_dots ?ls @ t" fqdn] by (simp_all add: label_ok_def host_sep_def)
  note u = host_labels.simps [of convert ?h ?n "length l" fqdn]
  from 3(6) show ?case
  proof (cases rule: fqdn_append_dot [where s = "f l"])
    case (fits fq1 fq2)
    have "idna__host_label_length (join_dots ?ls @ t) (length (join_dots ?ls) + r) = Some (length (hd ?ls))"
      using join_label_length [of ?ls t r] 3(2,4) by simp
    then have "host_labels convert ?h ?n (length l) fqdn =
        host_labels convert (join_dots ?ls @ t) (length (join_dots ?ls) + r) (length (hd ?ls)) fq2"
      using l fits(2,3) conv 3(5) by (subst u) (simp add: nth_append)
    moreover note "3.IH" [of "tx @ f l @ [0x2E]" fq2]
    ultimately show ?thesis using 3(2-5) fits(4)
      by (cases "length (tx @ dotted f (l # ?ls)) < FQDN_MAX") (simp_all add: add.assoc)
  next
    case full
    then have "host_labels convert ?h ?n (length l) fqdn = Some (Inl NSERROR_BAD_URL)" using l conv by (subst u) simp
    then show ?thesis using full(1) by (simp add: add.assoc)
  next
    case (full_dot fq1)
    then have "host_labels convert ?h ?n (length l) fqdn = Some (Inl NSERROR_BAD_URL)" using l conv by (subst u) simp
    then show ?thesis using full_dot(1) by (simp add: add.assoc)
  qed
qed simp

lemma zero_free_join: "\<forall>l \<in> set ls. 0 \<notin> set l \<Longrightarrow> 0 \<notin> set (join_dots ls)"
  by (induction ls rule: join_dots.induct) auto

text \<open>Both conversions of a whole host name, when every label is converted to a text without a zero.\<close>

lemma convert_host_join:
  assumes ok: "\<forall>l \<in> set ls. label_ok l \<and> converts convert f l" "ls \<noteq> []" "host_end t r"
      "length (join_dots ls) + r < SIZE_MODULUS" and z: "\<forall>l \<in> set ls. 0 \<notin> set (f l)" and mem: "\<forall>n. malloc_ok h n = (n \<le> PTRDIFF_MAX)"
  shows "convert_host convert h (join_dots ls @ t) (length (join_dots ls) + r) =
    (if length (join_dots (map f ls)) < 255 then Some (Inr (Some (join_dots (map f ls)), length (join_dots (map f ls))))
     else Some (Inl NSERROR_BAD_URL))"
proof -
  let ?j = "join_dots (map f ls)"
  have rep: "fqdn_rep [] (replicate FQDN_MAX (heap_junk h), 0)" by (simp add: fqdn_rep_def)
  have hd: "length (hd ls) \<noteq> 0" using ok(1,2) by (cases ls) (auto simp: label_ok_def)
  have lab: "\<forall>l \<in> set ls. label_ok l" using ok(1) by blast
  note loop = host_labels_join [OF ok rep, unfolded dotted_join [OF ok(2), of f]]
  note start = join_label_length [OF lab ok(2,3)]
  show ?thesis
  proof (cases "length ?j < 255")
    case True
    then obtain mem n where fq: "host_labels convert (join_dots ls @ t) (length (join_dots ls) + r) (length (hd ls))
        (replicate FQDN_MAX (heap_junk h), 0) = Some (Inr (mem, n))" "fqdn_rep (?j @ [0x2E]) (mem, n)"
      using loop by auto
    then have n: "n = length ?j + 1" "take (length ?j) mem = ?j" "length mem = 256"
      by (auto simp: fqdn_rep_def take_Suc_conv_app_nth)
    have "strlen (?j @ 0 # drop (Suc (length ?j)) mem) = Some (length ?j)" using zero_free_join [of "map f ls"] z
      by (intro strlen_append) auto
    then show ?thesis using True fq(1) n mem hd start by (simp add: convert_host_def mem_write_def)
  next
    case False
    then show ?thesis using loop hd start by (simp add: convert_host_def)
  qed
qed

section \<open>Labels\<close>

lemma starts_with_label: "c \<notin> set p \<Longrightarrow> starts_with (l @ c # rest) p = Some (take (length p) l = p)"
proof (induction p arbitrary: l)
  case (Cons x p)
  then show ?case by (cases l) auto
qed simp

lemma ace_no_sep: "host_sep c \<Longrightarrow> c \<notin> set ace_prefix"
  by (auto simp: host_sep_def ace_prefix_def)

lemma is_ace_label:
  "host_sep c \<Longrightarrow> idna__is_ldh l = Some b \<Longrightarrow> idna__is_ace (l @ c # rest) (length l) = Some (b \<and> take 4 l = ace_prefix)"
  by (auto simp: idna__is_ace_def starts_with_label ace_no_sep)

text \<open>A plain label is LDH and not ACE: both conversions keep it.\<close>

definition plain_label :: "bytes \<Rightarrow> bool" where
  "plain_label l \<longleftrightarrow> idna__is_ldh l = Some True \<and> take 4 l \<noteq> ace_prefix"

lemma plain_label_encode:
  "plain_label l \<Longrightarrow> host_sep c \<Longrightarrow> encode_host_label u h (l @ c # rest) (length l) fqdn = FQDN_APPEND l fqdn"
  by (simp add: encode_host_label_def plain_label_def is_ace_label)

lemma plain_label_decode:
  "plain_label l \<Longrightarrow> host_sep c \<Longrightarrow> decode_host_label u h (l @ c # rest) (length l) fqdn = FQDN_APPEND l fqdn"
  by (simp add: decode_host_label_def plain_label_def is_ace_label)

lemma ldh_not_sep: "ldh_char c \<Longrightarrow> \<not> host_sep c"
  by (auto simp: ldh_char_def host_sep_def)

lemma ldh_label_ok: "idna__is_ldh l = Some True \<Longrightarrow> label_ok l"
  by (auto simp: idna__is_ldh_def label_ok_def list_all_iff ldh_not_sep split: if_splits)

lemma label_ok_zero: "label_ok l \<Longrightarrow> 0 \<notin> set l"
  by (auto simp: label_ok_def list_all_iff host_sep_def)


lemma of_uint_of_char: "of_nat (uint_of_char c) = c"
proof -
  have "ucast (scast c :: u32) = c" by (rule bit_word_eqI) (auto simp: bit_simps)
  then show ?thesis by (simp add: uint_of_char_def unsigned_of_nat)
qed


lemma u32_sub_less: "cp < 2 ^ 32 \<Longrightarrow> a + k \<le> 2 ^ 32 \<Longrightarrow> u32_sub cp a < k \<Longrightarrow> a \<le> cp \<and> cp < a + k"
proof (rule ccontr)
  assume a: "cp < 2 ^ 32" "a + k \<le> 2 ^ 32" "u32_sub cp a < k" and n: "\<not> (a \<le> cp \<and> cp < a + k)"
  show False
  proof (cases "a \<le> cp")
    case True
    then have "u32_sub cp a = cp - a" using a(1) by (intro u32_sub_id) simp_all
    then show ?thesis using n a(3) True by simp
  next
    case False
    then have "u32_sub cp a = cp + 2 ^ 32 - a" using a(1) by (simp add: u32_sub_def)
    then show ?thesis using a False by simp
  qed
qed

lemma ldh_alnum: "n \<in> {48..<58} \<union> {65..<91} \<union> {97..<123} \<Longrightarrow> ldh_char (of_nat n) \<and> (of_nat n :: u8) \<noteq> 0x2D"
proof -
  assume "n \<in> {48..<58} \<union> {65..<91} \<union> {97..<123}"
  then have "n \<in> set ([48..<58] @ [65..<91] @ [97..<123])" by (simp only: set_append set_upt Un_assoc)
  moreover have "\<forall>n \<in> set ([48..<58] @ [65..<91] @ [97..<123]). ldh_char (of_nat n) \<and> (of_nat n :: u8) \<noteq> 0x2D"
    by (simp add: upt_rec ldh_char_def)
  ultimately show ?thesis by blast
qed

lemma digit_ldh:
  assumes "decode_digit (uint_of_char c) < base"
  shows "ldh_char c \<and> c \<noteq> 0x2D"
proof -
  have b: "uint_of_char c < 2 ^ 32" using unsigned_less [of "scast c :: u32"] by (simp add: uint_of_char_def)
  have "u32_sub (uint_of_char c) 48 < 10 \<or> u32_sub (uint_of_char c) 65 < 26 \<or> u32_sub (uint_of_char c) 97 < 26"
    using assms by (simp add: decode_digit_def split: if_splits)
  then have "uint_of_char c \<in> {48..<58} \<union> {65..<91} \<union> {97..<123}"
    using u32_sub_less [OF b, of 48 10] u32_sub_less [OF b, of 65 26] u32_sub_less [OF b, of 97 26] by auto
  from ldh_alnum [OF this] show ?thesis by (simp add: of_uint_of_char)
qed

text \<open>What the tables say of ASCII: only letters, digits and the hyphen may be in a label.\<close>

definition ascii_derived :: "unicode \<Rightarrow> bool" where
  "ascii_derived u \<longleftrightarrow>
     (\<forall>c < 0x80. idna__cp_property u c \<noteq> IDNA_P_DISALLOWED \<and> idna__cp_property u c \<noteq> IDNA_P_UNASSIGNED \<longrightarrow> ldh_char (of_nat c))"

lemma valid_loop_property:
  "valid_loop u label i cs = Some True \<Longrightarrow> c \<in> set cs \<Longrightarrow>
   idna__cp_property u c \<noteq> IDNA_P_DISALLOWED \<and> idna__cp_property u c \<noteq> IDNA_P_UNASSIGNED"
proof (induction u label i cs rule: valid_loop.induct)
  case (2 u label i d cs)
  from 2(2) obtain ok where d: "idna__cp_property u d \<noteq> IDNA_P_DISALLOWED" "idna__cp_property u d \<noteq> IDNA_P_UNASSIGNED"
    "(if idna__cp_property u d = IDNA_P_CONTEXTJ then idna__contextj_rule u label i else Some True) = Some ok" "ok"
    "\<not> (idna__cp_property u d = IDNA_P_CONTEXTO \<and> \<not> idna__contexto_rule d)" "valid_loop u label (i + 1) cs = Some True"
    by (auto simp: Let_def bind_eq_Some_conv split: if_splits)
  show ?case
  proof (cases "c = d")
    case False
    then show ?thesis using 2(1) [OF refl d(1,3) _ d(5,2,6)] d(4) 2(3) by simp
  qed (use d in simp)
qed simp

text \<open>The ACE form of a label with a code point outside ASCII is an LDH label.\<close>

lemma ace_label_ldh:
  assumes d: "punycode_decode e n = Inr s" and ldh: "\<forall>c \<in> set s. c < 0x80 \<longrightarrow> ldh_char (of_nat c)" and "\<exists>c \<in> set s. \<not> c < 0x80"
  shows "idna__is_ldh (ace_prefix @ e) = Some True"
proof -
  have "e \<noteq> []" using d assms(3) by (auto simp: punycode_decode_def last_delimiter_def points_loop.simps)
  moreover from d have "list_all ldh_char e \<and> (e \<noteq> [] \<longrightarrow> last e \<noteq> 0x2D)"
  proof (cases rule: decode_parts)
    case plain
    then show ?thesis using digit_ldh by (auto simp: list_all_iff)
  next
    case (parts basics e')
    have "e' \<noteq> []" using parts(4,6) assms(3) by auto
    moreover have "list_all ldh_char basics" using parts(4,5) ldh of_uint_of_char by (fastforce simp: list_all_iff)
    moreover have "list_all ldh_char e'" "last e' \<noteq> 0x2D" using parts(3) digit_ldh \<open>e' \<noteq> []\<close> by (auto simp: list_all_iff)
    ultimately show ?thesis using parts(1) by (simp add: ldh_char_def [of delimiter])
  qed
  ultimately show ?thesis by (simp add: idna__is_ldh_def ace_prefix_def ldh_char_def)
qed


text \<open>An international label and its code points: the label is valid, not too long, and its text is normalised.\<close>

definition idn_label :: "unicode \<Rightarrow> bytes \<Rightarrow> nat list \<Rightarrow> bool" where
  "idn_label u l s \<longleftrightarrow>
     label_ok l \<and> idna__is_ldh l = Some False \<and> length l \<le> 4 * length s \<and>
     (\<exists>cps. up_decompose u l = Some cps \<and> length cps \<le> length l \<and> up_normalize u cps = Some s) \<and>
     up_normalize u s = Some s \<and> up_encode u s = Some l \<and> idna__is_valid u s = Some True \<and>
     length s \<le> 100 \<and> (\<forall>c \<in> set s. 0 < c \<and> c \<le> 0x10FFFF) \<and> (\<exists>c \<in> set s. \<not> c < 0x80) \<and>
     punycode_encode s 60 \<noteq> Some (Inl punycode_big_output)"

text \<open>The ACE form of a label, and the label of an ACE form.\<close>

definition ace_of :: "unicode \<Rightarrow> bytes \<Rightarrow> bytes" where
  "ace_of u l =
     (if plain_label l then l
      else case up_decompose u l of
          None \<Rightarrow> []
        | Some cps \<Rightarrow>
            (case up_normalize u cps of
               None \<Rightarrow> []
             | Some s \<Rightarrow> (case punycode_encode s 60 of Some (Inr e) \<Rightarrow> ace_prefix @ e | _ \<Rightarrow> [])))"

definition label_of :: "unicode \<Rightarrow> bytes \<Rightarrow> bytes" where
  "label_of u a =
     (if take 4 a \<noteq> ace_prefix then a
      else case punycode_decode (drop 4 a) (length a) of
          Inl _ \<Rightarrow> []
        | Inr s \<Rightarrow> (case up_encode u s of None \<Rightarrow> [] | Some l \<Rightarrow> l))"

lemma plain_label_converts:
  assumes "plain_label l"
  shows "ace_of u l = l" "label_of u l = l" "converts (encode_host_label u h) (ace_of u) l" "converts (decode_host_label u h) (label_of u) l"
proof -
  show "ace_of u l = l" "label_of u l = l" using assms by (simp_all add: ace_of_def label_of_def plain_label_def)
  then show "converts (encode_host_label u h) (ace_of u) l" "converts (decode_host_label u h) (label_of u) l"
    using assms by (simp_all add: converts_def plain_label_encode plain_label_decode)
qed

lemma idn_label_converts:
  assumes l: "idn_label u l s" and u: "ascii_derived u" and h: "\<forall>n. malloc_ok h n = (n \<le> PTRDIFF_MAX)"
  shows "idna__is_ldh (ace_of u l) = Some True" "label_of u (ace_of u l) = l" "converts (encode_host_label u h) (ace_of u) l"
    "converts (decode_host_label u h) (label_of u) (ace_of u l)"
proof -
  obtain cps where cps: "up_decompose u l = Some cps" "length cps \<le> length l" "up_normalize u cps = Some s"
    using l by (auto simp: idn_label_def)
  have enc: "up_normalize u s = Some s" "up_encode u s = Some l" "length l \<le> 4 * length s" "length s \<le> 100" and sep: "idna__is_ldh l = Some False"
    and valid: "idna__is_valid u s = Some True" and points: "\<forall>c \<in> set s. 0 < c \<and> c \<le> 0x10FFFF" "\<exists>c \<in> set s. \<not> c < 0x80"
    and "punycode_encode s 60 \<noteq> Some (Inl punycode_big_output)"
    using l by (simp_all add: idn_label_def)
  then obtain e where e: "punycode_encode s 60 = Some (Inr e)" "length e \<le> 60" "punycode_decode e (length e + 4) = Inr s"
    by (metis label_encodes)
  have "0 \<notin> set s" using points(1) by blast
  then have z: "0 \<notin> set e" by (rule decode_nonzero [OF e(3)])
  have "\<forall>c \<in> set s. c < 0x80 \<longrightarrow> ldh_char (of_nat c)"
    using valid valid_loop_property [of u s 0 s] u by (auto simp: idna__is_valid_def ascii_derived_def split: if_splits)
  then have ldh: "idna__is_ldh (ace_prefix @ e) = Some True" using ace_label_ldh [OF e(3) _ points(2)] by blast
  have a: "ace_of u l = ace_prefix @ e" using sep cps e(1) by (simp add: ace_of_def plain_label_def)
  have b: "label_of u (ace_prefix @ e) = l" using e(3) enc(2) by (simp add: label_of_def add.commute)
  show "idna__is_ldh (ace_of u l) = Some True" "label_of u (ace_of u l) = l" using a b ldh by simp_all
  have "length l \<le> 400" using enc(3,4) by simp
  then have ucs4: "idna__utf8_to_ucs4 u h l = Some (Inr s)" using cps h by (simp add: idna__utf8_to_ucs4_def)
  note ace = ucs4_to_ace_label [OF e(1,2) z h] ace_to_ucs4_label [OF e(3,2) h]
  show "converts (encode_host_label u h) (ace_of u) l"
    using ucs4 valid ace(1) a sep by (simp add: converts_def encode_host_label_def mem_read_def)
  have "idna__ucs4_to_utf8 u h s = Some (Inr l)" using enc h by (simp add: idna__ucs4_to_utf8_def)
  moreover have "host_sep c \<Longrightarrow> idna__is_ace (ace_prefix @ e @ c # rest) (4 + length e) = Some True" for c rest
    using is_ace_label [OF _ ldh, of c rest] by simp
  ultimately show "converts (decode_host_label u h) (label_of u) (ace_of u l)"
    using ace(2) b a by (simp add: converts_def decode_host_label_def Let_def)
qed


lemma label_facts:
  assumes "plain_label l \<or> (\<exists>s. idn_label u l s)" and "ascii_derived u" and "\<forall>n. malloc_ok h n = (n \<le> PTRDIFF_MAX)"
  shows "label_ok l \<and> idna__is_ldh (ace_of u l) = Some True \<and> label_of u (ace_of u l) = l \<and>
    converts (encode_host_label u h) (ace_of u) l \<and> converts (decode_host_label u h) (label_of u) (ace_of u l)"
  using assms(1)
proof (elim disjE exE)
  assume p: "plain_label l"
  then show ?thesis using plain_label_converts [OF p] ldh_label_ok [of l] by (simp add: plain_label_def)
next
  fix s assume i: "idn_label u l s"
  then show ?thesis using idn_label_converts [OF i assms(2,3)] by (simp add: idn_label_def)
qed

lemma join_ldh: "\<forall>a \<in> set as. idna__is_ldh a = Some True \<Longrightarrow> list_all (\<lambda>c. ldh_char c \<or> c = 0x2E) (join_dots as)"
  by (induction as rule: join_dots.induct) (auto simp: idna__is_ldh_def list_all_iff split: if_splits)

section \<open>Safety of decoding\<close>

text \<open>What is used of utf8proc: composing code points does not lengthen the text, and a code point has at most four bytes.\<close>

definition unicode_laws :: "unicode \<Rightarrow> bool" where
  "unicode_laws u \<longleftrightarrow>
     (\<forall>s nfc. up_normalize u s = Some nfc \<longrightarrow> length nfc \<le> length s) \<and>
     (\<forall>s utf8. up_encode u s = Some utf8 \<longrightarrow> length utf8 \<le> 4 * length s)"

definition fqdn_ok :: "fqdn \<Rightarrow> bool" where
  "fqdn_ok fqdn \<longleftrightarrow> length (fst fqdn) = FQDN_MAX \<and> snd fqdn < FQDN_MAX"

text \<open>A step that is defined and keeps the name inside its array.\<close>

definition safe_step :: "(nserror + fqdn) option \<Rightarrow> bool" where
  "safe_step r \<longleftrightarrow> (\<exists>e. r = Some (Inl e)) \<or> (\<exists>fqdn. r = Some (Inr fqdn) \<and> fqdn_ok fqdn)"

lemma safe_step_simps [simp]: "safe_step (Some (Inl e))" "safe_step (Some (Inr fqdn)) = fqdn_ok fqdn"
  by (auto simp: safe_step_def)

definition safe_convert :: "(bytes \<Rightarrow> nat \<Rightarrow> fqdn \<Rightarrow> (nserror + fqdn) option) \<Rightarrow> bool" where
  "safe_convert convert \<longleftrightarrow>
     (\<forall>l c rest fqdn. l \<noteq> [] \<longrightarrow> length l < 2 ^ 32 \<longrightarrow> host_sep c \<longrightarrow> fqdn_ok fqdn \<longrightarrow> safe_step (convert (l @ c # rest) (length l) fqdn))"

lemma append_safe: "fqdn_ok fqdn \<Longrightarrow> safe_step (FQDN_APPEND s fqdn)"
  by (auto simp: fqdn_ok_def safe_step_def FQDN_APPEND_def mem_write_def split: prod.splits)

lemma host_label_split:
  assumes "idna__host_label_length (x @ [0]) (length x) = Some n"
  obtains l c rest where "x @ [0] = l @ c # rest" "length l = n" "list_all (\<lambda>c. \<not> host_sep c) l" "host_sep c" "n \<le> length x"
proof -
  have "idna__host_label_length (x @ [0]) (length x) = Some n \<Longrightarrow>
      \<exists>l c rest. x @ [0] = l @ c # rest \<and> length l = n \<and> list_all (\<lambda>c. \<not> host_sep c) l \<and> host_sep c \<and> n \<le> length x"
  proof (induction x arbitrary: n)
    case Nil
    then have "n = 0" by (simp add: idna__host_label_length.simps)
    then show ?case by (intro exI [of _ "[]"]) (simp add: host_sep_def)
  next
    case (Cons c x)
    show ?case
    proof (cases "host_sep c")
      case True
      then have "n = 0" using Cons.prems by (simp add: idna__host_label_length.simps [of "c # x @ [0]"] host_sep_def)
      then show ?thesis using True by (intro exI [of _ "[]"]) simp
    next
      case False
      then obtain m where "n = Suc m" "idna__host_label_length (x @ [0]) (length x) = Some m"
        using Cons.prems by (auto simp: idna__host_label_length.simps [of "c # x @ [0]"] host_sep_def)
      then obtain l d rest where "x @ [0] = l @ d # rest" "length l = m" "list_all (\<lambda>c. \<not> host_sep c) l" "host_sep d" "m \<le> length x"
        using Cons.IH by blast
      then show ?thesis using False \<open>n = Suc m\<close> by (intro exI [of _ "c # l"]) auto
    qed
  qed
  with assms that show thesis by blast
qed

lemma host_label_length_total: "\<exists>n. idna__host_label_length (x @ [0]) (length x) = Some n"
  by (induction x) (auto simp: idna__host_label_length.simps [of "[0]"] idna__host_label_length.simps [of "_ # _"])

lemma host_labels_safe:
  assumes safe: "safe_convert convert"
    and "idna__host_label_length (x @ [0]) (length x) = Some n" and "length x < 2 ^ 32" and "fqdn_ok fqdn"
  shows "safe_step (host_labels convert (x @ [0]) (length x) n fqdn)"
  using assms(2-)
proof (induction "length x" arbitrary: x n fqdn rule: less_induct)
  case less
  note u = host_labels.simps [of convert "x @ [0]" "length x" n fqdn]
  obtain l c rest where l: "x @ [0] = l @ c # rest" "length l = n" "host_sep c" "n \<le> length x"
    using less.prems(1) by (rule host_label_split)
  show ?case
  proof (cases "n = 0")
    case True
    then show ?thesis using less.prems(3) by (subst u) (simp add: safe_step_def)
  next
    case False
    then have "l \<noteq> []" "length l < 2 ^ 32" using l(2,4) less.prems(2) by auto
    then have "safe_step (convert (l @ c # rest) (length l) fqdn)" using safe l(3) less.prems(3) unfolding safe_convert_def by blast
    then have "safe_step (convert (x @ [0]) n fqdn)" using l(1,2) by simp
    then show ?thesis unfolding safe_step_def [of "convert (x @ [0]) n fqdn"]
    proof (elim disjE exE conjE)
      fix fq1 assume 1: "convert (x @ [0]) n fqdn = Some (Inr fq1)" "fqdn_ok fq1"
      from append_safe [OF 1(2), of "[0x2E]"] show ?thesis unfolding safe_step_def [of "FQDN_APPEND [0x2E] fq1"]
      proof (elim disjE exE conjE)
        fix fq2 assume 2: "FQDN_APPEND [0x2E] fq1 = Some (Inr fq2)" "fqdn_ok fq2"
        show ?thesis
        proof (cases "n = length x \<or> x ! n = 0 \<or> x ! n = 0x3A")
          case True
          then show ?thesis using False 1(1) 2 l(4) by (subst u) (auto simp: nth_append)
        next
          case more: False
          let ?x = "drop (n + 1) x"
          obtain m where m: "idna__host_label_length (?x @ [0]) (length ?x) = Some m" using host_label_length_total by blast
          have "safe_step (host_labels convert (?x @ [0]) (length ?x) m fq2)"
            using less.hyps [OF _ m _ 2(2)] more l(4) False less.prems(2) by auto
          moreover have "size_sub (length x - n) (Suc 0) = length x - Suc n" using more l(4) less.prems(2) by (subst size_sub_id) auto
          ultimately show ?thesis using False 1(1) 2(1) more l(4) m less.prems(2) by (subst u) (simp add: nth_append Let_def)
        qed
      qed (use False 1(1) in \<open>subst u; simp add: safe_step_def\<close>)
    qed (use False in \<open>subst u; simp add: safe_step_def\<close>)
  qed
qed

lemma strlen_total: "0 \<in> set mem \<Longrightarrow> \<exists>n. strlen mem = Some n"
  by (induction mem) auto

lemma convert_host_safe:
  assumes "safe_convert convert" and "length x < 2 ^ 32"
  shows "\<exists>r. convert_host convert h (x @ [0]) (length x) = Some r"
proof -
  obtain n where n: "idna__host_label_length (x @ [0]) (length x) = Some n" using host_label_length_total by blast
  have "fqdn_ok (replicate FQDN_MAX (heap_junk h), 0)" by (simp add: fqdn_ok_def)
  from host_labels_safe [OF assms(1) n assms(2) this] n show ?thesis unfolding safe_step_def
  proof (elim disjE exE conjE)
    fix fqdn assume f: "host_labels convert (x @ [0]) (length x) n (replicate FQDN_MAX (heap_junk h), 0) = Some (Inr fqdn)" "fqdn_ok fqdn"
    obtain mem k where fq: "fqdn = (mem, k)" by (cases fqdn)
    define mem' where "mem' = take (k - 1) mem @ 0 # drop (k - 1 + 1) mem"
    have "mem_write (k - 1) [0] mem = Some mem'" "0 \<in> set mem'" using f(2) fq by (auto simp: fqdn_ok_def mem_write_def mem'_def)
    then show ?thesis using f(1) fq n strlen_total [of mem'] by (auto simp: convert_host_def)
  qed (simp add: convert_host_def)
qed

lemma decode_host_label_safe:
  assumes "unicode_laws u"
  shows "safe_convert (decode_host_label u h)"
  unfolding safe_convert_def
proof (intro allI impI)
  fix l c rest fqdn
  assume l: "l \<noteq> []" "length (l :: bytes) < 2 ^ 32" and c: "host_sep c" and f: "fqdn_ok fqdn"
  obtain b where b: "idna__is_ldh l = Some b" using l(1) by (metis idna__is_ldh_def)
  note ace = is_ace_label [OF c b, of rest]
  show "safe_step (decode_host_label u h (l @ c # rest) (length l) fqdn)"
  proof (cases "b \<and> take 4 l = ace_prefix")
    case False
    then show ?thesis using ace append_safe [OF f, of l] by (auto simp: decode_host_label_def)
  next
    case True
    then have pre: "take 4 l = ace_prefix" "4 \<le> length l" using length_ace_prefix by (metis, metis length_take min.absorb_iff2)
    have "\<exists>r. idna__ace_to_ucs4 h l = Some r \<and> (\<forall>s. r = Inr s \<longrightarrow> length s < 2 ^ 32)"
    proof (cases "punycode_decode (drop 4 l) (length l)")
      case (Inr s)
      then show ?thesis using decode_bounds [OF Inr] pre l(2) by (auto simp: idna__ace_to_ucs4_def Let_def)
    qed (auto simp: idna__ace_to_ucs4_def pre(1) Let_def)
    then obtain r where r: "idna__ace_to_ucs4 h l = Some r" "\<And>s. r = Inr s \<Longrightarrow> length s < 2 ^ 32" by blast
    show ?thesis
    proof (cases r)
      case (Inl e)
      then show ?thesis using r(1) ace True by (simp add: decode_host_label_def safe_step_def)
    next
      case (Inr s)
      have "\<exists>q. idna__ucs4_to_utf8 u h s = Some q"
        using assms(1) r(2) [OF Inr] by (force simp: idna__ucs4_to_utf8_def unicode_laws_def split: option.splits)
      then obtain q where "idna__ucs4_to_utf8 u h s = Some q" by blast
      then show ?thesis using r(1) Inr ace True append_safe [OF f] by (cases q) (auto simp: decode_host_label_def safe_step_def)
    qed
  qed
qed


section \<open>An example of Unicode data\<close>

text \<open>For the witnesses: UTF-8 of two bytes, no composition, and the rows of the table of properties up to U+00FF.\<close>

fun two_byte_points :: "bytes \<Rightarrow> nat list option" where
  "two_byte_points [] = Some []"
| "two_byte_points (c # cs) =
     (if c < 0x80 then map_option (Cons (unat c)) (two_byte_points cs)
      else case cs of
          [] \<Rightarrow> None
        | d # ds \<Rightarrow> map_option (Cons (unat (c AND 0x1F) * 64 + unat (d AND 0x3F))) (two_byte_points ds))"

fun two_byte_text :: "nat list \<Rightarrow> bytes option" where
  "two_byte_text [] = Some []"
| "two_byte_text (c # cs) =
     (if c < 0x80 then map_option (Cons (of_nat c)) (two_byte_text cs)
      else if c < 0x800 then map_option (\<lambda>t. of_nat (0xC0 + c div 64) # of_nat (0x80 + c mod 64) # t) (two_byte_text cs)
      else None)"

definition latin :: unicode where
  "latin = \<lparr>up_decompose = two_byte_points, up_normalize = Some, up_encode = two_byte_text, up_is_mark = (\<lambda>_. False),
     up_combining_class = (\<lambda>_. 0),
     idna_derived =
       [(0x00, 0x2C, IDNA_P_DISALLOWED), (0x2D, 0x2D, IDNA_P_PVALID), (0x2E, 0x2F, IDNA_P_DISALLOWED), (0x30, 0x39, IDNA_P_PVALID),
        (0x3A, 0x60, IDNA_P_DISALLOWED), (0x61, 0x7A, IDNA_P_PVALID), (0x7B, 0xB6, IDNA_P_DISALLOWED), (0xB7, 0xB7, IDNA_P_CONTEXTO),
        (0xB8, 0xDE, IDNA_P_DISALLOWED), (0xDF, 0xF6, IDNA_P_PVALID), (0xF7, 0xF7, IDNA_P_DISALLOWED), (0xF8, 0xFF, IDNA_P_PVALID)],
     idna_joiningtype = []\<rparr>"

lemma two_byte_text_length: "two_byte_text s = Some t \<Longrightarrow> length t \<le> 4 * length s"
  by (induction s arbitrary: t) (auto split: if_splits)

lemma latin_laws: "unicode_laws latin"
  by (auto simp: unicode_laws_def latin_def two_byte_text_length)

lemma latin_ascii: "ascii_derived latin"
  unfolding ascii_derived_def
proof (intro allI impI)
  fix c assume "c < 0x80" "idna__cp_property latin c \<noteq> IDNA_P_DISALLOWED \<and> idna__cp_property latin c \<noteq> IDNA_P_UNASSIGNED"
  then have "c = 45 \<or> c \<in> {48..<58} \<union> {65..<91} \<union> {97..<123}" by (auto simp: idna__cp_property_def latin_def split: if_splits)
  then show "ldh_char (of_nat c)" using ldh_alnum [of c] by (auto simp: ldh_char_def [of "45"])
qed

section \<open>Properties\<close>





text \<open>An empty label ends the host name: when two dots follow each other, the encoder drops everything after them and
  reports success for the name that is left, so that a URL for one host is resolved as another.\<close>

theorem idna_encode_drops_after_empty_label:
  assumes "ls \<noteq> []" and "\<forall>l \<in> set ls. plain_label l" and "length (join_dots ls) < 255" and "length rest < 2 ^ 32"
    and "\<forall>n. malloc_ok h n = (n \<le> PTRDIFF_MAX)"
  shows "idna_encode u h (join_dots ls @ [0x2E, 0x2E] @ rest @ [0]) (length (join_dots ls) + 2 + length rest) =
    Some (Inr (Some (join_dots ls), length (join_dots ls)))"
proof -
  have l: "\<forall>l \<in> set ls. label_ok l \<and> converts (encode_host_label u h) (ace_of u) l" "\<forall>l \<in> set ls. 0 \<notin> set (ace_of u l)"
    and i: "map (ace_of u) ls = ls"
    using assms(2) by (auto simp: plain_label_converts map_idI plain_label_def ldh_label_ok label_ok_zero)
  have "host_end ([0x2E, 0x2E] @ rest @ [0]) (2 + length rest)" by (simp add: host_end_def idna__host_label_length.simps)
  from convert_host_join [OF l(1) assms(1) this _ l(2) assms(5)] show ?thesis
    using assms(3,4) by (simp add: idna_encode_def i add.assoc)
qed

theorem idna_encode_drops_after_empty_label_witness:
  "idna_encode latin heap_all [0x61, 0x2E, 0x2E, 0x62, 0] (length [0x61, 0x2E, 0x2E, 0x62 :: u8]) = Some (Inr (Some [0x61], 1))"
proof -
  have "plain_label [0x61]" by (simp add: plain_label_def idna__is_ldh_def ldh_char_def ace_prefix_def)
  moreover have "\<forall>n. malloc_ok heap_all n = (n \<le> PTRDIFF_MAX)" by (simp add: malloc_ok_def heap_all_def)
  ultimately show ?thesis using idna_encode_drops_after_empty_label [of "[[0x61]]" "[0x62]" heap_all latin] by simp
qed



end
