(* ===== verification/Css_Fixed.thy ===== *)
theory Css_Fixed
  imports Prelude
begin

text \<open>
  Fixed-point numbers of the CSS library: the saturating arithmetic of \<^verbatim>\<open>libcss/include/libcss/fpmath.h\<close> and the number
  scanner of \<^verbatim>\<open>libcss/src/utils/utils.c\<close>. A css_fixed is a 32-bit signed integer with ten binary places. It is an \<open>int\<close>
  here; an operation of type int that leaves the range of 32 bits is undefined and gives \<open>None\<close>.
\<close>

section \<open>Arithmetic\<close>

abbreviation CSS_RADIX_POINT :: nat where "CSS_RADIX_POINT \<equiv> 10"

definition int32 :: "int \<Rightarrow> int option" where
  "int32 x = (if INT32_MIN \<le> x \<and> x \<le> INT32_MAX then Some x else None)"

definition clamp32 :: "int \<Rightarrow> int" where
  "clamp32 xx = (let xx = (if xx < INT32_MIN then INT32_MIN else xx) in if xx > INT32_MAX then INT32_MAX else xx)"

definition css_add_fixed :: "int \<Rightarrow> int \<Rightarrow> int option" where
  "css_add_fixed x y = do {
     res \<leftarrow> int32 (x + y);
     ux \<leftarrow> int32 (drop_bit 31 x + INT32_MAX);
     Some (if (ux XOR y) OR NOT (y XOR res) \<ge> 0 then ux else res)
   }"

definition css_subtract_fixed :: "int \<Rightarrow> int \<Rightarrow> int option" where
  "css_subtract_fixed x y = do {
     res \<leftarrow> int32 (x - y);
     ux \<leftarrow> int32 (drop_bit 31 x + INT32_MAX);
     Some (if (ux XOR y) AND (ux XOR res) < 0 then ux else res)
   }"

text \<open>The quotient of C is rounded towards zero; dividing by zero is undefined.\<close>

definition c_div :: "int \<Rightarrow> int \<Rightarrow> int" where
  "c_div a b = sgn a * sgn b * (\<bar>a\<bar> div \<bar>b\<bar>)"

definition css_divide_fixed :: "int \<Rightarrow> int \<Rightarrow> int option" where
  "css_divide_fixed x y = (if y = 0 then None else Some (clamp32 (c_div (x * push_bit CSS_RADIX_POINT 1) y)))"

definition css_multiply_fixed :: "int \<Rightarrow> int \<Rightarrow> int" where
  "css_multiply_fixed x y = clamp32 (drop_bit CSS_RADIX_POINT (x * y))"

definition css_int_to_fixed :: "int \<Rightarrow> int" where
  "css_int_to_fixed a = clamp32 (a * push_bit CSS_RADIX_POINT 1)"

section \<open>Scanning a number\<close>

definition is_digit :: "u8 \<Rightarrow> bool" where
  "is_digit c \<longleftrightarrow> \<not> (c < 0x30 \<or> 0x39 < c)"

definition digit :: "u8 \<Rightarrow> int" where
  "digit c = uint c - 0x30"

text \<open>The loop over the integer part, which stops accumulating at 2^22, and the one over the fraction, which takes six digits;
  each returns the bytes that are left.\<close>

fun int_loop :: "int \<Rightarrow> bytes \<Rightarrow> int \<times> bytes" where
  "int_loop intpart [] = (intpart, [])"
| "int_loop intpart (c # ptr) =
     (if \<not> is_digit c then (intpart, c # ptr)
      else int_loop (if intpart < 0x400000 then intpart * 10 + digit c else intpart) ptr)"

fun frac_loop :: "int \<Rightarrow> int \<Rightarrow> bytes \<Rightarrow> int \<times> int \<times> bytes" where
  "frac_loop pwr fracpart [] = (pwr, fracpart, [])"
| "frac_loop pwr fracpart (c # ptr) =
     (if \<not> is_digit c then (pwr, fracpart, c # ptr)
      else if pwr < 1000000 then frac_loop (pwr * 10) (fracpart * 10 + digit c) ptr
      else frac_loop pwr fracpart ptr)"

definition number_starts :: "bytes \<Rightarrow> bool" where
  "number_starts ptr \<longleftrightarrow>
     (case ptr of
        [] \<Rightarrow> False
      | c # rest \<Rightarrow> if c = 0x2E then rest \<noteq> [] \<and> is_digit (hd rest) else is_digit c)"

definition scan_fraction :: "bool \<Rightarrow> int \<Rightarrow> bytes \<Rightarrow> int \<times> int \<times> bytes" where
  "scan_fraction int_only intpart ptr =
     (if \<not> int_only \<and> length ptr > 1 \<and> ptr ! 0 = 0x2E \<and> is_digit (ptr ! 1) then
        (let (pwr, fracpart, ptr) = frac_loop 1 0 (tl ptr);
             fracpart = (1024 * fracpart + pwr div 2) div pwr
         in if fracpart \<ge> 1024 then (intpart + 1, fracpart AND 1023, ptr) else (intpart, fracpart, ptr))
      else (intpart, 0, ptr))"

text \<open>The sign and the clamping, and the packing into 32 bits.\<close>

definition pack_fixed :: "int \<Rightarrow> int \<Rightarrow> int" where
  "pack_fixed intpart fracpart = sint (push_bit 10 (word_of_int intpart :: u32) OR word_of_int fracpart)"

definition finish_number :: "int \<Rightarrow> int \<Rightarrow> int \<Rightarrow> int" where
  "finish_number sign intpart fracpart =
     (if sign > 0 then
        (if intpart \<ge> 0x200000 then pack_fixed (0x200000 - 1) (1024 - 1) else pack_fixed intpart fracpart)
      else if intpart \<ge> 0x200000 then pack_fixed (- 0x200000) 0
      else if fracpart \<noteq> 0 then pack_fixed (- intpart - 1) (1024 - fracpart)
      else pack_fixed (- intpart) fracpart)"

text \<open>The result, and what is stored through \<open>consumed\<close>, \<open>None\<close> when nothing is.\<close>

definition css__number_from_string :: "bytes option \<Rightarrow> bool \<Rightarrow> int \<times> nat option" where
  "css__number_from_string data int_only =
     (case data of
        None \<Rightarrow> (0, None)
      | Some [] \<Rightarrow> (0, None)
      | Some (c # rest) \<Rightarrow>
          (let (sign, ptr) = (if c = 0x2D then (- 1, rest) else if c = 0x2B then (1, rest) else (1, c # rest)) in
           if \<not> number_starts ptr then (0, Some 0)
           else
             (let (intpart, ptr) = int_loop 0 ptr;
                  (intpart, fracpart, ptr) = scan_fraction int_only intpart ptr
              in (finish_number sign intpart fracpart, Some (length (c # rest) - length ptr)))))"

definition css__number_from_lwc_string :: "bytes option \<Rightarrow> bool \<Rightarrow> int \<times> nat option" where
  "css__number_from_lwc_string string int_only =
     (case string of
        None \<Rightarrow> (0, None)
      | Some s \<Rightarrow> if s = [] then (0, None) else css__number_from_string (Some s) int_only)"

section \<open>Signs of bitwise results\<close>

lemma shift_sign: "INT32_MIN \<le> x \<Longrightarrow> x \<le> INT32_MAX \<Longrightarrow> drop_bit 31 x = (if x < 0 then - 1 else (0 :: int))"
proof -
  assume "INT32_MIN \<le> x" "x \<le> INT32_MAX"
  then have "x div 2147483648 = (if x < 0 then - 1 else 0)" by (simp add: int_div_pos_eq [of x _ _ "x + 2147483648"] div_pos_pos_trivial)
  then show ?thesis by (simp add: drop_bit_eq_div)
qed

lemma clamp32_id: "INT32_MIN \<le> x \<Longrightarrow> x \<le> INT32_MAX \<Longrightarrow> clamp32 x = x"
  by (simp add: clamp32_def)

section \<open>Packing\<close>

lemma pack_fixed_eq:
  assumes "- 0x200000 \<le> i" "i < 0x200000" "0 \<le> f" "f < 1024"
  shows "pack_fixed i f = i * 1024 + f"
proof -
  have f: "\<not> bit f n" if "10 \<le> n" for n
  proof -
    have "take_bit 10 f = f" using assms by (simp add: take_bit_int_eq_self)
    with that show ?thesis by (metis bit_take_bit_iff not_le)
  qed
  have "push_bit 10 (word_of_int i :: u32) AND word_of_int f = 0"
    by (rule bit_word_eqI) (auto simp: bit_simps f)
  then have "push_bit 10 (word_of_int i :: u32) OR word_of_int f = push_bit 10 (word_of_int i) + word_of_int f"
    by (simp add: disjunctive_add_eq_or)
  also have "\<dots> = word_of_int (i * 1024 + f)" by (simp add: push_bit_eq_mult)
  finally have w: "push_bit 10 (word_of_int i :: u32) OR word_of_int f = word_of_int (i * 1024 + f)" .
  have s: "sint (word_of_int k :: u32) = signed_take_bit 31 k" for k by (simp add: signed_of_int)
  show ?thesis using assms unfolding pack_fixed_def w s by (intro signed_take_bit_int_eq_self) simp_all
qed

lemma finish_number_eq:
  assumes "s = 1 \<or> s = - 1" "0 \<le> i" "0 \<le> f" "f < 1024"
  shows "finish_number s i f = clamp32 (s * (i * 1024 + f))"
proof (cases "i \<ge> 0x200000")
  case True
  with assms show ?thesis by (auto simp: finish_number_def pack_fixed_eq clamp32_def Let_def)
next
  case False
  with assms have "pack_fixed i f = i * 1024 + f" "f \<noteq> 0 \<Longrightarrow> pack_fixed (- i - 1) (1024 - f) = - (i * 1024 + f)"
    "pack_fixed (- i) 0 = - (i * 1024)" by (simp_all add: pack_fixed_eq)
  with False assms show ?thesis by (auto simp: finish_number_def clamp32_def Let_def)
qed

section \<open>Digits\<close>

definition decimal :: "bytes \<Rightarrow> int" where
  "decimal ds = foldl (\<lambda>v c. v * 10 + digit c) 0 ds"

lemma foldl_decimal: "foldl (\<lambda>v c. v * 10 + digit c) a ds = a * 10 ^ length ds + decimal ds"
proof (induction ds rule: rev_induct)
  case (snoc c ds)
  then show ?case by (simp add: decimal_def algebra_simps)
qed (simp add: decimal_def)

lemma digit_range: "is_digit c \<Longrightarrow> 0 \<le> digit c \<and> digit c \<le> 9"
  by (simp add: is_digit_def digit_def word_less_def)

lemma digit_not_sign: "is_digit c \<Longrightarrow> c \<noteq> 0x2D \<and> c \<noteq> 0x2B \<and> c \<noteq> 0x2E"
  by (auto simp: is_digit_def)

lemma decimal_bounds: "list_all is_digit ds \<Longrightarrow> 0 \<le> decimal ds \<and> decimal ds < 10 ^ length ds"
proof (induction ds rule: rev_induct)
  case (snoc c ds)
  then have "0 \<le> decimal ds" "decimal ds < 10 ^ length ds" "0 \<le> digit c" "digit c \<le> 9"
    using digit_range [of c] by simp_all
  then show ?case by (simp add: decimal_def)
qed (simp add: decimal_def)

text \<open>The integer loop is exact below 2^22 and otherwise stops at a value of at least 2^22; it never leaves 26 bits.\<close>

lemma int_loop_spec:
  assumes "list_all is_digit ds" and "rest = [] \<or> \<not> is_digit (hd rest)" and "0 \<le> i" and "i < 0x4000000"
  shows "\<exists>i'. int_loop i (ds @ rest) = (i', rest) \<and> i \<le> i' \<and> i' < 0x4000000 \<and>
    (i' = i * 10 ^ length ds + decimal ds \<or> 0x400000 \<le> i' \<and> i' \<le> i * 10 ^ length ds + decimal ds)"
  using assms
proof (induction ds arbitrary: i)
  case Nil
  then show ?case by (cases rest) (simp_all add: decimal_def)
next
  case (Cons c ds)
  have c: "is_digit c" "0 \<le> digit c" "digit c \<le> 9" using Cons.prems(1) digit_range [of c] by simp_all
  have v: "i * 10 ^ length (c # ds) + decimal (c # ds) = (i * 10 + digit c) * 10 ^ length ds + decimal ds"
    using foldl_decimal [of "digit c" ds] by (simp add: decimal_def algebra_simps)
  show ?case
  proof (cases "i < 0x400000")
    case True
    from True Cons.prems c have "0 \<le> i * 10 + digit c" "i * 10 + digit c < 0x4000000" "i \<le> i * 10 + digit c"
      by linarith+
    with Cons.IH [of "i * 10 + digit c"] Cons.prems c(1) True show ?thesis unfolding v by fastforce
  next
    case False
    have "i \<le> i * 10 + digit c" using Cons.prems(3) c by linarith
    then have "i * 10 ^ length ds \<le> (i * 10 + digit c) * 10 ^ length ds" by (rule mult_right_mono) simp
    then have le: "i * 10 ^ length ds + decimal ds \<le> (i * 10 + digit c) * 10 ^ length ds + decimal ds" by simp
    from Cons.IH [of i] Cons.prems obtain i' where "int_loop i (ds @ rest) = (i', rest)" "i \<le> i'" "i' < 0x4000000"
      "i' \<le> i * 10 ^ length ds + decimal ds" by auto
    with le False c(1) show ?thesis unfolding v by (intro exI [of _ i']) (simp add: order_trans)
  qed
qed

text \<open>The fraction loop takes the first six digits.\<close>

lemma frac_loop_done:
  "list_all is_digit ds \<Longrightarrow> rest = [] \<or> \<not> is_digit (hd rest) \<Longrightarrow> \<not> p < 1000000 \<Longrightarrow> frac_loop p f (ds @ rest) = (p, f, rest)"
  by (induction ds) (cases rest; simp)+

lemma frac_loop_spec:
  assumes "list_all is_digit ds" and "rest = [] \<or> \<not> is_digit (hd rest)" and "k \<le> 6"
  shows "frac_loop (10 ^ k) f (ds @ rest) =
    (10 ^ min 6 (k + length ds), f * 10 ^ min (6 - k) (length ds) + decimal (take (6 - k) ds), rest)"
  using assms
proof (induction ds arbitrary: k f)
  case Nil
  then show ?case by (cases rest) (simp_all add: decimal_def)
next
  case (Cons c ds)
  have c: "is_digit c" using Cons.prems(1) by simp
  show ?case
  proof (cases "k = 6")
    case True
    then show ?thesis using frac_loop_done [OF Cons.prems(1,2), of "10 ^ 6" f] by (simp add: decimal_def)
  next
    case False
    then have k: "k < 6" "6 - k = Suc (5 - k)" "6 - Suc k = 5 - k" using Cons.prems(3) by simp_all
    have "(10 :: int) ^ k \<le> 10 ^ 5" using k(1) by (intro power_increasing) simp_all
    then have p: "(10 :: int) ^ k < 1000000" by simp
    have m: "min (Suc (5 - k)) (Suc (length ds)) = Suc (min (5 - k) (length ds))" by simp
    have v: "decimal (c # take (5 - k) ds) = digit c * 10 ^ min (5 - k) (length ds) + decimal (take (5 - k) ds)"
      using foldl_decimal [of "digit c" "take (5 - k) ds"] by (simp add: decimal_def min.commute)
    show ?thesis
      using Cons.IH [of "Suc k" "f * 10 + digit c"] Cons.prems(1,2) c p k
      by (simp add: m v algebra_simps)
  qed
qed

lemma round_nearest:
  fixes F p :: int
  assumes "0 \<le> F" and "F < p" and p: "0 < p"
  defines "r \<equiv> (1024 * F + p div 2) div p"
  shows "2 * \<bar>r * p - 1024 * F\<bar> \<le> p" and "0 \<le> r" and "r \<le> 1024"
proof -
  define h where "h = p div 2"
  let ?n = "1024 * F + h"
  have h: "2 * h \<le> p" "p \<le> 2 * h + 1" by (simp_all add: h_def)
  have d: "r * p \<le> ?n" "?n < r * p + p"
    using div_mult_mod_eq [of ?n p] pos_mod_sign [OF p, of ?n] pos_mod_bound [OF p, of ?n]
    unfolding r_def h_def by linarith+
  have n: "0 \<le> ?n" "?n < 1025 * p" using assms(1,2) p h by linarith+
  show "0 \<le> r" unfolding r_def h_def [symmetric] using n(1) p by (simp only: pos_imp_zdiv_nonneg_iff)
  have "r * p < 1025 * p" using d(1) n(2) by linarith
  then show "r \<le> 1024" using p by simp
  have "2 * \<bar>q - 1024 * F\<bar> \<le> p" if "q \<le> ?n" "?n < q + p" for q using that h by (simp add: abs_if)
  then show "2 * \<bar>r * p - 1024 * F\<bar> \<le> p" using d by blast
qed

text \<open>The fraction part: the carry into the integer part does not change the sum.\<close>

lemma scan_fraction_spec:
  assumes "list_all is_digit fds" and "rest = [] \<or> \<not> is_digit (hd rest)" and "fds \<noteq> []"
  shows "\<exists>i' f' r. scan_fraction False i (0x2E # fds @ rest) = (i', f', rest) \<and> i' * 1024 + f' = i * 1024 + r \<and>
    0 \<le> f' \<and> f' < 1024 \<and> i \<le> i' \<and> 0 \<le> r \<and> r \<le> 1024 \<and>
    2 * \<bar>r * 10 ^ min 6 (length fds) - 1024 * decimal (take 6 fds)\<bar> \<le> 10 ^ min 6 (length fds)"
proof -
  define k where "k = min 6 (length fds)"
  let ?F = "decimal (take 6 fds)"
  define r where "r = (1024 * ?F + 10 ^ k div 2) div 10 ^ k"
  have "length (take 6 fds) = k" by (simp add: k_def min.commute)
  then have "0 \<le> ?F" "?F < 10 ^ k" using decimal_bounds [OF list_all_take [OF assms(1)], of 6] by simp_all
  note rn = round_nearest [OF this, folded r_def]
  have l: "frac_loop 1 0 (fds @ rest) = (10 ^ k, ?F, rest)"
    using frac_loop_spec [OF assms(1,2), of 0 0] by (simp add: k_def min.commute)
  obtain d ds where fds: "fds = d # ds" "is_digit d" using assms(1,3) by (cases fds) auto
  have s: "scan_fraction False i (0x2E # fds @ rest) =
      (if 1024 \<le> r then (i + 1, r AND 1023, rest) else (i, r, rest))"
    using l fds(2) by (simp add: scan_fraction_def fds(1) r_def)
  have "1024 \<le> r \<Longrightarrow> r = 1024" using rn(3) by simp
  then have "\<exists>i' f'. (if 1024 \<le> r then (i + 1, r AND 1023, rest) else (i, r, rest)) = (i', f', rest) \<and>
      i' * 1024 + f' = i * 1024 + r \<and> 0 \<le> f' \<and> f' < 1024 \<and> i \<le> i'" using rn(2) by (cases "1024 \<le> r") simp_all
  then show ?thesis unfolding s using rn unfolding k_def by auto
qed

lemma scan_fraction_none:
  "\<not> (\<exists>d r. ptr = 0x2E # d # r \<and> is_digit d) \<Longrightarrow> scan_fraction int_only i ptr = (i, 0, ptr)"
  by (cases ptr; cases "tl ptr") (auto simp: scan_fraction_def)

lemma clamp_beyond: "s = 1 \<or> s = - 1 \<Longrightarrow> 0x80000000 \<le> a \<Longrightarrow> 0x80000000 \<le> b \<Longrightarrow> clamp32 (s * a) = clamp32 (s * b)"
  by (auto simp: clamp32_def Let_def)

text \<open>The number after its sign.\<close>

lemma scan_body:
  assumes digits: "list_all is_digit ids" "list_all is_digit fds"
    and s: "s = 1 \<or> s = - 1" and rest: "rest = [] \<or> \<not> is_digit (hd rest)"
    and dot: "fds = [] \<Longrightarrow> \<not> (\<exists>d r. rest = 0x2E # d # r \<and> is_digit d)"
    and frac: "frac = (if fds = [] then [] else 0x2E # fds)"
  shows "\<exists>i i' f r. int_loop 0 (ids @ frac @ rest) = (i, frac @ rest) \<and> scan_fraction False i (frac @ rest) = (i', f, rest) \<and>
    finish_number s i' f = clamp32 (s * (1024 * decimal ids + r)) \<and>
    2 * \<bar>r * 10 ^ min 6 (length fds) - 1024 * decimal (take 6 fds)\<bar> \<le> 10 ^ min 6 (length fds)"
proof -
  have "frac @ rest = [] \<or> \<not> is_digit (hd (frac @ rest))" using rest frac by (auto simp: is_digit_def)
  from int_loop_spec [OF digits(1) this, of 0] obtain i where i: "int_loop 0 (ids @ frac @ rest) = (i, frac @ rest)"
    "0 \<le> i" "i = decimal ids \<or> 0x400000 \<le> i \<and> i \<le> decimal ids" by auto
  have "\<exists>i' f r. scan_fraction False i (frac @ rest) = (i', f, rest) \<and> i' * 1024 + f = i * 1024 + r \<and>
      0 \<le> f \<and> f < 1024 \<and> i \<le> i' \<and> 0 \<le> r \<and>
      2 * \<bar>r * 10 ^ min 6 (length fds) - 1024 * decimal (take 6 fds)\<bar> \<le> 10 ^ min 6 (length fds)"
  proof (cases "fds = []")
    case True
    then show ?thesis using scan_fraction_none [OF dot [OF True], of False i] by (simp add: frac decimal_def)
  next
    case False
    then show ?thesis using scan_fraction_spec [OF digits(2) rest False, of i] frac by auto
  qed
  then obtain i' f r where f: "scan_fraction False i (frac @ rest) = (i', f, rest)" "i' * 1024 + f = i * 1024 + r"
    "0 \<le> f" "f < 1024" "i \<le> i'" "0 \<le> r"
    "2 * \<bar>r * 10 ^ min 6 (length fds) - 1024 * decimal (take 6 fds)\<bar> \<le> 10 ^ min 6 (length fds)" by blast
  have "finish_number s i' f = clamp32 (s * (i * 1024 + r))"
    using finish_number_eq [OF s, of i' f] f i(2) by simp
  also have "\<dots> = clamp32 (s * (1024 * decimal ids + r))"
    using i(3) f(6) clamp_beyond [OF s, of "i * 1024 + r" "1024 * decimal ids + r"] by (auto simp: mult.commute)
  finally show ?thesis using i(1) f by blast
qed

section \<open>Properties\<close>

text \<open>C32: The number scanner is exact up to rounding: for an optional sign, digits and an optional fraction, the value is
  1024 times the number, the fraction (its first six digits) rounded to the nearest 1024th, and clamped to 32 bits
  with the right sign however many digits there are; exactly the characters of the number are consumed.\<close>

theorem css_number_exact:
  assumes digits: "list_all is_digit ids" "list_all is_digit fds" "ids \<noteq> [] \<or> fds \<noteq> []"
    and sign: "(sg, s) \<in> {([], 1), ([0x2B], 1), ([0x2D], - 1)}"
    and rest: "rest = [] \<or> \<not> is_digit (hd rest)"
    and dot: "fds = [] \<Longrightarrow> \<not> (\<exists>d r. rest = 0x2E # d # r \<and> is_digit d)"
    and frac: "frac = (if fds = [] then [] else 0x2E # fds)"
  shows "\<exists>r. css__number_from_string (Some (sg @ ids @ frac @ rest)) False =
      (clamp32 (s * (1024 * decimal ids + r)), Some (length sg + length ids + length frac)) \<and>
    2 * \<bar>r * 10 ^ min 6 (length fds) - 1024 * decimal (take 6 fds)\<bar> \<le> 10 ^ min 6 (length fds)"
proof -
  have s: "s = 1 \<or> s = - 1" using sign by auto
  from scan_body [OF digits(1,2) s rest dot frac] obtain i i' f r where
    b: "int_loop 0 (ids @ frac @ rest) = (i, frac @ rest)" "scan_fraction False i (frac @ rest) = (i', f, rest)"
      "finish_number s i' f = clamp32 (s * (1024 * decimal ids + r))"
      "2 * \<bar>r * 10 ^ min 6 (length fds) - 1024 * decimal (take 6 fds)\<bar> \<le> 10 ^ min 6 (length fds)" by blast
  obtain c tail where body: "ids @ frac @ rest = c # tail" "c \<noteq> 0x2D" "c \<noteq> 0x2B"
    using digits frac by (cases ids; cases fds) (auto dest: digit_not_sign)
  have start: "number_starts (ids @ frac @ rest)"
    using digits frac by (cases ids; cases fds) (auto simp: number_starts_def dest: digit_not_sign)
  have "css__number_from_string (Some (sg @ ids @ frac @ rest)) False =
      (finish_number s i' f, Some (length sg + length (ids @ frac @ rest) - length rest))"
    using sign start b(1,2) body(2,3) unfolding body(1) by (auto simp: css__number_from_string_def)
  then show ?thesis using b(3,4) by auto
qed

theorem css_number_exact_witness:
  "\<exists>r. css__number_from_string (Some ([0x2D] @ [0x31, 0x32] @ (0x2E # [0x35]) @ [0x70, 0x78])) False =
      (clamp32 (- 1 * (1024 * decimal [0x31, 0x32] + r)),
       Some (length [0x2D :: u8] + length [0x31, 0x32 :: u8] + length (0x2E # [0x35 :: u8]))) \<and>
    2 * \<bar>r * 10 ^ min 6 (length [0x35 :: u8]) - 1024 * decimal (take 6 [0x35])\<bar> \<le> 10 ^ min 6 (length [0x35 :: u8])"
  by (rule css_number_exact) (simp_all add: is_digit_def)

text \<open>Fixed-point multiplication and conversion are the exact operation followed by rounding down and clamping to 32
  bits, division rounds towards zero and is undefined for zero only: within the range, the product is less than one unit in the last place below the exact one, and dividing a
  product by one factor that divides it exactly gives the other.\<close>

theorem css_multiply_divide:
  assumes "INT32_MIN \<le> x" "x \<le> INT32_MAX" "y \<noteq> 0" and "INT32_MIN * 1024 \<le> x * y" "x * y \<le> INT32_MAX * 1024"
  shows "css_multiply_fixed x y * 1024 \<le> x * y \<and> x * y < css_multiply_fixed x y * 1024 + 1024 \<and>
    (1024 dvd x * y \<longrightarrow> css_divide_fixed (css_multiply_fixed x y) y = Some x)"
proof -
  let ?q = "x * y div 1024"
  have q: "INT32_MIN \<le> ?q" "?q \<le> INT32_MAX" using assms(4,5) by linarith+
  have m: "css_multiply_fixed x y = ?q" by (simp add: css_multiply_fixed_def drop_bit_eq_div clamp32_id [OF q])
  have "css_divide_fixed ?q y = Some x" if "1024 dvd x * y"
  proof -
    have "?q * 1024 = x * y" using that by simp
    moreover have "c_div (x * y) y = x" using assms(3) by (simp add: c_div_def abs_mult sgn_mult) (auto simp: sgn_if abs_if)
    ultimately show ?thesis using assms(1-3) by (simp add: css_divide_fixed_def clamp32_id)
  qed
  then show ?thesis unfolding m by (simp add: algebra_simps) linarith
qed

theorem css_multiply_divide_witness:
  "css_multiply_fixed 3072 (- 1536) * 1024 \<le> 3072 * (- 1536) \<and>
    3072 * (- 1536) < css_multiply_fixed 3072 (- 1536) * 1024 + 1024 \<and>
    css_divide_fixed (css_multiply_fixed 3072 (- 1536)) (- 1536) = Some 3072"
  using css_multiply_divide [of 3072 "- 1536"] by simp

text \<open>Adding and subtracting fixed-point numbers fail when the first operand is negative: a negative number plus a
  number that leaves the sum negative, and a negative number minus a negative one that leaves the difference
  negative, give 0x7FFFFFFE instead of the result. The code shifts the sign of a signed number, which extends it,
  so that the value for overflow, meant to have the sign of the first operand, is always positive.\<close>

theorem css_add_fixed_negative:
  assumes "INT32_MIN \<le> x" "x < 0" "INT32_MIN \<le> y"
  shows "(0 \<le> y \<and> x + y < 0 \<longrightarrow> css_add_fixed x y = Some 0x7FFFFFFE) \<and>
    (y < 0 \<and> x - y < 0 \<longrightarrow> css_subtract_fixed x y = Some 0x7FFFFFFE)"
  using assms shift_sign [of x] by (simp add: css_add_fixed_def css_subtract_fixed_def int32_def)

theorem css_add_fixed_negative_witness:
  "css_add_fixed (- 2048) 1024 = Some 0x7FFFFFFE \<and> css_subtract_fixed (- 2048) (- 1024) = Some 0x7FFFFFFE"
  using css_add_fixed_negative [of "- 2048" 1024] css_add_fixed_negative [of "- 2048" "- 1024"] by simp

lemma css_add_fixed_nonneg:
  assumes "0 \<le> x" "x \<le> INT32_MAX" "INT32_MIN \<le> y" "y \<le> INT32_MAX"
  shows "css_add_fixed x y = (if x + y \<le> INT32_MAX then Some (x + y) else None)"
    "css_subtract_fixed x y = (if x - y \<le> INT32_MAX then Some (x - y) else None)"
  using assms shift_sign [of x] by (auto simp: css_add_fixed_def css_subtract_fixed_def int32_def)

end
