(* ===== verification/Nsurl_Parse.thy ===== *)
theory Nsurl_Parse
  imports Url_Escape
begin

text \<open>
  The scanner of URLs, the first half of \<^verbatim>\<open>netsurf/utils/nsurl/parse.c\<close>: the markers that cut a string into the sections of a
  URL, and the removal of dot segments from a path.

  A C string is the list of its bytes before the NUL; \<open>ch\<close> reads it and gives the NUL at its end. Loops that run up to a
  character are \<open>takeWhile\<close> on the rest of the string, and end at the NUL at the latest.
\<close>

section \<open>Characters\<close>

definition ascii_is_space :: "u8 \<Rightarrow> bool" where
  "ascii_is_space c \<longleftrightarrow> c = 0x20 \<or> c = 0x09 \<or> c = 0x0A \<or> c = 0x0B \<or> c = 0x0C \<or> c = 0x0D"

definition ascii_is_alpha_upper :: "u8 \<Rightarrow> bool" where
  "ascii_is_alpha_upper c \<longleftrightarrow> 0x41 \<le> c \<and> c \<le> 0x5A"

definition ascii_is_alpha :: "u8 \<Rightarrow> bool" where
  "ascii_is_alpha c \<longleftrightarrow> 0x61 \<le> c \<and> c \<le> 0x7A \<or> ascii_is_alpha_upper c"

definition ascii_is_digit :: "u8 \<Rightarrow> bool" where
  "ascii_is_digit c \<longleftrightarrow> 0x30 \<le> c \<and> c \<le> 0x39"

definition ascii_is_alphanumerical :: "u8 \<Rightarrow> bool" where
  "ascii_is_alphanumerical c \<longleftrightarrow> ascii_is_alpha c \<or> ascii_is_digit c"

definition ascii_to_lower :: "u8 \<Rightarrow> u8" where
  "ascii_to_lower c = (if ascii_is_alpha_upper c then c + 0x61 - 0x41 else c)"

definition ascii_hex_to_value :: "u8 \<Rightarrow> int" where
  "ascii_hex_to_value c =
     (if ascii_is_digit c then uint c - 0x30
      else if 0x61 \<le> c \<and> c \<le> 0x66 then uint c - 0x61 + 10
      else if 0x41 \<le> c \<and> c \<le> 0x46 then uint c - 0x41 + 10
      else - 256)"

definition ascii_hex_to_value_2_chars :: "u8 \<Rightarrow> u8 \<Rightarrow> int" where
  "ascii_hex_to_value_2_chars c1 c2 = 16 * ascii_hex_to_value c1 + ascii_hex_to_value c2"

abbreviation slash :: u8 where "slash \<equiv> 0x2F"
abbreviation dot :: u8 where "dot \<equiv> 0x2E"
abbreviation colon :: u8 where "colon \<equiv> 0x3A"
abbreviation quest :: u8 where "quest \<equiv> 0x3F"
abbreviation hash :: u8 where "hash \<equiv> 0x23"
abbreviation atsign :: u8 where "atsign \<equiv> 0x40"

definition ch :: "bytes \<Rightarrow> nat \<Rightarrow> u8" where
  "ch s i = (if i < length s then s ! i else 0)"

section \<open>Markers\<close>

datatype nsurl_scheme_type =
    NSURL_SCHEME_OTHER | NSURL_SCHEME_HTTP | NSURL_SCHEME_HTTPS | NSURL_SCHEME_FILE | NSURL_SCHEME_FTP | NSURL_SCHEME_MAILTO
  | NSURL_SCHEME_DATA

record url_markers =
  m_start :: nat
  m_scheme_end :: nat
  m_authority :: nat
  m_colon_first :: nat
  m_at :: nat
  m_colon_last :: nat
  m_path :: nat
  m_query :: nat
  m_fragment :: nat
  m_end :: nat
  m_scheme_type :: nsurl_scheme_type

definition scheme_char :: "u8 \<Rightarrow> bool" where
  "scheme_char c \<longleftrightarrow> ascii_is_alphanumerical c \<or> c = 0x2B \<or> c = 0x2D \<or> c = dot"

definition scheme_type_of :: "bytes \<Rightarrow> nsurl_scheme_type" where
  "scheme_type_of scheme =
     (let l = map ascii_to_lower scheme in
      if l = [0x68, 0x74, 0x74, 0x70] then NSURL_SCHEME_HTTP
      else if l = [0x68, 0x74, 0x74, 0x70, 0x73] then NSURL_SCHEME_HTTPS
      else if l = [0x66, 0x69, 0x6C, 0x65] then NSURL_SCHEME_FILE
      else if l = [0x66, 0x74, 0x70] then NSURL_SCHEME_FTP
      else if l = [0x6D, 0x61, 0x69, 0x6C, 0x74, 0x6F] then NSURL_SCHEME_MAILTO
      else if l = [0x64, 0x61, 0x74, 0x61] then NSURL_SCHEME_DATA
      else NSURL_SCHEME_OTHER)"

text \<open>The scheme: the position after it, the markers for its end and for the authority, and its type. Without a scheme the
  position is where the characters of a scheme ended.\<close>

definition scan_scheme :: "bytes \<Rightarrow> nat \<Rightarrow> bool \<Rightarrow> nat \<times> nat \<times> nat \<times> nsurl_scheme_type" where
  "scan_scheme s start joining =
     (if ascii_is_alpha (ch s start) then
        (let pos = start + 1 + length (takeWhile scheme_char (drop (start + 1) s)) in
         if ch s pos = colon then (pos + 1, pos, pos + 1, scheme_type_of (take (pos - start) (drop start s)))
         else (pos, start, start, if joining then NSURL_SCHEME_OTHER else NSURL_SCHEME_HTTP))
      else (start, start, start, NSURL_SCHEME_OTHER))"

definition skip_slashes :: "bool \<Rightarrow> bytes \<Rightarrow> nat \<Rightarrow> nat" where
  "skip_slashes is_http s pos =
     (if is_http then pos + length (takeWhile (\<lambda>c. c = slash) (drop pos s))
      else if ch s pos = slash then if ch s (pos + 1) = slash then pos + 2 else pos + 1
      else pos)"

text \<open>The loop over the authority, with the markers for the first colon, the at sign and the last colon.\<close>

fun authority_loop :: "bool \<Rightarrow> nat \<Rightarrow> bytes \<Rightarrow> nat \<Rightarrow> nat \<times> nat \<times> nat \<Rightarrow> nat \<times> nat \<times> nat \<times> nat" where
  "authority_loop mailto authority [] pos (cf, at, cl) = (pos, cf, at, cl)"
| "authority_loop mailto authority (c # cs) pos (cf, at, cl) =
     (if c = slash \<or> c = quest \<or> c = hash then (pos, cf, at, cl)
      else authority_loop mailto authority cs (pos + 1)
        (if \<not> mailto \<and> c = colon \<and> cf = authority then (pos, at, cl)
         else if \<not> mailto \<and> c = colon \<and> cf \<noteq> authority then (cf, at, pos)
         else if c = atsign \<and> at = authority then (cf, pos, cl)
         else (cf, at, cl)))"

definition scan_to :: "(u8 \<Rightarrow> bool) \<Rightarrow> bytes \<Rightarrow> nat \<Rightarrow> nat" where
  "scan_to stop s pos = pos + 1 + length (takeWhile (\<lambda>c. \<not> stop c) (drop (pos + 1) s))"

text \<open>The authority: where it starts and ends, and its inner markers.\<close>

definition scan_authority :: "bytes \<Rightarrow> nat \<Rightarrow> bool \<Rightarrow> nat \<times> nat \<times> nat \<times> nsurl_scheme_type \<Rightarrow> nat \<times> nat \<times> nat \<times> nat \<times> nat \<times> nat" where
  "scan_authority s start joining scheme =
     (let (pos, scheme_end, authority, scheme_type) = scheme;
          is_http = (scheme_type = NSURL_SCHEME_HTTP \<or> scheme_type = NSURL_SCHEME_HTTPS) in
      if ch s pos = slash \<and> ch s (pos + 1) = slash \<or>
         is_http \<and> (joining \<and> ch s pos = slash \<or> \<not> joining \<and> scheme_end \<noteq> start) \<or>
         scheme_type = NSURL_SCHEME_MAILTO then
        (let first = (if ch s pos = slash then skip_slashes is_http s pos else pos);
             authority = (if ch s pos = slash then first else authority);
             (pos, cf, at, cl) = authority_loop (scheme_type = NSURL_SCHEME_MAILTO) authority (drop first s) first
               (authority, authority, authority)
         in (pos, authority, cf, at, cl, pos))
      else if (ch s pos = 0 \<or> ch s pos = slash) \<and> \<not> joining \<and> is_http
        then (pos, authority, authority, authority, authority, pos)
      else (pos, authority, authority, authority, authority, authority))"

definition strip_end :: "bytes \<Rightarrow> nat \<Rightarrow> nat" where
  "strip_end s pos = length (dropWhile ascii_is_space (rev (take pos s)))"

definition nsurl__get_string_markers :: "bytes \<Rightarrow> bool \<Rightarrow> url_markers" where
  "nsurl__get_string_markers s joining =
     (let start = length (takeWhile ascii_is_space s) in
      if ch s start = 0 then
        \<lparr>m_start = start, m_scheme_end = start, m_authority = start, m_colon_first = start, m_at = start, m_colon_last = start,
         m_path = start, m_query = start, m_fragment = start, m_end = start, m_scheme_type = NSURL_SCHEME_OTHER\<rparr>
      else
        (let scheme = scan_scheme s start joining;
             (pos, authority, colon_first, at, colon_last, path) = scan_authority s start joining scheme;
             query = (if ch s pos = slash \<or> path = authority \<and> ch s pos \<noteq> quest \<and> ch s pos \<noteq> hash \<and> ch s pos \<noteq> 0
                      then scan_to (\<lambda>c. c = quest \<or> c = hash) s pos else pos);
             fragment = (if ch s query = quest then scan_to (\<lambda>c. c = hash) s query else query);
             pos = (if ch s fragment = hash then length s else fragment);
             end = strip_end s pos;
             clamp = (\<lambda>marker. if end < pos \<and> marker > end then end else marker)
         in \<lparr>m_start = start, m_scheme_end = fst (snd scheme), m_authority = authority, m_colon_first = colon_first,
             m_at = clamp at, m_colon_last = clamp colon_last, m_path = clamp path, m_query = clamp query,
             m_fragment = clamp fragment, m_end = end, m_scheme_type = snd (snd (snd scheme))\<rparr>))"

definition nsurl__get_longest_section :: "url_markers \<Rightarrow> nat" where
  "nsurl__get_longest_section m =
     foldl (\<lambda>len l. if len < l then l else len) (size_sub (m_scheme_end m) (m_start m))
       [size_sub (m_at m) (m_authority m), size_sub (m_path m) (m_at m), size_sub (m_query m) (m_path m),
        size_sub (m_fragment m) (m_query m), size_sub (m_end m) (m_fragment m)]"

section \<open>Dot segments\<close>

text \<open>The two loops that go back in the output: to before the last slash, and to after it.\<close>

definition pop_segment :: "bytes \<Rightarrow> bytes" where
  "pop_segment out = rev (tl (dropWhile (\<lambda>c. c \<noteq> slash) (rev out)))"

definition pop_name :: "bytes \<Rightarrow> bytes" where
  "pop_name out = rev (dropWhile (\<lambda>c. c \<noteq> slash) (rev out))"

text \<open>The last branch for a single dot, which would remove a path that is one or two dots, cannot be reached in the source, since
  an earlier branch has the same condition; it is not in the model either.\<close>

function dots_loop :: "bytes \<Rightarrow> bytes \<Rightarrow> bytes" where
  "dots_loop path out =
     (if path = [] then out
      else if ch path 0 = dot \<and> ch path 1 = dot \<and> ch path 2 = slash then dots_loop (drop 3 path) out
      else if ch path 0 = dot \<and> ch path 1 = slash then dots_loop (drop 2 path) out
      else if ch path 0 = slash \<and> ch path 1 = dot \<and> ch path 2 = slash then dots_loop (drop 2 path) out
      else if ch path 0 = slash \<and> ch path 1 = dot \<and> ch path 2 = 0 then out @ [slash]
      else if ch path 0 = slash \<and> ch path 1 = dot \<and> ch path 2 = dot \<and> ch path 3 = slash
        then dots_loop (drop 3 path) (pop_segment out)
      else if ch path 0 = slash \<and> ch path 1 = dot \<and> ch path 2 = dot \<and> ch path 3 = 0 then pop_name out
      else
        (let n = 1 + length (takeWhile (\<lambda>c. c \<noteq> slash) (tl path))
         in dots_loop (drop n path) (out @ take n path)))"
  by pat_completeness auto
termination
  by (relation "measure (\<lambda>(path, out). length path)") auto

declare dots_loop.simps [simp del]

definition nsurl__remove_dot_segments :: "bytes \<Rightarrow> bytes" where
  "nsurl__remove_dot_segments path = dots_loop path []"

text \<open>The algorithm of RFC 3986, section 5.2.4, with its steps A to E.\<close>

function rfc_dots :: "bytes \<Rightarrow> bytes \<Rightarrow> bytes" where
  "rfc_dots inp out =
     (if inp = [] then out
      else if take 3 inp = [dot, dot, slash] then rfc_dots (drop 3 inp) out
      else if take 2 inp = [dot, slash] then rfc_dots (drop 2 inp) out
      else if take 3 inp = [slash, dot, slash] then rfc_dots (slash # drop 3 inp) out
      else if inp = [slash, dot] then rfc_dots [slash] out
      else if take 4 inp = [slash, dot, dot, slash] then rfc_dots (slash # drop 4 inp) (pop_segment out)
      else if inp = [slash, dot, dot] then rfc_dots [slash] (pop_segment out)
      else if inp = [dot] \<or> inp = [dot, dot] then out
      else
        (let n = 1 + length (takeWhile (\<lambda>c. c \<noteq> slash) (tl inp))
         in rfc_dots (drop n inp) (out @ take n inp)))"
  by pat_completeness auto
termination
proof (relation "measure (\<lambda>(inp, out). length inp)", goal_cases)
  case (4 inp out)
  then have "length (take 3 inp) = 3" by simp
  then show ?case by simp
next
  case (6 inp out)
  then have "length (take 4 inp) = 4" by simp
  then show ?case by simp
qed auto

declare rfc_dots.simps [simp del]


lemma ch_Cons [simp]: "ch (c # p) 0 = c" "ch (c # p) (Suc i) = ch p i" "ch [] i = 0"
  by (simp_all add: ch_def)

lemma ch_numeral [simp]: "ch (c # p) 1 = ch p 0" "ch (c # p) 2 = ch p 1" "ch (c # p) 3 = ch p 2"
  by (simp_all add: ch_def numeral_2_eq_2 numeral_3_eq_3)

lemma take_ch:
  "a \<noteq> 0 \<Longrightarrow> b \<noteq> 0 \<Longrightarrow> take 2 p = [a, b] \<longleftrightarrow> ch p 0 = a \<and> ch p 1 = b"
  "a \<noteq> 0 \<Longrightarrow> b \<noteq> 0 \<Longrightarrow> c \<noteq> 0 \<Longrightarrow> take 3 p = [a, b, c] \<longleftrightarrow> ch p 0 = a \<and> ch p 1 = b \<and> ch p 2 = c"
  "a \<noteq> 0 \<Longrightarrow> b \<noteq> 0 \<Longrightarrow> c \<noteq> 0 \<Longrightarrow> d \<noteq> 0 \<Longrightarrow>
    take 4 p = [a, b, c, d] \<longleftrightarrow> ch p 0 = a \<and> ch p 1 = b \<and> ch p 2 = c \<and> ch p 3 = d"
  by (cases p; cases "tl p"; cases "tl (tl p)"; cases "tl (tl (tl p))"; force simp: take_Cons' numeral_eq_Suc)+

lemma eq_ch:
  "0 \<notin> set p \<Longrightarrow> a \<noteq> 0 \<Longrightarrow> b \<noteq> 0 \<Longrightarrow> p = [a, b] \<longleftrightarrow> ch p 0 = a \<and> ch p 1 = b \<and> ch p 2 = 0"
  "0 \<notin> set p \<Longrightarrow> a \<noteq> 0 \<Longrightarrow> b \<noteq> 0 \<Longrightarrow> c \<noteq> 0 \<Longrightarrow> p = [a, b, c] \<longleftrightarrow> ch p 0 = a \<and> ch p 1 = b \<and> ch p 2 = c \<and> ch p 3 = 0"
  by (cases p; cases "tl p"; cases "tl (tl p)"; cases "tl (tl (tl p))"; force simp: numeral_eq_Suc)+

text \<open>On a path that starts with a slash the loop keeps that shape, and an output that is not empty starts with a slash.\<close>

definition rooted :: "bytes \<Rightarrow> bool" where
  "rooted p \<longleftrightarrow> p = [] \<or> hd p = slash"

lemma pop_prefix: "\<exists>ys. out = pop_segment out @ ys"
proof -
  let ?t = "takeWhile (\<lambda>c. c \<noteq> slash) (rev out)"
  define d where "d = dropWhile (\<lambda>c. c \<noteq> slash) (rev out)"
  have "rev (?t @ d) = out" by (simp add: d_def)
  then have o: "out = rev d @ rev ?t" by (simp only: rev_append)
  show ?thesis
  proof (cases d)
    case (Cons x d')
    then have "out = pop_segment out @ x # rev ?t" using o by (simp add: pop_segment_def d_def [symmetric])
    then show ?thesis by blast
  next
    case Nil
    then show ?thesis by (simp add: pop_segment_def d_def [symmetric])
  qed
qed

lemma rooted_pop: "rooted out \<Longrightarrow> rooted (pop_segment out)"
  using pop_prefix [of out] unfolding rooted_def by (metis hd_append2 append_is_Nil_conv)

lemma pop_name_segment: "rooted out \<Longrightarrow> out \<noteq> [] \<Longrightarrow> pop_name out = pop_segment out @ [slash]"
proof -
  assume r: "rooted out" "out \<noteq> []"
  then have "slash \<in> set (rev out)" unfolding rooted_def by (metis list.set_sel(1) set_rev)
  then have ne: "dropWhile (\<lambda>c. c \<noteq> slash) (rev out) \<noteq> []" by auto
  have "hd (dropWhile (\<lambda>c. c \<noteq> slash) (rev out)) = slash" using hd_dropWhile [OF ne] by simp
  then have "slash # tl (dropWhile (\<lambda>c. c \<noteq> slash) (rev out)) = dropWhile (\<lambda>c. c \<noteq> slash) (rev out)" by (metis ne list.collapse)
  then show ?thesis unfolding pop_name_def pop_segment_def by (metis rev.simps(2))
qed

lemma rfc_slash: "rfc_dots [slash] out = out @ [slash]"
  by (simp add: rfc_dots.simps)

lemma drop_rooted: "rooted (drop (1 + length (takeWhile (\<lambda>c. c \<noteq> slash) (tl p))) p)"
  using hd_dropWhile [of "\<lambda>c. c \<noteq> slash" "tl p"] by (cases p) (auto simp: rooted_def dropWhile_eq_drop)

lemma dot_shapes:
  assumes "0 \<notin> set q"
  obtains (here) t where "q = dot # slash # t" | (here_end) "q = [dot]" | (up) t where "q = dot # dot # slash # t" | (up_end) "q = [dot, dot]"
  | (name) "\<not> (ch q 0 = dot \<and> (ch q 1 = slash \<or> ch q 1 = 0 \<or> ch q 1 = dot \<and> (ch q 2 = slash \<or> ch q 2 = 0)))"
proof (cases q)
  case (Cons a q1)
  show thesis
  proof (cases q1)
    case Nil
    then show ?thesis using Cons here_end name by (cases "a = dot") auto
  next
    case (Cons b q2)
    note q = \<open>q = a # q1\<close> Cons
    show ?thesis
    proof (cases q2)
      case Nil
      then show ?thesis using q here up_end name assms by (cases "a = dot"; cases "b = dot"; cases "b = slash") auto
    next
      case (Cons c q3)
      then show ?thesis using q here up name assms by (cases "a = dot"; cases "b = dot"; cases "b = slash"; cases "c = slash") auto
    qed
  qed
qed (use name in simp)

lemma dots_loop_rfc:
  assumes "0 \<notin> set p" and "rooted p" and "rooted out" and "p = [] \<longrightarrow> out \<noteq> []"
  shows "rfc_dots p out = (if dots_loop p out = [] then [slash] else dots_loop p out)"
  using assms
proof (induction p out rule: dots_loop.induct)
  case (1 p out)
  show ?case
  proof (cases "p = []")
    case True
    then show ?thesis using "1.prems"(4) by (simp add: dots_loop.simps rfc_dots.simps)
  next
    case False
    then obtain q where p: "p = slash # q" using "1.prems"(2) by (cases p) (auto simp: rooted_def)
    have z: "0 \<notin> set q" using "1.prems"(1) p by simp
    note d = dots_loop.simps [of p out] and r = rfc_dots.simps [of p out]
    from z show ?thesis
    proof (cases rule: dot_shapes)
      case (here t)
      then show ?thesis using 1(3) "1.prems" p d r by (simp add: rooted_def)
    next
      case here_end
      then show ?thesis using p d r by (simp add: rfc_slash)
    next
      case (up t)
      then show ?thesis using 1(4) "1.prems" p d r rooted_pop by (simp add: rooted_def)
    next
      case up_end
      then show ?thesis using p d r "1.prems"(3) pop_name_segment [of out] by (cases "out = []") (simp_all add: rfc_slash pop_segment_def pop_name_def)
    next
      case name
      let ?n = "1 + length (takeWhile (\<lambda>c. c \<noteq> slash) (tl p))"
      have d': "dots_loop p out = dots_loop (drop ?n p) (out @ take ?n p)" using name p by (subst d) (auto simp: Let_def)
      have shapes: "take 2 q \<noteq> [dot, slash]" "q \<noteq> [dot]" "take 3 q \<noteq> [dot, dot, slash]" "q \<noteq> [dot, dot]"
        using name take_ch(1) [of dot slash q] take_ch(2) [of dot dot slash q] by auto
      have r': "rfc_dots p out = rfc_dots (drop ?n p) (out @ take ?n p)" using shapes p by (subst r) (auto simp: Let_def)
      have "rooted (out @ take ?n p)" using "1.prems"(3) p by (cases out) (auto simp: rooted_def)
      moreover have "0 \<notin> set (drop ?n p)" using "1.prems"(1) by (meson in_set_dropD)
      ultimately show ?thesis unfolding d' r' using 1(5) p name drop_rooted [of p] by auto
    qed
  qed
qed


section \<open>The order of the markers\<close>

definition markers_ok :: "bytes \<Rightarrow> url_markers \<Rightarrow> bool" where
  "markers_ok s m \<longleftrightarrow>
     m_start m \<le> m_scheme_end m \<and> m_scheme_end m \<le> m_authority m \<and>
     m_authority m \<le> m_colon_first m \<and> m_authority m \<le> m_at m \<and> m_authority m \<le> m_colon_last m \<and>
     m_colon_first m \<le> m_path m \<and> m_at m \<le> m_path m \<and> m_colon_last m \<le> m_path m \<and>
     m_path m \<le> m_query m \<and> m_query m \<le> m_fragment m \<and> m_fragment m \<le> m_end m \<and> m_end m \<le> length s \<and>
     (m_at m = m_authority m \<or> m_at m < m_path m)"

lemma ch_inside: "ch s i = c \<Longrightarrow> c \<noteq> 0 \<Longrightarrow> i < length s \<and> s ! i = c"
  by (auto simp: ch_def split: if_splits)

lemma takeWhile_le: "pos \<le> length s \<Longrightarrow> pos + length (takeWhile P (drop pos s)) \<le> length s"
  using length_takeWhile_le [of P "drop pos s"] by simp

lemma scan_to_bounds: "pos < length s \<Longrightarrow> pos < scan_to stop s pos \<and> scan_to stop s pos \<le> length s"
  using takeWhile_le [of "pos + 1" s "\<lambda>c. \<not> stop c"] by (simp add: scan_to_def)

text \<open>A marker after a character that is not white space, and a marker on one.\<close>

definition held :: "bytes \<Rightarrow> nat \<Rightarrow> nat \<Rightarrow> bool" where
  "held s start x \<longleftrightarrow> x = start \<or> start < x \<and> x \<le> length s \<and> \<not> ascii_is_space (s ! (x - 1))"

definition on_char :: "bytes \<Rightarrow> nat \<Rightarrow> nat \<Rightarrow> nat \<Rightarrow> bool" where
  "on_char s a pos x \<longleftrightarrow> x = a \<or> a < x \<and> x < pos \<and> pos \<le> length s \<and> \<not> ascii_is_space (s ! x)"

lemma strip_end_le: "strip_end s pos \<le> pos"
  using length_dropWhile_le [of ascii_is_space "rev (take pos s)"] by (simp add: strip_end_def)

lemma strip_end_after:
  assumes "i < pos" and "pos \<le> length s" and "\<not> ascii_is_space (s ! i)"
  shows "i < strip_end s pos"
proof (rule ccontr)
  define xs where "xs = rev (take pos s)"
  assume "\<not> i < strip_end s pos"
  then have d: "length (dropWhile ascii_is_space xs) \<le> i" by (simp add: strip_end_def xs_def)
  have l: "length xs = pos" using assms(2) by (simp add: xs_def)
  have "length (takeWhile ascii_is_space xs) + length (dropWhile ascii_is_space xs) = pos"
    using l by (metis length_append takeWhile_dropWhile_id)
  then have t: "pos - Suc i < length (takeWhile ascii_is_space xs)" using d assms(1) by linarith
  then have "ascii_is_space (xs ! (pos - Suc i))" by (metis nth_mem set_takeWhileD takeWhile_nth)
  moreover have "xs ! (pos - Suc i) = s ! i" using assms(1,2) by (simp add: xs_def rev_nth)
  ultimately show False using assms(3) by simp
qed

lemma colon_char: "\<not> ascii_is_space colon" "\<not> ascii_is_space atsign" "\<not> ascii_is_space slash"
  by (simp_all add: ascii_is_space_def)

lemma scan_scheme_bounds:
  assumes "scan_scheme s start joining = (pos, scheme_end, authority, t)" and "start < length s"
  shows "start \<le> scheme_end \<and> scheme_end \<le> authority \<and> authority \<le> pos \<and> pos \<le> length s \<and> held s start authority"
proof -
  have "start + 1 + length (takeWhile scheme_char (drop (start + 1) s)) \<le> length s" using takeWhile_le [of "start + 1" s] assms(2) by simp
  then show ?thesis using assms ch_inside [of s "start + 1 + length (takeWhile scheme_char (drop (start + 1) s))" colon] colon_char(1)
    by (auto simp: scan_scheme_def Let_def held_def split: if_splits)
qed

lemma on_char_mono: "on_char s a pos x \<Longrightarrow> pos \<le> pos' \<Longrightarrow> pos' \<le> length s \<Longrightarrow> on_char s a pos' x"
  by (auto simp: on_char_def)

lemma authority_loop_bounds:
  assumes "authority_loop mailto a cs pos (cf, at, cl) = (pos', cf', at', cl')" and "drop pos s = cs" and "a \<le> pos" and "pos \<le> length s"
    and "on_char s a pos cf" "on_char s a pos at" "on_char s a pos cl"
  shows "pos \<le> pos' \<and> pos' \<le> length s \<and> on_char s a pos' cf' \<and> on_char s a pos' at' \<and> on_char s a pos' cl'"
  using assms
proof (induction cs arbitrary: pos cf at cl)
  case (Cons c cs)
  have pos: "pos < length s" using Cons.prems(2) by (metis drop_eq_Nil2 linorder_not_le list.simps(3))
  then have c: "s ! pos = c" "drop (Suc pos) s = cs" using Cons.prems(2) Cons_nth_drop_Suc [of pos s] by simp_all
  have on: "on_char s a (Suc pos) pos" if "c = colon \<or> c = atsign" using that pos c Cons.prems(3) colon_char by (auto simp: on_char_def)
  have more: "on_char s a (Suc pos) cf" "on_char s a (Suc pos) at" "on_char s a (Suc pos) cl"
    using Cons.prems(5-7) pos by (auto intro: on_char_mono)
  show ?case
  proof (cases "c = slash \<or> c = quest \<or> c = hash")
    case True
    then show ?thesis using Cons.prems by auto
  next
    case False
    let ?m = "if \<not> mailto \<and> c = colon \<and> cf = a then (pos, at, cl) else if \<not> mailto \<and> c = colon \<and> cf \<noteq> a then (cf, at, pos)
          else if c = atsign \<and> at = a then (cf, pos, cl) else (cf, at, cl)"
    obtain cf1 at1 cl1 where m: "?m = (cf1, at1, cl1)" by (cases ?m) blast
    then have "on_char s a (Suc pos) cf1" "on_char s a (Suc pos) at1" "on_char s a (Suc pos) cl1"
      using on more by (auto split: if_splits)
    moreover have "authority_loop mailto a cs (Suc pos) (cf1, at1, cl1) = (pos', cf', at', cl')"
      using Cons.prems(1) False m by simp
    ultimately show ?thesis using Cons.IH [of "Suc pos" cf1 at1 cl1] Cons.prems(3) pos c(2) by simp
  qed
qed simp

lemma skip_slashes_bounds:
  assumes "ch s pos = slash"
  shows "pos < skip_slashes is_http s pos \<and> skip_slashes is_http s pos \<le> length s \<and> s ! (skip_slashes is_http s pos - 1) = slash"
proof (cases is_http)
  case False
  then show ?thesis using assms ch_inside [of s pos slash] ch_inside [of s "pos + 1" slash] by (auto simp: skip_slashes_def)
next
  case True
  let ?n = "length (takeWhile (\<lambda>c. c = slash) (drop pos s))"
  have pos: "pos < length s" "s ! pos = slash" using ch_inside [OF assms] by simp_all
  then have n: "0 < ?n" by (metis (mono_tags, lifting) Cons_nth_drop_Suc length_greater_0_conv list.distinct(1) takeWhile.simps(2))
  have le: "pos + ?n \<le> length s" using takeWhile_le [of pos s] pos(1) by simp
  have "takeWhile (\<lambda>c. c = slash) (drop pos s) ! (?n - 1) = slash" using n by (metis (mono_tags, lifting) diff_less less_one nth_mem set_takeWhileD)
  then have "drop pos s ! (?n - 1) = slash" using n by (metis (mono_tags, lifting) diff_less less_one takeWhile_nth)
  then have "s ! (pos + ?n - 1) = slash" using n le pos(1) by (simp add: nth_drop)
  then show ?thesis using True n le by (simp add: skip_slashes_def)
qed

lemma scan_authority_bounds:
  assumes "scan_authority s start joining (pos, scheme_end, authority, t) = (pos', authority', cf, at, cl, path)"
    and "authority \<le> pos" and "pos \<le> length s" and "held s start authority" and "start \<le> authority"
  shows "authority \<le> authority' \<and> held s start authority' \<and> on_char s authority' path cf \<and> on_char s authority' path at \<and>
    on_char s authority' path cl \<and> authority' \<le> path \<and> path \<le> pos' \<and> pos \<le> pos' \<and> pos' \<le> length s"
proof -
  let ?http = "t = NSURL_SCHEME_HTTP \<or> t = NSURL_SCHEME_HTTPS"
  let ?first = "if ch s pos = slash then skip_slashes ?http s pos else pos"
  let ?a = "if ch s pos = slash then ?first else authority"
  show ?thesis
  proof (cases "ch s pos = slash \<and> ch s (pos + 1) = slash \<or> ?http \<and> (joining \<and> ch s pos = slash \<or> \<not> joining \<and> scheme_end \<noteq> start) \<or>
      t = NSURL_SCHEME_MAILTO")
    case True
    then have loop: "authority_loop (t = NSURL_SCHEME_MAILTO) ?a (drop ?first s) ?first (?a, ?a, ?a) = (pos', cf, at, cl)" "authority' = ?a" "path = pos'"
      using assms(1) by (auto simp: scan_authority_def Let_def split: prod.splits)
    have f: "authority \<le> ?a" "?a \<le> ?first" "pos \<le> ?first" "?first \<le> length s" "held s start ?a"
      using skip_slashes_bounds [of s pos ?http] assms(2-5) colon_char(3) by (auto simp: held_def)
    have "on_char s ?a ?first ?a" by (simp add: on_char_def)
    from authority_loop_bounds [OF loop(1) refl f(2,4) this this this] f loop(2,3) show ?thesis by auto
  next
    case False
    then show ?thesis using assms by (auto simp: scan_authority_def Let_def on_char_def split: if_splits)
  qed
qed

text \<open>The markers before they are clamped to the end of the URL.\<close>

lemma clamp_markers:
  assumes "start < l" "l \<le> length s" "\<not> ascii_is_space (s ! start)" "held s start a" "a \<le> l" "path \<le> l" "on_char s a path x"
  shows "start < strip_end s l" "a \<le> strip_end s l" "x = a \<or> a < x \<and> x < strip_end s l"
proof -
  show s: "start < strip_end s l" using assms(1-3) by (intro strip_end_after)
  show "a \<le> strip_end s l" 
  proof (cases "a = start")
    case False
    then have "start < a" "\<not> ascii_is_space (s ! (a - 1))" using assms(4) by (auto simp: held_def)
    moreover have "a - 1 < l" using \<open>start < a\<close> assms(5) by simp
    ultimately have "a - 1 < strip_end s l" using strip_end_after assms(2) by blast
    then show ?thesis by simp
  qed (use s in simp)
  show "x = a \<or> a < x \<and> x < strip_end s l" using assms(2,6,7) strip_end_after [of x l s] by (auto simp: on_char_def)
qed

lemma markers_ordered: "markers_ok s (nsurl__get_string_markers s joining)"
proof -
  define start where "start = length (takeWhile ascii_is_space s)"
  have start: "start \<le> length s" unfolding start_def by (rule length_takeWhile_le)
  show ?thesis
  proof (cases "ch s start = 0")
    case True
    then show ?thesis using start by (simp add: nsurl__get_string_markers_def markers_ok_def start_def [symmetric] Let_def)
  next
    case False
    then have in_s: "start < length s" using ch_inside [of s start] by blast
    have first: "\<not> ascii_is_space (s ! start)" using nth_length_takeWhile [of ascii_is_space s] in_s by (simp add: start_def)
    obtain p0 se a0 t where sch: "scan_scheme s start joining = (p0, se, a0, t)" by (metis prod_cases4)
    note b0 = scan_scheme_bounds [OF sch in_s]
    obtain pos a cf at cl path where aut: "scan_authority s start joining (p0, se, a0, t) = (pos, a, cf, at, cl, path)" by (metis prod_cases6)
    have b1: "a0 \<le> a" "held s start a" "on_char s a path cf" "on_char s a path at" "on_char s a path cl" "a \<le> path" "path \<le> pos" "pos \<le> length s"
      using scan_authority_bounds [OF aut] b0 by auto
    define q where "q = (if ch s pos = slash \<or> path = a \<and> ch s pos \<noteq> quest \<and> ch s pos \<noteq> hash \<and> ch s pos \<noteq> 0
                      then scan_to (\<lambda>c. c = quest \<or> c = hash) s pos else pos)"
    define f where "f = (if ch s q = quest then scan_to (\<lambda>c. c = hash) s q else q)"
    define l where "l = (if ch s f = hash then length s else f)"
    define e where "e = strip_end s l"
    have q: "pos \<le> q" "q \<le> length s" using b1(8) scan_to_bounds [of pos s] ch_inside [of s pos] by (auto simp: q_def less_imp_le)
    have f: "q \<le> f" "f \<le> length s" using q scan_to_bounds [of q s] ch_inside [of s q] by (auto simp: f_def less_imp_le)
    have l: "f \<le> l" "l \<le> length s" using f by (auto simp: l_def)
    have "start < l"
    proof (cases "pos = start")
      case True
      then have "path = a" using b0 b1(1,6,7) by simp
      have "ch s start = quest \<or> ch s start = hash \<or> start < q"
        using \<open>path = a\<close> True False scan_to_bounds [OF in_s] by (auto simp: q_def)
      moreover have "start < l" if "start < q" using that f l by simp
      moreover have "start < l" if "ch s start = quest" "q = start" 
        using that l scan_to_bounds [OF in_s, of "\<lambda>c. c = hash"] by (simp add: f_def)
      moreover have "start < l" if "ch s start = hash" "q = start" using that in_s by (simp add: f_def l_def)
      ultimately show ?thesis using q(1) True by linarith
    qed (use b0 b1 q f l scan_authority_bounds [OF aut] in simp)
    note clamp = clamp_markers [OF this l(2) first b1(2)]
    have e: "e \<le> l" by (simp add: e_def strip_end_le)
    have m: "start < e" "a \<le> e" "cf = a \<or> a < cf \<and> cf < e" "at = a \<or> a < at \<and> at < e" "cl = a \<or> a < cl \<and> cl < e"
      using clamp [of path] b1 q f l by (auto simp: e_def)
    have in_path: "cf \<le> path" "at \<le> path" "cl \<le> path" using b1(3-6) by (auto simp: on_char_def)
    have c: "(if e < l \<and> e < x then e else x) = min e x" if "x \<le> l" for x using that e by simp
    have "path \<le> l" "at \<le> l" "cl \<le> l" "q \<le> l" using in_path b1(7) q f l by linarith+
    note clamped = c [OF this(1)] c [OF this(2)] c [OF this(3)] c [OF this(4)] c [OF l(1)]
    have "nsurl__get_string_markers s joining =
        \<lparr>m_start = start, m_scheme_end = se, m_authority = a, m_colon_first = cf, m_at = min e at, m_colon_last = min e cl,
         m_path = min e path, m_query = min e q, m_fragment = min e f, m_end = e, m_scheme_type = t\<rparr>"
      unfolding nsurl__get_string_markers_def start_def [symmetric] Let_def sch aut prod.case fst_conv snd_conv if_not_P [OF False]
        q_def [symmetric] f_def [symmetric] l_def [symmetric] e_def [symmetric] clamped ..
    moreover have "se \<le> a" "a \<le> cf" "a \<le> at" "a \<le> cl" "cf \<le> e" "path \<le> q" "e \<le> length s"
      using b0 b1(1,7) q(1) m l e by linarith+
    moreover have "min e at = a \<or> min e at < min e path" using b1(4) m(2,4) by (auto simp: on_char_def)
    ultimately show ?thesis using in_path b0 m(2) f(1) by (simp add: markers_ok_def min.coboundedI2)
  qed
qed

section \<open>Properties\<close>

text \<open>C36: The markers of any string are in order, from the start of the URL through its scheme, authority, path, query and fragment
  to its end, and lie inside the string, so every section that is cut out along them is a substring of it.\<close>

theorem nsurl_markers_ordered:
  "(\<lambda>m. m_start m \<le> m_scheme_end m \<and> m_scheme_end m \<le> m_authority m \<and>
      m_authority m \<le> min (m_colon_first m) (min (m_at m) (m_colon_last m)) \<and>
      max (m_colon_first m) (max (m_at m) (m_colon_last m)) \<le> m_path m \<and>
      m_path m \<le> m_query m \<and> m_query m \<le> m_fragment m \<and> m_fragment m \<le> m_end m \<and> m_end m \<le> length s)
     (nsurl__get_string_markers s joining)"
  using markers_ordered [of s joining] by (simp add: markers_ok_def)

text \<open>On a path that starts with a slash the removal of dot segments gives what the algorithm of RFC 3986 gives, except that
  where the RFC leaves the path with a single slash for the root, the code may leave it empty.\<close>

theorem nsurl_remove_dots_rfc:
  assumes "0 \<notin> set p"
  shows "rfc_dots (slash # p) [] =
    (let r = nsurl__remove_dot_segments (slash # p) in if r = [] then [slash] else r)"
  using dots_loop_rfc [of "slash # p" "[]"] assms by (simp add: nsurl__remove_dot_segments_def rooted_def Let_def)

theorem nsurl_remove_dots_rfc_witness:
  "rfc_dots [slash, 0x61, slash, dot, dot, slash, 0x62] [] = [slash, 0x62]"
proof -
  have "nsurl__remove_dot_segments [slash, 0x61, slash, dot, dot, slash, 0x62] = [slash, 0x62]" by code_simp
  then show ?thesis using nsurl_remove_dots_rfc [of "[0x61, slash, dot, dot, slash, 0x62]"] by simp
qed

text \<open>A path that is one or two dots is left as it is, where the RFC removes it: the branch that would do so is unreachable.\<close>

theorem nsurl_dots_alone_stay:
  "nsurl__remove_dot_segments [dot, dot] = [dot, dot] \<and> rfc_dots [dot, dot] [] = []"
  by code_simp

text \<open>The relative reference \<^verbatim>\<open>a//b\<close> is a path, but its second part becomes the authority: the search for two slashes starts
  where the search for a scheme gave up.\<close>

theorem nsurl_relative_path_as_authority:
  "nsurl__get_string_markers [0x61, slash, slash, 0x62] True =
     \<lparr>m_start = 0, m_scheme_end = 0, m_authority = 3, m_colon_first = 3, m_at = 3, m_colon_last = 3,
      m_path = 4, m_query = 4, m_fragment = 4, m_end = 4, m_scheme_type = NSURL_SCHEME_OTHER\<rparr>"
  by code_simp

end
