(* ===== verification/Nsurl_Section.thy ===== *)
theory Nsurl_Section
  imports Nsurl_Parse Idna
begin

text \<open>
  The sections of a URL, \<^verbatim>\<open>nsurl__create_from_section\<close> of \<^verbatim>\<open>netsurf/utils/nsurl/parse.c\<close>: the normalisation of a section
  into a buffer, and the components that are cut out of the buffer.

  The string is the list of its bytes; the buffer is the memory from \<open>norm_start\<close> on, so that a read before it, or past its end,
  is \<open>None\<close>. An interned string stands for its text, which is how equal texts and equal pointers go together in
  \<^verbatim>\<open>Interning\<close>; the environment decides which texts can be interned. A component that was never written is \<open>Unset\<close>.
\<close>

section \<open>Components\<close>

datatype component = Unset | Null | Str bytes

record nsurl_components =
  nc_scheme :: component
  nc_username :: component
  nc_password :: component
  nc_host :: component
  nc_port :: component
  nc_path :: component
  nc_query :: component
  nc_fragment :: component
  nc_scheme_type :: nsurl_scheme_type

datatype url_sections = URL_SCHEME | URL_CREDENTIALS | URL_HOST | URL_PATH | URL_QUERY | URL_FRAGMENT

text \<open>What the code relies on: the Unicode data, the allocator, and the texts that can be interned.\<close>

record nsurl_env =
  ne_unicode :: unicode
  ne_heap :: heap
  ne_intern :: "bytes \<Rightarrow> bool"

section \<open>Normalisation\<close>

definition digit2uppercase_hex :: "u8 \<Rightarrow> u8" where
  "digit2uppercase_hex digit = hex_digits ! unat digit"

definition nsurl__is_unreserved :: "u8 \<Rightarrow> bool" where
  "nsurl__is_unreserved c \<longleftrightarrow> ascii_is_alphanumerical c \<or> c = 0x2D \<or> c = 0x2E \<or> c = 0x5F \<or> c = 0x7E"

definition nsurl__is_no_escape :: "u8 \<Rightarrow> bool" where
  "nsurl__is_no_escape c \<longleftrightarrow>
     0x21 \<le> c \<and> c \<le> 0x7E \<and>
     c \<noteq> 0x22 \<and> c \<noteq> 0x25 \<and> c \<noteq> 0x3C \<and> c \<noteq> 0x3E \<and> c \<noteq> 0x5C \<and> c \<noteq> 0x5E \<and> c \<noteq> 0x60 \<and> c \<noteq> 0x7B \<and> c \<noteq> 0x7D"

text \<open>Where a section starts and ends; the offsets are of type int.\<close>

definition section_range :: "bytes \<Rightarrow> url_sections \<Rightarrow> url_markers \<Rightarrow> (nat \<times> nat) option" where
  "section_range s sec pegs =
     (let (start, stop) =
        (case sec of
           URL_SCHEME \<Rightarrow> (m_start pegs, m_scheme_end pegs)
         | URL_CREDENTIALS \<Rightarrow> (m_authority pegs, m_at pegs)
         | URL_HOST \<Rightarrow> (if m_at pegs = m_authority pegs \<and> ch s (m_at pegs) \<noteq> atsign then m_at pegs else m_at pegs + 1, m_path pegs)
         | URL_PATH \<Rightarrow> (m_path pegs, m_query pegs)
         | URL_QUERY \<Rightarrow> (if ch s (m_query pegs) \<noteq> quest then m_query pegs else m_query pegs + 1, m_fragment pegs)
         | URL_FRAGMENT \<Rightarrow> (if ch s (m_fragment pegs) \<noteq> hash then m_fragment pegs else m_fragment pegs + 1, m_end pegs))
      in if int start \<le> INT32_MAX \<and> int stop \<le> INT32_MAX then Some (start, if stop < start then start else stop) else None)"

text \<open>The characters that were found safe are copied when another one has to be written.\<close>

definition copy_up_to :: "bytes \<Rightarrow> nat \<Rightarrow> nat \<Rightarrow> nat \<Rightarrow> bytes \<Rightarrow> (nat \<times> bytes) option" where
  "copy_up_to s pos_url_s copy_len pos_norm mem =
     (if 0 < copy_len then do {
        safe \<leftarrow> mem_read pos_url_s copy_len s;
        mem \<leftarrow> mem_write pos_norm safe mem;
        Some (pos_norm + copy_len, mem)
      } else Some (pos_norm, mem))"

abbreviation lower_section :: "url_sections \<Rightarrow> bool" where
  "lower_section sec \<equiv> sec = URL_SCHEME \<or> sec = URL_HOST"

function norm_loop :: "url_sections \<Rightarrow> bytes \<Rightarrow> nat \<Rightarrow> nat \<Rightarrow> nat \<Rightarrow> nat \<Rightarrow> nat \<Rightarrow> nat \<Rightarrow> bytes \<Rightarrow> (nat \<times> nat \<times> bytes) option" where
  "norm_loop sec s stop pos pos_url_s copy_len len pos_norm mem =
     (if \<not> pos < stop then do {
        (pos_norm, mem) \<leftarrow> copy_up_to s pos_url_s copy_len pos_norm mem;
        Some (len, pos_norm, mem)
      }
      else if ch s pos = 0x25 \<and> pos + 2 < stop then
        let ascii_offset = ascii_hex_to_value_2_chars (ch s (pos + 1)) (ch s (pos + 2)) in
        if ascii_offset < 0 then norm_loop sec s stop (pos + 1) pos_url_s (copy_len + 1) len pos_norm mem
        else if \<not> lower_section sec \<and> \<not> nsurl__is_unreserved (word_of_int ascii_offset)
          then norm_loop sec s stop (pos + 3) pos_url_s (copy_len + 3) len pos_norm mem
        else do {
          (pos_norm, mem) \<leftarrow> copy_up_to s pos_url_s copy_len pos_norm mem;
          mem \<leftarrow> mem_write pos_norm [word_of_int ascii_offset] mem;
          norm_loop sec s stop (pos + 3) (pos + 3) 0 (size_sub len 2) (pos_norm + 1) mem
        }
      else if \<not> lower_section sec \<and> \<not> nsurl__is_no_escape (ch s pos) then do {
        (pos_norm, mem) \<leftarrow> copy_up_to s pos_url_s copy_len pos_norm mem;
        mem \<leftarrow> mem_write pos_norm
          [0x25, digit2uppercase_hex (drop_bit 4 (ch s pos)), digit2uppercase_hex (ch s pos AND 0xF)] mem;
        norm_loop sec s stop (pos + 1) (pos + 1) 0 (size_wrap (len + 2)) (pos_norm + 3) mem
      }
      else if lower_section sec \<and> ascii_is_alpha_upper (ch s pos) then do {
        (pos_norm, mem) \<leftarrow> copy_up_to s pos_url_s copy_len pos_norm mem;
        mem \<leftarrow> mem_write pos_norm [ascii_to_lower (ch s pos)] mem;
        norm_loop sec s stop (pos + 1) (pos + 1) 0 len (pos_norm + 1) mem
      }
      else norm_loop sec s stop (pos + 1) pos_url_s (copy_len + 1) len pos_norm mem)"
  by pat_completeness auto
termination
  by (relation "measure (\<lambda>(sec, s, stop, pos, rest). stop - pos)") auto

declare norm_loop.simps [simp del]

text \<open>Stage 1: the length of the normalised section, and the buffer that holds it with a NUL.\<close>

definition normalise_section :: "bytes \<Rightarrow> url_sections \<Rightarrow> url_markers \<Rightarrow> bytes \<Rightarrow> (nat \<times> bytes) option" where
  "normalise_section s sec pegs mem = do {
     (start, stop) \<leftarrow> section_range s sec pegs;
     (len, pos_norm, mem) \<leftarrow> norm_loop sec s stop start start 0 (stop - start) 0 mem;
     mem \<leftarrow> mem_write pos_norm [0] mem;
     Some (len, mem)
   }"

section \<open>The components of a section\<close>

text \<open>Interning bytes of a buffer into a component, which stays as it was when there is no memory.\<close>

definition intern_to :: "nsurl_env \<Rightarrow> nat \<Rightarrow> nat \<Rightarrow> bytes \<Rightarrow> nsurl_components \<Rightarrow> (component \<Rightarrow> nsurl_components) \<Rightarrow>
    (nserror \<times> nsurl_components) option" where
  "intern_to ne pos len mem c set_to = do {
     t \<leftarrow> mem_read pos len mem;
     Some (if ne_intern ne t then (NSERROR_OK, set_to (Str t)) else (NSERROR_NOMEM, c))
   }"

definition scheme_component :: "nsurl_env \<Rightarrow> nat \<Rightarrow> bytes \<Rightarrow> nsurl_components \<Rightarrow> (nserror \<times> nsurl_components) option" where
  "scheme_component ne len norm c =
     (if len = 0 then Some (NSERROR_OK, c\<lparr>nc_scheme := Str [0x68, 0x74, 0x74, 0x70]\<rparr>)
      else intern_to ne 0 len norm c (\<lambda>t. c\<lparr>nc_scheme := t\<rparr>))"

text \<open>The password is cut out at the offset its colon has in the original string.\<close>

definition credentials_component ::
  "nsurl_env \<Rightarrow> url_markers \<Rightarrow> nat \<Rightarrow> bytes \<Rightarrow> nsurl_components \<Rightarrow> (nserror \<times> nsurl_components) option" where
  "credentials_component ne pegs len norm c =
     (let c = c\<lparr>nc_username := Null, nc_password := Null\<rparr> in
      if nc_scheme_type c = NSURL_SCHEME_FILE then Some (NSERROR_OK, c)
      else if len \<noteq> 0 \<and> ch norm 0 \<noteq> colon then
        let username = (\<lambda>len c. intern_to ne 0 len norm c (\<lambda>t. c\<lparr>nc_username := t\<rparr>)) in
        if m_colon_first pegs \<noteq> m_authority pegs \<and> m_colon_first pegs + 1 < m_at pegs then do {
          (e, c) \<leftarrow> intern_to ne (m_colon_first pegs - m_authority pegs + 1) (m_at pegs - m_colon_first pegs - 1) norm c
            (\<lambda>t. c\<lparr>nc_password := t\<rparr>);
          if e \<noteq> NSERROR_OK then Some (e, c) else username (size_sub len (m_at pegs - m_colon_first pegs)) c
        }
        else if m_colon_first pegs \<noteq> m_authority pegs \<and> m_at pegs = m_colon_first pegs + 1 then username (size_sub len 1) c
        else username len c
      else Some (NSERROR_OK, c))"

text \<open>A pointer difference as a signed number, and a read at such an offset from \<open>norm_start\<close>.\<close>

definition ptr_offset :: "nat \<Rightarrow> int" where
  "ptr_offset n = (if n \<le> PTRDIFF_MAX then int n else int n - int SIZE_MODULUS)"

definition read_at :: "bytes \<Rightarrow> int \<Rightarrow> u8 option" where
  "read_at norm i = (if 0 \<le> i \<and> nat i < length norm then Some (norm ! nat i) else None)"

text \<open>Are there only digits after offset \<open>i\<close>?\<close>

function port_digits :: "bytes \<Rightarrow> nat \<Rightarrow> int \<Rightarrow> bool option" where
  "port_digits norm len i =
     (if \<not> i + 1 < int len then Some True
      else do {
        d \<leftarrow> read_at norm (i + 1);
        if ascii_is_digit d then port_digits norm len (i + 1) else Some False
      })"
  by pat_completeness auto
termination
  by (relation "measure (\<lambda>(norm, len, i). nat (int len - i))") auto

declare port_digits.simps [simp del]

text \<open>The colon before the port, when there is one.\<close>

definition port_colon :: "url_markers \<Rightarrow> nat option" where
  "port_colon pegs =
     (if m_at pegs < m_colon_first pegs \<and> m_colon_last pegs = m_authority pegs then Some (m_colon_first pegs)
      else if m_colon_last pegs \<noteq> m_authority pegs then Some (m_colon_last pegs)
      else None)"

text \<open>The port: the length of the host, and the error and components.\<close>

definition port_component ::
  "nsurl_env \<Rightarrow> url_markers \<Rightarrow> nat \<Rightarrow> bytes \<Rightarrow> nsurl_components \<Rightarrow> (nat \<times> nserror \<times> nsurl_components) option" where
  "port_component ne pegs len norm c =
     (case port_colon pegs of
        None \<Rightarrow> Some (len, NSERROR_OK, c)
      | Some sep \<Rightarrow> do {
          let off = size_sub sep (m_at pegs);
          digits \<leftarrow> port_digits norm len (ptr_offset off);
          if \<not> digits then Some (len, NSERROR_OK, c)
          else do {
            let skip = (if m_at pegs = m_authority pegs then 1 else 0);
            let port = size_wrap (off + skip);
            default \<leftarrow>
              (if nc_scheme c = Unset then None
               else if nc_scheme c \<noteq> Null \<and> nc_scheme_type c = NSURL_SCHEME_HTTP \<and> size_sub len port = 2 then do {
                 p \<leftarrow> read_at norm (ptr_offset port);
                 if p = 0x38 then do { p \<leftarrow> read_at norm (ptr_offset port + 1); Some (p = 0x30) } else Some False
               } else Some False);
            (e, c) \<leftarrow> (if default \<or> len \<le> port then Some (NSERROR_OK, c)
                 else intern_to ne port (size_sub len port) norm c (\<lambda>t. c\<lparr>nc_port := t\<rparr>));
            Some (if e \<noteq> NSERROR_OK then (len, e, c)
                  else (size_sub off (if m_at pegs = m_authority pegs then 0 else 1), NSERROR_OK, c))
          }
        })"

definition host_component ::
  "nsurl_env \<Rightarrow> url_markers \<Rightarrow> nat \<Rightarrow> bytes \<Rightarrow> nsurl_components \<Rightarrow> (nserror \<times> nsurl_components) option" where
  "host_component ne pegs len norm c =
     (let c = c\<lparr>nc_host := Null, nc_port := Null\<rparr> in
      if nc_scheme_type c = NSURL_SCHEME_FILE \<or> len = 0 then Some (NSERROR_OK, c)
      else do {
        (len, e, c) \<leftarrow> port_component ne pegs len norm c;
        if e \<noteq> NSERROR_OK then Some (e, c)
        else do {
          ret \<leftarrow> idna_encode (ne_unicode ne) (ne_heap ne) norm len;
          case ret of
            Inr (host, host_len) \<Rightarrow> do { host \<leftarrow> host; intern_to ne 0 host_len (host @ [0]) c (\<lambda>t. c\<lparr>nc_host := t\<rparr>) }
          | Inl _ \<Rightarrow> intern_to ne 0 len norm c (\<lambda>t. c\<lparr>nc_host := t\<rparr>)
        }
      })"

definition path_component :: "nsurl_env \<Rightarrow> nat \<Rightarrow> bytes \<Rightarrow> nsurl_components \<Rightarrow> (nserror \<times> nsurl_components) option" where
  "path_component ne len norm c =
     (if len \<noteq> 0 then intern_to ne 0 len norm c (\<lambda>t. c\<lparr>nc_path := t\<rparr>)
      else if nc_host c = Unset then None
      else if nc_host c \<noteq> Null \<and> nc_scheme_type c \<noteq> NSURL_SCHEME_MAILTO \<or> nc_scheme_type c = NSURL_SCHEME_FILE then
        intern_to ne 0 1 [slash] c (\<lambda>t. c\<lparr>nc_path := t\<rparr>)
      else Some (NSERROR_OK, c\<lparr>nc_path := Null\<rparr>))"

definition query_component :: "nsurl_env \<Rightarrow> nat \<Rightarrow> bytes \<Rightarrow> nsurl_components \<Rightarrow> (nserror \<times> nsurl_components) option" where
  "query_component ne len norm c =
     (if len \<noteq> 0 then intern_to ne 0 len norm c (\<lambda>t. c\<lparr>nc_query := t\<rparr>)
      else Some (NSERROR_OK, c\<lparr>nc_query := Null\<rparr>))"

definition fragment_component :: "nsurl_env \<Rightarrow> nat \<Rightarrow> bytes \<Rightarrow> nsurl_components \<Rightarrow> (nserror \<times> nsurl_components) option" where
  "fragment_component ne len norm c =
     (if len \<noteq> 0 then intern_to ne 0 len norm c (\<lambda>t. c\<lparr>nc_fragment := t\<rparr>)
      else Some (NSERROR_OK, c\<lparr>nc_fragment := Null\<rparr>))"

definition nsurl__create_from_section ::
  "nsurl_env \<Rightarrow> bytes \<Rightarrow> url_sections \<Rightarrow> url_markers \<Rightarrow> bytes \<Rightarrow> nsurl_components \<Rightarrow>
   (nserror \<times> nsurl_components \<times> bytes) option" where
  "nsurl__create_from_section ne s sec pegs mem c = do {
     (len, norm) \<leftarrow> normalise_section s sec pegs mem;
     (e, c) \<leftarrow> (case sec of
          URL_SCHEME \<Rightarrow> scheme_component ne len norm c
        | URL_CREDENTIALS \<Rightarrow> credentials_component ne pegs len norm c
        | URL_HOST \<Rightarrow> host_component ne pegs len norm c
        | URL_PATH \<Rightarrow> path_component ne len norm c
        | URL_QUERY \<Rightarrow> query_component ne len norm c
        | URL_FRAGMENT \<Rightarrow> fragment_component ne len norm c);
     Some (e, c, norm)
   }"

section \<open>The normalisation of a section\<close>

text \<open>Byte by byte: an escape that need not be one is undone, a character that needs an escape gets one, and schemes and hosts are
  lower case.\<close>

definition norm_byte :: "url_sections \<Rightarrow> u8 \<Rightarrow> bytes" where
  "norm_byte sec c =
     (if lower_section sec then [ascii_to_lower c]
      else if nsurl__is_no_escape c then [c]
      else [0x25, digit2uppercase_hex (drop_bit 4 c), digit2uppercase_hex (c AND 0xF)])"

fun normalise :: "url_sections \<Rightarrow> bytes \<Rightarrow> bytes" where
  "normalise sec [] = []"
| "normalise sec [c] = norm_byte sec c"
| "normalise sec [c, c1] = norm_byte sec c @ norm_byte sec c1"
| "normalise sec (c # c1 # c2 # cs) =
     (if c = 0x25 then
        let v = ascii_hex_to_value_2_chars c1 c2 in
        if v < 0 then c # normalise sec (c1 # c2 # cs)
        else if lower_section sec \<or> nsurl__is_unreserved (word_of_int v) then word_of_int v # normalise sec cs
        else [c, c1, c2] @ normalise sec cs
      else norm_byte sec c @ normalise sec (c1 # c2 # cs))"

definition between :: "bytes \<Rightarrow> nat \<Rightarrow> nat \<Rightarrow> bytes" where
  "between s a b = take (b - a) (drop a s)"

lemma between_Cons: "a < b \<Longrightarrow> b \<le> length s \<Longrightarrow> between s a b = ch s a # between s (a + 1) b"
  unfolding between_def ch_def by (subst Cons_nth_drop_Suc [symmetric]) (auto simp: take_Cons')

lemma between_empty [simp]: "\<not> a < b \<Longrightarrow> between s a b = []"
  by (simp add: between_def)

lemma length_between [simp]: "b \<le> length s \<Longrightarrow> length (between s a b) = b - a"
  by (simp add: between_def)

lemma between_append: "a \<le> b \<Longrightarrow> b \<le> c \<Longrightarrow> between s a b @ between s b c = between s a c"
  using take_add [of "b - a" "c - b" "drop a s"] by (simp add: between_def)

lemma normalise_at:
  assumes "pos < stop" and "stop \<le> length s"
  shows "normalise sec (between s pos stop) =
    (if ch s pos = 0x25 \<and> pos + 2 < stop then
       let v = ascii_hex_to_value_2_chars (ch s (pos + 1)) (ch s (pos + 2)) in
       if v < 0 then ch s pos # normalise sec (between s (pos + 1) stop)
       else if lower_section sec \<or> nsurl__is_unreserved (word_of_int v) then word_of_int v # normalise sec (between s (pos + 3) stop)
       else between s pos (pos + 3) @ normalise sec (between s (pos + 3) stop)
     else norm_byte sec (ch s pos) @ normalise sec (between s (pos + 1) stop))"
proof (cases "pos + 2 < stop")
  case True
  then have "between s pos stop = ch s pos # ch s (pos + 1) # ch s (pos + 2) # between s (pos + 3) stop"
    and "between s (pos + 1) stop = ch s (pos + 1) # ch s (pos + 2) # between s (pos + 3) stop"
    and "between s pos (pos + 3) = [ch s pos, ch s (pos + 1), ch s (pos + 2)]"
    using assms between_Cons [of pos stop s] between_Cons [of "pos + 1" stop s] between_Cons [of "pos + 2" stop s]
      between_Cons [of pos "pos + 3" s] between_Cons [of "pos + 1" "pos + 3" s] between_Cons [of "pos + 2" "pos + 3" s] by (simp_all add: numeral_3_eq_3)
  then show ?thesis using True by (simp add: Let_def)
next
  case False
  then consider "stop = pos + 1" | "stop = pos + 2" using assms(1) by linarith
  then show ?thesis
  proof cases
    case 1
    then show ?thesis using assms between_Cons [of pos stop s] by simp
  next
    case 2
    then have "between s pos stop = [ch s pos, ch s (pos + 1)]" "between s (pos + 1) stop = [ch s (pos + 1)]"
      using assms between_Cons [of pos stop s] between_Cons [of "pos + 1" stop s] by simp_all
    then show ?thesis using 2 by simp
  qed
qed

lemma length_normalise: "length (normalise sec bs) \<le> 3 * length bs"
proof (induction sec bs rule: normalise.induct)
  case (4 sec c c1 c2 cs)
  then show ?case by (cases "c = 0x25"; cases "ascii_hex_to_value_2_chars c1 c2 < 0") (auto simp: norm_byte_def Let_def)
qed (simp_all add: norm_byte_def)

text \<open>Memory with a text put in.\<close>

definition put_in :: "nat \<Rightarrow> bytes \<Rightarrow> bytes \<Rightarrow> bytes" where
  "put_in p xs mem = take p mem @ xs @ drop (p + length xs) mem"

lemma put_in_write: "p + length xs \<le> length mem \<Longrightarrow> mem_write p xs mem = Some (put_in p xs mem)"
  by (simp add: mem_write_def put_in_def)

lemma put_in_none [simp]: "put_in p [] mem = mem"
  by (simp add: put_in_def)

lemma length_put_in [simp]: "p + length xs \<le> length mem \<Longrightarrow> length (put_in p xs mem) = length mem"
  by (simp add: put_in_def)

lemma put_in_twice: "p + length xs \<le> length mem \<Longrightarrow> put_in (p + length xs) ys (put_in p xs mem) = put_in p (xs @ ys) mem"
  by (simp add: put_in_def ac_simps)

lemma copy_up_to_between:
  assumes "pos + n \<le> length s" and "p + n \<le> length mem"
  shows "copy_up_to s pos n p mem = Some (p + n, put_in p (between s pos (pos + n)) mem)"
  using assms by (auto simp: copy_up_to_def mem_read_def put_in_write between_def)

lemma norm_loop_normalise:
  assumes "pos_url_s + copy_len = pos" and "pos \<le> stop" and "stop \<le> length s"
    and "pos_norm + copy_len + 3 * (stop - pos) \<le> length mem" and "length mem < SIZE_MODULUS" and "len = pos_norm + copy_len + (stop - pos)"
  shows "let t = between s pos_url_s pos @ normalise sec (between s pos stop) in
    norm_loop sec s stop pos pos_url_s copy_len len pos_norm mem = Some (pos_norm + length t, pos_norm + length t, put_in pos_norm t mem)"
  using assms
proof (induction "stop - pos" arbitrary: pos pos_url_s copy_len len pos_norm mem rule: less_induct)
  case less
  note unfold = norm_loop.simps [of sec s stop pos pos_url_s copy_len len pos_norm mem]
  let ?copy = "between s pos_url_s pos"
  have copy: "copy_up_to s pos_url_s copy_len pos_norm mem = Some (pos_norm + copy_len, put_in pos_norm ?copy mem)" "length ?copy = copy_len"
    using copy_up_to_between [of pos_url_s copy_len s pos_norm mem] less.prems by auto
  show ?case
  proof (cases "pos < stop")
    case False
    then show ?thesis using copy less.prems by (subst unfold) simp
  next
    case True
    note at = normalise_at [OF True \<open>stop \<le> length s\<close>, of sec]
    have safe: ?thesis if r: "normalise sec (between s pos stop) = between s pos (pos + k) @ normalise sec (between s (pos + k) stop)"
      and l: "norm_loop sec s stop pos pos_url_s copy_len len pos_norm mem =
        norm_loop sec s stop (pos + k) pos_url_s (copy_len + k) len pos_norm mem" and "pos + k \<le> stop" and "0 < k" for k
    proof -
      have "len = pos_norm + (copy_len + k) + (stop - (pos + k))" using less.prems(6) that(3) by simp
      moreover have "?copy @ between s pos (pos + k) = between s pos_url_s (pos + k)"
        using less.prems(1) by (intro between_append) simp_all
      ultimately show ?thesis using less.hyps [of "pos + k" pos_url_s "copy_len + k" pos_norm mem len] less.prems(1-5) that(3,4) True
        unfolding l r by (simp add: Let_def flip: append_assoc)
    qed
    have put: ?thesis if r: "normalise sec (between s pos stop) = b @ normalise sec (between s (pos + k) stop)"
      and l: "norm_loop sec s stop pos pos_url_s copy_len len pos_norm mem =
        norm_loop sec s stop (pos + k) (pos + k) 0 len' (pos_norm + copy_len + length b) (put_in pos_norm (?copy @ b) mem)"
      and "pos + k \<le> stop" "0 < k" "length b \<le> 3" "len' = pos_norm + copy_len + length b + (stop - (pos + k))" for k b len'
    proof -
      let ?m = "put_in pos_norm (?copy @ b) mem" and ?p = "pos_norm + copy_len + length b"
      have fits: "?p \<le> length mem" "?p + 3 * (stop - (pos + k)) \<le> length mem" "length ?m = length mem"
        using less.prems that(3-5) copy(2) True by auto
      show ?thesis
        using less.hyps [of "pos + k" "pos + k" 0 ?p ?m len'] fits less.prems that(3,4,6) True copy(2)
          put_in_twice [of pos_norm "?copy @ b" mem "normalise sec (between s (pos + k) stop)"]
        unfolding l by (simp add: r Let_def add.assoc)
    qed
    have wr: "mem_write (pos_norm + copy_len) b (put_in pos_norm ?copy mem) = Some (put_in pos_norm (?copy @ b) mem)"
      if "length b \<le> 3" for b
      using that copy(2) less.prems(4) True put_in_write [of "pos_norm + copy_len" b "put_in pos_norm ?copy mem"]
        put_in_twice [of pos_norm ?copy mem b] by simp
    consider (safe1) "ch s pos = 0x25" "pos + 2 < stop" "ascii_hex_to_value_2_chars (ch s (pos + 1)) (ch s (pos + 2)) < 0"
      | (safe3) "ch s pos = 0x25" "pos + 2 < stop" "\<not> ascii_hex_to_value_2_chars (ch s (pos + 1)) (ch s (pos + 2)) < 0"
        "\<not> lower_section sec" "\<not> nsurl__is_unreserved (word_of_int (ascii_hex_to_value_2_chars (ch s (pos + 1)) (ch s (pos + 2))))"
      | (undo) "ch s pos = 0x25" "pos + 2 < stop" "\<not> ascii_hex_to_value_2_chars (ch s (pos + 1)) (ch s (pos + 2)) < 0"
        "lower_section sec \<or> nsurl__is_unreserved (word_of_int (ascii_hex_to_value_2_chars (ch s (pos + 1)) (ch s (pos + 2))))"
      | (byte) "\<not> (ch s pos = 0x25 \<and> pos + 2 < stop)" by blast
    then show ?thesis
    proof cases
      case safe1
      then show ?thesis using at between_Cons [of pos "pos + 1" s] less.prems(3)
        by (intro safe [of 1]) (simp_all add: unfold Let_def)
    next
      case safe3
      then show ?thesis using at by (intro safe [of 3]) (auto simp: unfold Let_def)
    next
      case undo
      let ?b = "[word_of_int (ascii_hex_to_value_2_chars (ch s (pos + 1)) (ch s (pos + 2)))]"
      have "norm_loop sec s stop pos pos_url_s copy_len len pos_norm mem =
        norm_loop sec s stop (pos + 3) (pos + 3) 0 (size_sub len 2) (pos_norm + copy_len + length ?b) (put_in pos_norm (?copy @ ?b) mem)"
        using undo copy(1) wr [of ?b] True by (subst unfold) (auto simp: Let_def)
      moreover have "size_sub len 2 = pos_norm + copy_len + length ?b + (stop - (pos + 3))" using less.prems(4-6) undo(2) by simp
      ultimately show ?thesis using at undo by (intro put [of ?b 3 "size_sub len 2"]) (simp_all add: Let_def)
    next
      case byte
      then have at: "normalise sec (between s pos stop) = norm_byte sec (ch s pos) @ normalise sec (between s (pos + 1) stop)"
        using at by auto
      consider (esc) "\<not> lower_section sec" "\<not> nsurl__is_no_escape (ch s pos)"
        | (lower) "lower_section sec" "ascii_is_alpha_upper (ch s pos)"
        | (plain) "lower_section sec \<or> nsurl__is_no_escape (ch s pos)" "\<not> (lower_section sec \<and> ascii_is_alpha_upper (ch s pos))"
        by blast
      then show ?thesis
      proof cases
        case esc
        let ?b = "[0x25, digit2uppercase_hex (drop_bit 4 (ch s pos)), digit2uppercase_hex (ch s pos AND 0xF)]"
        have "norm_loop sec s stop pos pos_url_s copy_len len pos_norm mem =
          norm_loop sec s stop (pos + 1) (pos + 1) 0 (size_wrap (len + 2)) (pos_norm + copy_len + length ?b) (put_in pos_norm (?copy @ ?b) mem)"
          using esc byte copy(1) wr [of ?b] True by (subst unfold) (auto simp: numeral_3_eq_3)
        moreover have "size_wrap (len + 2) = pos_norm + copy_len + length ?b + (stop - (pos + 1))" using less.prems(4-6) True by simp
        ultimately show ?thesis using at esc by (intro put [of ?b 1 "size_wrap (len + 2)"]) (use True in \<open>auto simp: norm_byte_def\<close>)
      next
        case lower
        let ?b = "[ascii_to_lower (ch s pos)]"
        have "norm_loop sec s stop pos pos_url_s copy_len len pos_norm mem =
          norm_loop sec s stop (pos + 1) (pos + 1) 0 len (pos_norm + copy_len + length ?b) (put_in pos_norm (?copy @ ?b) mem)"
          using lower byte copy(1) wr [of ?b] True by (subst unfold) auto
        moreover have "len = pos_norm + copy_len + length ?b + (stop - (pos + 1))" using less.prems(6) True by simp
        ultimately show ?thesis using at lower by (intro put [of ?b 1 len]) (use True in \<open>auto simp: norm_byte_def\<close>)
      next
        case plain
        then have "norm_byte sec (ch s pos) = [ch s pos]" by (auto simp: norm_byte_def ascii_to_lower_def)
        with plain show ?thesis using at between_Cons [of pos "pos + 1" s] less.prems(3) True byte
          by (intro safe [of 1]) (auto simp: unfold)
      qed
    qed
  qed
qed

text \<open>Stage 1 for a section that fits: the buffer holds the normal form and a NUL, and keeps what follows.\<close>

lemma normalise_section_ok:
  assumes "section_range s sec pegs = Some (start, stop)" and "stop \<le> length s" and "3 * (stop - start) + 1 \<le> length mem"
    and "length mem < SIZE_MODULUS"
  shows "let t = normalise sec (between s start stop) in
    normalise_section s sec pegs mem = Some (length t, t @ 0 # drop (length t + 1) mem)"
proof -
  have le: "start \<le> stop" using assms(1) by (auto simp: section_range_def Let_def split: prod.splits if_splits)
  define t where "t = normalise sec (between s start stop)"
  have "length t \<le> 3 * (stop - start)" using length_normalise [of sec "between s start stop"] assms(2) by (simp add: t_def)
  then have "mem_write (length t) [0] (put_in 0 t mem) = Some (t @ 0 # drop (length t + 1) mem)"
    using assms(3) by (simp add: mem_write_def put_in_def)
  then show ?thesis using norm_loop_normalise [of start 0 start stop s 0 mem "stop - start" sec] assms le
    by (simp add: normalise_section_def Let_def flip: t_def)
qed

lemma copy_up_to_length: "copy_up_to s pos_url_s copy_len pos_norm mem = Some (p, mem') \<Longrightarrow> length mem' = length mem"
  by (auto simp: copy_up_to_def bind_eq_Some_conv length_mem_write split: if_splits)

lemma norm_loop_length:
  "norm_loop sec s stop pos pos_url_s copy_len len pos_norm mem = Some (n, p, mem') \<Longrightarrow> length mem' = length mem"
proof (induction "stop - pos" arbitrary: pos pos_url_s copy_len len pos_norm mem rule: less_induct)
  case less
  have put: "length mem' = length mem"
    if "copy_up_to s pos_url_s copy_len pos_norm mem = Some (a, m1)" "mem_write a b m1 = Some m2" "pos < stop" "pos < pos'"
      "norm_loop sec' s stop pos' pos' 0 len' p' m2 = Some (n, p, mem')" "sec = sec'" for a m1 b m2 pos' len' p' sec'
    using less.hyps [OF _ that(5) [folded that(6)]] copy_up_to_length [OF that(1)] length_mem_write [OF that(2)] that(3,4) by simp
  have safe: "length mem' = length mem"
    if "norm_loop sec' s stop pos' pos_url_s copy_len' len pos_norm mem = Some (n, p, mem')" "pos < stop" "pos < pos'" "sec = sec'" for pos' copy_len' sec'
    using less.hyps [OF _ that(1) [folded that(4)]] that(2,3) by simp
  show ?case
  proof (cases "pos < stop")
    case False
    then show ?thesis using less.prems copy_up_to_length by (subst (asm) norm_loop.simps) (auto simp: bind_eq_Some_conv)
  next
    case True
    note put = put [OF _ _ True, of _ _ _ _ "Suc pos", simplified] put [OF _ _ True, of _ _ _ _ "pos + 3", simplified]
      and safe = safe [OF _ True, of _ "Suc pos", simplified] safe [OF _ True, of _ "pos + 3", simplified]
    show ?thesis using less.prems True
      by (subst (asm) norm_loop.simps) (auto simp: bind_eq_Some_conv Let_def split: if_splits dest: put safe)
  qed
qed

lemma normalise_section_length:
  "normalise_section s sec pegs mem = Some (n, mem') \<Longrightarrow> length mem' = length mem"
  by (auto simp: normalise_section_def bind_eq_Some_conv length_mem_write dest!: norm_loop_length)

section \<open>Sections fit into the buffer\<close>

lemma foldl_longest: "foldl (\<lambda>len l. if len < l then l else len) a ls = Max (insert a (set ls))" for a :: nat
proof (induction ls arbitrary: a)
  case (Cons l ls)
  have "(if a < l then l else a) = max a l" by simp
  then show ?case using Cons.IH by (cases "ls = []") (simp_all add: max.assoc)
qed simp

text \<open>The longest section is at least as long as each of them, and lies inside the string.\<close>

lemma longest_section:
  assumes "markers_ok s m" and "length s < SIZE_MODULUS"
  shows "nsurl__get_longest_section m \<le> length s"
    and "list_all (\<lambda>l. l \<le> nsurl__get_longest_section m)
      [m_scheme_end m - m_start m, m_at m - m_authority m, m_path m - m_at m, m_query m - m_path m, m_fragment m - m_query m, m_end m - m_fragment m]"
proof -
  define ls where "ls = [m_scheme_end m - m_start m, m_at m - m_authority m, m_path m - m_at m, m_query m - m_path m, m_fragment m - m_query m, m_end m - m_fragment m]"
  have long: "nsurl__get_longest_section m = Max (set ls)"
    unfolding nsurl__get_longest_section_def foldl_longest using assms by (simp add: markers_ok_def ls_def)
  have "\<forall>l \<in> set ls. l \<le> length s" using assms(1) by (auto simp: markers_ok_def ls_def)
  moreover have "ls \<noteq> []" by (simp add: ls_def)
  ultimately show "nsurl__get_longest_section m \<le> length s" unfolding long by (subst Max_le_iff) simp_all
  show "list_all (\<lambda>l. l \<le> nsurl__get_longest_section m)
      [m_scheme_end m - m_start m, m_at m - m_authority m, m_path m - m_at m, m_query m - m_path m, m_fragment m - m_query m, m_end m - m_fragment m]"
    unfolding long ls_def [symmetric] list_all_iff using Max_ge [of "set ls"] by blast
qed

lemma section_fits:
  assumes "markers_ok s m" and "int (length s) \<le> INT32_MAX"
  shows "\<exists>a b. section_range s sec m = Some (a, b) \<and> b \<le> length s \<and> b - a \<le> nsurl__get_longest_section m"
proof -
  have len: "length s < SIZE_MODULUS" using assms(2) by simp
  note long = longest_section(2) [OF assms(1) len]
  have in_s: "i < length s" if "ch s i = c" "c \<noteq> 0" for i c using ch_inside [OF that] by simp
  have "m_at m = m_authority m \<or> m_at m < m_path m" "m_path m \<le> length s" "m_query m \<le> length s" "m_fragment m \<le> length s" "m_end m \<le> length s"
    "m_at m \<le> length s" "m_scheme_end m \<le> length s" "m_start m \<le> length s" "m_authority m \<le> length s"
    using assms(1) by (auto simp: markers_ok_def)
  then show ?thesis
    using assms(2) long in_s [of "m_at m" atsign] in_s [of "m_query m" quest] in_s [of "m_fragment m" hash]
    by (cases sec) (auto simp: section_range_def Let_def)
qed

section \<open>Properties\<close>

text \<open>C15: Normalising a section stays inside the buffer and is the byte-by-byte normalisation. For every string of at most
  2^31 - 1 bytes and each of its sections, in a buffer of three bytes for each byte of the longest section and one for the NUL, the loop
  that copies runs of safe characters writes exactly the normal form of the section, reports its length and touches nothing behind the NUL.\<close>

theorem nsurl_section_normalised:
  assumes "int (length s) \<le> INT32_MAX" and "length mem = nsurl__get_longest_section (nsurl__get_string_markers s joining) * 3 + 1"
  shows "\<exists>start stop. section_range s sec (nsurl__get_string_markers s joining) = Some (start, stop) \<and> stop \<le> length s \<and>
    (let t = normalise sec (between s start stop) in
     normalise_section s sec (nsurl__get_string_markers s joining) mem = Some (length t, t @ 0 # drop (length t + 1) mem))"
proof -
  note ok = markers_ordered [of s joining]
  obtain a b where r: "section_range s sec (nsurl__get_string_markers s joining) = Some (a, b)" "b \<le> length s"
    "b - a \<le> nsurl__get_longest_section (nsurl__get_string_markers s joining)" using section_fits [OF ok assms(1)] by blast
  moreover have "length mem < SIZE_MODULUS" using longest_section(1) [OF ok] assms by simp
  ultimately show ?thesis using normalise_section_ok [OF r(1,2), of mem] assms(2) by auto
qed

theorem nsurl_section_normalised_witness:
  "\<exists>start stop. (let t = normalise URL_FRAGMENT (between [0x23, 0x20, 0x62] start stop) in
     normalise_section [0x23, 0x20, 0x62] URL_FRAGMENT (nsurl__get_string_markers [0x23, 0x20, 0x62] True) (replicate 10 0) =
       Some (length t, t @ 0 # drop (length t + 1) (replicate 10 0)))"
proof -
  have "nsurl__get_string_markers [0x23, 0x20, 0x62] True =
    \<lparr>m_start = 0, m_scheme_end = 0, m_authority = 0, m_colon_first = 0, m_at = 0, m_colon_last = 0, m_path = 0, m_query = 0,
     m_fragment = 0, m_end = 3, m_scheme_type = NSURL_SCHEME_OTHER\<rparr>" by code_simp
  then have "length (replicate 10 0 :: bytes) = nsurl__get_longest_section (nsurl__get_string_markers [0x23, 0x20, 0x62] True) * 3 + 1"
    by (simp add: nsurl__get_longest_section_def)
  then show ?thesis using nsurl_section_normalised [of "[0x23, 0x20, 0x62]" "replicate 10 0" True URL_FRAGMENT] by auto
qed

end
