(* ===== verification/Nsurl.thy ===== *)
theory Nsurl
  imports Nsurl_Section Interning
begin

text \<open>
  URL objects, the second half of \<^verbatim>\<open>netsurf/utils/nsurl/parse.c\<close>: building the string of a URL from its components, creating a
  URL from a string, and joining a URL with a relative reference.

  The parts and the flags that C keeps as bits of an enumeration are sets here; a comparison of such a number with its lowest bit
  asks whether the set has another member.
\<close>

section \<open>URL objects\<close>

datatype nsurl_component =
    NSURL_SCHEME | NSURL_USERNAME | NSURL_PASSWORD | NSURL_HOST | NSURL_PORT | NSURL_PATH | NSURL_QUERY | NSURL_FRAGMENT

abbreviation NSURL_CREDENTIALS :: "nsurl_component set" where
  "NSURL_CREDENTIALS \<equiv> {NSURL_USERNAME, NSURL_PASSWORD}"

abbreviation NSURL_COMPLETE :: "nsurl_component set" where
  "NSURL_COMPLETE \<equiv> {NSURL_SCHEME, NSURL_USERNAME, NSURL_PASSWORD, NSURL_HOST, NSURL_PORT, NSURL_PATH, NSURL_QUERY}"

abbreviation NSURL_WITH_FRAGMENT :: "nsurl_component set" where
  "NSURL_WITH_FRAGMENT \<equiv> insert NSURL_FRAGMENT NSURL_COMPLETE"

datatype nsurl_string_flags =
    NSURL_F_SCHEME | NSURL_F_SCHEME_PUNCTUATION | NSURL_F_AUTHORITY_PUNCTUATION | NSURL_F_USERNAME | NSURL_F_PASSWORD
  | NSURL_F_CREDENTIALS_PUNCTUATION | NSURL_F_HOST | NSURL_F_PORT | NSURL_F_PATH | NSURL_F_QUERY_PUNCTUATION | NSURL_F_QUERY
  | NSURL_F_FRAGMENT_PUNCTUATION | NSURL_F_FRAGMENT

record nsurl_component_lengths =
  l_scheme :: nat
  l_username :: nat
  l_password :: nat
  l_host :: nat
  l_port :: nat
  l_path :: nat
  l_query :: nat
  l_fragment :: nat

record nsurl =
  url_components :: nsurl_components
  url_count :: int
  url_hash :: u32
  url_length :: nat
  url_string :: bytes

text \<open>The offset of the string in the object, on a 64 bit target.\<close>

abbreviation NSURL_STRING :: nat where "NSURL_STRING \<equiv> 88"

definition nsurl__components_destroy :: "nsurl_components \<Rightarrow> unit option" where
  "nsurl__components_destroy c =
     (if Unset \<in> {nc_scheme c, nc_username c, nc_password c, nc_host c, nc_port c, nc_path c, nc_query c, nc_fragment c}
      then None else Some ())"

section \<open>The string of a URL\<close>

definition wanted :: "nsurl_component set \<Rightarrow> nsurl_component \<Rightarrow> component \<Rightarrow> bytes option" where
  "wanted parts part c = (case c of Str t \<Rightarrow> if part \<in> parts then Some t else None | _ \<Rightarrow> None)"

definition part_length :: "bytes option \<Rightarrow> nat" where
  "part_length p = (case p of None \<Rightarrow> 0 | Some t \<Rightarrow> length t)"

definition flag_if :: "bool \<Rightarrow> nsurl_string_flags \<Rightarrow> nsurl_string_flags set" where
  "flag_if b f = (if b then {f} else {})"

text \<open>The length of the string, the lengths of the parts and the flags.\<close>

definition nsurl__get_string_data ::
  "nsurl_components \<Rightarrow> nsurl_component set \<Rightarrow> nat \<times> nsurl_component_lengths \<times> nsurl_string_flags set" where
  "nsurl__get_string_data c parts =
     (let scheme = wanted parts NSURL_SCHEME (nc_scheme c);
          username = wanted parts NSURL_USERNAME (nc_username c);
          password = wanted parts NSURL_PASSWORD (nc_password c);
          host = wanted parts NSURL_HOST (nc_host c);
          port = wanted parts NSURL_PORT (nc_port c);
          path = wanted parts NSURL_PATH (nc_path c);
          query = wanted parts NSURL_QUERY (nc_query c);
          fragment = wanted parts NSURL_FRAGMENT (nc_fragment c);
          lengths = \<lparr>l_scheme = part_length scheme, l_username = part_length username, l_password = part_length password,
            l_host = part_length host, l_port = part_length port, l_path = part_length path, l_query = part_length query,
            l_fragment = part_length fragment\<rparr>;
          flags = flag_if (scheme \<noteq> None) NSURL_F_SCHEME \<union> flag_if (username \<noteq> None) NSURL_F_USERNAME \<union>
            flag_if (password \<noteq> None) NSURL_F_PASSWORD \<union> flag_if (host \<noteq> None) NSURL_F_HOST \<union>
            flag_if (port \<noteq> None) NSURL_F_PORT \<union> flag_if (path \<noteq> None) NSURL_F_PATH \<union>
            flag_if (query \<noteq> None) NSURL_F_QUERY \<union> flag_if (fragment \<noteq> None) NSURL_F_FRAGMENT;
          url_l = l_scheme lengths + l_username lengths + (if password \<noteq> None then 1 + l_password lengths else 0) + l_host lengths +
            (if port \<noteq> None then 1 + l_port lengths else 0) + l_path lengths + l_query lengths + l_fragment lengths;
          punct = (NSURL_F_SCHEME \<in> flags \<and> parts - {NSURL_SCHEME} \<noteq> {});
          flags = flags \<union> flag_if punct NSURL_F_SCHEME_PUNCTUATION;
          url_l = url_l + (if punct then 1 else 0);
          punct = (NSURL_F_SCHEME \<in> flags \<and> flags - {NSURL_F_SCHEME} \<noteq> {} \<and> (case nc_path c of Str p \<Rightarrow> ch p 0 = slash | _ \<Rightarrow> False));
          flags = flags \<union> flag_if punct NSURL_F_AUTHORITY_PUNCTUATION;
          url_l = url_l + (if punct then 2 else 0);
          punct = ((NSURL_F_USERNAME \<in> flags \<or> NSURL_F_PASSWORD \<in> flags) \<and> NSURL_F_HOST \<in> flags);
          flags = flags \<union> flag_if punct NSURL_F_CREDENTIALS_PUNCTUATION;
          url_l = url_l + (if punct then 1 else 0);
          punct = (flags - {NSURL_F_QUERY, NSURL_F_FRAGMENT} \<noteq> {} \<and> NSURL_F_QUERY \<in> flags);
          flags = flags \<union> flag_if punct NSURL_F_QUERY_PUNCTUATION;
          url_l = url_l + (if punct then 1 else 0);
          punct = (flags - {NSURL_F_FRAGMENT} \<noteq> {} \<and> NSURL_F_FRAGMENT \<in> flags);
          flags = flags \<union> flag_if punct NSURL_F_FRAGMENT_PUNCTUATION;
          url_l = url_l + (if punct then 1 else 0)
      in (size_wrap url_l, lengths, flags))"

text \<open>A punctuation or a component that is copied to the position, which moves on.\<close>

definition put_text :: "bool \<Rightarrow> bytes \<Rightarrow> nat \<times> bytes \<Rightarrow> (nat \<times> bytes) option" where
  "put_text b t st =
     (if b then do { mem \<leftarrow> mem_write (fst st) t (snd st); Some (fst st + length t, mem) } else Some st)"

definition put_part :: "bool \<Rightarrow> component \<Rightarrow> nat \<Rightarrow> nat \<times> bytes \<Rightarrow> (nat \<times> bytes) option" where
  "put_part b c l st =
     (if b then (case c of Str t \<Rightarrow> do { t \<leftarrow> mem_read 0 l (t @ [0]); put_text True t st } | _ \<Rightarrow> None) else Some st)"

definition nsurl__get_string ::
  "nsurl_components \<Rightarrow> nat \<Rightarrow> bytes \<Rightarrow> nsurl_component_lengths \<Rightarrow> nsurl_string_flags set \<Rightarrow> bytes option" where
  "nsurl__get_string c pos mem l flags = do {
     st \<leftarrow> put_part (NSURL_F_SCHEME \<in> flags) (nc_scheme c) (l_scheme l) (pos, mem);
     st \<leftarrow> put_text (NSURL_F_SCHEME_PUNCTUATION \<in> flags) [colon] st;
     st \<leftarrow> put_text (NSURL_F_AUTHORITY_PUNCTUATION \<in> flags) [slash, slash] st;
     st \<leftarrow> put_part (NSURL_F_USERNAME \<in> flags) (nc_username c) (l_username l) st;
     st \<leftarrow> put_text (NSURL_F_PASSWORD \<in> flags) [colon] st;
     st \<leftarrow> put_part (NSURL_F_PASSWORD \<in> flags) (nc_password c) (l_password l) st;
     st \<leftarrow> put_text (NSURL_F_CREDENTIALS_PUNCTUATION \<in> flags) [atsign] st;
     st \<leftarrow> put_part (NSURL_F_HOST \<in> flags) (nc_host c) (l_host l) st;
     st \<leftarrow> put_text (NSURL_F_PORT \<in> flags) [colon] st;
     st \<leftarrow> put_part (NSURL_F_PORT \<in> flags) (nc_port c) (l_port l) st;
     st \<leftarrow> put_part (NSURL_F_PATH \<in> flags) (nc_path c) (l_path l) st;
     st \<leftarrow> put_text (NSURL_F_QUERY \<in> flags \<and> NSURL_F_QUERY_PUNCTUATION \<in> flags) [quest] st;
     st \<leftarrow> put_part (NSURL_F_QUERY \<in> flags) (nc_query c) (l_query l) st;
     st \<leftarrow> put_text (NSURL_F_FRAGMENT \<in> flags \<and> NSURL_F_FRAGMENT_PUNCTUATION \<in> flags) [hash] st;
     (pos, mem) \<leftarrow> put_part (NSURL_F_FRAGMENT \<in> flags) (nc_fragment c) (l_fragment l) st;
     mem_write pos [0] mem
   }"

definition nsurl__components_to_string ::
  "heap \<Rightarrow> nsurl_components \<Rightarrow> nsurl_component set \<Rightarrow> nat \<Rightarrow> (nserror + (bytes \<times> nat)) option" where
  "nsurl__components_to_string h c parts pre_padding =
     (let (url_l, str_len, str_flags) = nsurl__get_string_data c parts in
      if url_l = 0 then Some (Inl NSERROR_BAD_URL)
      else if \<not> malloc_ok h (size_wrap (pre_padding + url_l + 1)) then Some (Inl NSERROR_NOMEM)
      else do {
        url_s \<leftarrow> nsurl__get_string c pre_padding (replicate (size_wrap (pre_padding + url_l + 1)) (heap_junk h)) str_len str_flags;
        Some (Inr (url_s, url_l))
      })"

definition component_hash :: "component \<Rightarrow> u32" where
  "component_hash c = (case c of Str t \<Rightarrow> lwc__calculate_hash t | _ \<Rightarrow> 0)"

definition nsurl__calc_hash :: "nsurl_components \<Rightarrow> u32" where
  "nsurl__calc_hash c =
     component_hash (nc_scheme c) XOR component_hash (nc_username c) XOR component_hash (nc_password c) XOR component_hash (nc_host c) XOR
     component_hash (nc_port c) XOR component_hash (nc_path c) XOR component_hash (nc_query c)"

section \<open>Creating a URL\<close>

definition nsurl__check_host_valid :: "bytes \<Rightarrow> bool" where
  "nsurl__check_host_valid host =
     (if ch host 0 = 0x5B \<and> ch host (length host - 1) = 0x5D
      then list_all (\<lambda>c. ascii_is_hex c \<or> c = colon) (take (length host - 2) (tl host))
      else list_all (\<lambda>c. ascii_is_alphanumerical c \<or> c = dot \<or> c = 0x2D \<or> c = 0x5F) host)"

text \<open>The sections in turn; an error is remembered and the next section is done all the same.\<close>

fun create_sections ::
  "nsurl_env \<Rightarrow> bytes \<Rightarrow> url_markers \<Rightarrow> url_sections list \<Rightarrow> bool \<Rightarrow> nsurl_components \<Rightarrow> bytes \<Rightarrow> (bool \<times> nsurl_components) option" where
  "create_sections ne s m [] ok c buff = Some (ok, c)"
| "create_sections ne s m (sec # secs) ok c buff = do {
     (e, c, buff) \<leftarrow> nsurl__create_from_section ne s sec m buff c;
     create_sections ne s m secs (ok \<and> e = NSERROR_OK) c buff
   }"

abbreviation no_components :: "nsurl_scheme_type \<Rightarrow> nsurl_components" where
  "no_components t \<equiv> \<lparr>nc_scheme = Unset, nc_username = Unset, nc_password = Unset, nc_host = Unset, nc_port = Unset,
     nc_path = Unset, nc_query = Unset, nc_fragment = Unset, nc_scheme_type = t\<rparr>"

definition finish_url :: "heap \<Rightarrow> nsurl_components \<Rightarrow> (nserror + nsurl) option" where
  "finish_url h c = do {
     r \<leftarrow> nsurl__components_to_string h c NSURL_WITH_FRAGMENT NSURL_STRING;
     case r of
       Inl e \<Rightarrow> Some (Inl e)
     | Inr (mem, len) \<Rightarrow> Some (Inr \<lparr>url_components = c, url_count = 1, url_hash = nsurl__calc_hash c, url_length = len,
         url_string = take len (drop NSURL_STRING mem)\<rparr>)
   }"

text \<open>The components of a created URL are checked: http and https need a valid host.\<close>

definition needs_host :: "nsurl_components \<Rightarrow> bool" where
  "needs_host c \<longleftrightarrow> nc_scheme c = Str [0x68, 0x74, 0x74, 0x70] \<or> nc_scheme c = Str [0x68, 0x74, 0x74, 0x70, 0x73]"

definition validate_url :: "heap \<Rightarrow> bool \<Rightarrow> nsurl_components \<Rightarrow> (nserror + nsurl) option" where
  "validate_url h ok c =
     (if \<not> ok then do { nsurl__components_destroy c; Some (Inl NSERROR_NOMEM) }
      else if needs_host c then
        (case nc_host c of
           Str host \<Rightarrow>
             if \<not> nsurl__check_host_valid host then do { nsurl__components_destroy c; Some (Inl NSERROR_BAD_URL) }
             else finish_url h c
         | _ \<Rightarrow> do { nsurl__components_destroy c; Some (Inl NSERROR_BAD_URL) })
      else finish_url h c)"

definition nsurl_create :: "nsurl_env \<Rightarrow> bytes \<Rightarrow> (nserror + nsurl) option" where
  "nsurl_create ne s =
     (let m = nsurl__get_string_markers s False;
          size = size_wrap (nsurl__get_longest_section m * 3 + 1) in
      if \<not> malloc_ok (ne_heap ne) size then Some (Inl NSERROR_NOMEM)
      else do {
        (ok, c) \<leftarrow> create_sections ne s m [URL_SCHEME, URL_CREDENTIALS, URL_HOST, URL_PATH, URL_QUERY, URL_FRAGMENT] True
          (no_components (m_scheme_type m)) (replicate size (heap_junk (ne_heap ne)));
        validate_url (ne_heap ne) ok c
      })"

section \<open>Joining\<close>

text \<open>From which parts the joined URL is made.\<close>

record joined_parts =
  base_scheme :: bool
  base_authority :: bool
  base_path :: bool
  merged_path :: bool
  base_query :: bool

definition joined_parts_of :: "bytes \<Rightarrow> url_markers \<Rightarrow> joined_parts" where
  "joined_parts_of rel m =
     (let scheme = (size_sub (m_scheme_end m) (m_start m) = 0);
          authority = (scheme \<and> size_sub (m_path m) (m_authority m) = 0);
          path = (authority \<and> size_sub (m_query m) (m_path m) = 0);
          query = (path \<and> size_sub (m_fragment m) (m_query m) = 0);
          merged = (authority \<and> \<not> path \<and> ch rel (m_path m) \<noteq> slash)
      in \<lparr>base_scheme = scheme, base_authority = authority, base_path = path, merged_path = merged, base_query = query\<rparr>)"

definition component_length :: "component \<Rightarrow> nat" where
  "component_length c = (case c of Str t \<Rightarrow> length t | _ \<Rightarrow> 0)"

text \<open>The size of the buffer.\<close>

definition join_size :: "nsurl_components \<Rightarrow> url_markers \<Rightarrow> joined_parts \<Rightarrow> nat" where
  "join_size bc m parts =
     size_wrap ((nsurl__get_longest_section m + (if merged_path parts then component_length (nc_path bc) else 0)) * 4 +
       size_sub (m_query m) (m_path m) + component_length (nc_path bc) + 5)"

text \<open>The loop back to the last slash of the base path.\<close>

fun path_end :: "bytes \<Rightarrow> nat \<Rightarrow> nat" where
  "path_end path 0 = 0"
| "path_end path (Suc n) = (if ch path (Suc n) \<noteq> slash then path_end path n else Suc n)"

text \<open>What is put into the buffer before dots are removed: the relative path, after the directory of the base path when the paths are
  merged. The base path must be there.\<close>

definition merge_text :: "component \<Rightarrow> bytes \<Rightarrow> bytes option" where
  "merge_text bpath rel_path =
     (case bpath of
        Str path \<Rightarrow>
          (let n = path_end path (length path);
               n = (if ch path n = slash then n + 1 else n)
           in do { dir \<leftarrow> mem_read 0 n (path @ [0]); Some (dir @ rel_path) })
      | _ \<Rightarrow> None)"

text \<open>The path is written to the buffer, its dots are removed into the memory after it, and the result is normalised into the
  memory after that. The loop that removes dots never writes more than the path it reads.\<close>

definition joined_path ::
  "nsurl_env \<Rightarrow> bytes \<Rightarrow> bytes \<Rightarrow> url_markers \<Rightarrow> nsurl_components \<Rightarrow> (nserror \<times> nsurl_components \<times> bytes) option" where
  "joined_path ne path buff m c = do {
     buff \<leftarrow> mem_write 0 (path @ [0]) buff;
     let buff_pos = length path + 1;
     let out = nsurl__remove_dot_segments path;
     mem_read buff_pos (length path) buff;
     buff \<leftarrow> mem_write buff_pos out buff;
     let buff_start = buff_pos + length out;
     (e, c, norm) \<leftarrow> nsurl__create_from_section ne out URL_PATH (m\<lparr>m_path := 0, m_query := length out\<rparr>) (drop buff_start buff) c;
     Some (e, c, take buff_start buff @ norm)
   }"

text \<open>The steps of the join, each of which may end it with an error. Copying a component takes a reference to it,
  which keeps its text.\<close>

definition join_scheme ::
  "nsurl_env \<Rightarrow> nsurl_components \<Rightarrow> bytes \<Rightarrow> url_markers \<Rightarrow> joined_parts \<Rightarrow> bytes \<Rightarrow> (nserror \<times> nsurl_components \<times> bytes) option" where
  "join_scheme ne bc rel m parts buff =
     (if base_scheme parts then
        Some (NSERROR_OK, (no_components (nc_scheme_type bc))\<lparr>nc_scheme := nc_scheme bc\<rparr>, buff)
      else nsurl__create_from_section ne rel URL_SCHEME m buff (no_components (m_scheme_type m)))"

definition join_authority ::
  "nsurl_env \<Rightarrow> nsurl_components \<Rightarrow> bytes \<Rightarrow> url_markers \<Rightarrow> joined_parts \<Rightarrow> nsurl_components \<Rightarrow> bytes \<Rightarrow>
   (nserror \<times> nsurl_components \<times> bytes) option" where
  "join_authority ne bc rel m parts c buff =
     (if base_authority parts then
        Some (NSERROR_OK, c\<lparr>nc_username := nc_username bc, nc_password := nc_password bc,
          nc_host := nc_host bc, nc_port := nc_port bc\<rparr>, buff)
      else do {
        (e, c, buff) \<leftarrow> nsurl__create_from_section ne rel URL_CREDENTIALS m buff c;
        if e \<noteq> NSERROR_OK then Some (e, c, buff) else nsurl__create_from_section ne rel URL_HOST m buff c
      })"

definition join_path ::
  "nsurl_env \<Rightarrow> nsurl_components \<Rightarrow> bytes \<Rightarrow> url_markers \<Rightarrow> joined_parts \<Rightarrow> nsurl_components \<Rightarrow> bytes \<Rightarrow>
   (nserror \<times> nsurl_components \<times> bytes) option" where
  "join_path ne bc rel m parts c buff =
     (if base_path parts then Some (NSERROR_OK, c\<lparr>nc_path := nc_path bc\<rparr>, buff)
      else do {
        rel_path \<leftarrow> mem_read (m_path m) (m_query m - m_path m) rel;
        path \<leftarrow> (if merged_path parts then merge_text (nc_path bc) rel_path else Some rel_path);
        joined_path ne path buff m c
      })"

definition join_query ::
  "nsurl_env \<Rightarrow> nsurl_components \<Rightarrow> bytes \<Rightarrow> url_markers \<Rightarrow> joined_parts \<Rightarrow> nsurl_components \<Rightarrow> bytes \<Rightarrow>
   (nserror \<times> nsurl_components \<times> bytes) option" where
  "join_query ne bc rel m parts c buff =
     (if base_query parts then Some (NSERROR_OK, c\<lparr>nc_query := nc_query bc\<rparr>, buff)
      else nsurl__create_from_section ne rel URL_QUERY m buff c)"

definition nsurl_join :: "nsurl_env \<Rightarrow> nsurl \<Rightarrow> bytes \<Rightarrow> (nserror + nsurl) option" where
  "nsurl_join ne url rel =
     (let m = nsurl__get_string_markers rel True;
          parts = joined_parts_of rel m;
          b = url_components url;
          size = join_size b m parts in
      if \<not> malloc_ok (ne_heap ne) size then Some (Inl NSERROR_NOMEM)
      else do {
        (e, c, buff) \<leftarrow> join_scheme ne b rel m parts (replicate size (heap_junk (ne_heap ne)));
        if e \<noteq> NSERROR_OK then Some (Inl e)
        else do {
          (e, c, buff) \<leftarrow> join_authority ne b rel m parts c buff;
          if e \<noteq> NSERROR_OK then Some (Inl e)
          else do {
            (e, c, buff) \<leftarrow> join_path ne b rel m parts c buff;
            if e \<noteq> NSERROR_OK then Some (Inl e)
            else do {
              (e, c, buff) \<leftarrow> join_query ne b rel m parts c buff;
              if e \<noteq> NSERROR_OK then Some (Inl e)
              else do {
                (e, c, buff) \<leftarrow> nsurl__create_from_section ne rel URL_FRAGMENT m buff c;
                if e \<noteq> NSERROR_OK then Some (Inl e) else finish_url (ne_heap ne) c
              }
            }
          }
        }
      })"

section \<open>The text of a URL\<close>

definition opt_text :: "bytes option \<Rightarrow> bytes" where
  "opt_text p = (case p of None \<Rightarrow> [] | Some t \<Rightarrow> t)"

text \<open>The components with the punctuation between them, each piece with the condition under which it is there.\<close>

definition url_pieces :: "nsurl_components \<Rightarrow> nsurl_component set \<Rightarrow> (bool \<times> bytes) list" where
  "url_pieces c parts =
     (let scheme = wanted parts NSURL_SCHEME (nc_scheme c);
          username = wanted parts NSURL_USERNAME (nc_username c);
          password = wanted parts NSURL_PASSWORD (nc_password c);
          host = wanted parts NSURL_HOST (nc_host c);
          port = wanted parts NSURL_PORT (nc_port c);
          path = wanted parts NSURL_PATH (nc_path c);
          query = wanted parts NSURL_QUERY (nc_query c);
          fragment = wanted parts NSURL_FRAGMENT (nc_fragment c);
          spans = (scheme \<noteq> None \<and> parts - {NSURL_SCHEME} \<noteq> {});
          root = (case nc_path c of Str p \<Rightarrow> ch p 0 = slash | _ \<Rightarrow> False);
          before = (scheme \<noteq> None \<or> username \<noteq> None \<or> password \<noteq> None \<or> host \<noteq> None \<or> port \<noteq> None \<or> path \<noteq> None)
      in [(scheme \<noteq> None, opt_text scheme), (spans, [colon]), (spans \<and> root, [slash, slash]),
          (username \<noteq> None, opt_text username), (password \<noteq> None, [colon]), (password \<noteq> None, opt_text password),
          ((username \<noteq> None \<or> password \<noteq> None) \<and> host \<noteq> None, [atsign]), (host \<noteq> None, opt_text host),
          (port \<noteq> None, [colon]), (port \<noteq> None, opt_text port), (path \<noteq> None, opt_text path),
          (query \<noteq> None \<and> before, [quest]), (query \<noteq> None, opt_text query),
          (fragment \<noteq> None \<and> (before \<or> query \<noteq> None), [hash]), (fragment \<noteq> None, opt_text fragment)])"

abbreviation pieces_text :: "(bool \<times> bytes) list \<Rightarrow> bytes" where
  "pieces_text pieces \<equiv> concat (map (\<lambda>(b, t). if b then t else []) pieces)"

definition url_text :: "nsurl_components \<Rightarrow> nsurl_component set \<Rightarrow> bytes" where
  "url_text c parts = pieces_text (url_pieces c parts)"

lemma flag_if_simps [simp]:
  "x \<in> flag_if b f \<longleftrightarrow> b \<and> x = f"
  "flag_if b f - B = {} \<longleftrightarrow> (b \<longrightarrow> f \<in> B)"
  "A \<union> A' - B = {} \<longleftrightarrow> A - B = {} \<and> A' - B = {}"
  by (auto simp: flag_if_def)

lemma length_opt_text [simp]: "length (opt_text p) = part_length p"
  by (simp add: opt_text_def part_length_def split: option.splits)

lemma wanted_only: "parts - {NSURL_SCHEME} = {} \<Longrightarrow> part \<noteq> NSURL_SCHEME \<Longrightarrow> wanted parts part c = None"
  by (auto simp: wanted_def split: component.splits)

lemma part_length_None [simp]: "part_length None = 0"
  by (simp add: part_length_def)

lemma string_data:
  fixes c :: nsurl_components
  assumes "scheme = wanted parts NSURL_SCHEME (nc_scheme c)" "username = wanted parts NSURL_USERNAME (nc_username c)"
    "password = wanted parts NSURL_PASSWORD (nc_password c)" "host = wanted parts NSURL_HOST (nc_host c)"
    "port = wanted parts NSURL_PORT (nc_port c)" "path = wanted parts NSURL_PATH (nc_path c)"
    "query = wanted parts NSURL_QUERY (nc_query c)" "fragment = wanted parts NSURL_FRAGMENT (nc_fragment c)"
    and spans: "spans = (scheme \<noteq> None \<and> parts - {NSURL_SCHEME} \<noteq> {})"
    and rooted: "root = (case nc_path c of Str p \<Rightarrow> ch p 0 = slash | _ \<Rightarrow> False)"
    and before: "before = (scheme \<noteq> None \<or> username \<noteq> None \<or> password \<noteq> None \<or> host \<noteq> None \<or> port \<noteq> None \<or> path \<noteq> None)"
  shows "nsurl__get_string_data c parts =
    (size_wrap (part_length scheme + part_length username + (if password \<noteq> None then 1 + part_length password else 0) + part_length host +
       (if port \<noteq> None then 1 + part_length port else 0) + part_length path + part_length query + part_length fragment +
       (if spans then 1 else 0) + (if spans \<and> root then 2 else 0) +
       (if (username \<noteq> None \<or> password \<noteq> None) \<and> host \<noteq> None then 1 else 0) + (if query \<noteq> None \<and> before then 1 else 0) +
       (if fragment \<noteq> None \<and> (before \<or> query \<noteq> None) then 1 else 0)),
     \<lparr>l_scheme = part_length scheme, l_username = part_length username, l_password = part_length password,
      l_host = part_length host, l_port = part_length port, l_path = part_length path, l_query = part_length query,
      l_fragment = part_length fragment\<rparr>,
     flag_if (scheme \<noteq> None) NSURL_F_SCHEME \<union> flag_if (username \<noteq> None) NSURL_F_USERNAME \<union>
     flag_if (password \<noteq> None) NSURL_F_PASSWORD \<union> flag_if (host \<noteq> None) NSURL_F_HOST \<union>
     flag_if (port \<noteq> None) NSURL_F_PORT \<union> flag_if (path \<noteq> None) NSURL_F_PATH \<union>
     flag_if (query \<noteq> None) NSURL_F_QUERY \<union> flag_if (fragment \<noteq> None) NSURL_F_FRAGMENT \<union>
     flag_if spans NSURL_F_SCHEME_PUNCTUATION \<union> flag_if (spans \<and> root) NSURL_F_AUTHORITY_PUNCTUATION \<union>
     flag_if ((username \<noteq> None \<or> password \<noteq> None) \<and> host \<noteq> None) NSURL_F_CREDENTIALS_PUNCTUATION \<union>
     flag_if (query \<noteq> None \<and> before) NSURL_F_QUERY_PUNCTUATION \<union>
     flag_if (fragment \<noteq> None \<and> (before \<or> query \<noteq> None)) NSURL_F_FRAGMENT_PUNCTUATION)"
proof -
  define F where "F = flag_if (scheme \<noteq> None) NSURL_F_SCHEME \<union> flag_if (username \<noteq> None) NSURL_F_USERNAME \<union>
     flag_if (password \<noteq> None) NSURL_F_PASSWORD \<union> flag_if (host \<noteq> None) NSURL_F_HOST \<union>
     flag_if (port \<noteq> None) NSURL_F_PORT \<union> flag_if (path \<noteq> None) NSURL_F_PATH \<union>
     flag_if (query \<noteq> None) NSURL_F_QUERY \<union> flag_if (fragment \<noteq> None) NSURL_F_FRAGMENT"
  define F1 where "F1 = F \<union> flag_if spans NSURL_F_SCHEME_PUNCTUATION"
  define F2 where "F2 = F1 \<union> flag_if (spans \<and> root) NSURL_F_AUTHORITY_PUNCTUATION"
  define F3 where "F3 = F2 \<union> flag_if ((username \<noteq> None \<or> password \<noteq> None) \<and> host \<noteq> None) NSURL_F_CREDENTIALS_PUNCTUATION"
  define F4 where "F4 = F3 \<union> flag_if (query \<noteq> None \<and> before) NSURL_F_QUERY_PUNCTUATION"
  have only: "scheme \<noteq> None \<and> F1 - {NSURL_F_SCHEME} \<noteq> {} \<longleftrightarrow> spans"
    using wanted_only [of parts] assms(1-9) by (cases "parts - {NSURL_SCHEME} = {}") (auto simp: F1_def F_def)
  have p1: "(NSURL_F_SCHEME \<in> F \<and> parts - {NSURL_SCHEME} \<noteq> {}) = spans" by (simp add: F_def spans)
  have p2: "(NSURL_F_SCHEME \<in> F1 \<and> F1 - {NSURL_F_SCHEME} \<noteq> {} \<and> (case nc_path c of Str p \<Rightarrow> ch p 0 = slash | _ \<Rightarrow> False)) = (spans \<and> root)"
    unfolding rooted [symmetric] only [symmetric] by (auto simp: F1_def F_def)
  have p3: "((NSURL_F_USERNAME \<in> F2 \<or> NSURL_F_PASSWORD \<in> F2) \<and> NSURL_F_HOST \<in> F2) = ((username \<noteq> None \<or> password \<noteq> None) \<and> host \<noteq> None)"
    by (simp add: F2_def F1_def F_def)
  have p4: "(F3 - {NSURL_F_QUERY, NSURL_F_FRAGMENT} \<noteq> {} \<and> NSURL_F_QUERY \<in> F3) = (query \<noteq> None \<and> before)"
    by (auto simp: F3_def F2_def F1_def F_def before spans)
  have p5: "(F4 - {NSURL_F_FRAGMENT} \<noteq> {} \<and> NSURL_F_FRAGMENT \<in> F4) = (fragment \<noteq> None \<and> (before \<or> query \<noteq> None))"
    by (auto simp: F4_def F3_def F2_def F1_def F_def before spans)
  show ?thesis
    unfolding nsurl__get_string_data_def Let_def assms(1-8) [symmetric] F_def [symmetric] p1 F1_def [symmetric] p2 F2_def [symmetric] p3
      F3_def [symmetric] p4 F4_def [symmetric] p5 by simp
qed

text \<open>Pieces that are copied one after the other.\<close>

fun put_list :: "(bool \<times> bytes) list \<Rightarrow> nat \<times> bytes \<Rightarrow> (nat \<times> bytes) option" where
  "put_list [] st = Some st"
| "put_list ((b, t) # pieces) st = do { st \<leftarrow> put_text b t st; put_list pieces st }"

lemma put_list_text:
  assumes "p + length (w @ pieces_text pieces) \<le> length mem"
  shows "put_list pieces (p + length w, put_in p w mem) =
    Some (p + length (w @ pieces_text pieces), put_in p (w @ pieces_text pieces) mem)"
  using assms
proof (induction pieces arbitrary: w)
  case (Cons piece pieces)
  obtain b t where p: "piece = (b, t)" by (cases piece)
  let ?x = "if b then t else []"
  have "put_text b t (p + length w, put_in p w mem) = Some (p + length (w @ ?x), put_in p (w @ ?x) mem)"
    using Cons.prems p put_in_write [of "p + length w" t "put_in p w mem"] put_in_twice [of p w mem t] by (cases b) (simp_all add: put_text_def)
  moreover have "put_list pieces (p + length (w @ ?x), put_in p (w @ ?x) mem) =
      Some (p + length ((w @ ?x) @ pieces_text pieces), put_in p ((w @ ?x) @ pieces_text pieces) mem)"
    using Cons.prems p by (intro Cons.IH) simp
  ultimately show ?case using p by simp
qed simp

lemma put_part_wanted: "put_part (wanted parts part c \<noteq> None) c (part_length (wanted parts part c)) st =
    put_text (wanted parts part c \<noteq> None) (opt_text (wanted parts part c)) st"
  by (auto simp: put_part_def put_text_def wanted_def part_length_def opt_text_def mem_read_def split: component.splits)

lemma if_length: "length (if b then x else []) = (if b then length x else 0)"
  by simp

lemma if_part: "(if p \<noteq> None then part_length p else 0) = part_length p"
  "(if p \<noteq> None then 1 + part_length p else 0) = (if p \<noteq> None then 1 else 0) + part_length p"
  by (simp_all add: part_length_def)

lemma pieces_length: "length (pieces_text pieces) = sum_list (map (\<lambda>(b, t). if b then length t else 0) pieces)"
  by (induction pieces) (simp_all add: if_length split_beta del: length_0_conv)

lemma string_pieces:
  obtains L F where "nsurl__get_string_data c parts = (size_wrap (length (url_text c parts)), L, F)"
    "\<And>pre mem. nsurl__get_string c pre mem L F = put_list (url_pieces c parts) (pre, mem) \<bind> (\<lambda>(pos, mem). mem_write pos [0] mem)"
proof -
  note data = string_data [OF refl refl refl refl refl refl refl refl refl refl refl, of c parts]
  have len: "fst (nsurl__get_string_data c parts) = size_wrap (length (url_text c parts))"
    unfolding data fst_conv url_text_def pieces_length
    unfolding url_pieces_def Let_def list.map prod.case sum_list_simps length_opt_text if_part list.size
    by (rule arg_cong [of _ _ size_wrap])
      (simp only: add.assoc add.commute add.left_commute add_0_left add_0_right One_nat_def add_Suc_right numeral_2_eq_2)
  show thesis
  proof (rule that)
    show "nsurl__get_string_data c parts =
        (size_wrap (length (url_text c parts)), fst (snd (nsurl__get_string_data c parts)), snd (snd (nsurl__get_string_data c parts)))"
      by (simp only: len [symmetric] prod.collapse)
  next
    fix pre mem
    show "nsurl__get_string c pre mem (fst (snd (nsurl__get_string_data c parts))) (snd (snd (nsurl__get_string_data c parts))) =
      put_list (url_pieces c parts) (pre, mem) \<bind> (\<lambda>(pos, mem). mem_write pos [0] mem)"
      unfolding data by (simp add: url_pieces_def nsurl__get_string_def Let_def put_part_wanted del: not_None_eq)
  qed
qed

lemma string_text:
  assumes "pre + length (url_text c parts) + 1 < SIZE_MODULUS"
  shows "nsurl__components_to_string h c parts pre =
    (if url_text c parts = [] then Some (Inl NSERROR_BAD_URL)
     else if \<not> malloc_ok h (pre + length (url_text c parts) + 1) then Some (Inl NSERROR_NOMEM)
     else Some (Inr (replicate pre (heap_junk h) @ url_text c parts @ [0], length (url_text c parts))))"
proof (cases rule: string_pieces [of c parts])
  case (1 L F)
  let ?t = "url_text c parts" and ?mem = "replicate (pre + length (url_text c parts) + 1) (heap_junk h)"
  have "put_list (url_pieces c parts) (pre, ?mem) = Some (pre + length ?t, put_in pre ?t ?mem)"
    using put_list_text [of pre "[]" "url_pieces c parts" ?mem] by (simp flip: url_text_def)
  then have "nsurl__get_string c pre ?mem L F = Some (replicate pre (heap_junk h) @ ?t @ [0])"
    by (simp add: 1(2) mem_write_def put_in_def del: replicate.simps)
  then show ?thesis using assms by (simp add: nsurl__components_to_string_def 1(1))
qed

text \<open>A URL whose string, length and hash are those of its components, all of which are set.\<close>

definition nsurl_ok :: "nsurl \<Rightarrow> bool" where
  "nsurl_ok url \<longleftrightarrow>
     nsurl__components_destroy (url_components url) = Some () \<and> nc_scheme (url_components url) \<noteq> Null \<and>
     url_string url = url_text (url_components url) NSURL_WITH_FRAGMENT \<and> url_length url = length (url_string url) \<and>
     url_hash url = nsurl__calc_hash (url_components url) \<and> 0 < url_count url"

text \<open>What the parts of a created URL look like: the components a section sets, and how long they can be.\<close>

definition fine :: "nat \<Rightarrow> component \<Rightarrow> bool" where
  "fine n c \<longleftrightarrow> c = Null \<or> (\<exists>t. c = Str t \<and> length t \<le> n)"

lemma fine_simps [simp]: "fine n Null" "\<not> fine n Unset" "fine n (Str t) = (length t \<le> n)"
  by (simp_all add: fine_def)

lemma intern_to_ok:
  assumes "intern_to ne pos len mem c set_to = Some (NSERROR_OK, c')"
  shows "\<exists>t. c' = set_to (Str t) \<and> fine (length mem) (Str t)"
  using assms by (auto simp: intern_to_def mem_read_def split: if_splits)

lemma scheme_component_ok:
  assumes "scheme_component ne len norm c = Some (NSERROR_OK, c')"
  shows "\<exists>t. c' = c\<lparr>nc_scheme := Str t\<rparr> \<and> length t \<le> max 4 (length norm)"
  using assms by (auto simp: scheme_component_def dest!: intern_to_ok split: if_splits)

lemma credentials_component_ok:
  assumes "credentials_component ne pegs len norm c = Some (NSERROR_OK, c')"
  shows "\<exists>u p. c' = c\<lparr>nc_username := u, nc_password := p\<rparr> \<and> fine (length norm) u \<and> fine (length norm) p"
proof -
  let ?c = "c\<lparr>nc_username := Null, nc_password := Null\<rparr>"
  have user: ?thesis
    if i: "intern_to ne 0 n norm c1 (\<lambda>t. c1\<lparr>nc_username := t\<rparr>) = Some (NSERROR_OK, c')" and "c1 = ?c\<lparr>nc_password := p\<rparr>" "fine (length norm) p"
    for n c1 p
  proof -
    obtain t where "c' = c1\<lparr>nc_username := Str t\<rparr>" "fine (length norm) (Str t)" using intern_to_ok [OF i] by auto
    then show ?thesis using that(2,3) by (intro exI [of _ "Str t"] exI [of _ p]) simp
  qed
  have null: ?thesis if "c' = ?c" using that by (intro exI [of _ Null]) simp
  show ?thesis using assms user [of _ ?c Null] null intern_to_ok
    by (fastforce simp: credentials_component_def Let_def bind_eq_Some_conv split: if_splits intro: user)
qed

lemma port_component_ok:
  assumes "port_component ne pegs len norm c = Some (n, NSERROR_OK, c')" and "nc_port c = Null"
  shows "\<exists>p. c' = c\<lparr>nc_port := p\<rparr> \<and> fine (length norm) p"
proof -
  have same: ?thesis if "c' = c" using that assms(2) by (intro exI [of _ Null]) simp
  show ?thesis using assms(1) same
    by (auto simp: port_component_def Let_def bind_eq_Some_conv split: if_splits option.splits dest!: intern_to_ok)
qed

lemma convert_host_length:
  assumes "convert_host convert h host len = Some (Inr (Some t, n))"
  shows "length t + 1 \<le> PTRDIFF_MAX"
proof -
  obtain l r where l: "idna__host_label_length host len = Some l" "l \<noteq> 0"
    and r: "host_labels convert host len l (replicate FQDN_MAX (heap_junk h), 0) = Some r"
    using assms by (auto simp: convert_host_def bind_eq_Some_conv split: if_splits)
  obtain mem k where "r = Inr (mem, k)" using assms l r by (cases r) (auto simp: convert_host_def)
  then show ?thesis using assms l r by (auto simp: convert_host_def bind_eq_Some_conv malloc_ok_def split: if_splits)
qed

lemma host_component_ok:
  assumes "host_component ne pegs len norm c = Some (NSERROR_OK, c')"
  shows "\<exists>h p. c' = c\<lparr>nc_host := h, nc_port := p\<rparr> \<and> fine (max (length norm) PTRDIFF_MAX) h \<and> fine (length norm) p"
proof -
  let ?c = "c\<lparr>nc_host := Null, nc_port := Null\<rparr>"
  show ?thesis
  proof (cases "nc_scheme_type ?c = NSURL_SCHEME_FILE \<or> len = 0")
    case True
    then show ?thesis using assms by (intro exI [of _ Null]) (auto simp: host_component_def Let_def)
  next
    case False
    then obtain n c1 ret where p: "port_component ne pegs len norm ?c = Some (n, NSERROR_OK, c1)"
      and i: "idna_encode (ne_unicode ne) (ne_heap ne) norm n = Some ret"
      and r: "(case ret of Inr (host, host_len) \<Rightarrow> do { host \<leftarrow> host; intern_to ne 0 host_len (host @ [0]) c1 (\<lambda>t. c1\<lparr>nc_host := t\<rparr>) }
          | Inl _ \<Rightarrow> intern_to ne 0 n norm c1 (\<lambda>t. c1\<lparr>nc_host := t\<rparr>)) = Some (NSERROR_OK, c')"
      using assms by (auto simp: host_component_def Let_def bind_eq_Some_conv split: if_splits)
    obtain q where q: "c1 = ?c\<lparr>nc_port := q\<rparr>" "fine (length norm) q" using port_component_ok [OF p] by auto
    have "\<exists>t. c' = c1\<lparr>nc_host := Str t\<rparr> \<and> length t \<le> max (length norm) PTRDIFF_MAX"
    proof (cases ret)
      case (Inl e)
      then show ?thesis using r by (auto dest!: intern_to_ok)
    next
      case (Inr hh)
      obtain host m where h: "hh = (Some host, m)" "intern_to ne 0 m (host @ [0]) c1 (\<lambda>t. c1\<lparr>nc_host := t\<rparr>) = Some (NSERROR_OK, c')"
        using r Inr by (cases hh) (auto simp: bind_eq_Some_conv)
      have "length host + 1 \<le> PTRDIFF_MAX"
        using i Inr h(1) convert_host_length by (auto simp: idna_encode_def)
      then show ?thesis using intern_to_ok [OF h(2)] by auto
    qed
    then obtain t where "c' = c1\<lparr>nc_host := Str t\<rparr>" "length t \<le> max (length norm) PTRDIFF_MAX" by blast
    then show ?thesis using q by (intro exI [of _ "Str t"] exI [of _ q]) simp
  qed
qed

lemma path_component_ok:
  assumes "path_component ne len norm c = Some (NSERROR_OK, c')"
  shows "\<exists>p. c' = c\<lparr>nc_path := p\<rparr> \<and> fine (max 1 (length norm)) p"
  using assms by (auto simp: path_component_def dest!: intern_to_ok split: if_splits intro: exI [of _ Null] exI [of _ "Str _"])

lemma query_component_ok:
  assumes "query_component ne len norm c = Some (NSERROR_OK, c')"
  shows "\<exists>q. c' = c\<lparr>nc_query := q\<rparr> \<and> fine (length norm) q"
  using assms by (auto simp: query_component_def dest!: intern_to_ok split: if_splits intro: exI [of _ Null] exI [of _ "Str _"])

lemma fragment_component_ok:
  assumes "fragment_component ne len norm c = Some (NSERROR_OK, c')"
  shows "\<exists>f. c' = c\<lparr>nc_fragment := f\<rparr> \<and> fine (length norm) f"
  using assms by (auto simp: fragment_component_def dest!: intern_to_ok split: if_splits intro: exI [of _ Null] exI [of _ "Str _"])

lemma create_from_section_ok:
  assumes "nsurl__create_from_section ne s sec m mem c = Some (NSERROR_OK, c', mem')"
  obtains norm len where "length norm = length mem" "mem' = norm"
    "(case sec of
          URL_SCHEME \<Rightarrow> scheme_component ne len norm c
        | URL_CREDENTIALS \<Rightarrow> credentials_component ne m len norm c
        | URL_HOST \<Rightarrow> host_component ne m len norm c
        | URL_PATH \<Rightarrow> path_component ne len norm c
        | URL_QUERY \<Rightarrow> query_component ne len norm c
        | URL_FRAGMENT \<Rightarrow> fragment_component ne len norm c) = Some (NSERROR_OK, c')"
  using assms by (auto simp: nsurl__create_from_section_def bind_eq_Some_conv dest: normalise_section_length)

lemma create_sections_error: "create_sections ne s m secs False c buff = Some (ok, c') \<Longrightarrow> \<not> ok"
  by (induction secs arbitrary: c buff) (auto simp: bind_eq_Some_conv)

lemma create_sections_step:
  assumes "create_sections ne s m (sec # secs) True c buff = Some (True, c')"
  obtains c1 buff1 where "nsurl__create_from_section ne s sec m buff c = Some (NSERROR_OK, c1, buff1)"
    "create_sections ne s m secs True c1 buff1 = Some (True, c')"
proof -
  obtain e c1 b1 where s: "nsurl__create_from_section ne s sec m buff c = Some (e, c1, b1)"
    "create_sections ne s m secs (e = NSERROR_OK) c1 b1 = Some (True, c')"
    using assms by (auto simp: bind_eq_Some_conv)
  moreover have "e = NSERROR_OK" using s(2) create_sections_error [of ne s m secs c1 b1 True c'] by (cases "e = NSERROR_OK") simp_all
  ultimately show thesis using that by simp
qed

declare create_sections.simps(2) [simp del]

text \<open>All components are set, and none is longer than the buffer, apart from the host.\<close>

definition components_set :: "nat \<Rightarrow> nsurl_components \<Rightarrow> bool" where
  "components_set n c \<longleftrightarrow>
     (\<exists>t. nc_scheme c = Str t) \<and> fine n (nc_scheme c) \<and> fine n (nc_username c) \<and> fine n (nc_password c) \<and>
     fine (max n PTRDIFF_MAX) (nc_host c) \<and> fine n (nc_port c) \<and> fine n (nc_path c) \<and> fine n (nc_query c) \<and> fine n (nc_fragment c)"

lemma fine_mono: "fine m c \<Longrightarrow> m \<le> n \<Longrightarrow> fine n c"
  by (auto simp: fine_def)

lemma fine_set: "fine n c \<Longrightarrow> Unset \<noteq> c"
  by auto

lemma components_set_destroy: "components_set n c \<Longrightarrow> nsurl__components_destroy c = Some () \<and> nc_scheme c \<noteq> Null"
  unfolding components_set_def nsurl__components_destroy_def by (elim conjE, (drule fine_set)+) auto

lemma create_sections_set:
  assumes "create_sections ne s m [URL_SCHEME, URL_CREDENTIALS, URL_HOST, URL_PATH, URL_QUERY, URL_FRAGMENT] True c0 buff = Some (True, c)"
  shows "components_set (max 4 (length buff)) c \<and> nc_scheme_type c = nc_scheme_type c0"
proof -
  let ?n = "max 4 (length buff)"
  from assms obtain c1 b1 where 1: "nsurl__create_from_section ne s URL_SCHEME m buff c0 = Some (NSERROR_OK, c1, b1)"
    and r1: "create_sections ne s m [URL_CREDENTIALS, URL_HOST, URL_PATH, URL_QUERY, URL_FRAGMENT] True c1 b1 = Some (True, c)"
    by (rule create_sections_step)
  from r1 obtain c2 b2 where 2: "nsurl__create_from_section ne s URL_CREDENTIALS m b1 c1 = Some (NSERROR_OK, c2, b2)"
    and r2: "create_sections ne s m [URL_HOST, URL_PATH, URL_QUERY, URL_FRAGMENT] True c2 b2 = Some (True, c)" by (rule create_sections_step)
  from r2 obtain c3 b3 where 3: "nsurl__create_from_section ne s URL_HOST m b2 c2 = Some (NSERROR_OK, c3, b3)"
    and r3: "create_sections ne s m [URL_PATH, URL_QUERY, URL_FRAGMENT] True c3 b3 = Some (True, c)" by (rule create_sections_step)
  from r3 obtain c4 b4 where 4: "nsurl__create_from_section ne s URL_PATH m b3 c3 = Some (NSERROR_OK, c4, b4)"
    and r4: "create_sections ne s m [URL_QUERY, URL_FRAGMENT] True c4 b4 = Some (True, c)" by (rule create_sections_step)
  from r4 obtain c5 b5 where 5: "nsurl__create_from_section ne s URL_QUERY m b4 c4 = Some (NSERROR_OK, c5, b5)"
    and r5: "create_sections ne s m [URL_FRAGMENT] True c5 b5 = Some (True, c)" by (rule create_sections_step)
  from r5 obtain c6 b6 where 6: "nsurl__create_from_section ne s URL_FRAGMENT m b5 c5 = Some (NSERROR_OK, c6, b6)"
    and r6: "create_sections ne s m [] True c6 b6 = Some (True, c)" by (rule create_sections_step)
  obtain t where t: "c1 = c0\<lparr>nc_scheme := Str t\<rparr>" "length t \<le> ?n" "length b1 = length buff"
    by (rule create_from_section_ok [OF 1]) (auto dest!: scheme_component_ok)
  obtain u p where u: "c2 = c1\<lparr>nc_username := u, nc_password := p\<rparr>" "fine (length b1) u" "fine (length b1) p" "length b2 = length b1"
    by (rule create_from_section_ok [OF 2]) (auto dest!: credentials_component_ok)
  obtain h q where h: "c3 = c2\<lparr>nc_host := h, nc_port := q\<rparr>" "fine (max (length b2) PTRDIFF_MAX) h" "fine (length b2) q" "length b3 = length b2"
    by (rule create_from_section_ok [OF 3]) (auto dest!: host_component_ok)
  obtain a where a: "c4 = c3\<lparr>nc_path := a\<rparr>" "fine (max 1 (length b3)) a" "length b4 = length b3"
    by (rule create_from_section_ok [OF 4]) (auto dest!: path_component_ok)
  obtain y where y: "c5 = c4\<lparr>nc_query := y\<rparr>" "fine (length b4) y" "length b5 = length b4"
    by (rule create_from_section_ok [OF 5]) (auto dest!: query_component_ok)
  obtain f where f: "c6 = c5\<lparr>nc_fragment := f\<rparr>" "fine (length b5) f"
    by (rule create_from_section_ok [OF 6]) (auto dest!: fragment_component_ok)
  show ?thesis using t u h a y f r6 unfolding components_set_def by (auto elim!: fine_mono)
qed

lemma pieces_text_le: "length (pieces_text ps) \<le> sum_list (map (length \<circ> snd) ps)"
  by (induction ps) (auto simp: if_length simp del: length_0_conv)

lemma wanted_le: "fine n c \<Longrightarrow> part_length (wanted parts part c) \<le> n"
  by (auto simp: fine_def wanted_def part_length_def)

lemma url_text_le:
  assumes "components_set n c"
  shows "length (url_text c parts) \<le> 7 * n + max n PTRDIFF_MAX + 8"
proof -
  have "length (url_text c parts) \<le>
      part_length (wanted parts NSURL_SCHEME (nc_scheme c)) + part_length (wanted parts NSURL_USERNAME (nc_username c)) +
      part_length (wanted parts NSURL_PASSWORD (nc_password c)) + part_length (wanted parts NSURL_HOST (nc_host c)) +
      part_length (wanted parts NSURL_PORT (nc_port c)) + part_length (wanted parts NSURL_PATH (nc_path c)) +
      part_length (wanted parts NSURL_QUERY (nc_query c)) + part_length (wanted parts NSURL_FRAGMENT (nc_fragment c)) + 8"
    using pieces_text_le [of "url_pieces c parts"] unfolding url_text_def url_pieces_def Let_def by (simp add: o_def)
  then show ?thesis using assms unfolding components_set_def
    using wanted_le [of n "nc_scheme c" parts NSURL_SCHEME] wanted_le [of n "nc_username c" parts NSURL_USERNAME]
      wanted_le [of n "nc_password c" parts NSURL_PASSWORD] wanted_le [of "max n PTRDIFF_MAX" "nc_host c" parts NSURL_HOST]
      wanted_le [of n "nc_port c" parts NSURL_PORT] wanted_le [of n "nc_path c" parts NSURL_PATH]
      wanted_le [of n "nc_query c" parts NSURL_QUERY] wanted_le [of n "nc_fragment c" parts NSURL_FRAGMENT] by linarith
qed

lemma finish_url_ok:
  assumes "components_set n c" and "n \<le> 2 ^ 33"
  shows "finish_url h c =
    (if \<not> malloc_ok h (NSURL_STRING + length (url_text c NSURL_WITH_FRAGMENT) + 1) then Some (Inl NSERROR_NOMEM)
     else Some (Inr \<lparr>url_components = c, url_count = 1, url_hash = nsurl__calc_hash c,
       url_length = length (url_text c NSURL_WITH_FRAGMENT), url_string = url_text c NSURL_WITH_FRAGMENT\<rparr>))"
proof -
  have "NSURL_STRING + length (url_text c NSURL_WITH_FRAGMENT) + 1 < SIZE_MODULUS"
    using url_text_le [OF assms(1), of NSURL_WITH_FRAGMENT] assms(2) by (simp add: max_def split: if_splits)
  moreover obtain t where "nc_scheme c = Str t" using assms(1) by (auto simp: components_set_def)
  then have "url_text c NSURL_WITH_FRAGMENT \<noteq> []" by (auto simp: url_text_def url_pieces_def Let_def wanted_def)
  ultimately show ?thesis by (simp add: finish_url_def string_text)
qed

lemma validate_url_ok:
  assumes "validate_url h ok c = Some (Inr url)"
  shows "ok \<and> finish_url h c = Some (Inr url) \<and> (needs_host c \<longrightarrow> (\<exists>host. nc_host c = Str host \<and> nsurl__check_host_valid host))"
  using assms by (auto simp: validate_url_def bind_eq_Some_conv split: if_splits component.splits)

lemma create_url_ok:
  assumes "nsurl_create ne s = Some (Inr url)" and "int (length s) \<le> INT32_MAX"
  shows "nsurl_ok url \<and> url_count url = 1 \<and>
    (needs_host (url_components url) \<longrightarrow>
      (\<exists>host. nc_host (url_components url) = Str host \<and> nsurl__check_host_valid host))"
proof -
  let ?m = "nsurl__get_string_markers s False"
  let ?size = "size_wrap (nsurl__get_longest_section ?m * 3 + 1)"
  have size: "max 4 ?size \<le> 2 ^ 33" using longest_section(1) [OF markers_ordered [of s False]] assms(2) by simp
  let ?r = "create_sections ne s ?m [URL_SCHEME, URL_CREDENTIALS, URL_HOST, URL_PATH, URL_QUERY, URL_FRAGMENT] True
        (no_components (m_scheme_type ?m)) (replicate ?size (heap_junk (ne_heap ne)))"
  have "malloc_ok (ne_heap ne) ?size" using assms(1) unfolding nsurl_create_def Let_def by (rule contrapos_pp) simp
  then obtain ok c where r: "?r = Some (ok, c)" and g: "validate_url (ne_heap ne) ok c = Some (Inr url)"
    using assms(1) unfolding nsurl_create_def Let_def by (cases ?r) auto
  have c: "?r = Some (True, c)" and f: "finish_url (ne_heap ne) c = Some (Inr url)"
    and h: "needs_host c \<longrightarrow>
      (\<exists>host. nc_host c = Str host \<and> nsurl__check_host_valid host)"
    using validate_url_ok [OF g] r by auto
  have set: "components_set (max 4 ?size) c" using create_sections_set [OF c] by simp
  from f have "url_components url = c" "url_count url = 1" "url_hash url = nsurl__calc_hash c"
    "url_string url = url_text c NSURL_WITH_FRAGMENT" "url_length url = length (url_string url)"
    unfolding finish_url_ok [OF set size] by (auto split: if_splits)
  moreover have "nsurl__components_destroy c = Some ()" "nc_scheme c \<noteq> Null"
    using components_set_destroy [OF set] by simp_all
  ultimately show ?thesis using h by (simp add: nsurl_ok_def)
qed

section \<open>Properties\<close>

text \<open>C16: The string of a URL is its components with the punctuation between them, and is measured before it is written. For every
  choice of parts, the string that is built fills its allocation exactly, NUL included, behind the padding that was asked for; when no part is
  there the URL is refused, and without memory nothing is built.\<close>

theorem nsurl_string_exact:
  assumes "pre + length (url_text c parts) + 1 < SIZE_MODULUS"
  shows "nsurl__components_to_string h c parts pre =
    (let t = url_text c parts in
     if t = [] then Some (Inl NSERROR_BAD_URL)
     else if \<not> malloc_ok h (pre + length t + 1) then Some (Inl NSERROR_NOMEM)
     else Some (Inr (replicate pre (heap_junk h) @ t @ [0], length t)))"
  using string_text [OF assms] by (simp add: Let_def)

theorem nsurl_string_exact_witness:
  "nsurl__components_to_string heap_all
     \<lparr>nc_scheme = Str [0x68, 0x74, 0x74, 0x70], nc_username = Str [0x75], nc_password = Null, nc_host = Str [0x68], nc_port = Null,
      nc_path = Str [slash], nc_query = Str [0x71], nc_fragment = Null, nc_scheme_type = NSURL_SCHEME_HTTP\<rparr> NSURL_WITH_FRAGMENT 1 =
   Some (Inr ([0, 0x68, 0x74, 0x74, 0x70, colon, slash, slash, 0x75, atsign, 0x68, slash, quest, 0x71, 0], 13))"
proof -
  let ?c = "\<lparr>nc_scheme = Str [0x68, 0x74, 0x74, 0x70], nc_username = Str [0x75], nc_password = Null, nc_host = Str [0x68], nc_port = Null,
      nc_path = Str [slash], nc_query = Str [0x71], nc_fragment = Null, nc_scheme_type = NSURL_SCHEME_HTTP\<rparr>"
  have "url_text ?c NSURL_WITH_FRAGMENT = [0x68, 0x74, 0x74, 0x70, colon, slash, slash, 0x75, atsign, 0x68, slash, quest, 0x71]"
    by (simp add: url_text_def url_pieces_def Let_def wanted_def opt_text_def)
  then show ?thesis using nsurl_string_exact [of 1 ?c NSURL_WITH_FRAGMENT heap_all] by (simp add: Let_def malloc_ok_def heap_all_def)
qed

end
