(* ===== verification/Nsurl_Ops.thy ===== *)
theory Nsurl_Ops
  imports Nsurl
begin

text \<open>
  The operations on URL objects of \<^verbatim>\<open>netsurf/utils/nsurl/nsurl.c\<close>: comparing, reading, and making a URL from another one by
  changing its fragment, query, scheme or path.

  A new object has room for its string and a NUL; copying a component takes a reference to it, which keeps its text. Lengths that the
  code keeps in variables of type int are integers, converted from \<open>size_t\<close> as the target does it; signed overflow, and a memcpy of
  a negative length, are \<open>None\<close>.
\<close>

section \<open>References and comparison\<close>

definition nsurl_ref :: "nsurl \<Rightarrow> nsurl option" where
  "nsurl_ref url = (if url_count url < INT32_MAX then Some (url\<lparr>url_count := url_count url + 1\<rparr>) else None)"

text \<open>The URL that is left, if any.\<close>

definition nsurl_unref :: "nsurl \<Rightarrow> nsurl option option" where
  "nsurl_unref url =
     (if \<not> 0 < url_count url then None
      else if 0 < url_count url - 1 then Some (Some (url\<lparr>url_count := url_count url - 1\<rparr>))
      else do { nsurl__components_destroy (url_components url); Some None })"

definition nsurl__component_compare :: "component \<Rightarrow> component \<Rightarrow> bool \<Rightarrow> bool" where
  "nsurl__component_compare c1 c2 match =
     (case (c1, c2) of
        (Str t1, Str t2) \<Rightarrow> t1 = t2
      | (Str _, _) \<Rightarrow> False
      | (_, Str _) \<Rightarrow> False
      | _ \<Rightarrow> match)"

fun component_of :: "nsurl_component \<Rightarrow> nsurl_components \<Rightarrow> component" where
  "component_of NSURL_SCHEME c = nc_scheme c"
| "component_of NSURL_USERNAME c = nc_username c"
| "component_of NSURL_PASSWORD c = nc_password c"
| "component_of NSURL_HOST c = nc_host c"
| "component_of NSURL_PORT c = nc_port c"
| "component_of NSURL_PATH c = nc_path c"
| "component_of NSURL_QUERY c = nc_query c"
| "component_of NSURL_FRAGMENT c = nc_fragment c"

fun compare_parts :: "nsurl_components \<Rightarrow> nsurl_components \<Rightarrow> nsurl_component set \<Rightarrow> nsurl_component list \<Rightarrow> bool" where
  "compare_parts c1 c2 parts [] = True"
| "compare_parts c1 c2 parts (part # rest) =
     (if part \<in> parts \<and> \<not> nsurl__component_compare (component_of part c1) (component_of part c2) True then False
      else compare_parts c1 c2 parts rest)"

definition nsurl_compare :: "nsurl \<Rightarrow> nsurl \<Rightarrow> nsurl_component set \<Rightarrow> bool" where
  "nsurl_compare url1 url2 parts =
     compare_parts (url_components url1) (url_components url2) parts
       [NSURL_PATH, NSURL_HOST, NSURL_QUERY, NSURL_SCHEME, NSURL_USERNAME, NSURL_PASSWORD, NSURL_PORT, NSURL_FRAGMENT]"

section \<open>Reading\<close>

definition nsurl_get :: "heap \<Rightarrow> nsurl \<Rightarrow> nsurl_component set \<Rightarrow> (nserror + bytes) option" where
  "nsurl_get h url parts = do {
     r \<leftarrow> nsurl__components_to_string h (url_components url) parts 0;
     case r of Inl e \<Rightarrow> Some (Inl e) | Inr (mem, len) \<Rightarrow> Some (Inr (take len mem))
   }"

definition nsurl_get_component :: "nsurl \<Rightarrow> nsurl_component \<Rightarrow> bytes option" where
  "nsurl_get_component url part = (case component_of part (url_components url) of Str t \<Rightarrow> Some t | _ \<Rightarrow> None)"

text \<open>The part may also be the credentials, for which the name of the user is enough; any other set fails an assertion.\<close>

definition nsurl_has_component :: "nsurl \<Rightarrow> nsurl_component set \<Rightarrow> bool option" where
  "nsurl_has_component url part =
     (let has = (\<lambda>p. Some (component_of p (url_components url) \<noteq> Null)) in
      if part = {NSURL_SCHEME} then has NSURL_SCHEME
      else if part = NSURL_CREDENTIALS \<or> part = {NSURL_USERNAME} then has NSURL_USERNAME
      else if part = {NSURL_PASSWORD} then has NSURL_PASSWORD
      else if part = {NSURL_HOST} then has NSURL_HOST
      else if part = {NSURL_PORT} then has NSURL_PORT
      else if part = {NSURL_PATH} then has NSURL_PATH
      else if part = {NSURL_QUERY} then has NSURL_QUERY
      else if part = {NSURL_FRAGMENT} then has NSURL_FRAGMENT
      else None)"

definition nsurl_access_log :: "nsurl \<Rightarrow> bytes" where
  "nsurl_access_log url =
     (if nc_scheme_type (url_components url) = NSURL_SCHEME_DATA
      then [0x5B, 0x64, 0x61, 0x74, 0x61, 0x20, 0x75, 0x72, 0x6C, 0x5D] else url_string url)"

text \<open>The string with the host in Unicode, put together from three parts.\<close>

definition utf8_host :: "nsurl_env \<Rightarrow> bytes \<Rightarrow> (nserror + bytes) option" where
  "utf8_host ne host = do {
     r \<leftarrow> idna_decode (ne_unicode ne) (ne_heap ne) (host @ [0]) (length host);
     case r of
       Inr (idna_host, idna_host_len) \<Rightarrow> do { t \<leftarrow> idna_host; t \<leftarrow> mem_read 0 idna_host_len (t @ [0]); Some (Inr t) }
     | Inl _ \<Rightarrow> Some (if malloc_ok (ne_heap ne) (length host + 1) then Inr host else Inl NSERROR_NOMEM)
   }"

definition nsurl_get_utf8 :: "nsurl_env \<Rightarrow> nsurl \<Rightarrow> (nserror + bytes) option" where
  "nsurl_get_utf8 ne url =
     (case nc_host (url_components url) of
        Str host \<Rightarrow> do {
          r \<leftarrow> utf8_host ne host;
          case r of
            Inl e \<Rightarrow> Some (Inl e)
          | Inr idna_host \<Rightarrow> do {
              r \<leftarrow> nsurl_get (ne_heap ne) url (insert NSURL_SCHEME NSURL_CREDENTIALS);
              case r of
                Inl e \<Rightarrow> Some (Inl e)
              | Inr scheme \<Rightarrow> do {
                  r \<leftarrow> nsurl_get (ne_heap ne) url {NSURL_PORT, NSURL_PATH, NSURL_QUERY, NSURL_FRAGMENT};
                  case r of
                    Inl e \<Rightarrow> Some (Inl e)
                  | Inr path \<Rightarrow>
                      if malloc_ok (ne_heap ne) (size_wrap (length scheme + length idna_host + length path + 1))
                      then Some (Inr (scheme @ idna_host @ path)) else Some (Inl NSERROR_NOMEM)
                }
            }
        }
      | _ \<Rightarrow> nsurl_get (ne_heap ne) url NSURL_WITH_FRAGMENT)"

text \<open>The leaf of the path: what follows its last slash.\<close>

fun leaf_start :: "bytes \<Rightarrow> nat \<Rightarrow> nat" where
  "leaf_start path 0 = 0"
| "leaf_start path (Suc n) = (if n \<noteq> 0 \<and> ch path n \<noteq> slash then leaf_start path n else n)"

definition nsurl_access_leaf :: "nsurl \<Rightarrow> bytes" where
  "nsurl_access_leaf url =
     (case nc_path (url_components url) of
        Str path \<Rightarrow>
          (if length path = 0 then []
           else if length path = 1 \<and> ch path 0 = slash then [slash]
           else (let leaf = leaf_start path (length path) in drop (if ch path leaf = slash then leaf + 1 else leaf) path))
      | _ \<Rightarrow> [])"

section \<open>Making a URL from another\<close>

definition new_url :: "nsurl_components \<Rightarrow> nat \<Rightarrow> bytes \<Rightarrow> nsurl" where
  "new_url c len mem =
     \<lparr>url_components = c, url_count = 1, url_hash = nsurl__calc_hash c, url_length = len, url_string = take len mem\<rparr>"

definition nsurl_defragment :: "heap \<Rightarrow> nsurl \<Rightarrow> (nserror + nsurl) option" where
  "nsurl_defragment h url =
     (case nc_fragment (url_components url) of
        Str fragment \<Rightarrow>
          (let len = size_sub (url_length url) (1 + length fragment) in
           if \<not> malloc_ok h (size_wrap (NSURL_STRING + len + 1)) then Some (Inl NSERROR_NOMEM)
           else do {
             t \<leftarrow> mem_read 0 len (url_string url @ [0]);
             mem \<leftarrow> mem_write 0 t (replicate (size_wrap (len + 1)) (heap_junk h));
             mem \<leftarrow> mem_write len [0] mem;
             Some (Inr (new_url ((url_components url)\<lparr>nc_fragment := Null\<rparr>) len mem))
           })
      | _ \<Rightarrow> do { url \<leftarrow> nsurl_ref url; Some (Inr url) })"

text \<open>\<open>size_t\<close> to int, an int less a \<open>size_t\<close>, int to \<open>size_t\<close>, and the sum of two ints.\<close>

definition to_int :: "nat \<Rightarrow> int" where
  "to_int n = (let m = int n mod 2 ^ 32 in if m < 2 ^ 31 then m else m - 2 ^ 32)"

definition int_less_size :: "int \<Rightarrow> nat \<Rightarrow> int" where
  "int_less_size i n = to_int (nat ((i - int n) mod int SIZE_MODULUS))"

definition as_size :: "int \<Rightarrow> nat" where
  "as_size i = nat (i mod int SIZE_MODULUS)"

definition int_add :: "int \<Rightarrow> int \<Rightarrow> int option" where
  "int_add i j = (if INT32_MIN \<le> i + j \<and> i + j \<le> INT32_MAX then Some (i + j) else None)"

definition nsurl_refragment :: "heap \<Rightarrow> nsurl \<Rightarrow> bytes \<Rightarrow> (nserror + nsurl) option" where
  "nsurl_refragment h url frag = do {
     let base_len = to_int (url_length url);
     let base_len = (case nc_fragment (url_components url) of Str f \<Rightarrow> int_less_size base_len (1 + length f) | _ \<Rightarrow> base_len);
     let frag_len = to_int (length frag);
     len \<leftarrow> int_add base_len 1;
     len \<leftarrow> int_add len frag_len;
     let len = as_size len;
     if \<not> malloc_ok h (size_wrap (NSURL_STRING + len + 1)) then Some (Inl NSERROR_NOMEM)
     else do {
       t \<leftarrow> mem_read 0 (as_size base_len) (url_string url @ [0]);
       mem \<leftarrow> mem_write 0 t (replicate (size_wrap (len + 1)) (heap_junk h));
       f \<leftarrow> mem_read 0 (as_size frag_len) (frag @ [0]);
       mem \<leftarrow> mem_write (length t) (hash # f @ [0]) mem;
       Some (Inr (new_url ((url_components url)\<lparr>nc_fragment := Str frag\<rparr>) len mem))
     }
   }"

text \<open>A fragment that is kept: the length before it, the new length with it, and its text.\<close>

definition keep_fragment :: "component \<Rightarrow> int \<Rightarrow> nat \<Rightarrow> (int \<times> nat \<times> bytes) option" where
  "keep_fragment c base_len len =
     (case c of
        Str f \<Rightarrow> do {
          let frag_len = to_int (length f);
          n \<leftarrow> int_add 1 frag_len;
          base_len \<leftarrow> int_add base_len (- n);
          t \<leftarrow> mem_read 0 (as_size frag_len) (f @ [0]);
          Some (base_len, size_wrap (len + as_size n), hash # t)
        }
      | _ \<Rightarrow> Some (base_len, len, []))"

definition nsurl_replace_query :: "nsurl_env \<Rightarrow> nsurl \<Rightarrow> bytes \<Rightarrow> (nserror + nsurl) option" where
  "nsurl_replace_query ne url query = do {
     let h = ne_heap ne;
     let query_len = to_int (length query);
     q \<leftarrow> mem_read 0 (if 0 < query_len then as_size query_len else 0) (query @ [0]);
     if 0 < query_len \<and> \<not> ne_intern ne q then Some (Inl NSERROR_NOMEM)
     else do {
       let len = (if 0 < query_len then size_wrap (as_size query_len + 1) else as_size query_len);
       let base_len = to_int (url_length url);
       let base_len = (case nc_query (url_components url) of Str old \<Rightarrow> int_less_size base_len (1 + length old) | _ \<Rightarrow> base_len);
       (base_len, len, tail) \<leftarrow> keep_fragment (nc_fragment (url_components url)) base_len len;
       let len = size_wrap (len + as_size base_len);
       if \<not> malloc_ok h (size_wrap (NSURL_STRING + len + 1)) then Some (Inl NSERROR_NOMEM)
       else do {
         t \<leftarrow> mem_read 0 (as_size base_len) (url_string url @ [0]);
         mem \<leftarrow> mem_write 0 (t @ (if 0 < query_len then quest # q else []) @ tail @ [0]) (replicate (size_wrap (len + 1)) (heap_junk h));
         Some (Inr (new_url ((url_components url)\<lparr>nc_query := (if 0 < query_len then Str q else Null)\<rparr>) len mem))
       }
     }
   }"

definition replaced_scheme_type :: "bytes \<Rightarrow> nsurl_scheme_type" where
  "replaced_scheme_type scheme =
     (let l = map lwc__dolower scheme in
      if l = [0x68, 0x74, 0x74, 0x70] then NSURL_SCHEME_HTTP
      else if l = [0x68, 0x74, 0x74, 0x70, 0x73] then NSURL_SCHEME_HTTPS
      else if l = [0x66, 0x69, 0x6C, 0x65] then NSURL_SCHEME_FILE
      else if l = [0x66, 0x74, 0x70] then NSURL_SCHEME_FTP
      else if l = [0x6D, 0x61, 0x69, 0x6C, 0x74, 0x6F] then NSURL_SCHEME_MAILTO
      else NSURL_SCHEME_OTHER)"

definition nsurl_replace_scheme :: "heap \<Rightarrow> nsurl \<Rightarrow> bytes \<Rightarrow> (nserror + nsurl) option" where
  "nsurl_replace_scheme h url scheme = do {
     let scheme_len = to_int (length scheme);
     let base_len = to_int (url_length url);
     let base_len = (case nc_scheme (url_components url) of Str old \<Rightarrow> int_less_size base_len (length old) | _ \<Rightarrow> base_len);
     len \<leftarrow> int_add base_len scheme_len;
     let len = as_size len;
     if \<not> malloc_ok h (size_wrap (NSURL_STRING + len + 1)) then Some (Inl NSERROR_NOMEM)
     else do {
       new \<leftarrow> mem_read 0 (as_size scheme_len) (scheme @ [0]);
       mem \<leftarrow> mem_write 0 new (replicate (size_wrap (len + 1)) (heap_junk h));
       t \<leftarrow> mem_read (size_sub (url_length url) (as_size base_len)) (as_size base_len) (url_string url @ [0]);
       mem \<leftarrow> mem_write (as_size scheme_len) t mem;
       mem \<leftarrow> mem_write len [0] mem;
       Some (Inr (new_url ((url_components url)\<lparr>nc_scheme := Str scheme, nc_scheme_type := replaced_scheme_type scheme\<rparr>) len mem))
     }
   }"

text \<open>The length of the parent's path.\<close>

fun back_to_slash :: "bytes \<Rightarrow> nat \<Rightarrow> nat" where
  "back_to_slash path 0 = 0"
| "back_to_slash path (Suc n) = (if ch path n \<noteq> slash then back_to_slash path n else Suc n)"

definition parent_path_length :: "bytes \<Rightarrow> nat" where
  "parent_path_length path =
     (let n = length path in
      if 1 < n then back_to_slash path (if ch path (n - 1) = slash then n - 1 else n) else n)"

text \<open>The length up to the end of the path, as the code computes it: the question mark before a query is not taken off.\<close>

definition length_to_path :: "nsurl \<Rightarrow> nat" where
  "length_to_path url =
     (let c = url_components url;
          len = (case nc_query c of Str q \<Rightarrow> size_sub (url_length url) (length q) | _ \<Rightarrow> url_length url)
      in case nc_fragment c of Str f \<Rightarrow> size_sub (size_sub len 1) (length f) | _ \<Rightarrow> len)"

definition nsurl_parent :: "nsurl_env \<Rightarrow> nsurl \<Rightarrow> (nserror + nsurl) option" where
  "nsurl_parent ne url =
     (let h = ne_heap ne;
          c = url_components url;
          path = (case nc_path c of Str p \<Rightarrow> p | _ \<Rightarrow> []);
          old_path_len = length path;
          new_path_len = (if old_path_len = 0 then 0 else parent_path_length path);
          len = size_sub (length_to_path url) (old_path_len - new_path_len) in
      if \<not> malloc_ok h (size_wrap (NSURL_STRING + len + 1)) then Some (Inl NSERROR_NOMEM)
      else if old_path_len \<noteq> 0 \<and> old_path_len \<noteq> new_path_len \<and> \<not> ne_intern ne (take new_path_len path) then Some (Inl NSERROR_NOMEM)
      else do {
        t \<leftarrow> mem_read 0 len (url_string url @ [0]);
        mem \<leftarrow> mem_write 0 (t @ [0]) (replicate (size_wrap (len + 1)) (heap_junk h));
        Some (Inr (new_url (c\<lparr>nc_path := (if old_path_len = 0 then Null else Str (take new_path_len path)),
          nc_query := Null, nc_fragment := Null\<rparr>) len mem))
      })"

section \<open>A name for a file\<close>

text \<open>The last slash with something after it, from \<open>pos\<close> back.\<close>

fun seek_slash :: "bytes \<Rightarrow> nat \<Rightarrow> nat" where
  "seek_slash data 0 = 0"
| "seek_slash data (Suc n) = (if ch data (Suc n) = slash \<and> Suc n < length data - 1 then Suc n else seek_slash data n)"

definition has_prefix_nocase :: "string \<Rightarrow> nat \<Rightarrow> bytes \<Rightarrow> bool" where
  "has_prefix_nocase lit n data \<longleftrightarrow> map ascii_to_lower (take n data) = take n (map (of_nat \<circ> of_char) lit)"

text \<open>The search goes one directory up, once, when the leaf is an index; of its name only the first six characters are compared.\<close>

definition nice_start :: "bytes \<Rightarrow> nat" where
  "nice_start data =
     (let pos = seek_slash data (length data - 1);
          pos = (if pos \<noteq> 0 \<and> (has_prefix_nocase ''/default.'' 9 (drop pos data) \<or> has_prefix_nocase ''/index.'' 6 (drop pos data))
                 then seek_slash data (pos - 1) else pos)
      in if ch data pos = slash then pos + 1 else pos)"

definition nice_name :: "bytes \<Rightarrow> bytes" where
  "nice_name data =
     (let name = drop (nice_start data) data in
      if has_prefix_nocase ''default.'' 8 name \<or> has_prefix_nocase ''index.'' 6 name then []
      else takeWhile (\<lambda>c. c \<noteq> 0 \<and> c \<noteq> slash) name)"

definition strip_extension :: "bytes \<Rightarrow> bytes" where
  "strip_extension name =
     (let stem = takeWhile (\<lambda>c. c \<noteq> dot) name in if stem = [] then name else stem)"

definition nsurl_nice :: "heap \<Rightarrow> nsurl \<Rightarrow> bool \<Rightarrow> (nserror + bytes) option" where
  "nsurl_nice h url remove_extensions =
     (let path = (case nc_path (url_components url) of Str p \<Rightarrow> p | _ \<Rightarrow> []);
          name = (if path \<noteq> [] \<and> path \<noteq> [slash] then nice_name path else []) in
      if name \<noteq> [] then
        (if \<not> malloc_ok h (size_wrap (length name + 1)) then Some (Inl NSERROR_NOMEM)
         else Some (Inr (if remove_extensions then strip_extension name else name)))
      else case nc_host (url_components url) of
          Str host \<Rightarrow>
            (let t = takeWhile (\<lambda>c. c \<noteq> 0) host in
             if \<not> malloc_ok h (size_wrap (length t + 1)) then None
             else Some (Inr (map (\<lambda>c. if c = dot then 0x5F else c) t)))
        | _ \<Rightarrow> Some (Inl NSERROR_NOT_FOUND))"

section \<open>The text of a URL and its tail\<close>

lemma wanted_simps [simp]: "wanted parts part (Str t) = (if part \<in> parts then Some t else None)" "wanted parts part Null = None"
  "wanted parts part Unset = None"
  by (simp_all add: wanted_def)

lemma opt_text_simps [simp]: "opt_text None = []" "opt_text (Some t) = t"
  by (simp_all add: opt_text_def)

definition tail_text :: "u8 \<Rightarrow> component \<Rightarrow> bytes" where
  "tail_text mark c = (case c of Str t \<Rightarrow> mark # t | _ \<Rightarrow> [])"

definition url_head :: "nsurl_components \<Rightarrow> bytes" where
  "url_head c = url_text (c\<lparr>nc_query := Null, nc_fragment := Null\<rparr>) NSURL_WITH_FRAGMENT"

lemma url_text_tail:
  assumes "nc_scheme c = Str t"
  shows "url_text c NSURL_WITH_FRAGMENT = url_head c @ tail_text quest (nc_query c) @ tail_text hash (nc_fragment c)"
  using assms by (cases "nc_query c"; cases "nc_fragment c") (simp_all add: url_text_def url_head_def url_pieces_def tail_text_def Let_def)

lemma url_head_update [simp]: "url_head (c\<lparr>nc_query := q\<rparr>) = url_head c" "url_head (c\<lparr>nc_fragment := f\<rparr>) = url_head c"
  by (simp_all add: url_head_def)

section \<open>Edits of the string are edits of the components\<close>

text \<open>The URL of given components.\<close>

definition url_of :: "nsurl_components \<Rightarrow> nsurl" where
  "url_of c = \<lparr>url_components = c, url_count = 1, url_hash = nsurl__calc_hash c,
     url_length = length (url_text c NSURL_WITH_FRAGMENT), url_string = url_text c NSURL_WITH_FRAGMENT\<rparr>"

definition made :: "heap \<Rightarrow> nsurl_components \<Rightarrow> nserror + nsurl" where
  "made h c = (if malloc_ok h (NSURL_STRING + length (url_text c NSURL_WITH_FRAGMENT) + 1) then Inr (url_of c) else Inl NSERROR_NOMEM)"

lemma new_url_of: "t = url_text c NSURL_WITH_FRAGMENT \<Longrightarrow> n = length t \<Longrightarrow> new_url c n (t @ rest) = url_of c"
  by (simp add: new_url_def url_of_def)

lemma to_int_id [simp]: "int n \<le> INT32_MAX \<Longrightarrow> to_int n = int n"
  by (simp add: to_int_def Let_def)

lemma as_size_id [simp]: "n < SIZE_MODULUS \<Longrightarrow> as_size (int n) = n"
  by (simp add: as_size_def)

lemma int_less_size_id [simp]: "n \<le> m \<Longrightarrow> int m \<le> INT32_MAX \<Longrightarrow> int_less_size (int m) n = int (m - n)"
  by (simp add: int_less_size_def nat_diff_distrib flip: of_nat_diff)

text \<open>The length that is left when a tail is taken off.\<close>

lemma int_without_tail:
  assumes "m = n + length (tail_text mark c)" and "int m \<le> INT32_MAX"
  shows "(case c of Str f \<Rightarrow> int_less_size (to_int m) (1 + length f) | _ \<Rightarrow> to_int m) = int n"
  using assms int_less_size_id [of "1 + length (case c of Str f \<Rightarrow> f | _ \<Rightarrow> [])" m] by (cases c) (auto simp: tail_text_def)

lemma int_add_id [simp]: "int (m + n) \<le> INT32_MAX \<Longrightarrow> int_add (int m) (int n) = Some (int (m + n))"
  by (simp add: int_add_def)

lemma nsurl_okE:
  assumes "nsurl_ok url"
  obtains t where "nc_scheme (url_components url) = Str t" "url_length url = length (url_string url)"
    "url_string url = url_head (url_components url) @ tail_text quest (nc_query (url_components url)) @ tail_text hash (nc_fragment (url_components url))"
proof -
  obtain t where t: "nc_scheme (url_components url) = Str t"
    using assms by (cases "nc_scheme (url_components url)") (auto simp: nsurl_ok_def nsurl__components_destroy_def)
  show thesis using that [OF t] url_text_tail [OF t] assms by (simp add: nsurl_ok_def)
qed

lemma write_fresh: "length t \<le> n \<Longrightarrow> mem_write 0 t (replicate n x) = Some (t @ replicate (n - length t) x)"
  by (simp add: mem_write_def)

lemma write_next: "n = length t \<Longrightarrow> length u \<le> length rest \<Longrightarrow> mem_write n u (t @ rest) = Some (t @ u @ drop (length u) rest)"
  by (simp add: mem_write_def)

lemma read_first: "n = length t \<Longrightarrow> mem_read 0 n (t @ rest) = Some t"
  by (simp add: mem_read_def)

lemma refragment_made:
  assumes "nsurl_ok url" and "int (length (url_string url) + length frag) + 1 \<le> INT32_MAX"
  shows "nsurl_refragment h url frag = Some (made h ((url_components url)\<lparr>nc_fragment := Str frag\<rparr>))"
  using assms(1)
proof (rule nsurl_okE)
  let ?c = "url_components url"
  define b where "b = url_head ?c @ tail_text quest (nc_query ?c)"
  fix t assume t: "nc_scheme ?c = Str t" and len: "url_length url = length (url_string url)"
    and "url_string url = url_head ?c @ tail_text quest (nc_query ?c) @ tail_text hash (nc_fragment ?c)"
  then have url: "url_string url = b @ tail_text hash (nc_fragment ?c)" by (simp add: b_def)
  have new: "url_text (?c\<lparr>nc_fragment := Str frag\<rparr>) NSURL_WITH_FRAGMENT = b @ hash # frag"
    using url_text_tail [of "?c\<lparr>nc_fragment := Str frag\<rparr>"] t by (simp add: b_def tail_text_def)
  have small: "int (length b + 1 + length frag) \<le> INT32_MAX" using assms(2) url by simp
  have base: "(case nc_fragment ?c of Str f \<Rightarrow> int_less_size (to_int (url_length url)) (1 + length f) | _ \<Rightarrow> to_int (url_length url)) = int (length b)"
    using url len assms(2) by (intro int_without_tail [where mark = hash]) simp_all
  have sum: "int_add (int (length b)) 1 = Some (int (length b + 1))" "int_add (int (length b + 1)) (int (length frag)) = Some (int (length b + 1 + length frag))"
    using small by (simp_all add: int_add_def)
  have frag: "to_int (length frag) = int (length frag)" "as_size (int (length frag)) = length frag"
    and size: "as_size (int (length b)) = length b" "size_wrap (NSURL_STRING + (length b + 1 + length frag) + 1) = NSURL_STRING + (length b + 1 + length frag) + 1"
      "size_wrap (length b + 1 + length frag + 1) = length b + 1 + length frag + 1" using small by simp_all
  have size2: "as_size (int (length b + 1 + length frag)) = length b + 1 + length frag" using small by (intro as_size_id) linarith
  show ?thesis
    unfolding nsurl_refragment_def Let_def base frag sum Option.bind_lunit size2 size
    by (simp add: made_def new url read_first write_fresh write_next new_url_def url_of_def del: replicate.simps)
qed

lemma defragment_made:
  assumes "nsurl_ok url" and "length (url_string url) + NSURL_STRING < SIZE_MODULUS" and "nc_fragment (url_components url) = Str f"
  shows "nsurl_defragment h url = Some (made h ((url_components url)\<lparr>nc_fragment := Null\<rparr>))"
  using assms(1)
proof (rule nsurl_okE)
  let ?c = "url_components url"
  define b where "b = url_head ?c @ tail_text quest (nc_query ?c)"
  fix t assume t: "nc_scheme ?c = Str t" and len: "url_length url = length (url_string url)"
    and "url_string url = url_head ?c @ tail_text quest (nc_query ?c) @ tail_text hash (nc_fragment ?c)"
  then have url: "url_string url = b @ hash # f" using assms(3) by (simp add: b_def tail_text_def)
  have new: "url_text (?c\<lparr>nc_fragment := Null\<rparr>) NSURL_WITH_FRAGMENT = b"
    using url_text_tail [of "?c\<lparr>nc_fragment := Null\<rparr>"] t by (simp add: b_def tail_text_def)
  have size: "size_sub (url_length url) (1 + length f) = length b" "size_wrap (NSURL_STRING + length b + 1) = NSURL_STRING + length b + 1"
    "size_wrap (length b + 1) = length b + 1" using assms(2) url len by simp_all
  show ?thesis unfolding nsurl_defragment_def assms(3) component.case Let_def size
    by (simp add: made_def new url read_first write_fresh write_next new_url_def url_of_def del: replicate.simps)
qed

lemma keep_fragment_tail:
  assumes "int (m + n + length (tail_text hash c)) \<le> INT32_MAX"
  shows "keep_fragment c (int (m + length (tail_text hash c))) n = Some (int m, n + length (tail_text hash c), tail_text hash c)"
proof (cases c)
  case (Str f)
  have t: "to_int (length f) = int (length f)" "int_add 1 (int (length f)) = Some (int (length f + 1))"
    "int_add (int (m + length (tail_text hash c))) (- int (length f + 1)) = Some (int m)"
    "as_size (int (length f)) = length f" using assms Str by (simp_all add: int_add_def tail_text_def)
  have "as_size (int (length f + 1)) = length f + 1" using assms Str by (intro as_size_id) (simp add: tail_text_def)
  then show ?thesis unfolding keep_fragment_def Str component.case Let_def t Option.bind_lunit t(3) [unfolded Str]
    using assms by (simp add: Str tail_text_def mem_read_def)
qed (simp_all add: keep_fragment_def tail_text_def)

lemma replace_query_made:
  assumes "nsurl_ok url" and "int (length (url_string url) + length query) + 1 \<le> INT32_MAX"
  shows "nsurl_replace_query ne url query =
    (if query \<noteq> [] \<and> \<not> ne_intern ne query then Some (Inl NSERROR_NOMEM)
     else Some (made (ne_heap ne) ((url_components url)\<lparr>nc_query := (if query = [] then Null else Str query)\<rparr>)))"
  using assms(1)
proof (rule nsurl_okE)
  let ?c = "url_components url" and ?h = "ne_heap ne"
  let ?new = "?c\<lparr>nc_query := (if query = [] then Null else Str query)\<rparr>"
  define b f q where "b = url_head ?c" and "f = tail_text hash (nc_fragment ?c)" and "q = (if query = [] then [] else quest # query)"
  fix t assume t: "nc_scheme ?c = Str t" and len: "url_length url = length (url_string url)"
    and "url_string url = url_head ?c @ tail_text quest (nc_query ?c) @ tail_text hash (nc_fragment ?c)"
  then have url: "url_string url = b @ tail_text quest (nc_query ?c) @ f" by (simp add: b_def f_def)
  have new: "url_text ?new NSURL_WITH_FRAGMENT = b @ q @ f" using url_text_tail [of ?new] t by (simp add: b_def f_def q_def tail_text_def)
  have small: "int (length b + length f + length query) + 1 \<le> INT32_MAX" using assms(2) url by simp
  have base: "(case nc_query ?c of Str old \<Rightarrow> int_less_size (to_int (url_length url)) (1 + length old) | _ \<Rightarrow> to_int (url_length url)) = int (length b + length f)"
    using url len assms(2) by (intro int_without_tail [where mark = quest]) simp_all
  have query: "to_int (length query) = int (length query)" "as_size (int (length query)) = length query"
    "(0 < int (length query)) = (query \<noteq> [])"
    using small by simp_all
  have len1: "(if query \<noteq> [] then size_wrap (length query + 1) else length query) = length q" using small by (simp add: q_def)
  have tail: "keep_fragment (nc_fragment ?c) (int (length b + length f)) (length q) = Some (int (length b), length q + length f, f)"
    unfolding f_def by (rule keep_fragment_tail) (use small in \<open>simp add: f_def q_def\<close>)
  have size: "as_size (int (length b)) = length b" "size_wrap (length q + length f + length b) = length (b @ q @ f)"
    "size_wrap (NSURL_STRING + length (b @ q @ f) + 1) = NSURL_STRING + length (b @ q @ f) + 1"
    "size_wrap (length (b @ q @ f) + 1) = length (b @ q @ f) + 1"
    using small by (simp_all add: q_def)
  have if_pos: "mem_read 0 (if query \<noteq> [] then length query else 0) (query @ [0]) = Some query" by (simp add: mem_read_def)
  have q: "(if query \<noteq> [] then quest # query else []) = q" by (simp add: q_def)
  show ?thesis
    unfolding nsurl_replace_query_def Let_def query if_pos Option.bind_lunit len1 base tail prod.case size q
    using new by (cases "query = []") (auto simp: made_def url read_first write_fresh new_url_def url_of_def simp del: replicate.simps)
qed

lemma url_text_scheme:
  "url_text (c\<lparr>nc_scheme := Str t\<rparr>) NSURL_WITH_FRAGMENT = t @ url_text (c\<lparr>nc_scheme := Str []\<rparr>) NSURL_WITH_FRAGMENT"
  by (simp add: url_text_def url_pieces_def Let_def)

lemma url_text_scheme_type: "url_text (c\<lparr>nc_scheme_type := k\<rparr>) parts = url_text c parts"
  by (simp add: url_text_def url_pieces_def)

lemma replace_scheme_made:
  assumes "nsurl_ok url" and "int (length (url_string url) + length scheme) \<le> INT32_MAX"
  shows "nsurl_replace_scheme h url scheme =
    Some (made h ((url_components url)\<lparr>nc_scheme := Str scheme, nc_scheme_type := replaced_scheme_type scheme\<rparr>))"
  using assms(1)
proof (rule nsurl_okE)
  let ?c = "url_components url"
  let ?new = "?c\<lparr>nc_scheme := Str scheme, nc_scheme_type := replaced_scheme_type scheme\<rparr>"
  define r where "r = url_text (?c\<lparr>nc_scheme := Str []\<rparr>) NSURL_WITH_FRAGMENT"
  fix t assume t: "nc_scheme ?c = Str t" and len: "url_length url = length (url_string url)"
  have "?c\<lparr>nc_scheme := Str t\<rparr> = ?c" using t by simp
  then have url: "url_string url = t @ r" using url_text_scheme [of t ?c] assms(1) by (simp add: r_def nsurl_ok_def)
  have new: "url_text ?new NSURL_WITH_FRAGMENT = scheme @ r"
    using url_text_scheme [of scheme ?c] by (simp add: r_def url_text_scheme_type)
  have base: "(case nc_scheme ?c of Str old \<Rightarrow> int_less_size (to_int (url_length url)) (length old) | _ \<Rightarrow> to_int (url_length url)) = int (length r)"
    using int_less_size_id [of "length t" "url_length url"] url len t assms(2) by simp
  have sum: "int_add (int (length r)) (int (length scheme)) = Some (int (length r + length scheme))"
    using assms(2) url by (intro int_add_id) simp
  have size: "to_int (length scheme) = int (length scheme)" "as_size (int (length scheme)) = length scheme" "as_size (int (length r)) = length r"
    "size_sub (url_length url) (length r) = length t" using assms(2) url len by simp_all
  have size2: "as_size (int (length r + length scheme)) = length (scheme @ r)"
    "size_wrap (NSURL_STRING + length (scheme @ r) + 1) = NSURL_STRING + length (scheme @ r) + 1"
    "size_wrap (length (scheme @ r) + 1) = length (scheme @ r) + 1"
    using assms(2) url as_size_id [of "length r + length scheme"] by simp_all
  have rest: "mem_read (length t) (length r) (url_string url @ [0]) = Some r" using url by (simp add: mem_read_def)
  show ?thesis
    unfolding nsurl_replace_scheme_def Let_def size base sum Option.bind_lunit size2 rest
    using write_next [of _ "scheme @ r" "[0]"]
    by (simp add: made_def new read_first write_fresh write_next new_url_def url_of_def del: replicate.simps)
qed

section \<open>Comparison\<close>

lemma component_compare: "c1 \<noteq> Unset \<Longrightarrow> c2 \<noteq> Unset \<Longrightarrow> nsurl__component_compare c1 c2 True \<longleftrightarrow> c1 = c2"
  by (cases c1; cases c2) (auto simp: nsurl__component_compare_def)

lemma compare_parts_iff:
  assumes "\<forall>p \<in> set ps. component_of p c1 \<noteq> Unset \<and> component_of p c2 \<noteq> Unset"
  shows "compare_parts c1 c2 parts ps \<longleftrightarrow> (\<forall>p \<in> set ps \<inter> parts. component_of p c1 = component_of p c2)"
  using assms by (induction ps) (auto simp: component_compare)

lemma all_parts: "p \<in> {NSURL_PATH, NSURL_HOST, NSURL_QUERY, NSURL_SCHEME, NSURL_USERNAME, NSURL_PASSWORD, NSURL_PORT, NSURL_FRAGMENT}"
  by (cases p) simp_all

lemma component_of_set: "nsurl__components_destroy c = Some () \<Longrightarrow> component_of p c \<noteq> Unset"
  by (cases p) (auto simp: nsurl__components_destroy_def split: if_splits)

lemma compare_iff:
  assumes "nsurl__components_destroy (url_components url1) = Some ()" and "nsurl__components_destroy (url_components url2) = Some ()"
  shows "nsurl_compare url1 url2 parts \<longleftrightarrow>
    (\<forall>p \<in> parts. component_of p (url_components url1) = component_of p (url_components url2))"
  unfolding nsurl_compare_def using assms all_parts by (subst compare_parts_iff) (auto simp: component_of_set)

text \<open>The text depends on the components alone, and the hash on all but the fragment.\<close>

lemma url_text_cong:
  assumes "\<forall>p. component_of p c1 = component_of p c2"
  shows "url_text c1 parts = url_text c2 parts"
proof -
  have "nc_scheme c1 = nc_scheme c2" "nc_username c1 = nc_username c2" "nc_password c1 = nc_password c2" "nc_host c1 = nc_host c2"
    "nc_port c1 = nc_port c2" "nc_path c1 = nc_path c2" "nc_query c1 = nc_query c2" "nc_fragment c1 = nc_fragment c2"
    using assms [THEN spec, of NSURL_SCHEME] assms [THEN spec, of NSURL_USERNAME] assms [THEN spec, of NSURL_PASSWORD]
      assms [THEN spec, of NSURL_HOST] assms [THEN spec, of NSURL_PORT] assms [THEN spec, of NSURL_PATH]
      assms [THEN spec, of NSURL_QUERY] assms [THEN spec, of NSURL_FRAGMENT] by simp_all
  then show ?thesis by (simp add: url_text_def url_pieces_def)
qed

lemma hash_cong:
  assumes "\<forall>p \<in> NSURL_COMPLETE. component_of p c1 = component_of p c2"
  shows "nsurl__calc_hash c1 = nsurl__calc_hash c2"
  using assms by (simp add: nsurl__calc_hash_def)

section \<open>The parent of a URL\<close>

lemma back_to_slash: "back_to_slash path n \<le> n" "0 < n \<Longrightarrow> ch path 0 = slash \<Longrightarrow> 0 < back_to_slash path n"
  "back_to_slash path n = 0 \<or> ch path (back_to_slash path n - 1) = slash"
proof -
  show "back_to_slash path n \<le> n" by (induction n) auto
  show "0 < n \<Longrightarrow> ch path 0 = slash \<Longrightarrow> 0 < back_to_slash path n"
  proof (induction n)
    case (Suc n)
    then show ?case by (cases n) auto
  qed simp
  show "back_to_slash path n = 0 \<or> ch path (back_to_slash path n - 1) = slash" by (induction n) auto
qed

lemma parent_path_length: "parent_path_length path \<le> length path"
  "path \<noteq> [] \<Longrightarrow> (ch (take (parent_path_length path) path) 0 = slash) = (ch path 0 = slash)"
proof -
  show le: "parent_path_length path \<le> length path"
    using back_to_slash(1) [of path "length path - 1"] back_to_slash(1) [of path "length path"] by (auto simp: parent_path_length_def Let_def)
  assume "path \<noteq> []"
  show "(ch (take (parent_path_length path) path) 0 = slash) = (ch path 0 = slash)"
  proof (cases "parent_path_length path = 0")
    case True
    then have "ch path 0 \<noteq> slash" using \<open>path \<noteq> []\<close> back_to_slash(2) [of "length path" path] back_to_slash(2) [of "length path - 1" path]
      by (auto simp: parent_path_length_def Let_def split: if_splits)
    then show ?thesis using True by simp
  next
    case False
    then show ?thesis using \<open>path \<noteq> []\<close> by (simp add: ch_def)
  qed
qed

definition before_path :: "nsurl_components \<Rightarrow> bytes" where
  "before_path c = pieces_text (take 10 (url_pieces c NSURL_WITH_FRAGMENT))"

lemma url_head_path: "url_head (c\<lparr>nc_path := Str p\<rparr>) = before_path (c\<lparr>nc_path := Str p\<rparr>) @ p"
  by (simp add: url_head_def before_path_def url_text_def url_pieces_def Let_def)

lemma before_path_cong:
  "(ch p 0 = slash) = (ch q 0 = slash) \<Longrightarrow> before_path (c\<lparr>nc_path := Str p\<rparr>) = before_path (c\<lparr>nc_path := Str q\<rparr>)"
  by (simp add: before_path_def url_pieces_def Let_def)

lemma parent_text:
  assumes "nsurl_ok url" and "nc_path (url_components url) = Str p" and "p \<noteq> []"
    and new: "new = (url_components url)\<lparr>nc_path := Str (take (parent_path_length p) p), nc_query := Null, nc_fragment := Null\<rparr>"
  obtains pre where "url_string url = pre @ p @ tail_text quest (nc_query (url_components url)) @ tail_text hash (nc_fragment (url_components url))"
    "url_text new NSURL_WITH_FRAGMENT = pre @ take (parent_path_length p) p" "url_length url = length (url_string url)"
  using assms(1)
proof (rule nsurl_okE)
  let ?c = "url_components url" and ?p = "take (parent_path_length p) p"
  fix t assume t: "nc_scheme ?c = Str t" and len: "url_length url = length (url_string url)"
    and url: "url_string url = url_head ?c @ tail_text quest (nc_query ?c) @ tail_text hash (nc_fragment ?c)"
  have id: "?c\<lparr>nc_path := Str p\<rparr> = ?c" using assms(2) by simp
  have "url_text new NSURL_WITH_FRAGMENT = url_head (?c\<lparr>nc_path := Str ?p\<rparr>)" by (simp add: new url_head_def)
  also have "\<dots> = before_path ?c @ ?p"
    unfolding url_head_path using before_path_cong [OF parent_path_length(2) [OF assms(3)], of ?c] id by simp
  finally show thesis using that [of "before_path ?c"] url url_head_path [of p ?c] id len by simp
qed

lemma length_to_path:
  assumes "url_length url = n + length (tail_text quest (nc_query (url_components url))) + length (tail_text hash (nc_fragment (url_components url)))"
    and "url_length url < SIZE_MODULUS" and "nc_query (url_components url) \<noteq> Unset"
  shows "length_to_path url = n + (if nc_query (url_components url) = Null then 0 else 1)"
  using assms by (auto simp: length_to_path_def tail_text_def Let_def split: component.splits)

text \<open>The parent of a URL, when there is memory: its string has one character too many when the URL has a query.\<close>

lemma parent_made:
  assumes "nsurl_ok url" and "nc_path (url_components url) = Str p" and "p \<noteq> []" and "length (url_string url) + NSURL_STRING < PTRDIFF_MAX"
    and "\<forall>t. ne_intern ne t" and "\<forall>n. malloc_ok (ne_heap ne) n = (n \<le> PTRDIFF_MAX)"
    and new: "new = (url_components url)\<lparr>nc_path := Str (take (parent_path_length p) p), nc_query := Null, nc_fragment := Null\<rparr>"
  shows "\<exists>x. nsurl_parent ne url = Some (Inr \<lparr>url_components = new, url_count = 1, url_hash = nsurl__calc_hash new,
      url_length = length (url_text new NSURL_WITH_FRAGMENT @ x), url_string = url_text new NSURL_WITH_FRAGMENT @ x\<rparr>) \<and>
    (length x = (if nc_query (url_components url) = Null then 0 else 1))"
proof (rule parent_text [OF assms(1-3) new])
  let ?c = "url_components url" and ?n = "parent_path_length p"
  define k where "k = (if nc_query ?c = Null then 0 else 1 :: nat)"
  fix pre assume url: "url_string url = pre @ p @ tail_text quest (nc_query ?c) @ tail_text hash (nc_fragment ?c)"
    and tx: "url_text new NSURL_WITH_FRAGMENT = pre @ take ?n p" and len: "url_length url = length (url_string url)"
  have n: "?n \<le> length p" by (rule parent_path_length)
  have set: "nc_query ?c \<noteq> Unset" using assms(1) component_of_set [of ?c NSURL_QUERY] by (auto simp: nsurl_ok_def)
  have k: "k \<le> length (tail_text quest (nc_query ?c))" using set by (auto simp: k_def tail_text_def split: component.splits)
  have "length_to_path url = length pre + length p + k"
    using length_to_path [of url "length pre + length p"] url len assms(4) set by (simp add: k_def)
  then have l: "size_sub (length_to_path url) (length p - ?n) = length pre + ?n + k" using n k url assms(4) by simp
  define x where "x = take k (drop (length pre + ?n) (url_string url))"
  have x: "length x = k" and t: "mem_read 0 (length pre + ?n + k) (url_string url @ [0]) = Some (pre @ take ?n p @ x)"
    using n k url by (auto simp: x_def mem_read_def take_add add.commute [of k])
  have size: "size_wrap (NSURL_STRING + (length pre + ?n + k) + 1) = NSURL_STRING + (length pre + ?n + k) + 1"
    "size_wrap (length pre + ?n + k + 1) = length pre + ?n + k + 1" "malloc_ok (ne_heap ne) (NSURL_STRING + (length pre + ?n + k) + 1)"
    using n k url assms(4,6) by simp_all
  have p: "(if length p = 0 then Null else Str (take ?n p)) = Str (take ?n p)" "(if length p = 0 then 0 else ?n) = ?n" using assms(3) by simp_all
  have "nsurl_parent ne url = Some (Inr \<lparr>url_components = new, url_count = 1, url_hash = nsurl__calc_hash new,
      url_length = length (url_text new NSURL_WITH_FRAGMENT @ x), url_string = url_text new NSURL_WITH_FRAGMENT @ x\<rparr>)"
    unfolding nsurl_parent_def Let_def assms(2) component.case p l size new [symmetric]
    using size(3) t x n assms(5) by (simp add: write_fresh new_url_def tx del: replicate.simps)
  then show ?thesis using x by (auto simp: k_def)
qed

section \<open>The string for people\<close>

lemma get_text:
  assumes "length (url_text (url_components url) parts) + 1 < SIZE_MODULUS"
  shows "nsurl_get h url parts =
    (let t = url_text (url_components url) parts in
     Some (if t = [] then Inl NSERROR_BAD_URL else if \<not> malloc_ok h (length t + 1) then Inl NSERROR_NOMEM else Inr t))"
  using assms by (simp add: nsurl_get_def string_text Let_def)

text \<open>A URL with a scheme, a user, a host and a path and nothing else.\<close>

definition user_components :: "bytes \<Rightarrow> bytes \<Rightarrow> bytes \<Rightarrow> component \<Rightarrow> nsurl_scheme_type \<Rightarrow> nsurl_components" where
  "user_components s u h p t = \<lparr>nc_scheme = Str s, nc_username = Str u, nc_password = Null, nc_host = Str h, nc_port = Null,
     nc_path = p, nc_query = Null, nc_fragment = Null, nc_scheme_type = t\<rparr>"

lemma user_text:
  "url_text (user_components s u h (Str (slash # p)) t) (insert NSURL_SCHEME NSURL_CREDENTIALS) = s @ [colon, slash, slash] @ u"
  "url_text (user_components s u h (Str (slash # p)) t) {NSURL_PORT, NSURL_PATH, NSURL_QUERY, NSURL_FRAGMENT} = slash # p"
  "url_text (user_components s u h (Str (slash # p)) t) NSURL_WITH_FRAGMENT = s @ [colon, slash, slash] @ u @ atsign # h @ slash # p"
  "url_text (user_components s u h Null t) (insert NSURL_SCHEME NSURL_CREDENTIALS) = s @ colon # u"
  "url_text (user_components s u h Null t) {NSURL_PORT, NSURL_PATH, NSURL_QUERY, NSURL_FRAGMENT} = []"
  by (simp_all add: user_components_def url_text_def url_pieces_def Let_def)

lemma get_utf8_user:
  assumes "url_components url = user_components s u h (Str (slash # p)) t" and "utf8_host ne h = Some (Inr host)"
    and "\<forall>n. malloc_ok (ne_heap ne) n = (n \<le> PTRDIFF_MAX)" and "length s + length u + length host + length p + 5 \<le> PTRDIFF_MAX"
  shows "nsurl_get_utf8 ne url = Some (Inr (s @ [colon, slash, slash] @ u @ host @ slash # p))"
proof -
  have c: "nc_host (user_components s u h (Str (slash # p)) t) = Str h" by (simp add: user_components_def)
  show ?thesis using assms(2-4) by (simp add: nsurl_get_utf8_def assms(1) c get_text user_text Let_def)
qed

lemma get_utf8_mailto:
  assumes "url_components url = user_components s u h Null t" and "utf8_host ne h = Some (Inr host)"
    and "\<forall>n. malloc_ok (ne_heap ne) n = (n \<le> PTRDIFF_MAX)" and "length s + length u + 2 \<le> PTRDIFF_MAX"
  shows "nsurl_get_utf8 ne url = Some (Inl NSERROR_BAD_URL)"
proof -
  have c: "nc_host (user_components s u h Null t) = Str h" by (simp add: user_components_def)
  show ?thesis using assms(2-4) by (simp add: nsurl_get_utf8_def assms(1) c get_text user_text Let_def)
qed

section \<open>The contract of an edit\<close>

text \<open>An operation that replaces one part of a URL by a text: on well-formed URLs whose strings fit in an int it makes the URL of the
  components that \<open>edit\<close> describes; and an edit keeps the components set and overwrites what the same edit did before.\<close>

locale url_edit =
  fixes operation :: "nsurl_env \<Rightarrow> nsurl \<Rightarrow> bytes \<Rightarrow> (nserror + nsurl) option"
    and edit :: "bytes \<Rightarrow> nsurl_components \<Rightarrow> nsurl_components"
  assumes operation_made: "nsurl_ok url \<Longrightarrow> int (length (url_string url) + length t) + 1 \<le> INT32_MAX \<Longrightarrow> ne_intern ne t \<Longrightarrow>
      operation ne url t = Some (made (ne_heap ne) (edit t (url_components url)))"
    and edit_set: "nsurl__components_destroy c = Some () \<Longrightarrow> nc_scheme c \<noteq> Null \<Longrightarrow>
      nsurl__components_destroy (edit t c) = Some () \<and> nc_scheme (edit t c) \<noteq> Null"
    and edit_length: "nc_scheme c = Str s \<Longrightarrow>
      length (url_text (edit t c) NSURL_WITH_FRAGMENT) \<le> length (url_text c NSURL_WITH_FRAGMENT) + length t + 1"
    and edit_twice: "edit t (edit u c) = edit t c"
begin

lemma edited:
  assumes "nsurl_ok url" and "int (length (url_string url) + length t) + 1 \<le> INT32_MAX" and "ne_intern ne t"
    and "operation ne url t = Some (Inr new)"
  shows "new = url_of (edit t (url_components url))"
  using operation_made [OF assms(1-3)] assms(4) by (simp add: made_def split: if_splits)

lemma keeps_ok:
  assumes "nsurl_ok url" and "int (length (url_string url) + length t) + 1 \<le> INT32_MAX" and "ne_intern ne t"
    and "operation ne url t = Some (Inr new)"
  shows "nsurl_ok new \<and> url_components new = edit t (url_components url) \<and> url_count new = 1"
  using edited [OF assms] edit_set [of "url_components url" t] assms(1) by (simp add: nsurl_ok_def url_of_def)

lemma last_wins:
  assumes "nsurl_ok url" and "int (length (url_string url) + length u + length t) + 2 \<le> INT32_MAX" and "ne_intern ne u" and "ne_intern ne t"
    and "operation ne url u = Some (Inr mid)"
  shows "operation ne mid t = operation ne url t"
proof -
  have u: "int (length (url_string url) + length u) + 1 \<le> INT32_MAX" and t: "int (length (url_string url) + length t) + 1 \<le> INT32_MAX"
    using assms(2) by linarith+
  have mid: "nsurl_ok mid" "url_components mid = edit u (url_components url)" using keeps_ok [OF assms(1) u assms(3,5)] by simp_all
  have "length (url_string mid) \<le> length (url_string url) + length u + 1"
    using assms(1)
  proof (rule nsurl_okE)
    fix s assume "nc_scheme (url_components url) = Str s"
    from edit_length [OF this, of u] show ?thesis using mid assms(1) by (simp add: nsurl_ok_def)
  qed
  then have "int (length (url_string mid) + length t) + 1 \<le> INT32_MAX" using assms(2) by linarith
  then show ?thesis using operation_made [OF mid(1) _ assms(4)] operation_made [OF assms(1) t assms(4)] mid(2) by (simp add: edit_twice)
qed

end

lemma tail_length: "nc_scheme c = Str s \<Longrightarrow> length (url_text (c\<lparr>nc_fragment := Str t\<rparr>) NSURL_WITH_FRAGMENT)
    \<le> length (url_text c NSURL_WITH_FRAGMENT) + length t + 1"
  "nc_scheme c = Str s \<Longrightarrow> length (url_text (c\<lparr>nc_query := (if t = [] then Null else Str t)\<rparr>) NSURL_WITH_FRAGMENT)
    \<le> length (url_text c NSURL_WITH_FRAGMENT) + length t + 1"
  by (simp_all add: url_text_tail tail_text_def)

lemma scheme_length:
  assumes "nc_scheme c = Str s"
  shows "length (url_text (c\<lparr>nc_scheme := Str t, nc_scheme_type := k\<rparr>) NSURL_WITH_FRAGMENT) \<le> length (url_text c NSURL_WITH_FRAGMENT) + length t + 1"
proof -
  have "c\<lparr>nc_scheme := Str s\<rparr> = c" using assms by simp
  then show ?thesis using url_text_scheme [of t c] url_text_scheme [of s c] by (simp add: url_text_scheme_type)
qed

interpretation fragment_edit: url_edit "\<lambda>ne. nsurl_refragment (ne_heap ne)" "\<lambda>t c. c\<lparr>nc_fragment := Str t\<rparr>"
  by unfold_locales (erule tail_length | simp add: refragment_made nsurl__components_destroy_def split: if_split_asm)+

interpretation query_edit: url_edit nsurl_replace_query "\<lambda>t c. c\<lparr>nc_query := (if t = [] then Null else Str t)\<rparr>"
  by unfold_locales (erule tail_length | simp add: replace_query_made nsurl__components_destroy_def split: if_split_asm)+

interpretation scheme_edit: url_edit "\<lambda>ne. nsurl_replace_scheme (ne_heap ne)"
    "\<lambda>t c. c\<lparr>nc_scheme := Str t, nc_scheme_type := replaced_scheme_type t\<rparr>"
  by unfold_locales (erule scheme_length | simp add: replace_scheme_made nsurl__components_destroy_def split: if_split_asm)+

section \<open>Properties\<close>

text \<open>C17: Changing the fragment, the query or the scheme of a well-formed URL edits its string in place of building it anew, and gives
  the URL of the changed components: string, length and hash are those of the components with just that one changed. The edits fail
  only without memory. This is so for URLs whose strings fit in an int.\<close>

theorem nsurl_edits_components:
  assumes "nsurl_ok url" and "int (length (url_string url) + length t) + 1 \<le> INT32_MAX" and "ne_intern ne t"
  shows "nsurl_refragment (ne_heap ne) url t = Some (made (ne_heap ne) ((url_components url)\<lparr>nc_fragment := Str t\<rparr>)) \<and>
    nsurl_replace_query ne url t = Some (made (ne_heap ne) ((url_components url)\<lparr>nc_query := (if t = [] then Null else Str t)\<rparr>)) \<and>
    nsurl_replace_scheme (ne_heap ne) url t =
      Some (made (ne_heap ne) ((url_components url)\<lparr>nc_scheme := Str t, nc_scheme_type := replaced_scheme_type t\<rparr>)) \<and>
    (nc_fragment (url_components url) \<noteq> Null \<longrightarrow>
      nsurl_defragment (ne_heap ne) url = Some (made (ne_heap ne) ((url_components url)\<lparr>nc_fragment := Null\<rparr>)))"
proof -
  have "nc_fragment (url_components url) \<noteq> Unset" using assms(1) component_of_set [of "url_components url" NSURL_FRAGMENT] by (simp add: nsurl_ok_def)
  then have "nsurl_defragment (ne_heap ne) url = Some (made (ne_heap ne) ((url_components url)\<lparr>nc_fragment := Null\<rparr>))"
    if "nc_fragment (url_components url) \<noteq> Null"
    using defragment_made [OF assms(1)] that assms(2) by (cases "nc_fragment (url_components url)") simp_all
  then show ?thesis using refragment_made [OF assms(1,2)] replace_query_made [OF assms(1,2)] replace_scheme_made [OF assms(1)] assms(2,3) by simp
qed

lemma url_of_ok: "nsurl__components_destroy c = Some () \<Longrightarrow> nc_scheme c \<noteq> Null \<Longrightarrow> nsurl_ok (url_of c)"
  by (simp add: nsurl_ok_def url_of_def)

theorem nsurl_edits_components_witness:
  "nsurl_refragment heap_all (url_of (user_components [0x61] [0x75] [0x68] (Str [slash]) NSURL_SCHEME_OTHER)) [0x66] =
    Some (made heap_all ((user_components [0x61] [0x75] [0x68] (Str [slash]) NSURL_SCHEME_OTHER)\<lparr>nc_fragment := Str [0x66]\<rparr>))"
proof -
  let ?c = "user_components [0x61] [0x75] [0x68] (Str [slash]) NSURL_SCHEME_OTHER"
  have "nsurl_ok (url_of ?c)" by (rule url_of_ok) (simp_all add: user_components_def nsurl__components_destroy_def)
  moreover have "int (length (url_string (url_of ?c)) + length [0x66 :: u8]) + 1 \<le> INT32_MAX" by (simp add: url_of_def user_text)
  ultimately show ?thesis using nsurl_edits_components [of "url_of ?c" "[0x66]"
      "\<lparr>ne_unicode = latin, ne_heap = heap_all, ne_intern = (\<lambda>_. True)\<rparr>"] by (simp add: url_of_def)
qed

text \<open>C18: Edits of a URL behave like assignments to its parts. Setting the fragment, the query or the scheme of a well-formed URL gives a
  well-formed URL with a single reference, and setting it again gives, in every case, what setting it
  once in the original URL gives. This is so for URLs whose strings fit in an int, also when there is no memory for the second edit.\<close>

theorem nsurl_edit_last_wins:
  assumes "nsurl_ok url" and "int (length (url_string url) + length u + length t) + 2 \<le> INT32_MAX" and "ne_intern ne u" and "ne_intern ne t"
    and "operation \<in> {nsurl_refragment (ne_heap ne), nsurl_replace_query ne, nsurl_replace_scheme (ne_heap ne)}"
    and "operation url u = Some (Inr mid)"
  shows "nsurl_ok mid \<and> url_count mid = 1 \<and> operation mid t = operation url t"
proof -
  have u: "int (length (url_string url) + length u) + 1 \<le> INT32_MAX" using assms(2) by linarith
  note keep = fragment_edit.keeps_ok [OF assms(1) u assms(3)] query_edit.keeps_ok [OF assms(1) u assms(3)] scheme_edit.keeps_ok [OF assms(1) u assms(3)]
  note last = fragment_edit.last_wins [OF assms(1-4)] query_edit.last_wins [OF assms(1-4)] scheme_edit.last_wins [OF assms(1-4)]
  from assms(5) consider "operation = nsurl_refragment (ne_heap ne)" | "operation = nsurl_replace_query ne" | "operation = nsurl_replace_scheme (ne_heap ne)"
    by blast
  then show ?thesis using assms(6) keep last by cases blast+
qed

theorem nsurl_edit_last_wins_witness:
  "\<exists>mid. nsurl_refragment heap_all (url_of (user_components [0x61] [0x75] [0x68] (Str [slash]) NSURL_SCHEME_OTHER)) [0x66] = Some (Inr mid) \<and>
     nsurl_ok mid \<and> nsurl_refragment heap_all mid [0x67] =
       nsurl_refragment heap_all (url_of (user_components [0x61] [0x75] [0x68] (Str [slash]) NSURL_SCHEME_OTHER)) [0x67]"
proof -
  let ?c = "user_components [0x61] [0x75] [0x68] (Str [slash]) NSURL_SCHEME_OTHER"
  let ?ne = "\<lparr>ne_unicode = latin, ne_heap = heap_all, ne_intern = (\<lambda>_. True)\<rparr>"
  have scheme: "nc_scheme ?c = Str [0x61]" by (simp add: user_components_def)
  have ok: "nsurl_ok (url_of ?c)" by (rule url_of_ok) (simp_all add: user_components_def nsurl__components_destroy_def)
  have len: "int (length (url_string (url_of ?c)) + length [0x66 :: u8] + length [0x67 :: u8]) + 2 \<le> INT32_MAX" by (simp add: url_of_def user_text)
  have "nsurl_refragment heap_all (url_of ?c) [0x66] = Some (made heap_all (?c\<lparr>nc_fragment := Str [0x66]\<rparr>))"
    using refragment_made [OF ok, of "[0x66]" heap_all] by (simp add: url_of_def user_text)
  moreover have "made heap_all (?c\<lparr>nc_fragment := Str [0x66]\<rparr>) = Inr (url_of (?c\<lparr>nc_fragment := Str [0x66]\<rparr>))"
    using tail_length(1) [OF scheme, of "[0x66]"] by (simp add: made_def malloc_ok_def heap_all_def user_text)
  ultimately have mid: "nsurl_refragment heap_all (url_of ?c) [0x66] = Some (Inr (url_of (?c\<lparr>nc_fragment := Str [0x66]\<rparr>)))" by simp
  then show ?thesis using nsurl_edit_last_wins [OF ok len, of ?ne "nsurl_refragment heap_all"] by auto
qed

text \<open>Two URLs that agree in all their parts have the same string; URLs that agree in all parts but the fragment have the same hash.\<close>

theorem nsurl_compare_same:
  assumes "nsurl_ok url1" and "nsurl_ok url2"
  shows "nsurl_compare url1 url2 NSURL_WITH_FRAGMENT \<Longrightarrow> url_string url1 = url_string url2"
    and "nsurl_compare url1 url2 NSURL_COMPLETE \<Longrightarrow> url_hash url1 = url_hash url2"
proof -
  have d: "nsurl__components_destroy (url_components url1) = Some ()" "nsurl__components_destroy (url_components url2) = Some ()"
    using assms by (simp_all add: nsurl_ok_def)
  show "url_string url1 = url_string url2" if "nsurl_compare url1 url2 NSURL_WITH_FRAGMENT"
  proof -
    have "\<forall>p. component_of p (url_components url1) = component_of p (url_components url2)"
    proof
      fix p show "component_of p (url_components url1) = component_of p (url_components url2)"
        using that all_parts [of p] unfolding compare_iff [OF d] by auto
    qed
    then show ?thesis using url_text_cong assms by (simp add: nsurl_ok_def)
  qed
  show "url_hash url1 = url_hash url2" if "nsurl_compare url1 url2 NSURL_COMPLETE"
    using hash_cong [OF that [unfolded compare_iff [OF d]]] assms by (simp add: nsurl_ok_def)
qed

text \<open>C39: The parent of a URL with a query is inconsistent: its components are those of the parent, but its string, and its length, have
  one character more than the text of these components, because the length of the query is taken off without its question mark.\<close>

theorem nsurl_parent_query:
  assumes "nsurl_ok url" and "nc_path (url_components url) = Str p" and "p \<noteq> []" and "nc_query (url_components url) = Str q"
    and "length (url_string url) + NSURL_STRING < PTRDIFF_MAX" and "\<forall>t. ne_intern ne t" and "\<forall>n. malloc_ok (ne_heap ne) n = (n \<le> PTRDIFF_MAX)"
  shows "\<exists>new x. nsurl_parent ne url = Some (Inr new) \<and>
    url_components new = (url_components url)\<lparr>nc_path := Str (take (parent_path_length p) p), nc_query := Null, nc_fragment := Null\<rparr> \<and>
    url_string new = url_text (url_components new) NSURL_WITH_FRAGMENT @ [x] \<and> url_length new = length (url_string new)"
proof -
  let ?new = "(url_components url)\<lparr>nc_path := Str (take (parent_path_length p) p), nc_query := Null, nc_fragment := Null\<rparr>"
  obtain x where x: "nsurl_parent ne url = Some (Inr \<lparr>url_components = ?new, url_count = 1, url_hash = nsurl__calc_hash ?new,
      url_length = length (url_text ?new NSURL_WITH_FRAGMENT @ x), url_string = url_text ?new NSURL_WITH_FRAGMENT @ x\<rparr>)" "length x = 1"
    using parent_made [OF assms(1-3,5-7) refl] assms(4) by auto
  then obtain y where "x = [y]" by (cases x) auto
  then show ?thesis using x(1) by auto
qed

theorem nsurl_parent_query_witness:
  "\<exists>new x. nsurl_parent \<lparr>ne_unicode = latin, ne_heap = heap_all, ne_intern = (\<lambda>_. True)\<rparr>
      (url_of ((user_components [0x61] [0x75] [0x68] (Str [slash, 0x62]) NSURL_SCHEME_OTHER)\<lparr>nc_query := Str [0x71]\<rparr>)) = Some (Inr new) \<and>
    url_string new = url_text (url_components new) NSURL_WITH_FRAGMENT @ [x]"
proof -
  let ?c = "(user_components [0x61] [0x75] [0x68] (Str [slash, 0x62]) NSURL_SCHEME_OTHER)\<lparr>nc_query := Str [0x71]\<rparr>"
  have ok: "nsurl_ok (url_of ?c)" by (rule url_of_ok) (simp_all add: user_components_def nsurl__components_destroy_def)
  have "length (url_string (url_of ?c)) + NSURL_STRING < PTRDIFF_MAX"
    by (simp add: url_of_def url_text_def url_pieces_def user_components_def Let_def)
  then show ?thesis
    using nsurl_parent_query [OF ok, of "[slash, 0x62]" "[0x71]" "\<lparr>ne_unicode = latin, ne_heap = heap_all, ne_intern = (\<lambda>_. True)\<rparr>"]
    by (simp add: url_of_def user_components_def malloc_ok_def heap_all_def) blast
qed

text \<open>The string for people loses the at sign after the user, so that the name of the user runs into the host; and it is refused
  for a URL that has a host but neither port, path, query nor fragment, as every address of a mailbox is.\<close>

theorem nsurl_get_utf8_user:
  assumes "utf8_host ne h = Some (Inr host)" and "\<forall>n. malloc_ok (ne_heap ne) n = (n \<le> PTRDIFF_MAX)"
    and "length s + length u + length host + length p + 5 \<le> PTRDIFF_MAX"
  shows "nsurl_get_utf8 ne (url_of (user_components s u h (Str (slash # p)) t)) = Some (Inr (s @ [colon, slash, slash] @ u @ host @ slash # p)) \<and>
    url_string (url_of (user_components s u h (Str (slash # p)) t)) = s @ [colon, slash, slash] @ u @ atsign # h @ slash # p \<and>
    nsurl_get_utf8 ne (url_of (user_components s u h Null t)) = Some (Inl NSERROR_BAD_URL)"
proof -
  have c: "url_components (url_of c) = c" "url_string (url_of c) = url_text c NSURL_WITH_FRAGMENT" for c by (simp_all add: url_of_def)
  show ?thesis using get_utf8_user [OF c(1) assms] get_utf8_mailto [OF c(1) assms(1,2)] assms(3) by (simp add: c(2) user_text)
qed

theorem nsurl_get_utf8_user_witness:
  "nsurl_get_utf8 \<lparr>ne_unicode = latin, ne_heap = heap_all, ne_intern = (\<lambda>_. True)\<rparr>
     (url_of (user_components [0x61] [0x75] [0x68] (Str [slash]) NSURL_SCHEME_OTHER)) = Some (Inr [0x61, colon, slash, slash, 0x75, 0x68, slash])"
proof -
  let ?ne = "\<lparr>ne_unicode = latin, ne_heap = heap_all, ne_intern = (\<lambda>_. True)\<rparr>"
  have p: "\<forall>l \<in> set [[0x68]]. label_ok l \<and> converts (decode_host_label latin heap_all) (label_of latin) l"
    using plain_label_converts(4) ldh_label_ok by (simp add: plain_label_def idna__is_ldh_def ldh_char_def ace_prefix_def)
  have l: "label_of latin [0x68] = [0x68]" by (rule plain_label_converts) (simp add: plain_label_def idna__is_ldh_def ldh_char_def ace_prefix_def)
  have e: "host_end [0] 0" by (simp add: host_end_def)
  have "idna_decode latin heap_all [0x68, 0] 1 = Some (Inr (Some [0x68], 1))"
    using convert_host_join [OF p _ e, of heap_all] l by (simp add: idna_decode_def malloc_ok_def heap_all_def)
  then have "utf8_host ?ne [0x68] = Some (Inr [0x68])" by (simp add: utf8_host_def mem_read_def)
  then show ?thesis using nsurl_get_utf8_user [of ?ne "[0x68]" "[0x68]" "[0x61]" "[0x75]" "[]" NSURL_SCHEME_OTHER]
    by (simp add: malloc_ok_def heap_all_def)
qed

end
