(* ===== verification/Nsurl_Http.thy ===== *)
theory Nsurl_Http
  imports Nsurl_Ops
begin

text \<open>
  What \<^verbatim>\<open>nsurl_create\<close> makes of the URLs of the web: \<open>http\<close> and \<open>https\<close> with a host name, and any path, query and fragment.
  The theory only proves; the definitions are in \<^verbatim>\<open>Nsurl_Parse\<close>, \<^verbatim>\<open>Nsurl_Section\<close> and \<^verbatim>\<open>Nsurl\<close>.
\<close>

section \<open>The markers of a web URL\<close>

definition web_text :: "bytes \<Rightarrow> bytes \<Rightarrow> bytes \<Rightarrow> component \<Rightarrow> component \<Rightarrow> bytes" where
  "web_text sch host path query fragment =
     sch @ [colon, slash, slash] @ host @ path @ tail_text quest query @ tail_text hash fragment"

abbreviation http :: bytes where "http \<equiv> [0x68, 0x74, 0x74, 0x70]"
abbreviation https :: bytes where "https \<equiv> [0x68, 0x74, 0x74, 0x70, 0x73]"

definition web_scheme :: "bytes \<Rightarrow> bool" where
  "web_scheme sch \<longleftrightarrow> map ascii_to_lower sch = http \<or> map ascii_to_lower sch = https"

definition host_char :: "u8 \<Rightarrow> bool" where
  "host_char c \<longleftrightarrow> ldh_char c \<or> c = dot"

text \<open>A path that is empty or starts with a slash, and parts that end where they should.\<close>

definition web_parts :: "bytes \<Rightarrow> component \<Rightarrow> component \<Rightarrow> bool" where
  "web_parts path query fragment \<longleftrightarrow>
     rooted path \<and> quest \<notin> set path \<and> hash \<notin> set path \<and> 0 \<notin> set path \<and> query \<noteq> Unset \<and> fragment \<noteq> Unset \<and>
     (\<forall>q. query = Str q \<longrightarrow> hash \<notin> set q \<and> 0 \<notin> set q) \<and> (\<forall>f. fragment = Str f \<longrightarrow> 0 \<notin> set f)"

lemma alpha_scheme: "ascii_is_alpha c \<Longrightarrow> scheme_char c \<and> \<not> ascii_is_space c \<and> c \<noteq> 0 \<and> c \<noteq> colon"
  by (auto simp: ascii_is_alpha_def ascii_is_alpha_upper_def ascii_is_space_def scheme_char_def ascii_is_alphanumerical_def)

lemma host_char_plain: "host_char c \<Longrightarrow> c \<notin> {slash, quest, hash, colon, atsign, 0, 0x25} \<and> \<not> ascii_is_space c"
  by (auto simp: host_char_def ldh_char_def ascii_is_space_def)

lemma upper_shift: "ascii_is_alpha_upper c \<Longrightarrow> unat (ascii_to_lower c) = unat c + 32"
  by (auto simp: ascii_to_lower_def ascii_is_alpha_upper_def word_le_nat_alt unat_word_ariths unat_sub_if')

lemma lower_cases: "ascii_to_lower c = c \<and> \<not> ascii_is_alpha_upper c \<or> ascii_is_alpha_upper c \<and> 0x61 \<le> ascii_to_lower c \<and> ascii_to_lower c \<le> 0x7A"
  using upper_shift [of c] by (auto simp: ascii_to_lower_def ascii_is_alpha_upper_def word_le_nat_alt)

lemma lower_alpha: "ascii_is_alpha (ascii_to_lower c) = ascii_is_alpha c"
  using lower_cases [of c] by (auto simp: ascii_is_alpha_def)

lemma lower_host: "host_char (ascii_to_lower c) = host_char c"
  using lower_cases [of c] by (auto simp: host_char_def ldh_char_def ascii_is_alpha_upper_def)

lemma scheme_char_colon: "\<not> scheme_char colon"
  by (simp add: scheme_char_def ascii_is_alphanumerical_def ascii_is_alpha_def ascii_is_alpha_upper_def ascii_is_digit_def)

lemma web_scheme_chars:
  assumes "web_scheme sch"
  obtains c cs where "sch = c # cs" "ascii_is_alpha c" "\<forall>d \<in> set cs. scheme_char d" "length sch \<le> 5"
proof -
  have "\<forall>d \<in> set (map ascii_to_lower sch). ascii_is_alpha d" using assms by (auto simp: web_scheme_def ascii_is_alpha_def)
  then have a: "\<forall>d \<in> set sch. ascii_is_alpha d" by (simp add: lower_alpha)
  have "length (map ascii_to_lower sch) \<in> {4, 5}" using assms by (auto simp: web_scheme_def)
  then show thesis using a that alpha_scheme by (cases sch) auto
qed

lemma web_scheme_plain:
  assumes "web_scheme sch"
  shows "0x25 \<notin> set sch" "sch \<noteq> []"
proof -
  have "ascii_to_lower 0x25 = 0x25" by (simp add: ascii_to_lower_def ascii_is_alpha_upper_def)
  moreover have "0x25 \<notin> set (map ascii_to_lower sch)" using assms unfolding web_scheme_def by (elim disjE) (simp_all only:, simp_all)
  ultimately show "0x25 \<notin> set sch" by (metis imageI set_map)
  show "sch \<noteq> []" using assms by (auto simp: web_scheme_def)
qed

lemma ch_append: "ch (s @ t) i = (if i < length s then ch s i else ch t (i - length s))"
  by (auto simp: ch_def nth_append)

lemma web_scan_scheme:
  assumes "web_scheme sch"
  shows "scan_scheme (sch @ colon # rest) 0 joining = (length sch + 1, length sch, length sch + 1, scheme_type_of sch)"
    and "scheme_type_of sch = (if map ascii_to_lower sch = http then NSURL_SCHEME_HTTP else NSURL_SCHEME_HTTPS)"
proof -
  from assms obtain c cs where s: "sch = c # cs" "ascii_is_alpha c" "\<forall>d \<in> set cs. scheme_char d" by (rule web_scheme_chars)
  have "takeWhile scheme_char (cs @ colon # rest) = cs" using s(3) scheme_char_colon by (simp add: takeWhile_append2)
  then show "scan_scheme (sch @ colon # rest) 0 joining = (length sch + 1, length sch, length sch + 1, scheme_type_of sch)"
    using s(1,2) by (simp add: scan_scheme_def Let_def ch_append)
  show "scheme_type_of sch = (if map ascii_to_lower sch = http then NSURL_SCHEME_HTTP else NSURL_SCHEME_HTTPS)"
    using assms by (auto simp: scheme_type_of_def web_scheme_def Let_def)
qed

lemma authority_loop_host:
  assumes "\<forall>c \<in> set host. host_char c" and "rest = [] \<or> hd rest \<in> {slash, quest, hash}"
  shows "authority_loop mailto a (host @ rest) pos (cf, at, cl) = (pos + length host, cf, at, cl)"
  using assms
proof (induction host arbitrary: pos)
  case Nil
  then show ?case by (cases rest) auto
next
  case (Cons c host)
  then show ?case using host_char_plain [of c] by simp
qed

lemma ch_at: "i = length s \<Longrightarrow> ch (s @ t) i = ch t 0"
  by (simp add: ch_append)

lemma scan_to_text:
  assumes "drop pos s = c # t @ rest" and "\<forall>x \<in> set t. \<not> stop x" and "rest = [] \<or> stop (hd rest)"
  shows "scan_to stop s pos = pos + length (c # t)"
proof -
  have "drop (pos + 1) s = t @ rest" using assms(1) by (metis drop_drop drop_Suc_Cons drop0 add.commute plus_1_eq_Suc)
  moreover have "takeWhile (\<lambda>c. \<not> stop c) (t @ rest) = t"
    using assms(2,3) by (cases rest) (auto simp: takeWhile_append2 takeWhile_eq_all_conv)
  ultimately show ?thesis by (simp add: scan_to_def)
qed

lemma tail_head: "tail_text mark c = [] \<or> hd (tail_text mark c) = mark"
  by (simp add: tail_text_def split: component.splits)

lemma tail_ch: "ch (tail_text mark c) 0 = (case c of Str _ \<Rightarrow> mark | _ \<Rightarrow> 0)"
  by (simp add: tail_text_def split: component.splits)

lemma strip_end_all:
  assumes "s \<noteq> []" and "\<not> ascii_is_space (last s)"
  shows "strip_end s (length s) = length s"
  using assms by (cases "rev s") (auto simp: strip_end_def)

lemma web_authority:
  assumes "web_scheme sch" and "host \<noteq> []" and "\<forall>c \<in> set host. host_char c" and "rest = [] \<or> hd rest \<in> {slash, quest, hash}"
    and s: "s = sch @ [colon, slash, slash] @ host @ rest"
  shows "scan_authority s 0 joining (length sch + 1, length sch, length sch + 1, scheme_type_of sch) =
    (length sch + 3 + length host, length sch + 3, length sch + 3, length sch + 3, length sch + 3, length sch + 3 + length host)"
proof -
  let ?n = "length sch"
  have is_http: "scheme_type_of sch = NSURL_SCHEME_HTTP \<or> scheme_type_of sch = NSURL_SCHEME_HTTPS" "scheme_type_of sch \<noteq> NSURL_SCHEME_MAILTO"
    using web_scan_scheme(2) [OF assms(1)] by auto
  have c: "ch s (?n + 1) = slash" "ch s (?n + 1 + 1) = slash" by (simp_all add: s ch_append)
  have "hd host \<noteq> slash" using assms(2,3) host_char_plain [of "hd host"] by (cases host) auto
  then have "takeWhile (\<lambda>c. c = slash) (drop (?n + 1) s) = [slash, slash]" using assms(2) by (cases host) (simp_all add: s)
  then have first: "skip_slashes True s (?n + 1) = ?n + 3" by (simp add: skip_slashes_def)
  have "drop (?n + 3) s = host @ rest" by (simp add: s numeral_3_eq_3)
  then have loop: "authority_loop False (?n + 3) (drop (?n + 3) s) (?n + 3) (?n + 3, ?n + 3, ?n + 3) =
      (?n + 3 + length host, ?n + 3, ?n + 3, ?n + 3)" using authority_loop_host [OF assms(3,4)] by simp
  show ?thesis using is_http first loop c by (auto simp: scan_authority_def Let_def)
qed

definition web_markers :: "bytes \<Rightarrow> bytes \<Rightarrow> bytes \<Rightarrow> component \<Rightarrow> component \<Rightarrow> url_markers" where
  "web_markers sch host path query fragment =
     (let a = length sch + 3; p = a + length host; q = p + length path; f = q + length (tail_text quest query)
      in \<lparr>m_start = 0, m_scheme_end = length sch, m_authority = a, m_colon_first = a, m_at = a, m_colon_last = a, m_path = p,
          m_query = q, m_fragment = f, m_end = f + length (tail_text hash fragment), m_scheme_type = scheme_type_of sch\<rparr>)"

lemma web_markers:
  assumes "web_scheme sch" and "host \<noteq> []" and "\<forall>c \<in> set host. host_char c" and "web_parts path query fragment"
    and s: "s = web_text sch host path query fragment" and "\<not> ascii_is_space (last s)"
  shows "nsurl__get_string_markers s joining = web_markers sch host path query fragment"
proof -
  let ?Q = "tail_text quest query" and ?F = "tail_text hash fragment"
  define e1 e2 e3 where "e1 = length sch + 3 + length host" and "e2 = e1 + length path" and "e3 = e2 + length ?Q"
  from assms(1) obtain c cs where c: "sch = c # cs" "ascii_is_alpha c" by (rule web_scheme_chars)
  have start: "takeWhile ascii_is_space s = []" "ch s 0 \<noteq> 0" using alpha_scheme [OF c(2)] by (simp_all add: s web_text_def c(1))
  have rest: "path @ ?Q @ ?F = [] \<or> hd (path @ ?Q @ ?F) \<in> {slash, quest, hash}"
    using assms(4) tail_head [of quest query] tail_head [of hash fragment] by (auto simp: web_parts_def rooted_def hd_append)
  have scheme: "scan_scheme s 0 joining = (length sch + 1, length sch, length sch + 1, scheme_type_of sch)"
    using web_scan_scheme(1) [OF assms(1)] by (simp add: s web_text_def)
  have aut: "scan_authority s 0 joining (length sch + 1, length sch, length sch + 1, scheme_type_of sch) =
      (e1, length sch + 3, length sch + 3, length sch + 3, length sch + 3, e1)"
    using web_authority [OF assms(1-3) rest] by (simp add: s web_text_def e1_def)
  have d1: "drop e1 s = path @ ?Q @ ?F" by (simp add: s web_text_def e1_def numeral_3_eq_3)
  then have d2: "drop e2 s = ?Q @ ?F" by (metis e2_def add.commute append_eq_conv_conj drop_drop)
  then have d3: "drop e3 s = ?F" by (metis e3_def add.commute append_eq_conv_conj drop_drop)
  have ch: "ch s i = ch (drop i s) 0" for i by (simp add: ch_def)
  have query: "(if ch s e1 = slash \<or> e1 = length sch + 3 \<and> ch s e1 \<noteq> quest \<and> ch s e1 \<noteq> hash \<and> ch s e1 \<noteq> 0
      then scan_to (\<lambda>c. c = quest \<or> c = hash) s e1 else e1) = e2"
  proof (cases path)
    case Nil
    then have "ch s e1 \<noteq> slash" using d1 by (cases query; cases fragment) (simp_all add: ch [of e1] tail_text_def)
    then show ?thesis using Nil assms(2) by (simp add: e2_def e1_def)
  next
    case (Cons x p)
    have "scan_to (\<lambda>c. c = quest \<or> c = hash) s e1 = e1 + length (x # p)"
    proof (rule scan_to_text)
      show "drop e1 s = x # p @ ?Q @ ?F" using d1 Cons by simp
      show "\<forall>c \<in> set p. \<not> (c = quest \<or> c = hash)" using assms(4) Cons by (auto simp: web_parts_def)
      show "?Q @ ?F = [] \<or> hd (?Q @ ?F) = quest \<or> hd (?Q @ ?F) = hash" using tail_head [of quest query] tail_head [of hash fragment] by (auto simp: hd_append)
    qed
    moreover have "ch s e1 = slash" using d1 Cons assms(4) by (simp add: ch [of e1] web_parts_def rooted_def)
    ultimately show ?thesis using Cons by (simp add: e2_def)
  qed
  have frag: "(if ch s e2 = quest then scan_to (\<lambda>c. c = hash) s e2 else e2) = e3"
  proof (cases query)
    case (Str q)
    have "scan_to (\<lambda>c. c = hash) s e2 = e2 + length (quest # q)"
      by (rule scan_to_text [where rest = "?F"]) (use d2 Str assms(4) tail_head [of hash fragment] in \<open>auto simp: tail_text_def web_parts_def\<close>)
    then show ?thesis using d2 Str by (simp add: ch [of e2] e3_def tail_text_def)
  qed (use assms(4) d2 in \<open>auto simp: web_parts_def ch [of e2] tail_text_def e3_def split: component.splits\<close>)
  have len: "length s = e3 + length ?F" by (simp add: s web_text_def e1_def e2_def e3_def)
  have "ch s e3 = ch ?F 0" using d3 ch [of e3] by simp
  then have stop: "(if ch s e3 = hash then length s else e3) = length s" using len by (cases fragment) (simp_all add: tail_text_def)
  have "s \<noteq> []" by (simp add: s web_text_def)
  then have last: "strip_end s (length s) = length s" using strip_end_all assms(6) by blast
  show ?thesis
    unfolding nsurl__get_string_markers_def start list.size Let_def scheme aut prod.case fst_conv snd_conv if_not_P [OF start(2)] query frag stop last
    by (simp add: web_markers_def Let_def len e1_def e2_def e3_def)
qed

section \<open>The sections of a web URL\<close>

lemma normalise_lower: "0x25 \<notin> set bs \<Longrightarrow> lower_section sec \<Longrightarrow> normalise sec bs = map ascii_to_lower bs"
  by (induction sec bs rule: normalise.induct) (auto simp: norm_byte_def)

lemma intern_first:
  assumes "\<forall>t. ne_intern ne t" and "n = length t"
  shows "intern_to ne 0 n (t @ rest) c set_to = Some (NSERROR_OK, set_to (Str t))"
  using assms by (simp add: intern_to_def mem_read_def)

text \<open>What the environment grants: memory, and room for every text.\<close>

definition grants :: "nsurl_env \<Rightarrow> bool" where
  "grants ne \<longleftrightarrow> (\<forall>t. ne_intern ne t) \<and> (\<forall>n. malloc_ok (ne_heap ne) n = (n \<le> PTRDIFF_MAX))"

definition some_text :: "bytes \<Rightarrow> component" where
  "some_text t = (if t = [] then Null else Str t)"

lemma section_step:
  assumes "section_range s sec m = Some (a, b)" and "b \<le> length s" and "3 * (b - a) + 1 \<le> length mem" and "length mem < SIZE_MODULUS"
    and "t = normalise sec (between s a b)"
  shows "\<exists>rest. nsurl__create_from_section ne s sec m mem c =
      (case sec of
          URL_SCHEME \<Rightarrow> scheme_component ne (length t) (t @ 0 # rest) c
        | URL_CREDENTIALS \<Rightarrow> credentials_component ne m (length t) (t @ 0 # rest) c
        | URL_HOST \<Rightarrow> host_component ne m (length t) (t @ 0 # rest) c
        | URL_PATH \<Rightarrow> path_component ne (length t) (t @ 0 # rest) c
        | URL_QUERY \<Rightarrow> query_component ne (length t) (t @ 0 # rest) c
        | URL_FRAGMENT \<Rightarrow> fragment_component ne (length t) (t @ 0 # rest) c) \<bind> (\<lambda>(e, c). Some (e, c, t @ 0 # rest)) \<and>
    length (t @ 0 # rest) = length mem"
proof -
  have "length t \<le> 3 * (b - a)" using length_normalise [of sec "between s a b"] assms(2,5) by simp
  then have fits: "length t + 1 \<le> length mem" using assms(3) by linarith
  define rest where "rest = drop (length t + 1) mem"
  have "normalise_section s sec m mem = Some (length t, t @ 0 # rest)"
    using normalise_section_ok [OF assms(1-4)] by (simp add: Let_def rest_def flip: assms(5))
  moreover have "length (t @ 0 # rest) = length mem" using fits by (simp add: rest_def)
  ultimately show ?thesis by (intro exI [of _ rest]) (simp add: nsurl__create_from_section_def)
qed

text \<open>Sections that only intern their text, and a section that is empty.\<close>

lemma text_components:
  assumes "grants ne"
  shows "t \<noteq> [] \<Longrightarrow> scheme_component ne (length t) (t @ rest) c = Some (NSERROR_OK, c\<lparr>nc_scheme := Str t\<rparr>)"
    and "t \<noteq> [] \<Longrightarrow> path_component ne (length t) (t @ rest) c = Some (NSERROR_OK, c\<lparr>nc_path := Str t\<rparr>)"
    and "nc_host c = Str h \<Longrightarrow> nc_scheme_type c \<noteq> NSURL_SCHEME_MAILTO \<Longrightarrow>
      path_component ne 0 mem c = Some (NSERROR_OK, c\<lparr>nc_path := Str [slash]\<rparr>)"
    and "query_component ne (length t) (t @ rest) c = Some (NSERROR_OK, c\<lparr>nc_query := some_text t\<rparr>)"
    and "fragment_component ne (length t) (t @ rest) c = Some (NSERROR_OK, c\<lparr>nc_fragment := some_text t\<rparr>)"
    and "credentials_component ne m 0 mem c = Some (NSERROR_OK, c\<lparr>nc_username := Null, nc_password := Null\<rparr>)"
proof -
  have i: "\<forall>t. ne_intern ne t" using assms by (simp add: grants_def)
  note first = intern_first [OF i refl] intern_first [OF i, of 1 "[slash]" "[]"]
  show "t \<noteq> [] \<Longrightarrow> scheme_component ne (length t) (t @ rest) c = Some (NSERROR_OK, c\<lparr>nc_scheme := Str t\<rparr>)"
    "t \<noteq> [] \<Longrightarrow> path_component ne (length t) (t @ rest) c = Some (NSERROR_OK, c\<lparr>nc_path := Str t\<rparr>)"
    "nc_host c = Str h \<Longrightarrow> nc_scheme_type c \<noteq> NSURL_SCHEME_MAILTO \<Longrightarrow>
      path_component ne 0 mem c = Some (NSERROR_OK, c\<lparr>nc_path := Str [slash]\<rparr>)"
    "query_component ne (length t) (t @ rest) c = Some (NSERROR_OK, c\<lparr>nc_query := some_text t\<rparr>)"
    "fragment_component ne (length t) (t @ rest) c = Some (NSERROR_OK, c\<lparr>nc_fragment := some_text t\<rparr>)"
    "credentials_component ne m 0 mem c = Some (NSERROR_OK, c\<lparr>nc_username := Null, nc_password := Null\<rparr>)"
    using first by (simp_all add: scheme_component_def path_component_def query_component_def fragment_component_def credentials_component_def
        some_text_def Let_def)
qed

text \<open>A host of plain labels, without a port.\<close>

lemma host_component_plain:
  assumes "grants ne" and "ls \<noteq> []" and "\<forall>l \<in> set ls. plain_label l" and "length (join_dots ls) < 255"
    and "m_at m = m_authority m" "m_colon_first m = m_authority m" "m_colon_last m = m_authority m" and "nc_scheme_type c \<noteq> NSURL_SCHEME_FILE"
  shows "host_component ne m (length (join_dots ls)) (join_dots ls @ 0 # rest) c =
    Some (NSERROR_OK, c\<lparr>nc_host := Str (join_dots ls), nc_port := Null\<rparr>)"
proof -
  let ?j = "join_dots ls"
  have ace: "map (ace_of (ne_unicode ne)) ls = ls" using assms(3) plain_label_converts(1) by (simp add: map_idI)
  have ok: "\<forall>l \<in> set ls. label_ok l \<and> converts (encode_host_label (ne_unicode ne) (ne_heap ne)) (ace_of (ne_unicode ne)) l"
    "\<forall>l \<in> set ls. 0 \<notin> set (ace_of (ne_unicode ne) l)"
    using assms(3) plain_label_converts(1,3) ldh_label_ok label_ok_zero by (auto simp: plain_label_def)
  have "host_end (0 # rest) 0" by (simp add: host_end_def)
  then have enc: "idna_encode (ne_unicode ne) (ne_heap ne) (?j @ 0 # rest) (length ?j) = Some (Inr (Some ?j, length ?j))"
    using convert_host_join [OF ok(1) assms(2) _ _ ok(2), of "0 # rest" 0 "ne_heap ne"] assms(1,4) by (simp add: idna_encode_def grants_def ace)
  have port: "port_component ne m (length ?j) norm c1 = Some (length ?j, NSERROR_OK, c1)" for norm c1
    using assms(5-7) by (simp add: port_component_def port_colon_def)
  have "?j \<noteq> []" using ok(1) assms(2) by (cases ls rule: join_dots.cases) (auto simp: label_ok_def)
  then show ?thesis using assms(8) enc port intern_first [of ne "length ?j" ?j] assms(1) by (simp add: host_component_def Let_def grants_def)
qed

section \<open>A web URL is created\<close>

definition web_components :: "bytes \<Rightarrow> bytes \<Rightarrow> bytes \<Rightarrow> component \<Rightarrow> component \<Rightarrow> nsurl_components" where
  "web_components sch host path query fragment =
     \<lparr>nc_scheme = Str (map ascii_to_lower sch), nc_username = Null, nc_password = Null, nc_host = Str (map ascii_to_lower host),
      nc_port = Null, nc_path = Str (if path = [] then [slash] else normalise URL_PATH path),
      nc_query = (case query of Str q \<Rightarrow> some_text (normalise URL_QUERY q) | _ \<Rightarrow> Null),
      nc_fragment = (case fragment of Str f \<Rightarrow> some_text (normalise URL_FRAGMENT f) | _ \<Rightarrow> Null),
      nc_scheme_type = scheme_type_of sch\<rparr>"

text \<open>What a web URL is: the hypotheses of the theorems below.\<close>

definition web_url :: "bytes \<Rightarrow> bytes \<Rightarrow> bytes \<Rightarrow> component \<Rightarrow> component \<Rightarrow> bytes \<Rightarrow> bool" where
  "web_url sch host path query fragment s \<longleftrightarrow>
     web_scheme sch \<and> web_parts path query fragment \<and>
     (\<exists>ls. map ascii_to_lower host = join_dots ls \<and> ls \<noteq> [] \<and> (\<forall>l \<in> set ls. plain_label l)) \<and> length host < 255 \<and>
     s = web_text sch host path query fragment \<and> \<not> ascii_is_space (last s) \<and> int (length s) \<le> INT32_MAX"

lemma web_host_chars:
  assumes "map ascii_to_lower host = join_dots ls" and "\<forall>l \<in> set ls. plain_label l"
  shows "\<forall>c \<in> set host. host_char c"
proof -
  have "list_all (\<lambda>c. ldh_char c \<or> c = dot) (join_dots ls)" using assms(2) by (intro join_ldh) (simp add: plain_label_def)
  then have "\<forall>c \<in> set (map ascii_to_lower host). host_char c" unfolding assms(1) by (simp add: list_all_iff host_char_def)
  then show ?thesis by (simp add: lower_host)
qed

lemma normalise_empty: "normalise sec t = [] \<longleftrightarrow> t = []"
  by (cases "(sec, t)" rule: normalise.cases) (auto simp: norm_byte_def Let_def)

lemma between_middle: "s = a @ t @ b \<Longrightarrow> i = length a \<Longrightarrow> j = length a + length t \<Longrightarrow> between s i j = t \<and> j \<le> length s"
  by (simp add: between_def)

text \<open>The text of a section along the markers.\<close>

definition section_text :: "bytes \<Rightarrow> url_markers \<Rightarrow> url_sections \<Rightarrow> bytes \<Rightarrow> bool" where
  "section_text s m sec t \<longleftrightarrow> (\<exists>a b. section_range s sec m = Some (a, b) \<and> b \<le> length s \<and> between s a b = t)"

lemma section_textI:
  assumes "section_range s sec m = Some (length a, length a + length t)" and "s = a @ t @ b"
  shows "section_text s m sec t"
  using assms between_middle [OF assms(2) refl refl] unfolding section_text_def by blast

definition part_text :: "component \<Rightarrow> bytes" where
  "part_text c = (case c of Str t \<Rightarrow> t | _ \<Rightarrow> [])"

lemma web_section_texts:
  assumes "web_parts path query fragment" and "host \<noteq> []" and "\<forall>c \<in> set host. host_char c"
    and s: "s = web_text sch host path query fragment" and small: "int (length s) \<le> INT32_MAX"
    and m: "m = web_markers sch host path query fragment"
  shows "section_text s m URL_SCHEME sch" "section_text s m URL_CREDENTIALS []" "section_text s m URL_HOST host"
    "section_text s m URL_PATH path" "section_text s m URL_QUERY (part_text query)" "section_text s m URL_FRAGMENT (part_text fragment)"
proof -
  let ?Q = "tail_text quest query" and ?F = "tail_text hash fragment"
  let ?a = "sch @ [colon, slash, slash]"
  have len: "length s = length ?a + length host + length path + length ?Q + length ?F" by (simp add: s web_text_def)
  show "section_text s m URL_SCHEME sch" using small len
    by (intro section_textI [of _ _ _ "[]" _ "[colon, slash, slash] @ host @ path @ ?Q @ ?F"])
      (simp_all add: s web_text_def section_range_def m web_markers_def Let_def)
  show "section_text s m URL_CREDENTIALS []" using small len
    by (intro section_textI [of _ _ _ ?a _ "host @ path @ ?Q @ ?F"]) (simp_all add: s web_text_def section_range_def m web_markers_def Let_def)
  have "ch s (length sch + 3) \<noteq> atsign"
    using assms(2,3) host_char_plain [of "hd host"] ch_at [of "length sch + 3" ?a "host @ path @ ?Q @ ?F"]
    by (cases host) (auto simp: s web_text_def)
  then have "section_range s URL_HOST m = Some (length ?a, length ?a + length host)" using small len
    by (simp add: section_range_def m web_markers_def Let_def)
  then show "section_text s m URL_HOST host"
    by (rule section_textI [of _ _ _ _ _ "path @ ?Q @ ?F"]) (simp add: s web_text_def)
  show "section_text s m URL_PATH path" using small len
    by (intro section_textI [of _ _ _ "?a @ host" _ "?Q @ ?F"]) (simp_all add: s web_text_def section_range_def m web_markers_def Let_def)
  let ?q = "length sch + 3 + length host + length path"
  have q: "ch s ?q = ch (?Q @ ?F) 0" using ch_at [of ?q "?a @ host @ path" "?Q @ ?F"] by (simp add: s web_text_def)
  have f: "ch s (?q + length ?Q) = ch ?F 0" using ch_at [of "?q + length ?Q" "?a @ host @ path @ ?Q" ?F] by (simp add: s web_text_def)
  show "section_text s m URL_QUERY (part_text query)"
  proof (cases query)
    case (Str x)
    have "section_range s URL_QUERY m = Some (length (?a @ host @ path @ [quest]), length (?a @ host @ path @ [quest]) + length x)"
      using small len q Str by (simp add: section_range_def m web_markers_def Let_def tail_text_def)
    from section_textI [OF this, of ?F] show ?thesis by (simp add: s web_text_def Str tail_text_def part_text_def)
  next
    case Null
    have "section_range s URL_QUERY m = Some (length (?a @ host @ path), length (?a @ host @ path) + length [])"
      using small len q Null by (simp add: section_range_def m web_markers_def Let_def tail_text_def split: component.splits)
    from section_textI [OF this, of ?F] show ?thesis by (simp add: s web_text_def Null tail_text_def part_text_def)
  qed (use assms(1) in \<open>simp add: web_parts_def\<close>)
  show "section_text s m URL_FRAGMENT (part_text fragment)"
  proof (cases fragment)
    case (Str x)
    have "section_range s URL_FRAGMENT m = Some (length (?a @ host @ path @ ?Q @ [hash]), length (?a @ host @ path @ ?Q @ [hash]) + length x)"
      using small len f Str by (simp add: section_range_def m web_markers_def Let_def tail_text_def)
    from section_textI [OF this, of "[]"] show ?thesis by (simp add: s web_text_def Str tail_text_def part_text_def)
  next
    case Null
    have "section_range s URL_FRAGMENT m = Some (length (?a @ host @ path @ ?Q), length (?a @ host @ path @ ?Q) + length [])"
      using small len f Null by (simp add: section_range_def m web_markers_def Let_def tail_text_def)
    from section_textI [OF this, of "[]"] show ?thesis by (simp add: s web_text_def Null tail_text_def part_text_def)
  qed (use assms(1) in \<open>simp add: web_parts_def\<close>)
qed

lemma section_text_step:
  assumes "section_text s m sec x" and "3 * length x + 1 \<le> length mem" and "length mem < SIZE_MODULUS" and "t = normalise sec x"
  obtains rest where "nsurl__create_from_section ne s sec m mem c =
      (case sec of
          URL_SCHEME \<Rightarrow> scheme_component ne (length t) (t @ 0 # rest) c
        | URL_CREDENTIALS \<Rightarrow> credentials_component ne m (length t) (t @ 0 # rest) c
        | URL_HOST \<Rightarrow> host_component ne m (length t) (t @ 0 # rest) c
        | URL_PATH \<Rightarrow> path_component ne (length t) (t @ 0 # rest) c
        | URL_QUERY \<Rightarrow> query_component ne (length t) (t @ 0 # rest) c
        | URL_FRAGMENT \<Rightarrow> fragment_component ne (length t) (t @ 0 # rest) c) \<bind> (\<lambda>(e, c). Some (e, c, t @ 0 # rest))"
    "length (t @ 0 # rest) = length mem"
proof -
  obtain a b where r: "section_range s sec m = Some (a, b)" "b \<le> length s" "between s a b = x" using assms(1) by (auto simp: section_text_def)
  have "length x = b - a" using r(2,3) by (metis length_between)
  then have "3 * (b - a) + 1 \<le> length mem" using assms(2) by simp
  from section_step [OF r(1,2) this assms(3), of t ne c] assms(4) r(3) that show thesis by blast
qed

text \<open>The section, when its component is set without an error: only the buffer's length matters for what follows.\<close>

definition makes :: "nsurl_env \<Rightarrow> bytes \<Rightarrow> url_markers \<Rightarrow> url_sections \<Rightarrow> nat \<Rightarrow> nsurl_components \<Rightarrow> nsurl_components \<Rightarrow> bool" where
  "makes ne s m sec n c c' \<longleftrightarrow>
     (\<forall>mem. length mem = n \<longrightarrow> (\<exists>mem'. nsurl__create_from_section ne s sec m mem c = Some (NSERROR_OK, c', mem') \<and> length mem' = n))"

lemma makes_sections:
  assumes "makes ne s m sec n c c1" and "\<And>mem. length mem = n \<Longrightarrow> create_sections ne s m secs True c1 mem = r" and "length mem = n"
  shows "create_sections ne s m (sec # secs) True c mem = r"
  using assms unfolding makes_def by (fastforce simp: create_sections.simps(2))

lemma makesI:
  assumes "section_text s m sec x" and "3 * length x + 1 \<le> n" and "n < SIZE_MODULUS" and "t = normalise sec x"
    and "\<And>rest. (case sec of
          URL_SCHEME \<Rightarrow> scheme_component ne (length t) (t @ 0 # rest) c
        | URL_CREDENTIALS \<Rightarrow> credentials_component ne m (length t) (t @ 0 # rest) c
        | URL_HOST \<Rightarrow> host_component ne m (length t) (t @ 0 # rest) c
        | URL_PATH \<Rightarrow> path_component ne (length t) (t @ 0 # rest) c
        | URL_QUERY \<Rightarrow> query_component ne (length t) (t @ 0 # rest) c
        | URL_FRAGMENT \<Rightarrow> fragment_component ne (length t) (t @ 0 # rest) c) = Some (NSERROR_OK, c')"
  shows "makes ne s m sec n c c'"
  unfolding makes_def
proof (intro allI impI)
  fix mem :: bytes assume mem: "length mem = n"
  obtain rest where r: "nsurl__create_from_section ne s sec m mem c =
      (case sec of
          URL_SCHEME \<Rightarrow> scheme_component ne (length t) (t @ 0 # rest) c
        | URL_CREDENTIALS \<Rightarrow> credentials_component ne m (length t) (t @ 0 # rest) c
        | URL_HOST \<Rightarrow> host_component ne m (length t) (t @ 0 # rest) c
        | URL_PATH \<Rightarrow> path_component ne (length t) (t @ 0 # rest) c
        | URL_QUERY \<Rightarrow> query_component ne (length t) (t @ 0 # rest) c
        | URL_FRAGMENT \<Rightarrow> fragment_component ne (length t) (t @ 0 # rest) c) \<bind> (\<lambda>(e, c). Some (e, c, t @ 0 # rest))"
    "length (t @ 0 # rest) = length mem"
    using section_text_step [OF assms(1) _ _ assms(4), of mem ne c] mem assms(2,3) by blast
  show "\<exists>mem'. nsurl__create_from_section ne s sec m mem c = Some (NSERROR_OK, c', mem') \<and> length mem' = n"
    using r mem by (intro exI [of _ "t @ 0 # rest"]) (simp add: assms(5))
qed

lemma web_sections:
  assumes "web_url sch host path query fragment s" and "grants ne" and m: "m = web_markers sch host path query fragment"
    and n: "n = nsurl__get_longest_section m * 3 + 1" and "length mem = n"
  shows "create_sections ne s m [URL_SCHEME, URL_CREDENTIALS, URL_HOST, URL_PATH, URL_QUERY, URL_FRAGMENT] True
    (no_components (m_scheme_type m)) mem = Some (True, web_components sch host path query fragment)"
proof -
  obtain ls where ls: "map ascii_to_lower host = join_dots ls" "ls \<noteq> []" "\<forall>l \<in> set ls. plain_label l"
    and sch: "web_scheme sch" and parts: "web_parts path query fragment" and len: "length host < 255"
    and s: "s = web_text sch host path query fragment" and last: "\<not> ascii_is_space (last s)" and small: "int (length s) \<le> INT32_MAX"
    using assms(1) unfolding web_url_def by blast
  have hc: "\<forall>c \<in> set host. host_char c" using web_host_chars [OF ls(1,3)] .
  have host: "host \<noteq> []" using ls by (cases ls rule: join_dots.cases) (auto simp: plain_label_def idna__is_ldh_def)
  note texts = web_section_texts [OF parts host hc s small m]
  have mk: "nsurl__get_string_markers s False = m" using web_markers [OF sch host hc parts s last] m by simp
  have ok: "markers_ok s m" using markers_ordered [of s False] mk by simp
  have long: "nsurl__get_longest_section m \<le> length s"
    "list_all (\<lambda>l. l \<le> nsurl__get_longest_section m)
      [m_scheme_end m - m_start m, m_at m - m_authority m, m_path m - m_at m, m_query m - m_path m, m_fragment m - m_query m, m_end m - m_fragment m]"
    using longest_section [OF ok] small by simp_all
  have fits: "3 * length sch + 1 \<le> n" "3 * length host + 1 \<le> n" "3 * length path + 1 \<le> n" "3 * length (part_text query) + 1 \<le> n"
    "3 * length (part_text fragment) + 1 \<le> n" and n_less: "n < SIZE_MODULUS"
    using long small
    by (auto simp: n m web_markers_def Let_def part_text_def tail_text_def split: component.splits)
  define c0 where "c0 = no_components (m_scheme_type m)"
  define c1 where "c1 = c0\<lparr>nc_scheme := Str (map ascii_to_lower sch)\<rparr>"
  define c2 where "c2 = c1\<lparr>nc_username := Null, nc_password := Null\<rparr>"
  define c3 where "c3 = c2\<lparr>nc_host := Str (map ascii_to_lower host), nc_port := Null\<rparr>"
  define c4 where "c4 = c3\<lparr>nc_path := Str (if path = [] then [slash] else normalise URL_PATH path)\<rparr>"
  define c5 where "c5 = c4\<lparr>nc_query := some_text (normalise URL_QUERY (part_text query))\<rparr>"
  define c6 where "c6 = c5\<lparr>nc_fragment := some_text (normalise URL_FRAGMENT (part_text fragment))\<rparr>"
  note tc = text_components [OF assms(2)]
  have type: "m_scheme_type m = scheme_type_of sch" "nc_scheme_type c2 = scheme_type_of sch" "nc_scheme_type c3 = scheme_type_of sch"
    "scheme_type_of sch \<noteq> NSURL_SCHEME_FILE" "scheme_type_of sch \<noteq> NSURL_SCHEME_MAILTO"
    using web_scan_scheme(2) [OF sch] by (simp_all add: m web_markers_def Let_def c3_def c2_def c1_def c0_def)
  have sch_text: "normalise URL_SCHEME sch = map ascii_to_lower sch" "sch \<noteq> []"
    using web_scheme_plain [OF sch] by (simp_all add: normalise_lower)
  have host_text: "normalise URL_HOST host = join_dots ls" using hc host_char_plain ls(1) by (subst normalise_lower) auto
  have 1: "makes ne s m URL_SCHEME n c0 c1"
    using texts(1) fits(1) n_less refl by (rule makesI) (use sch_text tc(1) [of "map ascii_to_lower sch"] in \<open>simp add: c1_def\<close>)
  have 2: "makes ne s m URL_CREDENTIALS n c1 c2"
    using texts(2) _ n_less refl by (rule makesI) (use n tc(6) in \<open>simp_all add: c2_def\<close>)
  have lenj: "length (join_dots ls) < 255" using len ls(1) by (metis length_map)
  have at: "m_at m = m_authority m" "m_colon_first m = m_authority m" "m_colon_last m = m_authority m"
    by (simp_all add: m web_markers_def Let_def)
  have hf: "nc_scheme_type c2 \<noteq> NSURL_SCHEME_FILE" using type by simp
  have "host_component ne m (length (join_dots ls)) (join_dots ls @ 0 # rest) c2 = Some (NSERROR_OK, c3)" for rest
    using host_component_plain [OF assms(2) ls(2,3) lenj at hf] by (simp add: c3_def ls(1))
  then have 3: "makes ne s m URL_HOST n c2 c3"
    using texts(3) fits(2) n_less host_text [symmetric] by (intro makesI) (simp_all only: url_sections.case)
  have 4: "makes ne s m URL_PATH n c3 c4"
    using texts(4) fits(3) n_less refl
    by (rule makesI) (use tc(2,3) type in \<open>simp add: c4_def normalise_empty; simp add: c3_def\<close>)
  have 5: "makes ne s m URL_QUERY n c4 c5" using texts(5) fits(4) n_less refl by (rule makesI) (simp add: c5_def tc(4))
  have 6: "makes ne s m URL_FRAGMENT n c5 c6" using texts(6) fits(5) n_less refl by (rule makesI) (simp add: c6_def tc(5))
  have "c6 = web_components sch host path query fragment"
    using parts type by (auto simp: web_components_def c6_def c5_def c4_def c3_def c2_def c1_def c0_def part_text_def some_text_def web_parts_def split: component.splits)
  then show ?thesis unfolding c0_def [symmetric] using assms(5)
    by (intro makes_sections [OF 1] makes_sections [OF 2] makes_sections [OF 3] makes_sections [OF 4] makes_sections [OF 5] makes_sections [OF 6]) simp_all
qed

lemma host_char_valid: "host_char c \<Longrightarrow> ascii_is_alphanumerical c \<or> c = dot \<or> c = 0x2D"
  by (auto simp: host_char_def ldh_char_def ascii_is_alphanumerical_def ascii_is_alpha_def ascii_is_alpha_upper_def ascii_is_digit_def)

lemma plain_host_valid:
  assumes "\<forall>c \<in> set host. host_char c"
  shows "nsurl__check_host_valid (map ascii_to_lower host)"
proof -
  have all: "\<forall>c \<in> set (map ascii_to_lower host). host_char c" using assms by (simp add: lower_host)
  then have "ch (map ascii_to_lower host) 0 \<noteq> 0x5B" by (cases "map ascii_to_lower host") (auto simp: host_char_def ldh_char_def)
  then show ?thesis using all host_char_valid by (auto simp: nsurl__check_host_valid_def list_all_iff)
qed

lemma web_path: "rooted path \<Longrightarrow> ch (if path = [] then [slash] else normalise URL_PATH path) 0 = slash"
proof (cases path)
  case (Cons c p)
  assume "rooted path"
  moreover have "norm_byte URL_PATH slash = [slash]" by (simp add: norm_byte_def nsurl__is_no_escape_def)
  ultimately show ?thesis using Cons by (cases "(URL_PATH, path)" rule: normalise.cases) (auto simp: rooted_def)
qed simp

text \<open>The string of the URL of a web address.\<close>

lemma web_url_text:
  assumes "rooted path"
  shows "url_text (web_components sch host path query fragment) NSURL_WITH_FRAGMENT =
    map ascii_to_lower sch @ [colon, slash, slash] @ map ascii_to_lower host @ (if path = [] then [slash] else normalise URL_PATH path) @
    tail_text quest (nc_query (web_components sch host path query fragment)) @
    tail_text hash (nc_fragment (web_components sch host path query fragment))"
  unfolding url_text_tail [of "web_components sch host path query fragment" "map ascii_to_lower sch", OF web_components_def [THEN arg_cong, of nc_scheme, simplified]]
  using web_path [OF assms] by (simp add: url_head_def url_text_def url_pieces_def Let_def web_components_def)

lemma tail_text_le: "length (tail_text mark (case c of Str t \<Rightarrow> some_text (normalise sec t) | _ \<Rightarrow> Null)) \<le> 3 * length (tail_text mark c) + 1"
  using length_normalise [of sec] by (auto simp: tail_text_def some_text_def le_SucI split: component.splits intro: le_trans)

lemma create_web:
  assumes "web_url sch host path query fragment s" and "grants ne"
  shows "nsurl_create ne s = Some (Inr (url_of (web_components sch host path query fragment)))"
proof -
  let ?c = "web_components sch host path query fragment"
  obtain ls where ls: "map ascii_to_lower host = join_dots ls" "ls \<noteq> []" "\<forall>l \<in> set ls. plain_label l"
    and sch: "web_scheme sch" and parts: "web_parts path query fragment"
    and s: "s = web_text sch host path query fragment" and last: "\<not> ascii_is_space (last s)" and small: "int (length s) \<le> INT32_MAX"
    using assms(1) unfolding web_url_def by blast
  have hc: "\<forall>c \<in> set host. host_char c" using web_host_chars [OF ls(1,3)] .
  have host: "host \<noteq> []" using ls by (cases ls rule: join_dots.cases) (auto simp: plain_label_def idna__is_ldh_def)
  define m where "m = web_markers sch host path query fragment"
  have mk: "nsurl__get_string_markers s False = m" using web_markers [OF sch host hc parts s last] by (simp add: m_def)
  define n where "n = nsurl__get_longest_section m * 3 + 1"
  have n: "n \<le> 2 ^ 33" using longest_section(1) [OF markers_ordered [of s False]] small mk by (simp add: n_def)
  then have size: "size_wrap (nsurl__get_longest_section m * 3 + 1) = n" "malloc_ok (ne_heap ne) n"
    using assms(2) by (simp_all add: n_def grants_def)
  have r: "create_sections ne s m [URL_SCHEME, URL_CREDENTIALS, URL_HOST, URL_PATH, URL_QUERY, URL_FRAGMENT] True
      (no_components (m_scheme_type m)) (replicate n (heap_junk (ne_heap ne))) = Some (True, ?c)"
    using web_sections [OF assms m_def n_def] by simp
  have set: "components_set (max 4 n) ?c" using create_sections_set [OF r] by simp
  have "nc_host ?c = Str (map ascii_to_lower host)" by (simp add: web_components_def)
  then have v: "validate_url (ne_heap ne) True ?c = finish_url (ne_heap ne) ?c" using plain_host_valid [OF hc] by (simp add: validate_url_def)
  have "length (url_text ?c NSURL_WITH_FRAGMENT) \<le> 3 * length s + 3"
    unfolding web_url_text [OF parts [unfolded web_parts_def, THEN conjunct1]] s web_text_def
    using length_normalise [of URL_PATH path] tail_text_le [of quest URL_QUERY query] tail_text_le [of hash URL_FRAGMENT fragment]
    by (simp add: web_components_def)
  then have "length (url_text ?c NSURL_WITH_FRAGMENT) + 100 \<le> PTRDIFF_MAX" using small by simp
  then have "finish_url (ne_heap ne) ?c = Some (Inr (url_of ?c))"
    using finish_url_ok [OF set, of "ne_heap ne"] n assms(2) by (simp add: grants_def url_of_def)
  then show ?thesis using r v size by (simp add: nsurl_create_def mk Let_def)
qed

section \<open>Canonical URLs\<close>

lemma normalise_safe: "\<not> lower_section sec \<Longrightarrow> \<forall>c \<in> set t. nsurl__is_no_escape c \<Longrightarrow> normalise sec t = t"
  by (induction sec t rule: normalise.induct) (auto simp: norm_byte_def nsurl__is_no_escape_def)

text \<open>A component that is missing, or a text that is not empty and needs no escape.\<close>

definition safe_part :: "component \<Rightarrow> bool" where
  "safe_part c \<longleftrightarrow> (\<forall>t. c = Str t \<longrightarrow> t \<noteq> [] \<and> (\<forall>x \<in> set t. nsurl__is_no_escape x))"

lemma safe_tail:
  assumes "safe_part c" and "\<not> lower_section sec"
  shows "tail_text mark (case c of Str t \<Rightarrow> some_text (normalise sec t) | _ \<Rightarrow> Null) = tail_text mark c"
  using assms by (cases c) (auto simp: safe_part_def some_text_def tail_text_def normalise_safe)

lemma canonical_text:
  assumes "rooted path" and "map ascii_to_lower sch = sch" and "map ascii_to_lower host = host" and "path \<noteq> []"
    and "\<forall>x \<in> set path. nsurl__is_no_escape x" and "safe_part query" and "safe_part fragment"
  shows "url_text (web_components sch host path query fragment) NSURL_WITH_FRAGMENT = web_text sch host path query fragment"
  unfolding web_url_text [OF assms(1)] using assms(2-5) normalise_safe [of URL_PATH path] safe_tail [OF assms(6), of URL_QUERY quest]
    safe_tail [OF assms(7), of URL_FRAGMENT hash] by (simp add: web_components_def web_text_def)

section \<open>An environment and an address for the witnesses\<close>

definition kind_env :: nsurl_env where
  "kind_env = \<lparr>ne_unicode = latin, ne_heap = heap_all, ne_intern = (\<lambda>_. True)\<rparr>"

lemma kind_grants: "grants kind_env"
  by (simp add: grants_def kind_env_def malloc_ok_def heap_all_def)

lemma small_web_url: "web_url http [0x61] [slash, 0x62] (Str [0x71]) Null (web_text http [0x61] [slash, 0x62] (Str [0x71]) Null)"
proof -
  have "\<exists>ls. map ascii_to_lower [0x61] = join_dots ls \<and> ls \<noteq> [] \<and> (\<forall>l \<in> set ls. plain_label l)"
    by (rule exI [of _ "[[0x61]]"]) (simp add: ascii_to_lower_def ascii_is_alpha_upper_def plain_label_def idna__is_ldh_def ldh_char_def ace_prefix_def)
  then show ?thesis
    by (simp add: web_url_def web_scheme_def web_parts_def rooted_def web_text_def tail_text_def ascii_to_lower_def ascii_is_alpha_upper_def
        ascii_is_space_def)
qed

section \<open>Credentials that leave the buffer\<close>

abbreviation escaped_password :: bytes where
  "escaped_password \<equiv> http @ [colon, slash, slash, 0x75, colon, 0x25, 0x34, 0x31, 0x25, 0x34, 0x31, 0x25, 0x34, 0x31, atsign, 0x68, slash]"

abbreviation colon_password :: bytes where
  "colon_password \<equiv> http @ [colon, slash, slash, 0x61, colon, 0x62, colon, 0x63, atsign, 0x68, slash]"

text \<open>When the sections leave the buffer, so does creation.\<close>

lemma create_stops:
  assumes "nsurl__get_string_markers s False = m" and "grants ne" and "nsurl__get_longest_section m < 100"
    and "\<And>mem. length mem = nsurl__get_longest_section m * 3 + 1 \<Longrightarrow>
      create_sections ne s m [URL_SCHEME, URL_CREDENTIALS, URL_HOST, URL_PATH, URL_QUERY, URL_FRAGMENT] True (no_components (m_scheme_type m)) mem = None"
  shows "nsurl_create ne s = None"
proof -
  let ?n = "nsurl__get_longest_section m * 3 + 1"
  have "size_wrap ?n = ?n" "malloc_ok (ne_heap ne) ?n" using assms(2,3) by (simp_all add: grants_def)
  then show ?thesis using assms(1,4) by (simp add: nsurl_create_def Let_def)
qed

lemma stops_section:
  assumes "section_text s m sec x" and "3 * length x + 1 \<le> length mem" and "length mem < SIZE_MODULUS" and "t = normalise sec x"
    and "\<And>rest. length (t @ 0 # rest) = length mem \<Longrightarrow> (case sec of
          URL_SCHEME \<Rightarrow> scheme_component ne (length t) (t @ 0 # rest) c
        | URL_CREDENTIALS \<Rightarrow> credentials_component ne m (length t) (t @ 0 # rest) c
        | URL_HOST \<Rightarrow> host_component ne m (length t) (t @ 0 # rest) c
        | URL_PATH \<Rightarrow> path_component ne (length t) (t @ 0 # rest) c
        | URL_QUERY \<Rightarrow> query_component ne (length t) (t @ 0 # rest) c
        | URL_FRAGMENT \<Rightarrow> fragment_component ne (length t) (t @ 0 # rest) c) = None"
  shows "create_sections ne s m (sec # secs) ok c mem = None"
proof -
  obtain rest where "nsurl__create_from_section ne s sec m mem c =
      (case sec of
          URL_SCHEME \<Rightarrow> scheme_component ne (length t) (t @ 0 # rest) c
        | URL_CREDENTIALS \<Rightarrow> credentials_component ne m (length t) (t @ 0 # rest) c
        | URL_HOST \<Rightarrow> host_component ne m (length t) (t @ 0 # rest) c
        | URL_PATH \<Rightarrow> path_component ne (length t) (t @ 0 # rest) c
        | URL_QUERY \<Rightarrow> query_component ne (length t) (t @ 0 # rest) c
        | URL_FRAGMENT \<Rightarrow> fragment_component ne (length t) (t @ 0 # rest) c) \<bind> (\<lambda>(e, c). Some (e, c, t @ 0 # rest))"
    "length (t @ 0 # rest) = length mem"
    using section_text_step [OF assms(1-4), of ne c] by blast
  then show ?thesis using assms(5) by (simp add: create_sections.simps(2))
qed

lemma escaped_password_stops:
  assumes "grants ne"
  shows "nsurl_create ne escaped_password = None"
proof -
  define m where "m = \<lparr>m_start = 0, m_scheme_end = 4, m_authority = 7, m_colon_first = 8, m_at = 18, m_colon_last = 7, m_path = 20, m_query = 21,
    m_fragment = 21, m_end = 21, m_scheme_type = NSURL_SCHEME_HTTP\<rparr>"
  have m: "nsurl__get_string_markers escaped_password False = m" unfolding m_def by code_simp
  have n: "nsurl__get_longest_section m = 11" by (simp add: nsurl__get_longest_section_def m_def Let_def)
  have sec: "section_text escaped_password m URL_SCHEME http" "section_text escaped_password m URL_CREDENTIALS
      [0x75, colon, 0x25, 0x34, 0x31, 0x25, 0x34, 0x31, 0x25, 0x34, 0x31]"
    by (simp_all add: section_text_def section_range_def m_def between_def)
  have t: "normalise URL_SCHEME http = http" "normalise URL_CREDENTIALS [0x75, colon, 0x25, 0x34, 0x31, 0x25, 0x34, 0x31, 0x25, 0x34, 0x31] =
      [0x75, colon, 0x41, 0x41, 0x41]" by code_simp+
  have s: "makes ne escaped_password m URL_SCHEME 34 c (c\<lparr>nc_scheme := Str http\<rparr>)" for c
    using sec(1) by (rule makesI [where t = http]) (use t text_components(1) [OF assms, of http] in simp_all)
  have i: "ne_intern ne x" for x using assms by (simp add: grants_def)
  have "credentials_component ne m (Suc (Suc (Suc (Suc (Suc 0))))) ([0x75, colon, 0x41, 0x41, 0x41] @ 0 # rest) (no_components NSURL_SCHEME_HTTP\<lparr>nc_scheme := Str http\<rparr>) = None"
    if "length rest = 28" for rest
    using that by (simp add: credentials_component_def m_def Let_def intern_to_def mem_read_def i size_sub_def split: option.splits)
  then have "create_sections ne escaped_password m [URL_CREDENTIALS, URL_HOST, URL_PATH, URL_QUERY, URL_FRAGMENT] True
      (no_components NSURL_SCHEME_HTTP\<lparr>nc_scheme := Str http\<rparr>) mem = None" if "length mem = 34" for mem
    using that by (intro stops_section [OF sec(2) _ _ t(2) [symmetric]]) simp_all
  then show ?thesis using makes_sections [OF s] n
    by (intro create_stops [OF m assms]) (simp_all add: m_def)
qed

lemma colon_password_stops:
  assumes "grants ne"
  shows "nsurl_create ne colon_password = None"
proof -
  define m where "m = \<lparr>m_start = 0, m_scheme_end = 4, m_authority = 7, m_colon_first = 8, m_at = 12, m_colon_last = 10, m_path = 14, m_query = 15,
    m_fragment = 15, m_end = 15, m_scheme_type = NSURL_SCHEME_HTTP\<rparr>"
  have m: "nsurl__get_string_markers colon_password False = m" unfolding m_def by code_simp
  have n: "nsurl__get_longest_section m = 5" by (simp add: nsurl__get_longest_section_def m_def Let_def)
  have sec: "section_text colon_password m URL_SCHEME http" "section_text colon_password m URL_CREDENTIALS [0x61, colon, 0x62, colon, 0x63]"
     "section_text colon_password m URL_HOST [0x68]"
    by (simp_all add: section_text_def section_range_def m_def between_def ch_def)
  have t: "normalise URL_SCHEME http = http" "normalise URL_CREDENTIALS [0x61, colon, 0x62, colon, 0x63] = [0x61, colon, 0x62, colon, 0x63]"
     "normalise URL_HOST [0x68] = [0x68]" by code_simp+
  have s: "makes ne colon_password m URL_SCHEME 16 c (c\<lparr>nc_scheme := Str http\<rparr>)" for c
    using sec(1) by (rule makesI [where t = http]) (use t text_components(1) [OF assms, of http] in simp_all)
  have i: "ne_intern ne x" for x using assms by (simp add: grants_def)
  have cred: "makes ne colon_password m URL_CREDENTIALS 16 (no_components NSURL_SCHEME_HTTP\<lparr>nc_scheme := Str http\<rparr>)
     (no_components NSURL_SCHEME_HTTP\<lparr>nc_scheme := Str http, nc_username := Str [0x61], nc_password := Str [0x62, colon, 0x63]\<rparr>)"
    using sec(2) by (rule makesI [where t = "[0x61, colon, 0x62, colon, 0x63]"])
      (use t in \<open>simp_all add: credentials_component_def m_def Let_def intern_to_def mem_read_def i\<close>)
  have "host_component ne m (Suc 0) ([0x68] @ 0 # rest) c = None" if "length rest = 14" "nc_scheme_type c = NSURL_SCHEME_HTTP" for rest c
    using that by (simp add: host_component_def m_def Let_def port_component_def port_colon_def port_digits.simps ptr_offset_def read_at_def size_sub_def)
  then have "create_sections ne colon_password m [URL_HOST, URL_PATH, URL_QUERY, URL_FRAGMENT] True
      (no_components NSURL_SCHEME_HTTP\<lparr>nc_scheme := Str http, nc_username := Str [0x61], nc_password := Str [0x62, colon, 0x63]\<rparr>) mem = None"
    if "length mem = 16" for mem
    using that by (intro stops_section [OF sec(3) _ _ t(3) [symmetric]]) simp_all
  then show ?thesis using makes_sections [OF s] makes_sections [OF cred] n
    by (intro create_stops [OF m assms]) (simp_all add: m_def)
qed

section \<open>Properties\<close>

text \<open>C9: Web addresses become URLs. For http and https in any case, a host of plain labels in any case, and any path, query and
  fragment, creation succeeds whenever there is memory, without leaving its buffers, and gives: the scheme and the host in lower case, no
  credentials, no port, a slash for an empty path, the other parts in normal form or missing when they are empty, and the string of these
  components.\<close>

theorem nsurl_create_web:
  assumes "web_url sch host path query fragment s" and "grants ne"
  shows "\<exists>url. nsurl_create ne s = Some (Inr url) \<and>
    url_components url =
      \<lparr>nc_scheme = Str (map ascii_to_lower sch), nc_username = Null, nc_password = Null, nc_host = Str (map ascii_to_lower host),
       nc_port = Null, nc_path = Str (if path = [] then [slash] else normalise URL_PATH path),
       nc_query = (case query of Str q \<Rightarrow> some_text (normalise URL_QUERY q) | _ \<Rightarrow> Null),
       nc_fragment = (case fragment of Str f \<Rightarrow> some_text (normalise URL_FRAGMENT f) | _ \<Rightarrow> Null),
       nc_scheme_type = (if map ascii_to_lower sch = http then NSURL_SCHEME_HTTP else NSURL_SCHEME_HTTPS)\<rparr> \<and>
    url_string url = url_text (url_components url) NSURL_WITH_FRAGMENT \<and> url_length url = length (url_string url)"
proof -
  have "web_scheme sch" using assms(1) by (simp add: web_url_def)
  then show ?thesis using create_web [OF assms] web_scan_scheme(2) by (auto simp: url_of_def web_components_def)
qed

theorem nsurl_create_web_witness:
  "\<exists>url. nsurl_create kind_env (web_text http [0x61] [slash, 0x62] (Str [0x71]) Null) = Some (Inr url) \<and>
     nc_path (url_components url) = Str [slash, 0x62]"
proof -
  have "normalise URL_PATH [slash, 0x62] = [slash, 0x62]" by (rule normalise_safe) (simp_all add: nsurl__is_no_escape_def)
  then show ?thesis using nsurl_create_web [OF small_web_url kind_grants] by auto
qed

text \<open>C20: Canonical web addresses are fixed points: when scheme and host are lower case, the path is not empty, and no part needs
  an escape or is empty, the string of the created URL is the string it was created from.\<close>

theorem nsurl_create_canonical:
  assumes "web_url sch host path query fragment s" and "grants ne" and "map ascii_to_lower sch = sch" and "map ascii_to_lower host = host"
    and "path \<noteq> []" and "\<forall>x \<in> set path. nsurl__is_no_escape x" and "safe_part query" and "safe_part fragment"
  shows "\<exists>url. nsurl_create ne s = Some (Inr url) \<and> url_string url = s"
proof -
  have "rooted path" "s = web_text sch host path query fragment" using assms(1) by (simp_all add: web_url_def web_parts_def)
  then show ?thesis using create_web [OF assms(1,2)] canonical_text [OF _ assms(3-8)] by (auto simp: url_of_def)
qed

theorem nsurl_create_canonical_witness:
  "\<exists>url. nsurl_create kind_env (web_text http [0x61] [slash, 0x62] (Str [0x71]) Null) = Some (Inr url) \<and>
     url_string url = web_text http [0x61] [slash, 0x62] (Str [0x71]) Null"
  by (rule nsurl_create_canonical [OF small_web_url kind_grants])
    (simp_all add: ascii_to_lower_def ascii_is_alpha_upper_def nsurl__is_no_escape_def safe_part_def)



text \<open>C38: Credentials are cut with the offsets of the text before it was normalised. When there is memory, creating the URL of
  http://u:%41%41%41@h/ computes a negative length for the user name and reads beyond the buffer, because the three escapes have become
  three letters; and creating the URL of http://a:b:c@h/ reads before the buffer, because the second colon of the credentials is taken
  for the one before the port.\<close>

theorem nsurl_create_credentials:
  assumes "grants ne"
  shows "nsurl_create ne escaped_password = None \<and> nsurl_create ne colon_password = None"
  using escaped_password_stops [OF assms] colon_password_stops [OF assms] by blast

theorem nsurl_create_credentials_witness:
  "nsurl_create kind_env escaped_password = None \<and> nsurl_create kind_env colon_password = None"
  by (rule nsurl_create_credentials [OF kind_grants])

end
