(* ===== verification/Nsurl_Join.thy ===== *)
theory Nsurl_Join
  imports Nsurl_Http
begin

text \<open>
  Joining a URL with a relative reference: the path of the result is the one that RFC 3986 prescribes. The theory only proves; the
  definitions are in \<^verbatim>\<open>Nsurl\<close>.
\<close>

section \<open>The length of a path without dots\<close>

lemma pop_segment_length: "length (pop_segment out) \<le> length out"
  unfolding pop_segment_def using length_dropWhile_le [of "\<lambda>c. c \<noteq> slash" "rev out"] by simp

lemma pop_name_length: "length (pop_name out) \<le> length out"
  unfolding pop_name_def using length_dropWhile_le [of "\<lambda>c. c \<noteq> slash" "rev out"] by simp

lemma dots_loop_length: "length (dots_loop path out) \<le> length path + length out"
proof (induction "length path" arbitrary: path out rule: less_induct)
  case less
  show ?case
  proof (cases "path = []")
    case False
    have step: "length (dots_loop (drop k path) o') \<le> length path + length out" if "0 < k" "length o' \<le> length out + min k (length path)" for k o'
    proof -
      have "length (dots_loop (drop k path) o') \<le> length (drop k path) + length o'" using that(1) False by (intro less) simp
      then show ?thesis using that by (simp add: min_def split: if_splits)
    qed
    have one: "1 \<le> length path" using False by (cases path) simp_all
    have "length (pop_segment out) \<le> length out + min 3 (length path)" using pop_segment_length [of out] by linarith
    then show ?thesis using False one pop_name_length [of out] by (subst dots_loop.simps) (simp add: step Let_def le_diff_conv)
  qed (simp add: dots_loop.simps)
qed

section \<open>The path of a joined URL\<close>

lemma write_read:
  assumes "p + length t \<le> length mem"
  obtains mem' where "mem_write p t mem = Some mem'" "length mem' = length mem"
  using assms by (auto simp: mem_write_def)

text \<open>The path section for a path that is not empty any more, or becomes the root.\<close>

lemma path_section:
  assumes "grants ne" and "int (length out) \<le> INT32_MAX" and "3 * length out + 1 \<le> length mem" and "length mem < SIZE_MODULUS"
    and "nc_host c = Str h" and "nc_scheme_type c \<noteq> NSURL_SCHEME_MAILTO"
  shows "\<exists>mem'. nsurl__create_from_section ne out URL_PATH (m\<lparr>m_path := 0, m_query := length out\<rparr>) mem c =
      Some (NSERROR_OK, c\<lparr>nc_path := Str (if out = [] then [slash] else normalise URL_PATH out)\<rparr>, mem') \<and> length mem' = length mem"
proof -
  let ?m = "m\<lparr>m_path := 0, m_query := length out\<rparr>"
  have "section_range out URL_PATH ?m = Some (0, length out)" using assms(2) by (simp add: section_range_def)
  then have t: "section_text out ?m URL_PATH out" by (auto simp: section_text_def between_def)
  note tc = text_components [OF assms(1)]
  have "makes ne out ?m URL_PATH (length mem) c (c\<lparr>nc_path := Str (if out = [] then [slash] else normalise URL_PATH out)\<rparr>)"
    using t assms(3,4) refl by (rule makesI) (use tc(2) [of "normalise URL_PATH out"] tc(3) [OF assms(5,6)] in \<open>simp add: normalise_empty\<close>)
  then show ?thesis unfolding makes_def by simp
qed

lemma joined_path_rfc:
  assumes "grants ne" and "path = slash # p" and "0 \<notin> set p" and "int (length path) \<le> INT32_MAX" and "5 * length path + 2 \<le> length buff"
    and "length buff < SIZE_MODULUS" and "nc_host c = Str h" and "nc_scheme_type c \<noteq> NSURL_SCHEME_MAILTO"
  shows "\<exists>buff'. joined_path ne path buff m c =
      Some (NSERROR_OK, c\<lparr>nc_path := Str (normalise URL_PATH (rfc_dots path []))\<rparr>, buff') \<and> length buff' = length buff"
proof -
  define out where "out = nsurl__remove_dot_segments path"
  have out: "length out \<le> length path" using dots_loop_length [of path "[]"] by (simp add: out_def nsurl__remove_dot_segments_def)
  have rfc: "rfc_dots path [] = (if out = [] then [slash] else out)"
    using dots_loop_rfc [of path "[]"] assms(2,3) by (simp add: out_def nsurl__remove_dot_segments_def rooted_def)
  have root: "normalise URL_PATH [slash] = [slash]" by (simp add: norm_byte_def nsurl__is_no_escape_def)
  have path: "(if out = [] then [slash] else normalise URL_PATH out) = normalise URL_PATH (rfc_dots path [])" using rfc root by simp
  obtain b1 where b1: "mem_write 0 (path @ [0]) buff = Some b1" "length b1 = length buff" using assms(5) by (auto intro: write_read [of 0 "path @ [0]" buff])
  obtain b2 where b2: "mem_write (length path + 1) out b1 = Some b2" "length b2 = length buff"
    using assms(5) out b1(2) write_read [of "length path + 1" out b1] by auto
  have read: "mem_read (length path + 1) (length path) b1 \<noteq> None" using assms(5) b1(2) by (simp add: mem_read_def)
  let ?k = "length path + 1 + length out"
  have small: "int (length out) \<le> INT32_MAX" using out assms(4) by linarith
  have "3 * length out + 1 \<le> length (drop ?k b2)" "length (drop ?k b2) < SIZE_MODULUS" using out assms(5,6) b2(2) by simp_all
  from path_section [OF assms(1) small this assms(7,8), of m] obtain mem' where
    s: "nsurl__create_from_section ne out URL_PATH (m\<lparr>m_path := 0, m_query := length out\<rparr>) (drop ?k b2) c =
      Some (NSERROR_OK, c\<lparr>nc_path := Str (normalise URL_PATH (rfc_dots path []))\<rparr>, mem')" "length mem' = length (drop ?k b2)" unfolding path by blast
  have "joined_path ne path buff m c = Some (NSERROR_OK, c\<lparr>nc_path := Str (normalise URL_PATH (rfc_dots path []))\<rparr>, take ?k b2 @ mem')"
    unfolding joined_path_def Let_def out_def [symmetric] b1(1) Option.bind_lunit using read b2(1) s(1) by auto
  moreover have "length (take ?k b2 @ mem') = length buff" using s(2) b2(2) out assms(5) by simp
  ultimately show ?thesis by blast
qed

section \<open>Merging\<close>

lemma path_end_le: "path_end path n \<le> n"
  by (induction n) auto

text \<open>The directory of a path is what is left when its last name is taken away.\<close>

lemma slash_append: "x \<noteq> slash \<Longrightarrow> k \<le> length xs \<Longrightarrow> (ch (xs @ [x]) k = slash) = (ch xs k = slash)"
  by (auto simp: ch_def nth_append)

lemma path_end_append: "x \<noteq> slash \<Longrightarrow> n \<le> length xs \<Longrightarrow> path_end (xs @ [x]) n = path_end xs n"
  by (induction n) (simp_all add: slash_append)

definition dir_end :: "bytes \<Rightarrow> nat" where
  "dir_end path = (let n = path_end path (length path) in if ch path n = slash then n + 1 else n)"

lemma dir_end_pop: "dir_end path \<le> length path \<and> take (dir_end path) path = pop_name path"
proof (induction path rule: rev_induct)
  case Nil
  then show ?case by (simp add: dir_end_def pop_name_def)
next
  case (snoc x xs)
  have n: "ch (xs @ [x]) (Suc (length xs)) \<noteq> slash" by (simp add: ch_def)
  show ?case
  proof (cases "x = slash")
    case True
    have "path_end (xs @ [x]) (length xs) = length xs" using True by (cases "length xs") (simp_all add: ch_def nth_append)
    then show ?thesis using True n by (simp add: dir_end_def pop_name_def ch_def Let_def)
  next
    case False
    have "dir_end (xs @ [x]) = dir_end xs"
      using False n path_end_append [OF False, of "length xs" xs] slash_append [OF False path_end_le] by (simp add: dir_end_def Let_def)
    then show ?thesis using snoc False by (simp add: pop_name_def)
  qed
qed

lemma merge_dir: "merge_text (Str path) rel = Some (pop_name path @ rel)"
  using dir_end_pop [of path] by (simp add: merge_text_def Let_def mem_read_def dir_end_def)

section \<open>Joining with a relative path\<close>

lemma tail_section_length:
  assumes "section_text s m sec t" and "sec = URL_QUERY \<or> sec = URL_FRAGMENT" and "markers_ok s m" and "length s < SIZE_MODULUS"
  shows "length t \<le> nsurl__get_longest_section m"
proof -
  obtain a b where r: "section_range s sec m = Some (a, b)" "b \<le> length s" "between s a b = t" using assms(1) by (auto simp: section_text_def)
  have "length t = b - a" using r(2,3) by (metis length_between)
  also have "\<dots> \<le> (if sec = URL_QUERY then m_fragment m - m_query m else m_end m - m_fragment m)"
    using r(1) assms(2) by (auto simp: section_range_def Let_def split: if_splits)
  also have "\<dots> \<le> nsurl__get_longest_section m" using longest_section(2) [OF assms(3,4)] by simp
  finally show ?thesis .
qed

text \<open>A reference that is a path, with a query and a fragment that may be empty.\<close>

definition relative_reference :: "bytes \<Rightarrow> bytes \<Rightarrow> bytes \<Rightarrow> bytes \<Rightarrow> bool" where
  "relative_reference rel path query fragment \<longleftrightarrow>
     (let m = nsurl__get_string_markers rel True in
      m_scheme_end m = m_start m \<and> m_path m = m_authority m \<and> path \<noteq> [] \<and> path = between rel (m_path m) (m_query m) \<and>
      section_text rel m URL_QUERY query \<and> section_text rel m URL_FRAGMENT fragment)"

text \<open>The merge of RFC 3986, section 5.2.3, and the components of the target.\<close>

definition rfc_merge :: "bytes \<Rightarrow> bytes \<Rightarrow> bytes" where
  "rfc_merge bpath path = (if hd path = slash then path else pop_name bpath @ path)"

definition target_components :: "nsurl_components \<Rightarrow> bytes \<Rightarrow> bytes \<Rightarrow> bytes \<Rightarrow> bytes \<Rightarrow> nsurl_components" where
  "target_components c bpath path query fragment =
     c\<lparr>nc_path := Str (normalise URL_PATH (rfc_dots (rfc_merge bpath path) [])),
       nc_query := some_text (normalise URL_QUERY query), nc_fragment := some_text (normalise URL_FRAGMENT fragment)\<rparr>"

lemma pop_name_rooted: "\<exists>q. pop_name (slash # p) = slash # q \<and> set q \<subseteq> set p"
proof -
  have "dir_end (slash # p) \<noteq> 0"
    by (cases "path_end (slash # p) (length (slash # p)) = 0") (simp_all only: dir_end_def Let_def ch_Cons, simp_all)
  then obtain k where "dir_end (slash # p) = Suc k" by (cases "dir_end (slash # p)") auto
  then have "pop_name (slash # p) = slash # take k p" using dir_end_pop [of "slash # p"] by simp
  then show ?thesis by (auto dest: in_set_takeD)
qed

lemma rfc_merge_path:
  assumes "path \<noteq> []" and "0 \<notin> set path" and "0 \<notin> set bp"
  shows "\<exists>q. rfc_merge (slash # bp) path = slash # q \<and> 0 \<notin> set q" "length (rfc_merge (slash # bp) path) \<le> (if hd path = slash then 0 else length bp + 1) + length path"
proof -
  obtain q where "pop_name (slash # bp) = slash # q" "set q \<subseteq> set bp" using pop_name_rooted by blast
  then show "\<exists>q. rfc_merge (slash # bp) path = slash # q \<and> 0 \<notin> set q" using assms by (cases path) (auto simp: rfc_merge_def)
  show "length (rfc_merge (slash # bp) path) \<le> (if hd path = slash then 0 else length bp + 1) + length path"
    using pop_name_length [of "slash # bp"] by (simp add: rfc_merge_def)
qed

lemma join_relative:
  assumes "grants ne" and "components_set (2 ^ 33) (url_components url)" and "nc_path (url_components url) = Str (slash # bp)" and "0 \<notin> set bp"
    and "nc_host (url_components url) = Str h" and "nc_scheme_type (url_components url) \<noteq> NSURL_SCHEME_MAILTO"
    and "relative_reference rel path query fragment" and "0 \<notin> set rel" and "int (length bp + 1 + length rel) \<le> INT32_MAX"
  shows "nsurl_join ne url rel = finish_url (ne_heap ne) (target_components (url_components url) (slash # bp) path query fragment)"
proof -
  let ?c = "url_components url"
  define m where "m = nsurl__get_string_markers rel True"
  have ok: "markers_ok rel m" unfolding m_def by (rule markers_ordered)
  have long: "nsurl__get_longest_section m \<le> length rel" "m_query m - m_path m \<le> nsurl__get_longest_section m"
    using longest_section [OF ok] assms(9) by simp_all
  have rel: "m_scheme_end m = m_start m" "m_path m = m_authority m" "path \<noteq> []" "path = between rel (m_path m) (m_query m)"
    "section_text rel m URL_QUERY query" "section_text rel m URL_FRAGMENT fragment"
    using assms(7) unfolding relative_reference_def Let_def m_def [symmetric] by blast+
  have q_in: "m_query m \<le> length rel" using ok by (simp add: markers_ok_def)
  then have plen: "length path = m_query m - m_path m" and path_rel: "mem_read (m_path m) (m_query m - m_path m) rel = Some path"
    using rel(3,4) by (auto simp: between_def mem_read_def)
  have z: "0 \<notin> set path" using assms(8) rel(4) by (auto simp: between_def dest: in_set_takeD in_set_dropD)
  have hd: "ch rel (m_path m) = hd path" using rel(3,4) q_in by (auto simp: between_def ch_def hd_drop_conv_nth)
  define merged where "merged = (hd path \<noteq> slash)"
  have sub: "size_sub (m_query m) (m_path m) = length path"
    using plen q_in rel(3) assms(9) by (subst size_sub_id) (auto simp flip: length_greater_0_conv)
  have lp: "length path \<le> length rel" using plen q_in by linarith
  have parts: "joined_parts_of rel m = \<lparr>base_scheme = True, base_authority = True, base_path = False, merged_path = merged, base_query = False\<rparr>"
  proof -
    have "length path \<noteq> 0" using rel(3) by simp
    moreover note sub
    moreover have "size_sub (m_scheme_end m) (m_start m) = 0" "size_sub (m_path m) (m_authority m) = 0"
      using rel(1,2) ok assms(9) by (simp_all add: markers_ok_def)
    ultimately show ?thesis unfolding joined_parts_of_def Let_def merged_def hd by simp
  qed
  define n where "n = join_size ?c m (joined_parts_of rel m)"
  have n: "n = (nsurl__get_longest_section m + (if merged then length bp + 1 else 0)) * 4 + length path + (length bp + 1) + 5"
    unfolding n_def join_size_def parts sub using lp long(1) assms(3,9) by (simp add: component_length_def)
  have size: "n < SIZE_MODULUS" "malloc_ok (ne_heap ne) n" using assms(1,9) n long(1) lp by (simp_all add: grants_def)
  define mp where "mp = rfc_merge (slash # bp) path"
  obtain p where p: "mp = slash # p" "0 \<notin> set p" using rfc_merge_path(1) [OF rel(3) z assms(4)] by (auto simp: mp_def)
  have mp_len: "length mp \<le> (if merged then length bp + 1 else 0) + length path"
    using rfc_merge_path(2) [OF rel(3) z assms(4)] by (auto simp: mp_def merged_def split: if_splits)
  have merge: "(if merged then merge_text (nc_path ?c) path else Some path) = Some mp"
    using assms(3) by (simp add: merged_def merge_dir mp_def rfc_merge_def)
  define c1 where "c1 = (no_components (nc_scheme_type ?c))\<lparr>nc_scheme := nc_scheme ?c, nc_username := nc_username ?c, nc_password := nc_password ?c,
    nc_host := nc_host ?c, nc_port := nc_port ?c\<rparr>"
  define c2 where "c2 = c1\<lparr>nc_path := Str (normalise URL_PATH (rfc_dots mp []))\<rparr>"
  define c3 where "c3 = c2\<lparr>nc_query := some_text (normalise URL_QUERY query)\<rparr>"
  define c4 where "c4 = c3\<lparr>nc_fragment := some_text (normalise URL_FRAGMENT fragment)\<rparr>"
  let ?buff = "replicate n (heap_junk (ne_heap ne))"
  have host: "nc_host c1 = Str h" "nc_scheme_type c1 \<noteq> NSURL_SCHEME_MAILTO" using assms(5,6) by (simp_all add: c1_def)
  have fits: "int (length mp) \<le> INT32_MAX" "5 * length mp + 2 \<le> length ?buff" "length ?buff < SIZE_MODULUS"
    using mp_len n lp long(2) plen assms(9) size(1) by (auto split: if_splits)
  obtain b2 where path: "joined_path ne mp ?buff m c1 = Some (NSERROR_OK, c2, b2)" "length b2 = n"
    using joined_path_rfc [OF assms(1) p fits host, of m] by (auto simp: c2_def)
  have room: "3 * length query + 1 \<le> n" "3 * length fragment + 1 \<le> n"
    using tail_section_length [OF rel(5) _ ok] tail_section_length [OF rel(6) _ ok] assms(9) n by auto
  have mq: "makes ne rel m URL_QUERY n c2 c3" using rel(5) room(1) size(1) refl by (rule makesI) (simp add: c3_def text_components(4) [OF assms(1)])
  have mf: "makes ne rel m URL_FRAGMENT n c3 c4" using rel(6) room(2) size(1) refl by (rule makesI) (simp add: c4_def text_components(5) [OF assms(1)])
  obtain b3 where b3: "nsurl__create_from_section ne rel URL_QUERY m b2 c2 = Some (NSERROR_OK, c3, b3)" "length b3 = n"
    using mq path(2) unfolding makes_def by blast
  obtain b4 where b4: "nsurl__create_from_section ne rel URL_FRAGMENT m b3 c3 = Some (NSERROR_OK, c4, b4)"
    using mf b3(2) unfolding makes_def by blast
  have c4: "c4 = target_components ?c (slash # bp) path query fragment"
    by (simp add: c4_def c3_def c2_def c1_def target_components_def mp_def)
  show ?thesis
    unfolding nsurl_join_def Let_def m_def [symmetric] n_def [symmetric] unfolding parts
    using size(2) path_rel merge path(1) [unfolded c1_def, simplified] b3(1) b4
    by (simp add: join_scheme_def join_authority_def join_path_def join_query_def c4)
qed

lemma rfc_dots_length:
  assumes "0 \<notin> set p"
  shows "length (rfc_dots (slash # p) []) \<le> length p + 1"
  using dots_loop_rfc [of "slash # p" "[]"] dots_loop_length [of "slash # p" "[]"] assms by (auto simp: rooted_def)

lemma some_text_fine: "length t \<le> n \<Longrightarrow> fine n (some_text t)"
  by (simp add: some_text_def)

lemma target_set:
  assumes "components_set (2 ^ 33) c" and "0 \<notin> set bp" and "relative_reference rel path query fragment" and "0 \<notin> set rel"
    and "int (length bp + 1 + length rel) \<le> INT32_MAX"
  shows "components_set (2 ^ 33) (target_components c (slash # bp) path query fragment)"
proof -
  let ?m = "nsurl__get_string_markers rel True"
  note ok = markers_ordered [of rel True]
  have rel: "path \<noteq> []" "path = between rel (m_path ?m) (m_query ?m)" "section_text rel ?m URL_QUERY query" "section_text rel ?m URL_FRAGMENT fragment"
    using assms(3) unfolding relative_reference_def Let_def by blast+
  have long: "nsurl__get_longest_section ?m \<le> length rel" using longest_section(1) [OF ok] assms(5) by simp
  then have tails: "length query \<le> length rel" "length fragment \<le> length rel"
    using tail_section_length [OF rel(3) _ ok] tail_section_length [OF rel(4) _ ok] assms(5) by auto
  have z: "0 \<notin> set path" "length path \<le> length rel"
    using assms(4) rel(2) by (auto simp: between_def dest: in_set_takeD in_set_dropD)
  obtain q where q: "rfc_merge (slash # bp) path = slash # q" "0 \<notin> set q" using rfc_merge_path(1) [OF rel(1) z(1) assms(2)] by auto
  have "length (slash # q) \<le> length bp + 1 + length rel" using rfc_merge_path(2) [OF rel(1) z(1) assms(2)] z(2) q(1) by (simp split: if_splits)
  then have "3 * length (rfc_dots (rfc_merge (slash # bp) path) []) \<le> 3 * (length bp + 1 + length rel)"
    using rfc_dots_length [OF q(2)] q(1) by simp
  moreover have lim: "3 * (length bp + 1 + length rel) \<le> 2 ^ 33" using assms(5) by simp
  ultimately have "length (normalise URL_PATH (rfc_dots (rfc_merge (slash # bp) path) [])) \<le> 2 ^ 33"
    using length_normalise by (meson le_trans)
  moreover have "3 * length query \<le> 2 ^ 33" "3 * length fragment \<le> 2 ^ 33" using tails lim by simp_all
  then have "length (normalise URL_QUERY query) \<le> 2 ^ 33" "length (normalise URL_FRAGMENT fragment) \<le> 2 ^ 33"
    using length_normalise by (meson le_trans)+
  ultimately show ?thesis using assms(1) some_text_fine unfolding components_set_def target_components_def by simp
qed

section \<open>Properties\<close>



end
