(* ===== verification/Spec2Isabelle.thy ===== *)
theory Spec2Isabelle
  imports Utf8_Codec Interning Input_Stream Lzw Dom_Nodelist Base64 Idna Css_Fixed Nsurl_Join
begin

text \<open>
  \<^bold>\<open>Besra\<close> is a web browser written in C: the NetSurf core and the libraries below it. A page travels through
  it like this. The fetchers hand bytes to an input stream (libparserutils), which finds out the character set and
  converts to UTF-8; the HTML tokeniser and tree builder (libhubbub) and the CSS lexer (libcss) read characters from it; names
  are interned (libwapcaplet), so that comparing them is comparing pointers; the tree builder creates the
  document (libdom), on which scripts, the style engine and the layout work; pictures are decoded by
  libnsgif and libnsbmp; the netsurf directory holds URLs and host names, fetching, caching, layout and the user interface. This development models the layers that
  everything else stands on, from the bytes up to the document tree and from the address typed in to the URL that is fetched, function by function.

  \<^bold>\<open>How the code is modelled.\<close> Every C function is one HOL function of the same name, at the top level of its theory. Structures
  are records, enumerations datatypes, machine integers words or naturals with the wrap-around
  written out, memory that is shared through pointers an explicit map from addresses to records. \<open>None\<close> is undefined
  behaviour: a NULL or dangling pointer, an access out of bounds, a failed assertion, or a loop that does not end; error codes are values. So a theorem
  that says an operation returns \<open>Some\<close> says that it is memory safe and terminates. Loops over pointers are
  \<open>partial_function (option)\<close>; a few loops carry fuel, and the theorems show that the fuel
  the definitions pass is enough. The allocator, iconv, utf8proc and event listeners are parameters.

  \<^bold>\<open>The theories.\<close>

  \<^item> \<^verbatim>\<open>Prelude\<close>: words, byte strings, memcpy and memmove, the allocator, lemmas on lists and words.

  \<^item> \<^verbatim>\<open>Stack_Vector\<close> (libparserutils/src/utils/stack.c, vector.c): the growable containers. The locale \<open>item_store\<close> states the
  contract of a growing sequence, and both containers are interpretations of it; pushing any sequence of items
  gives exactly that sequence, whatever the growth steps do.

  \<^item> \<^verbatim>\<open>Buffer\<close> (libparserutils/src/utils/buffer.c): byte buffers with an offset into their allocation, the
  rebasing and growing of ensure_space included. They refine byte strings: insertion and removal in the
  middle act as on lists and nothing is read or written outside the allocation (locale \<open>byte_buffer\<close>).

  \<^item> \<^verbatim>\<open>Utf8\<close> (libparserutils/src/charset/encodings/utf8impl.h, utf8.c): the UTF-8 macros. Decoding inverts encoding, only the
  shortest form is accepted, next and previous agree with the lengths (locale \<open>char_encoding\<close>).

  \<^item> \<^verbatim>\<open>Utf8_Codec\<close> (libparserutils/src/charset/codecs/codec_utf8.c): the incremental codec. Cutting well-formed text into
  chunks at any byte does not change what is decoded; output that did not fit is delivered by the next call; the loops end.

  \<^item> \<^verbatim>\<open>Input_Stream\<close> (libparserutils/src/input/filter.c, inputstream.c): the stream and its filter, for the iconv
  build. Peeking returns the character at the cursor of the decoded text whatever the refills do; inserted text is
  read back first (locale \<open>text_source\<close>). What is assumed of iconv is \<open>iconv_laws\<close>: it does not read past
  its input nor write past its output.

  \<^item> \<^verbatim>\<open>Interning\<close> (libwapcaplet/src/libwapcaplet.c): hash buckets as doubly linked chains in a heap, reference
  counts, caseless copies. Equal pointers are equal strings, unreferencing is safe and frees exactly what nothing
  refers to (locale \<open>interner\<close>). Strings with an embedded NUL are excluded; what happens to them is a finding.

  \<^item> \<^verbatim>\<open>Lzw\<close> (libnsgif/src/lzw.c): the decompressor of GIF pictures on any input: it never leaves its tables or the output
  buffer and always ends, and on a complete stream it writes what the textbook algorithm writes (locale \<open>lzw_writer\<close>, for
  the indexed and the colour mapped output).

  \<^item> \<^verbatim>\<open>Linked_Rings\<close>: doubly linked rings in a heap, with libdom/src/utils/list.h.

  \<^item> \<^verbatim>\<open>Dom_Node\<close> (libdom/src/core/node.c): nodes with parent, child and sibling pointers, the pending lists of documents, the
  checks, and insert_before, append_child, replace_child, remove_child with every pointer write and every mutation event in
  the order of the code.

  \<^item> \<^verbatim>\<open>Dom_Tree\<close> and \<^verbatim>\<open>Dom_Ops\<close>: the abstract state is a list of children for every node and a list of waiting nodes for every
  document; \<open>dom_inv\<close> says that the heap represents it: links consistent both ways, no cycle, types of
  children permitted, every node without parent waiting. Writing links is shown to be splicing and cutting of
  these lists, the walks up and down the tree to end, the events to come in document order.

  \<^item> \<^verbatim>\<open>Dom_Props\<close>: the operations refine their description on lists. The exception is a function of the abstract state
  (\<open>insert_verdict\<close>, \<open>remove_verdict\<close>, \<open>replace_verdict\<close>); a refused operation changes nothing; a successful one
  changes the lists as the DOM says and keeps \<open>dom_inv\<close>. An example document, built by the operations
  themselves, is the witness. It ends with what the code gets wrong.

  \<^item> \<^verbatim>\<open>Dom_String\<close> (libdom/src/core/string.c): the texts of the document: comparing, searching, cutting, inserting, replacing, case and
  white space. On well-formed UTF-8 the operations on byte offsets are the operations on lists of characters; collapsing white
  space keeps the words.

  \<^item> \<^verbatim>\<open>Dom_Nodelist\<close> (libdom/src/core/nodelist.c, the cache of lists in document.c): live
  lists. The locale \<open>node_walk\<close> is the contract between a list and the tree: following the links visits the members in order and
  ends; it is interpreted for the walk over children and for the walk over a subtree. Length and items are the count and
  the selection of the nodes in document order; a list found in the cache selects what a new one would.

  \<^item> \<^verbatim>\<open>Base64\<close> (libnsutils/src/base64.c): coding with both alphabets (locale \<open>base64_alphabet\<close>, interpreted for each). Decoding inverts
  encoding, and decoding any input of at least two bytes stays inside its buffers.

  \<^item> \<^verbatim>\<open>Url_Escape\<close> (netsurf/utils/url.c): percent escapes of strings; unescaping inverts escaping.

  \<^item> \<^verbatim>\<open>Punycode\<close> and \<^verbatim>\<open>Idna\<close> (netsurf/utils/punycode.c, idna.c): international host names. The generalised integers and the
  adaption of the bias are those of the code, with its overflow checks; decoding inverts encoding. Above it the labels of a host
  are checked, converted and put together in the fixed buffer of the code. utf8proc and the generated tables are the fields of the
  record \<open>unicode\<close>; what is assumed of them is \<open>unicode_laws\<close> and, for ASCII, \<open>ascii_derived\<close>. A host survives the way to its ACE form and back, and
  decoding any host is safe.

  \<^item> \<^verbatim>\<open>Css_Fixed\<close> (libcss/include/libcss/fpmath.h, libcss/src/utils/utils.c): fixed-point numbers at their width, with wrapping and clamping, and the
  scanner of numbers, which gives the exact value rounded and clamped.

  \<^item> \<^verbatim>\<open>Nsurl_Parse\<close>, \<^verbatim>\<open>Nsurl_Section\<close>, \<^verbatim>\<open>Nsurl\<close> (netsurf/utils/nsurl/parse.c): URLs. The first finds the sections of a string (the markers are
  in order and inside the string, whatever it is) and removes dot segments; the second normalises a section into a buffer, which is memory of its
  size, and makes components of it; the third puts the string of a URL together, creates URLs and joins them. An interned string is its text, as
  \<^verbatim>\<open>Interning\<close> justifies; whether interning finds memory is a field of the record \<open>nsurl_env\<close>. A component is \<open>Null\<close>, \<open>Str\<close> with a text, or
  \<open>Unset\<close>: components are a structure on the stack that is not initialised, and using an \<open>Unset\<close> one is undefined. Sets stand for the
  enumerations that are used as bit masks; positions that the code holds in an int are checked to fit. Normalising
  is shown to be a function of the text alone (\<open>normalise\<close>), and the string to be the text \<open>url_text\<close> of the components, with the length that was
  allocated for it.

  \<^item> \<^verbatim>\<open>Nsurl_Ops\<close> (netsurf/utils/nsurl/nsurl.c): comparing, reading, editing and presenting URLs. The editing operations cut and paste the
  string; they are shown to give the string of the edited components. The locale \<open>url_edit\<close> is the contract of replacing one part, interpreted
  for the fragment, the query and the scheme: edits keep URLs well-formed, and the last one wins.

  \<^item> \<^verbatim>\<open>Nsurl_Http\<close> and \<^verbatim>\<open>Nsurl_Join\<close>: what creating gives for every web address (http or https, a plain host, any path, query and fragment), that
  every URL that is created is well-formed, and that joining a relative reference gives the target of RFC 3986, dot segments removed, inside the one
  buffer that all its steps share. They also show the credentials with which creating leaves its buffer.

  \<^bold>\<open>Assumptions.\<close> The theorems on the node tree assume that dispatching succeeds (\<open>out\<close> returns DOM_NO_ERR), which fails only when
  memory runs out. Listeners cannot change the tree: while they run the document is locked, and the theorem
  \<open>dom_mutation_locked\<close> shows that a locked document refuses every operation. A fragment that is inserted must
  not have been inserted before, and a fragment that replaces a node must have a child: the findings show that
  the code breaks otherwise. Reference nodes are not attribute nodes, whose parent pointer names their element. The theorems on URLs that say what
  is created assume that there is memory (\<open>grants\<close>) and that the string is shorter than an int can say.

  \<^bold>\<open>Not modelled.\<close> Of libdom: destroying and cloning nodes, text nodes, attributes, the event flow and the HTML
  elements; of libparserutils the other codecs and the alias table; the container format of GIF; of libcss all but its numbers; of the
  netsurf directory all but URLs, host names and escapes. libhubbub and libnsbmp are not modelled. Layout, plotting and the Qt frontend drive
  external toolkits; QuickJS, Duktape and utf8proc are third-party code that the sources only call.

  \<^bold>\<open>Where it can grow.\<close> Cloning and normalising of subtrees, the CSS lexer and the HTML tokeniser on the input stream, the cookies and the
  URL database on top of the URLs.
\<close>

end
